(* ===== verification/Prelude.thy ===== *)
theory Prelude
  imports Complex_Main "HOL-Library.Word" "HOL-Library.Multiset" "HOL-Library.Monad_Syntax"
begin

text \<open>
  Shared vocabulary of the development: the byte type of the C and C++ sources, array
  access with the bounds written out, and the generic facts on XOR and on lists that
  several components use.
\<close>

unbundle bit_operations_syntax

section \<open>Machine types\<close>

type_synonym byte = "8 word"
type_synonym u16 = "16 word"
type_synonym u32 = "32 word"
type_synonym u64 = "64 word"

named_theorems xor_laws "reordering and cancelling exclusive or"

section \<open>Exclusive or on natural numbers\<close>

lemma nat_xor_assoc [xor_laws]: "(a XOR b) XOR c = a XOR (b XOR c)" for a b c :: nat
  by (rule xor.assoc)

lemma nat_xor_commute [xor_laws]: "a XOR b = b XOR a" for a b :: nat
  by (rule xor.commute)

lemma nat_xor_left_commute [xor_laws]: "a XOR (b XOR c) = b XOR (a XOR c)" for a b c :: nat
  by (rule xor.left_commute)

lemma nat_xor_self [simp]: "a XOR a = 0" for a :: nat
  by (rule bit_eqI) (simp add: bit_xor_iff)

lemma nat_xor_cancel_left [simp]: "a XOR (a XOR b) = b" for a b :: nat
  by (simp flip: xor.assoc)

lemma nat_xor_eq_0_iff [simp]: "a XOR b = 0 \<longleftrightarrow> a = b" for a b :: nat
proof
  assume "a XOR b = 0"
  then have "a XOR (a XOR b) = a" by simp
  then show "a = b" by simp
qed simp

lemma nat_xor_less:
  fixes a b :: nat
  assumes "a < 2 ^ n" and "b < 2 ^ n"
  shows "a XOR b < 2 ^ n"
proof -
  have "take_bit n (a XOR b) = a XOR b"
    using assms by (simp add: take_bit_xor take_bit_nat_eq_self)
  then show ?thesis
    by (metis take_bit_nat_less_exp)
qed

lemma nat_xor_byte: "a < 256 \<Longrightarrow> b < 256 \<Longrightarrow> a XOR b < 256" for a b :: nat
  using nat_xor_less [of a 8 b] by simp

section \<open>Bytes\<close>

lemma unat_byte_less [simp]: "unat (w :: byte) < 256"
  using unsigned_less [of w] by simp

lemma unat_of_nat_byte: "n < 256 \<Longrightarrow> unat (of_nat n :: byte) = n"
  by (simp add: unsigned_of_nat take_bit_nat_eq_self)

section \<open>Array loops\<close>

text \<open>
  A C loop that assigns array elements one by one is a \<^const>\<open>fold\<close> of list updates. Two
  shapes recur: an element computed from its own old value, and a descending loop that
  reads a lower element, which it has not yet overwritten.
\<close>

lemma length_fold_write [simp]: "length (fold (\<lambda>i d. d[h i := k i d]) is d) = length d"
  by (induction "is" arbitrary: d) simp_all

lemma length_fold_upd: "length (fold (\<lambda>i d. d[i := g i d]) is d) = length d"
  by (induction "is" arbitrary: d) simp_all

lemma nth_fold_upd:
  "distinct is \<Longrightarrow> k < length d \<Longrightarrow>
    fold (\<lambda>i d. d[i := g i (d ! i)]) is d ! k = (if k \<in> set is then g k (d ! k) else d ! k)"
proof (induction "is" arbitrary: d)
  case (Cons a "is")
  then show ?case by (cases "a = k") auto
qed simp

lemma nth_fold_shift:
  assumes "s \<le> m" "k < length d"
  shows "fold (\<lambda>j d. d[j := g j (d ! (j - s))]) (rev [m..<n]) d ! k
    = (if m \<le> k \<and> k < n then g k (d ! (k - s)) else d ! k)"
  using assms(2)
proof (induction n arbitrary: d)
  case (Suc n)
  show ?case
  proof (cases "m \<le> n")
    case True
    let ?d = "d[n := g n (d ! (n - s))]"
    have "fold (\<lambda>j d. d[j := g j (d ! (j - s))]) (rev [m..<n]) ?d ! k
        = (if m \<le> k \<and> k < n then g k (?d ! (k - s)) else ?d ! k)"
      using Suc by simp
    moreover have "?d ! (k - s) = d ! (k - s)" if "k < n"
      using that by simp
    ultimately show ?thesis
      using True Suc.prems by (auto simp: nth_list_update less_Suc_eq)
  qed auto
qed simp

lemma nth_fold_miss: "p \<notin> h ` set is \<Longrightarrow> fold (\<lambda>i v. v[h i := f i]) is v ! p = v ! p"
  by (induction "is" arbitrary: v) auto

lemma nth_fold_hit:
  "inj_on h (set is) \<Longrightarrow> i \<in> set is \<Longrightarrow> h i < length v \<Longrightarrow>
    fold (\<lambda>i v. v[h i := f i]) is v ! h i = f i"
proof (induction "is" arbitrary: v)
  case (Cons a "is")
  show ?case
  proof (cases "i \<in> set is")
    case True
    then show ?thesis using Cons by simp
  next
    case False
    then have "i = a" "h i \<notin> h ` set is" using Cons.prems by (auto simp: inj_on_def)
    then show ?thesis using Cons.prems by (simp add: nth_fold_miss)
  qed
qed simp

lemma fold_nth: "n \<le> length xs \<Longrightarrow> fold (\<lambda>i s. f (xs ! i) s) [0..<n] s = fold f (take n xs) s"
  by (induction n arbitrary: s) (simp_all add: take_Suc_conv_app_nth)

section \<open>Vectors and big-endian numbers\<close>

text \<open>Reading a vector or a raw array: \<open>None\<close> outside it, where C++ has no defined result.\<close>

definition vec_at :: "'a list \<Rightarrow> nat \<Rightarrow> 'a option" where
  "vec_at xs i = (if i < length xs then Some (xs ! i) else None)"

definition vec_slice :: "'a list \<Rightarrow> nat \<Rightarrow> nat \<Rightarrow> 'a list option" where
  "vec_slice xs i n = (if i + n \<le> length xs then Some (take n (drop i xs)) else None)"

lemma vec_at_Some [simp]: "vec_at xs i = Some x \<longleftrightarrow> i < length xs \<and> x = xs ! i"
  by (auto simp: vec_at_def)

lemma vec_at_in: "i < length xs \<Longrightarrow> vec_at xs i = Some (xs ! i)"
  by simp

definition be16 :: "byte \<Rightarrow> byte \<Rightarrow> u16" where
  "be16 hi lo = push_bit 8 (ucast hi) OR ucast lo"

end
