(* ===== verification/Byte_Field.thy ===== *)
theory Byte_Field
  imports Prelude
begin

text \<open>
  The interface the coding routines rely on: a multiplication on the numbers below 256
  that makes them a field whose addition is exclusive or. Inside the locale are the
  facts its clients need: powers, evaluation of coefficient lists, and the step of a
  division register, all at one point of the field. \<^verbatim>\<open>Galois\<close> interprets the locale on
  the table-driven \<^verbatim>\<open>gmult\<close> and \<^verbatim>\<open>ginv\<close> of the code.
\<close>

locale byte_field =
  fixes mul :: "nat \<Rightarrow> nat \<Rightarrow> nat" and inv :: "nat \<Rightarrow> nat"
  assumes mul_less: "a < 256 \<Longrightarrow> b < 256 \<Longrightarrow> mul a b < 256"
    and mul_commute: "mul a b = mul b a"
    and mul_assoc: "a < 256 \<Longrightarrow> b < 256 \<Longrightarrow> c < 256 \<Longrightarrow> mul (mul a b) c = mul a (mul b c)"
    and mul_xor_right: "a < 256 \<Longrightarrow> b < 256 \<Longrightarrow> c < 256 \<Longrightarrow> mul a (b XOR c) = mul a b XOR mul a c"
    and mul_0_left: "mul 0 b = 0"
    and mul_1_left: "b < 256 \<Longrightarrow> mul 1 b = b"
    and mul_inv: "0 < a \<Longrightarrow> a < 256 \<Longrightarrow> mul a (inv a) = 1"
    and inv_less: "0 < a \<Longrightarrow> a < 256 \<Longrightarrow> inv a < 256"
begin

lemma mul_0_right: "mul a 0 = 0"
  by (simp add: mul_commute [of a] mul_0_left)

lemma mul_1_right: "b < 256 \<Longrightarrow> mul b 1 = b"
  by (simp add: mul_commute [of b] mul_1_left [simplified])

lemma mul_xor_left: "a < 256 \<Longrightarrow> b < 256 \<Longrightarrow> c < 256 \<Longrightarrow> mul (b XOR c) a = mul b a XOR mul c a"
  by (simp add: mul_commute [of _ a] mul_xor_right)

lemma mul_left_commute:
  "a < 256 \<Longrightarrow> b < 256 \<Longrightarrow> c < 256 \<Longrightarrow> mul a (mul b c) = mul b (mul a c)"
  by (metis mul_assoc mul_commute)

lemma mul_eq_0:
  assumes "a < 256" "b < 256"
  shows "mul a b = 0 \<longleftrightarrow> a = 0 \<or> b = 0"
proof
  assume ab: "mul a b = 0"
  show "a = 0 \<or> b = 0"
  proof (cases "a = 0")
    case False
    then have "b = mul (mul a (inv a)) b"
      using assms by (simp add: mul_inv mul_1_left [simplified])
    also have "\<dots> = mul (inv a) (mul a b)"
      using assms False by (simp add: mul_commute [of a] mul_assoc inv_less)
    finally show ?thesis by (simp add: ab mul_0_right)
  qed simp
qed (auto simp: mul_0_left mul_0_right)

lemmas mul_laws = mul_less mul_0_left mul_0_right mul_1_left mul_1_right nat_xor_byte

section \<open>Powers\<close>

primrec pw :: "nat \<Rightarrow> nat \<Rightarrow> nat" where
  "pw x 0 = 1"
| "pw x (Suc n) = mul x (pw x n)"

lemma pw_less: "x < 256 \<Longrightarrow> pw x n < 256"
  by (induction n) (simp_all add: mul_less)

lemma pw_add: "x < 256 \<Longrightarrow> pw x (m + n) = mul (pw x m) (pw x n)"
  by (induction m) (simp_all add: mul_1_left [simplified] pw_less mul_assoc)

section \<open>Coefficient lists, lowest first\<close>

definition poly :: "nat list \<Rightarrow> bool" where
  "poly cs \<longleftrightarrow> (\<forall>c\<in>set cs. c < 256)"

primrec ev :: "nat list \<Rightarrow> nat \<Rightarrow> nat" where
  "ev [] x = 0"
| "ev (c # cs) x = c XOR mul x (ev cs x)"

lemma poly_simps [simp]:
  "poly []" "poly (c # cs) \<longleftrightarrow> c < 256 \<and> poly cs" "poly (cs @ ds) \<longleftrightarrow> poly cs \<and> poly ds"
  by (auto simp: poly_def)

lemma poly_replicate [simp]: "poly (replicate n 0)"
  by (simp add: poly_def)

lemma poly_nth: "poly cs \<Longrightarrow> i < length cs \<Longrightarrow> cs ! i < 256"
  by (simp add: poly_def)

lemma poly_nthI: "(\<And>i. i < length cs \<Longrightarrow> cs ! i < 256) \<Longrightarrow> poly cs"
  by (auto simp: poly_def in_set_conv_nth)

lemma ev_less: "poly cs \<Longrightarrow> x < 256 \<Longrightarrow> ev cs x < 256"
  by (induction cs) (simp_all add: nat_xor_byte mul_less)

lemma ev_append:
  "poly cs \<Longrightarrow> poly ds \<Longrightarrow> x < 256 \<Longrightarrow>
    ev (cs @ ds) x = ev cs x XOR mul (pw x (length cs)) (ev ds x)"
  by (induction cs) (simp_all add: mul_1_left [simplified] ev_less mul_xor_right mul_less pw_less
      mul_assoc nat_xor_assoc)

lemma ev_zeros [simp]: "ev (replicate n 0) x = 0"
  by (induction n) (simp_all add: mul_0_right)

lemma ev_shift: "poly cs \<Longrightarrow> x < 256 \<Longrightarrow> ev (replicate n 0 @ cs) x = mul (pw x n) (ev cs x)"
  by (simp add: ev_append)

lemma ev_pad: "poly cs \<Longrightarrow> x < 256 \<Longrightarrow> ev (cs @ replicate n 0) x = ev cs x"
  by (simp add: ev_append mul_0_right)

lemma ev_scale: "poly cs \<Longrightarrow> x < 256 \<Longrightarrow> d < 256 \<Longrightarrow> ev (map (mul d) cs) x = mul d (ev cs x)"
  by (induction cs) (simp_all add: mul_0_right mul_xor_right mul_less ev_less mul_left_commute)

lemma poly_scale: "poly cs \<Longrightarrow> d < 256 \<Longrightarrow> poly (map (mul d) cs)"
  by (auto simp: poly_def mul_less)

lemma ev_add:
  "length cs = length ds \<Longrightarrow> poly cs \<Longrightarrow> poly ds \<Longrightarrow> x < 256 \<Longrightarrow>
    ev (map2 (XOR) cs ds) x = ev cs x XOR ev ds x"
  by (induction cs ds rule: list_induct2) (simp_all add: mul_xor_right ev_less xor_laws)

lemma poly_add: "length cs = length ds \<Longrightarrow> poly cs \<Longrightarrow> poly ds \<Longrightarrow> poly (map2 (XOR) cs ds)"
  by (induction cs ds rule: list_induct2) (simp_all add: nat_xor_byte)

section \<open>Horner evaluation, highest first\<close>

definition horner :: "nat \<Rightarrow> nat list \<Rightarrow> nat \<Rightarrow> nat" where
  "horner x = fold (\<lambda>c s. c XOR mul x s)"

lemma horner_simps [simp]:
  "horner x [] s = s" "horner x (c # cs) s = horner x cs (c XOR mul x s)"
  by (simp_all add: horner_def)

lemma horner_less: "poly cs \<Longrightarrow> s < 256 \<Longrightarrow> x < 256 \<Longrightarrow> horner x cs s < 256"
  by (induction cs arbitrary: s) (simp_all add: nat_xor_byte mul_less)

lemma horner_append: "horner x (cs @ ds) s = horner x ds (horner x cs s)"
  by (simp add: horner_def)

lemma horner_ev:
  "poly cs \<Longrightarrow> s < 256 \<Longrightarrow> x < 256 \<Longrightarrow>
    horner x cs s = ev (rev cs) x XOR mul (pw x (length cs)) s"
proof (induction cs arbitrary: s)
  case (Cons c cs)
  then have "poly (rev cs)" by (simp add: poly_def)
  with Cons show ?case
    by (simp add: nat_xor_byte mul_less ev_append mul_xor_right pw_less mul_0_right
        mul_assoc mul_commute [of x] xor_laws)
qed (simp add: mul_1_left [simplified])

text \<open>The effect of one changed coefficient.\<close>

lemma horner_xor:
  "poly cs \<Longrightarrow> s < 256 \<Longrightarrow> t < 256 \<Longrightarrow> x < 256 \<Longrightarrow>
    horner x cs (s XOR t) = horner x cs s XOR mul (pw x (length cs)) t"
  by (simp add: horner_ev nat_xor_byte mul_xor_right pw_less xor_laws)

lemma horner_flip:
  "poly cs \<Longrightarrow> p < length cs \<Longrightarrow> e < 256 \<Longrightarrow> s < 256 \<Longrightarrow> x < 256 \<Longrightarrow>
    horner x (cs[p := cs ! p XOR e]) s = horner x cs s XOR mul (pw x (length cs - Suc p)) e"
proof (induction cs arbitrary: p s)
  case (Cons c cs)
  show ?case
  proof (cases p)
    case 0
    have "(c XOR e) XOR mul x s = (c XOR mul x s) XOR e" by (simp add: xor_laws)
    then show ?thesis
      using 0 Cons.prems by (simp add: horner_xor nat_xor_byte mul_less)
  next
    case (Suc q)
    then show ?thesis
      using Cons by (simp add: nat_xor_byte mul_less)
  qed
qed simp

section \<open>The division register\<close>

text \<open>
  One step of a register \<open>r\<close> that divides by the monic polynomial whose lower coefficients
  are \<open>g\<close>: at a root of the polynomial it multiplies the register's value by the point and
  adds the fed byte times the leading power.
\<close>

lemma register_step:
  assumes "poly g" "poly r" "length r = Suc n" "length g = Suc n" "c < 256" "x < 256"
    and root: "ev (g @ [1]) x = 0"
  shows "ev (map2 (XOR) (0 # butlast r) (map (mul (c XOR last r)) g)) x
    = mul x (ev r x) XOR mul (pw x (Suc n)) c"
proof -
  let ?d = "c XOR last r"
  have "r \<noteq> []" using assms(3) by auto
  then obtain rs l where rl: "r = rs @ [l]" by (metis append_butlast_last_id)
  have l: "l < 256" "poly rs" "length rs = n" using assms rl by simp_all
  have d: "?d < 256" using assms l by (simp add: rl nat_xor_byte)
  have gx: "ev g x = pw x (Suc n)"
    using root assms by (simp add: ev_append mul_0_right mul_1_right [simplified] pw_less del: pw.simps)
  have P: "pw x n < 256" "pw x (Suc n) < 256" using assms by (simp_all add: pw_less del: pw.simps)
  have "ev (map2 (XOR) (0 # butlast r) (map (mul ?d) g)) x = ev (0 # rs) x XOR mul ?d (pw x (Suc n))"
    using assms l d P
    by (subst ev_add) (simp_all add: rl ev_scale poly_scale gx del: pw.simps)
  also have "\<dots> = mul x (ev rs x) XOR (mul c (pw x (Suc n)) XOR mul l (pw x (Suc n)))"
    using assms l P by (simp add: rl mul_xor_left del: pw.simps)
  also have "mul x (ev r x) = mul x (ev rs x) XOR mul l (pw x (Suc n))"
    using assms l P
    by (simp add: rl ev_append mul_0_right mul_xor_right ev_less mul_less mul_commute [of l] mul_assoc)
  ultimately show ?thesis by (simp add: xor_laws mul_commute [of c])
qed

end

end
