(* ===== verification/Galois.thy ===== *)
theory Galois
  imports Byte_Field
begin

text \<open>
  Arithmetic in GF(256), from \<^verbatim>\<open>BMS/proj1/lib/galois.c\<close>: the tables of powers and
  logarithms as \<^verbatim>\<open>init_exp_table\<close> fills them, \<^verbatim>\<open>gmult\<close> and \<^verbatim>\<open>ginv\<close>. The C values
  are non-negative \<^verbatim>\<open>int\<close>s, here \<open>nat\<close>; the arrays are lists of their declared length,
  zero at the start as C statics are. The lemmas show that the tables describe the
  powers of the generator and that \<open>gmult\<close> makes the bytes a field over XOR.
\<close>

section \<open>The tables\<close>

record galois_regs =
  p1 :: nat
  p2 :: nat
  p3 :: nat
  p4 :: nat
  p5 :: nat
  p6 :: nat
  p7 :: nat
  p8 :: nat

definition exp_regs_init :: galois_regs where
  "exp_regs_init = \<lparr>p1 = 1, p2 = 0, p3 = 0, p4 = 0, p5 = 0, p6 = 0, p7 = 0, p8 = 0\<rparr>"

text \<open>One pass of the shift register: every assignment reads the registers before it.\<close>

definition exp_regs_shift :: "galois_regs \<Rightarrow> galois_regs" where
  "exp_regs_shift r =
     (let pinit = p8 r in
      \<lparr>p1 = pinit, p2 = p1 r, p3 = p2 r XOR pinit, p4 = p3 r XOR pinit,
       p5 = p4 r XOR pinit, p6 = p5 r, p7 = p6 r, p8 = p7 r\<rparr>)"

definition exp_regs_value :: "galois_regs \<Rightarrow> nat" where
  "exp_regs_value r =
     p1 r + p2 r * 2 + p3 r * 4 + p4 r * 8 + p5 r * 16 + p6 r * 32 + p7 r * 64 + p8 r * 128"

text \<open>The first loop of \<^verbatim>\<open>init_exp_table\<close>, over the list of its indices.\<close>

fun fill_exp :: "nat list \<Rightarrow> galois_regs \<Rightarrow> nat list \<Rightarrow> nat list" where
  "fill_exp [] r g = g"
| "fill_exp (i # is) r g =
     (let r' = exp_regs_shift r; g' = g[i := exp_regs_value r']
      in fill_exp is r' (g'[i + 255 := g' ! i]))"

text \<open>The inner loop of the second pass: the first \<open>z\<close> with \<open>gexp[z] == i\<close> is stored.\<close>

fun find_log :: "nat list \<Rightarrow> nat \<Rightarrow> nat list \<Rightarrow> nat list \<Rightarrow> nat list" where
  "find_log g i [] l = l"
| "find_log g i (z # zs) l = (if g ! z = i then l[i := z] else find_log g i zs l)"

fun fill_log :: "nat list \<Rightarrow> nat list \<Rightarrow> nat list \<Rightarrow> nat list" where
  "fill_log g [] l = l"
| "fill_log g (i # is) l = fill_log g is (find_log g i [0..<256] l)"

definition init_exp_table :: "nat list \<Rightarrow> nat list \<Rightarrow> nat list \<times> nat list" where
  "init_exp_table gexp0 glog0 =
     (let g0 = gexp0[0 := 1]; g1 = g0[255 := g0 ! 0]; l0 = glog0[0 := 0];
          g2 = fill_exp [1..<256] exp_regs_init g1
      in (g2, fill_log g2 [1..<256] l0))"

definition gexp :: "nat list" where
  "gexp = fst (init_exp_table (replicate 512 0) (replicate 256 0))"

definition glog :: "nat list" where
  "glog = snd (init_exp_table (replicate 512 0) (replicate 256 0))"

definition gmult :: "nat \<Rightarrow> nat \<Rightarrow> nat" where
  "gmult a b = (if a = 0 \<or> b = 0 then 0 else gexp ! (glog ! a + glog ! b))"

definition ginv :: "nat \<Rightarrow> nat" where
  "ginv elt = gexp ! (255 - glog ! elt)"

section \<open>Powers of the generator\<close>

definition xtime :: "nat \<Rightarrow> nat" where
  "xtime x = push_bit 1 x XOR (if bit x 7 then 285 else 0)"

definition alpha :: "nat \<Rightarrow> nat" where
  "alpha k = (xtime ^^ k) 1"

lemma xtime_xor: "xtime (a XOR b) = xtime a XOR xtime b"
  by (simp add: xtime_def push_bit_xor bit_xor_iff xor_laws)

lemma xtime_0 [simp]: "xtime 0 = 0"
  by (simp add: xtime_def)

lemma xtime_pow_xor: "(xtime ^^ k) (a XOR b) = (xtime ^^ k) a XOR (xtime ^^ k) b"
  by (induction k) (simp_all add: xtime_xor)

lemma xtime_pow_0 [simp]: "(xtime ^^ k) 0 = 0"
  by (induction k) simp_all

definition regs_ok :: "galois_regs \<Rightarrow> bool" where
  "regs_ok r \<longleftrightarrow> p1 r < 2 \<and> p2 r < 2 \<and> p3 r < 2 \<and> p4 r < 2
     \<and> p5 r < 2 \<and> p6 r < 2 \<and> p7 r < 2 \<and> p8 r < 2"

lemma bit_xor_less: "a < 2 \<Longrightarrow> b < 2 \<Longrightarrow> a XOR b < 2" for a b :: nat
  using nat_xor_less [of a 1 b] by simp

lemma regs_ok_shift: "regs_ok r \<Longrightarrow> regs_ok (exp_regs_shift r)"
  by (simp add: regs_ok_def exp_regs_shift_def Let_def bit_xor_less)

lemma less_2_cases: "x < 2 \<Longrightarrow> x = 0 \<or> x = 1" for x :: nat
  by auto

lemma bit7_sum:
  fixes a b c d e f g h :: nat
  assumes "a < 2" "b < 2" "c < 2" "d < 2" "e < 2" "f < 2" "g < 2"
  shows "bit (a + b * 2 + c * 4 + d * 8 + e * 16 + f * 32 + g * 64 + h * 128) 7 \<longleftrightarrow> odd h"
proof -
  have "(a + b * 2 + c * 4 + d * 8 + e * 16 + f * 32 + g * 64 + h * 128) div 128 = h"
    using assms by simp
  then show ?thesis by (simp add: bit_iff_odd)
qed

lemma value_shift: "regs_ok r \<Longrightarrow> exp_regs_value (exp_regs_shift r) = xtime (exp_regs_value r)"
  unfolding regs_ok_def
  apply (cases r)
  apply (simp add: exp_regs_value_def exp_regs_shift_def xtime_def Let_def bit7_sum)
  apply (elim conjE)
  apply (drule less_2_cases)+
  apply (elim disjE)
  apply (simp_all)
  done

lemma regs_ok_pow: "regs_ok r \<Longrightarrow> regs_ok ((exp_regs_shift ^^ k) r)"
  by (induction k) (simp_all add: regs_ok_shift)

lemma value_shift_pow:
  "regs_ok r \<Longrightarrow> exp_regs_value ((exp_regs_shift ^^ k) r) = (xtime ^^ k) (exp_regs_value r)"
  by (induction k) (simp_all add: value_shift regs_ok_pow)

lemma regs_ok_init [simp]: "regs_ok exp_regs_init"
  by (simp add: regs_ok_def exp_regs_init_def)

lemma value_init [simp]: "exp_regs_value exp_regs_init = 1"
  by (simp add: exp_regs_value_def exp_regs_init_def)

lemma length_fill_exp [simp]: "length (fill_exp is r g) = length g"
  by (induction "is" r g rule: fill_exp.induct) (simp_all add: Let_def)

lemma fill_exp_nth:
  assumes "length g = 512" "1 \<le> m" "m \<le> n" "n \<le> 256" "k < 512"
  shows "fill_exp [m..<n] r g ! k =
    (if m \<le> k \<and> k < n then exp_regs_value ((exp_regs_shift ^^ Suc (k - m)) r)
     else if m + 255 \<le> k \<and> k < n + 255
       then exp_regs_value ((exp_regs_shift ^^ Suc (k - 255 - m)) r) else g ! k)"
  using assms
proof (induction "n - m" arbitrary: m r g)
  case 0
  then show ?case by simp
next
  case (Suc d)
  then have mn: "m < n" by simp
  let ?r' = "exp_regs_shift r"
  let ?g' = "g[m := exp_regs_value ?r', m + 255 := exp_regs_value ?r']"
  have "fill_exp [m..<n] r g = fill_exp [Suc m..<n] ?r' ?g'"
    using mn Suc.prems by (simp add: upt_conv_Cons Let_def)
  moreover have "fill_exp [Suc m..<n] ?r' ?g' ! k =
    (if Suc m \<le> k \<and> k < n then exp_regs_value ((exp_regs_shift ^^ Suc (k - Suc m)) ?r')
     else if Suc m + 255 \<le> k \<and> k < n + 255
       then exp_regs_value ((exp_regs_shift ^^ Suc (k - 255 - Suc m)) ?r') else ?g' ! k)"
    using Suc.hyps(2) Suc.prems by (intro Suc.hyps(1)) simp_all
  moreover have "Suc m \<le> k \<Longrightarrow> (exp_regs_shift ^^ Suc (k - m)) r = (exp_regs_shift ^^ Suc (k - Suc m)) ?r'"
    by (metis Suc_diff_le comp_apply diff_Suc_Suc funpow_Suc_right)
  moreover have "Suc m + 255 \<le> k \<Longrightarrow>
      (exp_regs_shift ^^ Suc (k - 255 - m)) r = (exp_regs_shift ^^ Suc (k - 255 - Suc m)) ?r'"
    by (metis Nat.le_diff_conv2 Suc_diff_le add_leD2 comp_apply diff_Suc_Suc funpow_Suc_right)
  ultimately show ?case
    using mn Suc.prems by (auto simp: nth_list_update not_le less_Suc_eq)
qed

lemma length_gexp [simp]: "length gexp = 512"
  by (simp add: gexp_def init_exp_table_def Let_def)

lemma init_exp_fst:
  "fst (init_exp_table g l) = fill_exp [1..<256] exp_regs_init (g[0 := 1, 255 := g[0 := 1] ! 0])"
  by (simp only: init_exp_table_def Let_def fst_conv)

lemma alpha_0 [simp]: "alpha 0 = 1"
  by (simp add: alpha_def)

lemma alpha_add: "alpha (m + n) = (xtime ^^ m) (alpha n)"
  by (simp add: alpha_def funpow_add)

lemma gexp_nth:
  "k < 512 \<Longrightarrow> gexp ! k =
    (if 1 \<le> k \<and> k < 256 then alpha k
     else if 256 \<le> k \<and> k < 511 then alpha (k - 255) else if k = 0 then 1 else 0)"
  unfolding gexp_def init_exp_fst
  by (subst fill_exp_nth)
    (auto simp del: funpow.simps simp: value_shift_pow Suc_diff_le nth_list_update alpha_def
      intro!: arg_cong2 [where f = "\<lambda>k. (xtime ^^ k)"])

text \<open>The orbit of 1 under the doubling step is evaluated once.\<close>

lemma xtime_low: "x < 128 \<Longrightarrow> xtime x = 2 * x"
  by (simp add: xtime_def bit_iff_odd push_bit_eq_mult)

lemma xtime_high: "128 \<le> x \<Longrightarrow> x < 256 \<Longrightarrow> xtime x = 2 * x XOR 285"
proof -
  assume "128 \<le> x" "x < 256"
  then have "x div 128 = 1" by simp
  then show ?thesis by (simp add: xtime_def bit_iff_odd push_bit_eq_mult mult.commute)
qed

fun orbit :: "'a list \<Rightarrow> nat \<Rightarrow> nat list" where
  "orbit [] x = [x]"
| "orbit (i # is) x = x # orbit is (xtime x)"

lemma length_orbit [simp]: "length (orbit is x) = Suc (length is)"
  by (induction "is" x rule: orbit.induct) simp_all

lemma orbit_nth: "k \<le> length is \<Longrightarrow> orbit is x ! k = (xtime ^^ k) x"
  by (induction "is" x arbitrary: k rule: orbit.induct)
    (auto simp: nth_Cons funpow_swap1 split: nat.splits)

lemma orbit_distinct: "distinct (orbit [2::nat..<256] 1)"
  by (simp add: xtime_low xtime_high)

lemma orbit_range: "\<forall>x\<in>set (orbit [2::nat..<256] 1). 0 < x \<and> x < 256"
  by (simp add: xtime_low xtime_high)

lemma orbit_last: "last (orbit [2::nat..<257] 1) = 1"
  by (simp add: xtime_low xtime_high)

lemma alpha_255: "alpha 255 = 1"
  using orbit_last orbit_nth [of 255 "[2::nat..<257]" 1]
  by (simp add: last_conv_nth alpha_def del: funpow.simps orbit.simps upt_rec_numeral
      flip: length_0_conv)

lemma alpha_add_255: "alpha (k + 255) = alpha k"
  by (simp add: alpha_add alpha_255) (simp add: alpha_def)

lemma gexp_alpha: "k \<le> 510 \<Longrightarrow> gexp ! k = alpha k"
  using alpha_add_255 [of "k - 255"] by (cases "k = 0") (auto simp: gexp_nth)

lemma alpha_mod: "alpha (k mod 255) = alpha k"
proof -
  have "alpha (r + 255 * q) = alpha r" for r q
  proof (induction q)
    case (Suc q)
    have "alpha (r + 255 * Suc q) = alpha ((r + 255 * q) + 255)"
      by (simp add: algebra_simps)
    with Suc show ?case by (simp only: alpha_add_255)
  qed simp
  from this [of "k mod 255" "k div 255"] show ?thesis by simp
qed

lemma alpha_orbit: "k < 255 \<Longrightarrow> orbit [2::nat..<256] 1 ! k = alpha k"
  by (simp add: orbit_nth alpha_def del: funpow.simps orbit.simps upt_rec_numeral)

lemma alpha_inj: "inj_on alpha {..<255}"
proof (rule inj_onI)
  fix j k :: nat
  assume jk: "j \<in> {..<255}" "k \<in> {..<255}" and eq: "alpha j = alpha k"
  have "orbit [2::nat..<256] 1 ! j = orbit [2::nat..<256] 1 ! k"
    using jk eq by (simp only: alpha_orbit lessThan_iff)
  then show "j = k"
    using jk nth_eq_iff_index_eq [OF orbit_distinct, of j k]
    by (simp del: orbit.simps upt_rec_numeral)
qed

lemma alpha_range: "0 < alpha k \<and> alpha k < 256"
proof -
  have len: "k mod 255 < length (orbit [2::nat..<256] 1)"
    by (simp del: orbit.simps upt_rec_numeral)
  have "alpha (k mod 255) \<in> set (orbit [2::nat..<256] 1)"
    using nth_mem [OF len] by (simp only: alpha_orbit mod_less_divisor zero_less_numeral)
  then show ?thesis using orbit_range by (simp only: alpha_mod)
qed

lemma alpha_less [simp]: "alpha k < 256"
  and alpha_pos [simp]: "0 < alpha k"
  by (simp_all add: alpha_range)

lemma alpha_neq_0 [simp]: "alpha k \<noteq> 0"
  using alpha_pos [of k] by simp

lemma alpha_surj: "alpha ` {..<255} = {1..<256}"
proof (rule card_subset_eq)
  show "alpha ` {..<255} \<subseteq> {1..<256}"
    using alpha_range by (auto simp: Suc_le_eq)
  show "card (alpha ` {..<255}) = card {1..<256::nat}"
    by (subst card_image [OF alpha_inj]) simp
qed simp


section \<open>Logarithms\<close>

lemma find_log_nth:
  "x < 256 \<Longrightarrow> i < length l \<Longrightarrow> find_log g i zs l ! x =
    (if x = i \<and> (\<exists>z\<in>set zs. g ! z = i) then hd (filter (\<lambda>z. g ! z = i) zs) else l ! x)"
  by (induction g i zs l rule: find_log.induct) (auto simp: nth_list_update)

lemma length_find_log [simp]: "length (find_log g i zs l) = length l"
  by (induction g i zs l rule: find_log.induct) auto

lemma length_fill_log [simp]: "length (fill_log g is l) = length l"
  by (induction g "is" l rule: fill_log.induct) auto

lemma fill_log_nth:
  assumes "length l = 256" "\<forall>i\<in>set is. i < 256" "distinct is" "x < 256"
  shows "fill_log g is l ! x =
    (if x \<in> set is \<and> (\<exists>z\<in>set [0..<256]. g ! z = x)
     then hd (filter (\<lambda>z. g ! z = x) [0..<256]) else l ! x)"
  using assms
  by (induction g "is" l rule: fill_log.induct) (auto simp: find_log_nth)

lemma glog_spec:
  assumes "0 < x" "x < 256"
  shows "glog ! x < 255 \<and> alpha (glog ! x) = x"
proof -
  from assms have "x \<in> alpha ` {..<255}" by (simp only: alpha_surj) simp
  then obtain k where k: "k < 255" "alpha k = x" by auto
  let ?zs = "filter (\<lambda>z. gexp ! z = x) [0..<256]"
  have "fill_log gexp [1..<256] ((replicate 256 0)[0 := 0]) ! x = hd ?zs"
    using assms k gexp_alpha [of k] by (subst fill_log_nth) (auto intro!: bexI [of _ k])
  moreover have "glog = fill_log gexp [1..<256] ((replicate 256 0)[0 := 0])"
    by (simp only: glog_def gexp_def init_exp_table_def Let_def fst_conv snd_conv)
  ultimately have g: "glog ! x = hd ?zs" by simp
  have "[0..<256] = [0..<255] @ [255]" by (rule upt_Suc_append [of 0 255, simplified])
  then have "hd ?zs = hd (filter (\<lambda>z. gexp ! z = x) [0..<255])"
    using k gexp_alpha [of k] by (auto simp: hd_append filter_empty_conv)
  moreover have "hd (filter (\<lambda>z. gexp ! z = x) [0..<255]) \<in> set (filter (\<lambda>z. gexp ! z = x) [0..<255])"
    using k gexp_alpha [of k] by (intro hd_in_set) (auto simp: filter_empty_conv)
  ultimately have "hd ?zs < 255 \<and> gexp ! hd ?zs = x" by auto
  then show ?thesis using gexp_alpha [of "hd ?zs"] unfolding g by auto
qed

lemma length_glog [simp]: "length glog = 256"
  by (simp add: glog_def init_exp_table_def Let_def)

lemma glog_alpha: "glog ! alpha k = k mod 255"
proof -
  have "alpha (glog ! alpha k) = alpha (k mod 255)"
    using glog_spec [of "alpha k"] by (simp add: alpha_mod)
  then show ?thesis
    using glog_spec [of "alpha k"] mod_less_divisor [of 255 k]
    by (intro inj_onD [OF alpha_inj, of "glog ! alpha k" "k mod 255"]) simp_all
qed

section \<open>The field laws\<close>

lemma gmult_alpha: "gmult (alpha j) (alpha k) = alpha (j + k)"
proof -
  have "j mod 255 < 255" "k mod 255 < 255" by simp_all
  then have "j mod 255 + k mod 255 \<le> 510" by linarith
  then have "gmult (alpha j) (alpha k) = alpha (j mod 255 + k mod 255)"
    by (simp add: gmult_def glog_alpha gexp_alpha)
  also have "\<dots> = alpha (j + k)" by (metis alpha_mod mod_add_eq)
  finally show ?thesis .
qed

lemma gmult_0 [simp]: "gmult 0 b = 0" "gmult a 0 = 0"
  by (simp_all add: gmult_def)

lemma gf_cases:
  assumes "x < 256"
  obtains "x = 0" | k where "x = alpha k"
proof (cases "x = 0")
  case False
  then have "alpha (glog ! x) = x" using assms glog_spec [of x] by simp
  then show ?thesis using that(2) [of "glog ! x"] by simp
qed (rule that)

lemma gmult_commute: "gmult a b = gmult b a"
  by (simp add: gmult_def add.commute)

lemma gmult_less: "a < 256 \<Longrightarrow> b < 256 \<Longrightarrow> gmult a b < 256"
  by (erule gf_cases; erule gf_cases) (simp_all add: gmult_alpha)

lemma gmult_assoc:
  "a < 256 \<Longrightarrow> b < 256 \<Longrightarrow> c < 256 \<Longrightarrow> gmult (gmult a b) c = gmult a (gmult b c)"
  by (erule gf_cases; erule gf_cases; erule gf_cases) (simp_all add: gmult_alpha add.assoc)

lemma gmult_xtime: "b < 256 \<Longrightarrow> gmult (alpha k) b = (xtime ^^ k) b"
  by (erule gf_cases) (simp_all add: gmult_alpha alpha_add)

lemma gmult_xor_right:
  "a < 256 \<Longrightarrow> b < 256 \<Longrightarrow> c < 256 \<Longrightarrow> gmult a (b XOR c) = gmult a b XOR gmult a c"
  by (erule gf_cases [of a]) (simp_all add: gmult_xtime nat_xor_byte xtime_pow_xor)

lemma gmult_1: "b < 256 \<Longrightarrow> gmult 1 b = b"
  using gmult_xtime [of b 0] by simp

lemma ginv_alpha: "ginv (alpha k) = alpha (255 - k mod 255)"
  by (simp add: ginv_def glog_alpha gexp_alpha)

lemma gmult_ginv: "0 < a \<Longrightarrow> a < 256 \<Longrightarrow> gmult a (ginv a) = 1"
proof -
  assume "0 < a" "a < 256"
  then obtain k where k: "a = alpha k" by (metis gf_cases less_irrefl)
  have "alpha (k + (255 - k mod 255)) = alpha (k mod 255 + (255 - k mod 255))"
    by (metis alpha_mod mod_add_left_eq)
  also have "\<dots> = 1" using mod_less_divisor [of 255 k] by (simp add: alpha_255)
  finally show ?thesis by (simp add: k ginv_alpha gmult_alpha)
qed

lemma ginv_less: "0 < a \<Longrightarrow> a < 256 \<Longrightarrow> ginv a < 256"
  by (erule gf_cases) (simp_all add: ginv_alpha)

text \<open>The tables implement the field the codec computes in.\<close>

interpretation gf: byte_field gmult ginv
  by unfold_locales
    (rule gmult_less gmult_commute gmult_assoc gmult_xor_right gmult_0 gmult_1 gmult_ginv ginv_less; assumption)+

lemma alpha_pw: "alpha k = gf.pw 2 k"
proof (induction k)
  case (Suc k)
  have "alpha 1 = 2" by (simp add: alpha_def xtime_low)
  then have "gmult 2 (alpha k) = alpha (1 + k)" by (metis gmult_alpha)
  with Suc show ?case by simp
qed simp

section \<open>The tables against multiplication of polynomials\<close>

text \<open>
  The reference: the product of two bytes as polynomials over the bits, reduced by
  \<open>x^8 + x^4 + x^3 + x^2 + 1\<close>, one bit of the first factor at a time.
\<close>

definition poly_mult :: "nat \<Rightarrow> nat \<Rightarrow> nat" where
  "poly_mult a b = fold (\<lambda>i s. s XOR (if bit a i then (xtime ^^ i) b else 0)) [0..<8] 0"

lemma take_bit_Suc_xor: "take_bit (Suc n) a = take_bit n a XOR (if bit a n then 2 ^ n else 0)" for a :: nat
  by (rule bit_eqI) (auto simp: bit_xor_iff bit_take_bit_iff bit_exp_iff less_Suc_eq)

lemma alpha_small: "i < 8 \<Longrightarrow> alpha i = 2 ^ i"
proof (induction i)
  case (Suc i)
  then have "2 ^ i < (2::nat) ^ 7" by (intro power_strict_increasing) simp_all
  then show ?case using Suc by (simp add: alpha_def xtime_low)
qed simp

lemma poly_mult_bits:
  assumes "b < 256" "n \<le> 8"
  shows "fold (\<lambda>i s. s XOR (if bit a i then (xtime ^^ i) b else 0)) [0..<n] 0 = gmult (take_bit n a) b"
  using assms(2)
proof (induction n)
  case (Suc n)
  have l: "take_bit n a < 256" "2 ^ n < (256::nat)"
    using Suc.prems less_le_trans [OF take_bit_nat_less_exp [of n a], of 256]
      power_increasing [of n 8 "2::nat"] power_strict_increasing [of n 8 "2::nat"] by auto
  have "gmult (2 ^ n) b = (xtime ^^ n) b"
    using gmult_xtime [OF assms(1), of n] alpha_small [of n] Suc.prems by simp
  then have "gmult (take_bit (Suc n) a) b
      = gmult (take_bit n a) b XOR (if bit a n then (xtime ^^ n) b else 0)"
    using gf.mul_xor_left [OF assms(1) l] unfolding take_bit_Suc_xor by simp
  then show ?case using Suc by simp
qed simp

text \<open>
  C32. The table-driven product is the product of polynomials reduced by the code's
  irreducible polynomial, \<open>ginv\<close> gives inverses, and the tables of logarithms and of powers are mutually inverse: on the non-zero
  bytes and on the exponents below 255.
\<close>

theorem gmult_is_poly_mult:
  assumes "a < 256" "b < 256"
  shows "gmult a b = poly_mult a b \<and> (a \<noteq> 0 \<longrightarrow> gexp ! (glog ! a) = a \<and> gmult a (ginv a) = 1)
    \<and> (\<forall>i < 255. glog ! (gexp ! i) = i)"
proof -
  have "take_bit 8 a = a" using assms(1) by (simp add: take_bit_nat_eq_self)
  moreover have "gexp ! (glog ! a) = a" if "a \<noteq> 0"
    using that assms glog_spec [of a] by (simp add: gexp_alpha)
  moreover have "glog ! (gexp ! i) = i" if "i < 255" for i
    using that glog_alpha [of i] by (simp add: gexp_alpha)
  ultimately show ?thesis
    using assms poly_mult_bits [OF assms(2), of 8 a] gmult_ginv [of a] by (auto simp: poly_mult_def)
qed

theorem gmult_is_poly_mult_witness:
  "gmult 87 131 = poly_mult 87 131 \<and> gmult 87 (ginv 87) = 1 \<and> glog ! (gexp ! 254) = 254"
  using gmult_is_poly_mult [of 87 131] by simp

end
