(* ===== verification/Reed_Solomon.thy ===== *)
theory Reed_Solomon
  imports Galois
begin

text \<open>
  The Reed-Solomon encoder and syndrome decoder of \<^verbatim>\<open>BMS/proj1/lib/rs.c\<close>, with the
  polynomial routines it takes from \<^verbatim>\<open>berlekamp.c\<close>. The globals of the two files are
  the fields of one record; C arrays are lists of the declared length and every loop is
  a fold over its index list, in the loop's order. \<^verbatim>\<open>int\<close>s that only hold field elements
  are \<open>nat\<close>. The main lemmas: the generator polynomial vanishes at the first NPAR
  powers of the generator, and every codeword \<^verbatim>\<open>encode_data\<close> builds has a zero syndrome.
\<close>

definition NPAR :: nat where
  "NPAR = 109"

definition MAXDEG :: nat where
  "MAXDEG = NPAR * 2"

lemma NPAR_pos [simp]: "0 < NPAR" "NPAR < MAXDEG" "NPAR \<noteq> 0"
  by (simp_all add: NPAR_def MAXDEG_def)

record ecc_state =
  pBytes :: "nat list"
  synBytes :: "nat list"
  genPoly :: "nat list"
  Lambda :: "nat list"
  Omega :: "nat list"
  ErrorLocs :: "nat list"
  NErrors :: nat
  ErasureLocs :: "nat list"
  NErasures :: nat

text \<open>C statics are zero when the program starts.\<close>

definition ecc_globals :: ecc_state where
  "ecc_globals = \<lparr>pBytes = replicate MAXDEG 0, synBytes = replicate MAXDEG 0,
     genPoly = replicate (MAXDEG * 2) 0, Lambda = replicate MAXDEG 0, Omega = replicate MAXDEG 0,
     ErrorLocs = replicate 256 0, NErrors = 0, ErasureLocs = replicate 256 0, NErasures = 0\<rparr>"

section \<open>Polynomial arithmetic\<close>

definition add_polys :: "nat list \<Rightarrow> nat list \<Rightarrow> nat list" where
  "add_polys dst src = fold (\<lambda>i d. d[i := d ! i XOR src ! i]) [0..<MAXDEG] dst"

definition copy_poly :: "nat list \<Rightarrow> nat list \<Rightarrow> nat list" where
  "copy_poly dst src = fold (\<lambda>i d. d[i := src ! i]) [0..<MAXDEG] dst"

definition scale_poly :: "nat \<Rightarrow> nat list \<Rightarrow> nat list" where
  "scale_poly k poly = fold (\<lambda>i d. d[i := gmult k (d ! i)]) [0..<MAXDEG] poly"

definition zero_poly :: "nat list \<Rightarrow> nat list" where
  "zero_poly poly = fold (\<lambda>i d. d[i := 0]) [0..<MAXDEG] poly"

definition mul_z_poly :: "nat list \<Rightarrow> nat list" where
  "mul_z_poly src = (fold (\<lambda>i d. d[i := d ! (i - 1)]) (rev [1..<MAXDEG]) src)[0 := 0]"

text \<open>
  One pass of the outer loop of \<^verbatim>\<open>mult_polys\<close>: \<open>tmp1\<close> is cleared above, scaled below,
  shifted in place from the top down, cleared at the bottom and added to \<open>dst\<close>.
\<close>

definition mult_polys_pass :: "nat list \<Rightarrow> nat list \<Rightarrow> nat \<Rightarrow> nat list \<times> nat list \<Rightarrow> nat list \<times> nat list" where
  "mult_polys_pass q1 q2 i s =
     (let (dst, tmp0) = s;
          tmpa = fold (\<lambda>j t. t[j := 0]) [MAXDEG..<MAXDEG * 2] tmp0;
          tmpb = fold (\<lambda>j t. t[j := gmult (q2 ! j) (q1 ! i)]) [0..<MAXDEG] tmpa;
          tmpc = fold (\<lambda>j t. t[j := t ! (j - i)]) (rev [i..<MAXDEG * 2]) tmpb;
          tmpd = fold (\<lambda>j t. t[j := 0]) [0..<i] tmpc
      in (fold (\<lambda>j d. d[j := d ! j XOR tmpd ! j]) [0..<MAXDEG * 2] dst, tmpd))"

text \<open>The local \<open>tmp1\<close> is an argument, as its first contents are not set by the code.\<close>

definition mult_polys :: "nat list \<Rightarrow> nat list \<Rightarrow> nat list \<Rightarrow> nat list \<Rightarrow> nat list" where
  "mult_polys dst q1 q2 tmp1 =
     (let dst0 = fold (\<lambda>i d. d[i := 0]) [0..<MAXDEG * 2] dst
      in fst (fold (mult_polys_pass q1 q2) [0..<MAXDEG] (dst0, tmp1)))"

section \<open>Generator polynomial and initialisation\<close>

definition compute_genpoly_pass ::
    "nat list \<Rightarrow> nat \<Rightarrow> nat list \<times> nat list \<times> nat list \<Rightarrow> nat list \<times> nat list \<times> nat list" where
  "compute_genpoly_pass tmp i s =
     (let (genpoly, tp, tp1) = s;
          tp' = (zero_poly tp)[0 := gexp ! i, 1 := 1];
          genpoly' = mult_polys genpoly tp' tp1 tmp
      in (genpoly', tp', copy_poly tp1 genpoly'))"

definition compute_genpoly :: "nat \<Rightarrow> nat list \<Rightarrow> nat list \<Rightarrow> nat list \<Rightarrow> nat list \<Rightarrow> nat list" where
  "compute_genpoly nbytes genpoly tp tp1 tmp =
     fst (fold (compute_genpoly_pass tmp) [1..<Suc nbytes] (genpoly, tp, (zero_poly tp1)[0 := 1]))"

text \<open>The uninitialised locals of the call, of their declared lengths.\<close>

definition initialize_ecc :: "ecc_state \<Rightarrow> ecc_state" where
  "initialize_ecc s = s\<lparr>genPoly := compute_genpoly NPAR (genPoly s)
     (replicate 256 0) (replicate 256 0) (replicate (MAXDEG * 2) 0)\<rparr>"

section \<open>Encoder\<close>

definition build_codeword :: "ecc_state \<Rightarrow> byte list \<Rightarrow> nat \<Rightarrow> byte list \<Rightarrow> byte list" where
  "build_codeword s msg nbytes dst =
     (let dst' = fold (\<lambda>i d. d[i := msg ! i]) [0..<nbytes] dst
      in fold (\<lambda>i d. d[i + nbytes := of_nat (pBytes s ! (NPAR - 1 - i))]) [0..<NPAR] dst')"

definition lfsr_step :: "nat list \<Rightarrow> nat \<Rightarrow> nat list \<Rightarrow> nat list" where
  "lfsr_step gen c lfsr =
     (let dbyte = c XOR lfsr ! (NPAR - 1);
          lfsr' = fold (\<lambda>j r. r[j := r ! (j - 1) XOR gmult (gen ! j) dbyte]) (rev [1..<NPAR]) lfsr
      in lfsr'[0 := gmult (gen ! 0) dbyte])"

definition encode_data :: "byte list \<Rightarrow> nat \<Rightarrow> byte list \<Rightarrow> ecc_state \<Rightarrow> byte list \<times> ecc_state" where
  "encode_data msg nbytes dst s =
     (let lfsr0 = replicate (NPAR + 1) 0;
          lfsr = fold (\<lambda>i r. lfsr_step (genPoly s) (unat (msg ! i)) r) [0..<nbytes] lfsr0;
          s' = s\<lparr>pBytes := fold (\<lambda>i p. p[i := lfsr ! i]) [0..<NPAR] (pBytes s)\<rparr>
      in (build_codeword s' msg nbytes dst, s'))"

section \<open>Syndromes\<close>

definition syndrome :: "byte list \<Rightarrow> nat \<Rightarrow> nat \<Rightarrow> nat" where
  "syndrome data nbytes j =
     fold (\<lambda>i sum. unat (data ! i) XOR gmult (gexp ! (j + 1)) sum) [0..<nbytes] 0"

definition decode_data :: "byte list \<Rightarrow> nat \<Rightarrow> ecc_state \<Rightarrow> ecc_state" where
  "decode_data data nbytes s =
     s\<lparr>synBytes := fold (\<lambda>j y. y[j := syndrome data nbytes j]) [0..<NPAR] (synBytes s)\<rparr>"

fun check_syndrome_from :: "nat list \<Rightarrow> nat list \<Rightarrow> nat" where
  "check_syndrome_from [] syn = 0"
| "check_syndrome_from (i # is) syn = (if syn ! i \<noteq> 0 then 1 else check_syndrome_from is syn)"

definition check_syndrome :: "ecc_state \<Rightarrow> nat" where
  "check_syndrome s = check_syndrome_from [0..<NPAR] (synBytes s)"

definition zero_fill_from :: "byte list \<Rightarrow> nat \<Rightarrow> nat \<Rightarrow> byte list" where
  "zero_fill_from buf from to = fold (\<lambda>i d. d[i := 0]) [from..<to] buf"

section \<open>The polynomial routines, element by element\<close>

lemma length_poly_ops [simp]:
  "length (add_polys d s) = length d" "length (copy_poly d s) = length d"
  "length (scale_poly k d) = length d" "length (zero_poly d) = length d"
  "length (mul_z_poly d) = length d"
  by (simp_all add: add_polys_def copy_poly_def scale_poly_def zero_poly_def mul_z_poly_def)

lemma add_polys_nth: "k < length d \<Longrightarrow> add_polys d s ! k = (if k < MAXDEG then d ! k XOR s ! k else d ! k)"
  by (simp add: add_polys_def nth_fold_upd [where g = "\<lambda>i v. v XOR s ! i"])

lemma copy_poly_nth: "k < length d \<Longrightarrow> copy_poly d s ! k = (if k < MAXDEG then s ! k else d ! k)"
  by (simp add: copy_poly_def nth_fold_upd [where g = "\<lambda>i v. s ! i"])

lemma scale_poly_nth: "k < length d \<Longrightarrow> scale_poly c d ! k = (if k < MAXDEG then gmult c (d ! k) else d ! k)"
  by (simp add: scale_poly_def nth_fold_upd [where g = "\<lambda>i. gmult c"])

lemma zero_poly_nth: "k < length d \<Longrightarrow> zero_poly d ! k = (if k < MAXDEG then 0 else d ! k)"
  by (simp add: zero_poly_def nth_fold_upd [where g = "\<lambda>i v. 0"])

lemma mul_z_poly_nth:
  "k < length d \<Longrightarrow> mul_z_poly d ! k = (if k = 0 then 0 else if k < MAXDEG then d ! (k - 1) else d ! k)"
  using nth_fold_shift [where g = "\<lambda>i v. v" and s = 1 and m = 1 and n = MAXDEG and d = d and k = k]
  by (auto simp: mul_z_poly_def nth_list_update)

lemmas poly_op_nth = add_polys_nth copy_poly_nth scale_poly_nth zero_poly_nth mul_z_poly_nth

section \<open>The product\<close>

text \<open>The row a pass of \<^verbatim>\<open>mult_polys\<close> adds: the second factor scaled and shifted.\<close>

definition product_row :: "nat list \<Rightarrow> nat list \<Rightarrow> nat \<Rightarrow> nat list" where
  "product_row q1 q2 i =
     replicate i 0 @ map (gmult (q1 ! i)) (take MAXDEG q2) @ replicate (MAXDEG - i) 0"

lemma product_row_length: "i < MAXDEG \<Longrightarrow> MAXDEG \<le> length q2 \<Longrightarrow> length (product_row q1 q2 i) = MAXDEG * 2"
  by (simp add: product_row_def)

lemma product_row_nth:
  "i < MAXDEG \<Longrightarrow> MAXDEG \<le> length q2 \<Longrightarrow> k < MAXDEG * 2 \<Longrightarrow> product_row q1 q2 i ! k =
    (if i \<le> k \<and> k - i < MAXDEG then gmult (q1 ! i) (q2 ! (k - i)) else 0)"
  by (auto simp: product_row_def nth_append)

lemma mult_polys_pass_row:
  assumes "length dst = MAXDEG * 2" "length tmp = MAXDEG * 2" "i < MAXDEG" "MAXDEG \<le> length q2"
  shows "mult_polys_pass q1 q2 i (dst, tmp) = (map2 (XOR) dst (product_row q1 q2 i), product_row q1 q2 i)"
proof -
  let ?a = "fold (\<lambda>j t. t[j := 0]) [MAXDEG..<MAXDEG * 2] tmp"
  let ?b = "fold (\<lambda>j t. t[j := gmult (q2 ! j) (q1 ! i)]) [0..<MAXDEG] ?a"
  let ?c = "fold (\<lambda>j t. t[j := t ! (j - i)]) (rev [i..<MAXDEG * 2]) ?b"
  let ?d = "fold (\<lambda>j t. t[j := 0]) [0..<i] ?c"
  have a: "?a ! k = 0" if "MAXDEG \<le> k" "k < MAXDEG * 2" for k
    using that assms by (simp add: nth_fold_upd [where g = "\<lambda>i v. 0"])
  have b: "?b ! k = (if k < MAXDEG then gmult (q1 ! i) (q2 ! k) else 0)" if "k < MAXDEG * 2" for k
    using that assms a gmult_commute [of "q1 ! i" "q2 ! k"]
    by (simp add: nth_fold_upd [where g = "\<lambda>j v. gmult (q2 ! j) (q1 ! i)"])
  have c: "?c ! k = (if i \<le> k then ?b ! (k - i) else ?b ! k)" if "k < MAXDEG * 2" for k
    using that assms by (simp add: nth_fold_shift [where g = "\<lambda>j v. v"])
  have d: "?d ! k = (if k < i then 0 else ?c ! k)" if "k < MAXDEG * 2" for k
    using that assms by (simp add: nth_fold_upd [where g = "\<lambda>j v. 0"])
  have row: "?d = product_row q1 q2 i"
    by (rule nth_equalityI)
      (use assms in \<open>auto simp: product_row_length product_row_nth d c b\<close>)
  have "fold (\<lambda>j d. d[j := d ! j XOR ?d ! j]) [0..<MAXDEG * 2] dst = map2 (XOR) dst ?d"
    by (rule nth_equalityI)
      (use assms in \<open>auto simp: nth_fold_upd [where g = "\<lambda>j v. v XOR product_row q1 q2 i ! j"] row product_row_length\<close>)
  then show ?thesis by (simp add: mult_polys_pass_def Let_def row)
qed

lemma rows_length:
  "MAXDEG \<le> length q2 \<Longrightarrow> n \<le> MAXDEG \<Longrightarrow> length d = MAXDEG * 2 \<Longrightarrow>
    length (fold (\<lambda>i d. map2 (XOR) d (product_row q1 q2 i)) [0..<n] d) = MAXDEG * 2"
  by (induction n) (simp_all add: product_row_length)

lemma mult_polys_fold:
  assumes "length dst = MAXDEG * 2" "length tmp = MAXDEG * 2" "MAXDEG \<le> length q2" "n \<le> MAXDEG"
  shows "fst (fold (mult_polys_pass q1 q2) [0..<n] (dst, tmp))
      = fold (\<lambda>i d. map2 (XOR) d (product_row q1 q2 i)) [0..<n] dst
    \<and> length (fst (fold (mult_polys_pass q1 q2) [0..<n] (dst, tmp))) = MAXDEG * 2
    \<and> length (snd (fold (mult_polys_pass q1 q2) [0..<n] (dst, tmp))) = MAXDEG * 2"
  using assms(4)
proof (induction n)
  case (Suc n)
  obtain d t where dt: "fold (mult_polys_pass q1 q2) [0..<n] (dst, tmp) = (d, t)"
    by (metis surj_pair)
  with Suc assms show ?case
    by (simp add: mult_polys_pass_row product_row_length rows_length)
qed (use assms in simp)

lemma zeroed: "length d = n \<Longrightarrow> fold (\<lambda>i d. d[i := 0]) [0..<n] d = replicate n (0::nat)"
  by (rule nth_equalityI) (simp_all add: nth_fold_upd [where g = "\<lambda>i v. 0"])

lemma mult_polys_rows:
  assumes "length dst = MAXDEG * 2" "length tmp = MAXDEG * 2" "MAXDEG \<le> length q2"
  shows "mult_polys dst q1 q2 tmp
      = fold (\<lambda>i d. map2 (XOR) d (product_row q1 q2 i)) [0..<MAXDEG] (replicate (MAXDEG * 2) 0)"
    and "length (mult_polys dst q1 q2 tmp) = MAXDEG * 2"
  using mult_polys_fold [of "replicate (MAXDEG * 2) 0" tmp q2 MAXDEG q1] assms
  by (simp_all add: mult_polys_def zeroed rows_length)

text \<open>Evaluation turns the product of the code into the product of the field.\<close>

lemma rows_ev:
  assumes "gf.poly q1" "gf.poly q2" "MAXDEG \<le> length q1" "MAXDEG \<le> length q2" "x < 256" "n \<le> MAXDEG"
  shows "gf.poly (fold (\<lambda>i d. map2 (XOR) d (product_row q1 q2 i)) [0..<n] (replicate (MAXDEG * 2) 0))
    \<and> gf.ev (fold (\<lambda>i d. map2 (XOR) d (product_row q1 q2 i)) [0..<n] (replicate (MAXDEG * 2) 0)) x
      = gmult (gf.ev (take n q1) x) (gf.ev (take MAXDEG q2) x)"
  using assms(6)
proof (induction n)
  case 0
  then show ?case by simp
next
  case (Suc n)
  let ?d = "fold (\<lambda>i d. map2 (XOR) d (product_row q1 q2 i)) [0..<n] (replicate (MAXDEG * 2) 0)"
  let ?q = "take MAXDEG q2"
  have q: "gf.poly ?q" "gf.poly (take n q1)" "q1 ! n < 256"
    using assms Suc.prems by (auto simp: gf.poly_def dest: in_set_takeD)
  note lt = gf.ev_less [OF q(1) assms(5)] gf.ev_less [OF q(2) assms(5)] gf.pw_less [OF assms(5)]
  have row: "gf.poly (product_row q1 q2 n)"
    using q by (simp add: product_row_def gf.poly_scale)
  have "gf.ev (product_row q1 q2 n) x = gmult (gf.pw x n) (gmult (q1 ! n) (gf.ev ?q x))"
    using q assms(5) by (simp add: product_row_def gf.ev_shift gf.ev_pad gf.poly_scale gf.ev_scale)
  also have "\<dots> = gmult (gmult (gf.pw x n) (q1 ! n)) (gf.ev ?q x)"
    using lt q by (simp add: gmult_assoc)
  finally have ev: "gf.ev (product_row q1 q2 n) x = gmult (gmult (gf.pw x n) (q1 ! n)) (gf.ev ?q x)" .
  have len: "length ?d = length (product_row q1 q2 n)"
    using Suc.prems assms by (simp add: rows_length product_row_length)
  have tk: "take (Suc n) q1 = take n q1 @ [q1 ! n]"
    using Suc.prems assms by (simp add: take_Suc_conv_app_nth)
  show ?case
    using Suc len row q assms(5) lt
    by (simp add: gf.poly_add gf.ev_add ev tk gf.ev_append gf.mul_xor_left gmult_less)
      (use assms Suc.prems in simp)
qed

lemma mult_polys_ev:
  assumes "gf.poly q1" "gf.poly q2" "MAXDEG \<le> length q1" "MAXDEG \<le> length q2" "x < 256"
    and "length dst = MAXDEG * 2" "length tmp = MAXDEG * 2"
  shows "gf.poly (mult_polys dst q1 q2 tmp)"
    and "gf.ev (mult_polys dst q1 q2 tmp) x = gmult (gf.ev (take MAXDEG q1) x) (gf.ev (take MAXDEG q2) x)"
  using rows_ev [OF assms(1-5) order_refl] assms by (simp_all add: mult_polys_rows)


section \<open>The generator polynomial\<close>

text \<open>Multiplying by a polynomial of degree one.\<close>

lemma zero_row: "q1 ! i = 0 \<Longrightarrow> i < MAXDEG \<Longrightarrow> MAXDEG \<le> length q2 \<Longrightarrow> product_row q1 q2 i = replicate (MAXDEG * 2) 0"
  by (rule nth_equalityI) (simp_all add: product_row_length product_row_nth)

lemma map2_xor_zeros: "map2 (XOR) d (replicate (length d) 0) = d" for d :: "nat list"
  by (rule nth_equalityI) simp_all

lemma rows_two:
  assumes "\<forall>i. 2 \<le> i \<and> i < MAXDEG \<longrightarrow> q1 ! i = 0" "MAXDEG \<le> length q2" "2 \<le> n" "n \<le> MAXDEG"
  shows "fold (\<lambda>i d. map2 (XOR) d (product_row q1 q2 i)) [0..<n] (replicate (MAXDEG * 2) 0)
    = map2 (XOR) (map2 (XOR) (replicate (MAXDEG * 2) 0) (product_row q1 q2 0)) (product_row q1 q2 1)"
  using assms(3,4)
proof (induction n rule: dec_induct)
  case base
  then show ?case by (simp add: numeral_2_eq_2)
next
  case (step n)
  have "1 < MAXDEG" using step by simp
  then have "length (map2 (XOR) (map2 (XOR) (replicate (MAXDEG * 2) 0) (product_row q1 q2 0)) (product_row q1 q2 1)) = MAXDEG * 2"
    using assms by (simp add: product_row_length)
  with step assms show ?case
    using map2_xor_zeros [of "map2 (XOR) (map2 (XOR) (replicate (MAXDEG * 2) 0) (product_row q1 q2 0)) (product_row q1 q2 1)"]
    by (simp add: zero_row)
qed

lemma mult_linear_nth:
  assumes "\<forall>i. 2 \<le> i \<and> i < MAXDEG \<longrightarrow> q1 ! i = 0" "MAXDEG \<le> length q2"
    and "length dst = MAXDEG * 2" "length tmp = MAXDEG * 2" "k < MAXDEG * 2"
  shows "mult_polys dst q1 q2 tmp ! k =
    (if k < MAXDEG then gmult (q1 ! 0) (q2 ! k) else 0)
     XOR (if 1 \<le> k \<and> k - 1 < MAXDEG then gmult (q1 ! 1) (q2 ! (k - 1)) else 0)"
proof -
  have M: "0 < MAXDEG" "1 < MAXDEG" "2 \<le> MAXDEG" by (simp_all add: MAXDEG_def NPAR_def)
  then show ?thesis
    using assms by (simp add: mult_polys_rows(1) rows_two product_row_length product_row_nth)
qed

text \<open>After \<open>i\<close> factors: a monic polynomial of degree \<open>i\<close> vanishing at their roots.\<close>

definition genpoly_upto :: "nat \<Rightarrow> nat list \<Rightarrow> bool" where
  "genpoly_upto i p \<longleftrightarrow> gf.poly (take MAXDEG p) \<and> MAXDEG \<le> length p \<and> p ! i = 1
     \<and> (\<forall>k. i < k \<and> k < MAXDEG \<longrightarrow> p ! k = 0)
     \<and> (\<forall>r. 1 \<le> r \<and> r \<le> i \<longrightarrow> gf.ev (take MAXDEG p) (alpha r) = 0)"

lemma ev_linear:
  assumes "length tp = 256" "tp ! 0 = a" "tp ! 1 = 1" "\<forall>i. 2 \<le> i \<and> i < MAXDEG \<longrightarrow> tp ! i = 0" "x < 256" "a < 256"
  shows "gf.ev (take MAXDEG tp) x = a XOR x" "gf.poly (take MAXDEG tp)"
proof -
  have M: "MAXDEG \<le> 256" "2 \<le> MAXDEG" by (simp_all add: MAXDEG_def NPAR_def)
  have "take MAXDEG tp = [a, 1] @ replicate (MAXDEG - 2) 0"
    by (rule nth_equalityI)
      (use assms M in \<open>auto simp: nth_Cons nth_append numeral_2_eq_2 split: nat.splits\<close>)
  then show "gf.ev (take MAXDEG tp) x = a XOR x" "gf.poly (take MAXDEG tp)"
    using assms by (simp_all add: gf.mul_0_right gf.mul_1_right [simplified])
qed

lemma genpoly_step:
  assumes "genpoly_upto i t" "Suc i < MAXDEG" "length tp = 256" "tp ! 0 = gexp ! Suc i" "tp ! 1 = 1"
    "\<forall>i. 2 \<le> i \<and> i < MAXDEG \<longrightarrow> tp ! i = 0" "length dst = MAXDEG * 2" "length tmp = MAXDEG * 2"
    "length t = 256"
  shows "genpoly_upto (Suc i) (mult_polys dst tp t tmp)"
proof -
  let ?m = "mult_polys dst tp t tmp"
  have a: "gexp ! Suc i = alpha (Suc i)"
    using assms(2) by (simp add: gexp_alpha MAXDEG_def NPAR_def)
  have t: "gf.poly (take MAXDEG t)" "MAXDEG \<le> length t" "t ! i = 1"
    "\<And>k. i < k \<Longrightarrow> k < MAXDEG \<Longrightarrow> t ! k = 0"
    "\<And>r. 1 \<le> r \<Longrightarrow> r \<le> i \<Longrightarrow> gf.ev (take MAXDEG t) (alpha r) = 0"
    using assms(1) by (auto simp: genpoly_upto_def)
  have tk: "t ! k < 256" if "k < MAXDEG" for k
    using gf.poly_nth [OF t(1), of k] that t(2) by simp
  note len = mult_polys_rows(2) [OF assms(7,8) t(2), of tp]
  have nth: "?m ! k = (if k < MAXDEG then gmult (alpha (Suc i)) (t ! k) else 0)
      XOR (if 1 \<le> k \<and> k - 1 < MAXDEG then t ! (k - 1) else 0)" if "k < MAXDEG * 2" for k
    using that assms t(2) tk by (subst mult_linear_nth) (auto simp: a gmult_1 [simplified])
  have P: "gf.poly ?m"
    by (rule gf.poly_nthI) (auto simp: len nth tk gmult_less nat_xor_byte)
  have high: "?m ! k = 0" if "Suc i < k" "k < MAXDEG * 2" for k
    using that assms(2) by (auto simp: nth t(4))
  have split: "?m = take MAXDEG ?m @ replicate MAXDEG 0"
    by (rule nth_equalityI) (use assms(2) in \<open>auto simp: len nth_append high\<close>)
  have ev: "gf.ev (take MAXDEG ?m) x = gf.ev ?m x" if "x < 256" for x
    using P that by (subst (2) split, subst gf.ev_pad) (auto simp: gf.poly_def dest: in_set_takeD)
  have pp: "gf.ev (take MAXDEG ?m) x = gmult (alpha (Suc i) XOR x) (gf.ev (take MAXDEG t) x)" if "x < 256" for x
  proof -
    have trunc: "mult_polys dst tp t tmp = mult_polys dst (take MAXDEG tp) (take MAXDEG t) tmp"
      using assms t(2) by (intro nth_equalityI)
        (simp_all add: len mult_polys_rows(2) mult_linear_nth MAXDEG_def NPAR_def)
    show ?thesis
      using that ev_linear [OF assms(3) _ assms(5,6) that, of "alpha (Suc i)"] assms t(1,2)
      by (subst ev [OF that], subst trunc, subst mult_polys_ev) (simp_all add: a MAXDEG_def NPAR_def)
  qed
  show ?thesis
    unfolding genpoly_upto_def
  proof (intro conjI allI impI)
    show "gf.poly (take MAXDEG ?m)" using P by (auto simp: gf.poly_def dest: in_set_takeD)
    show "MAXDEG \<le> length ?m" by (simp add: len)
    show "?m ! Suc i = 1" using assms(2) t by (simp add: nth)
    show "?m ! k = 0" if "Suc i < k \<and> k < MAXDEG" for k using that high by simp
    show "gf.ev (take MAXDEG ?m) (alpha r) = 0" if "1 \<le> r \<and> r \<le> Suc i" for r
      using that t(5) [of r] by (cases "r = Suc i") (simp_all add: pp)
  qed
qed


lemma genpoly_start: "length tp1 = 256 \<Longrightarrow> genpoly_upto 0 ((zero_poly tp1)[0 := 1])"
proof -
  assume l: "length tp1 = 256"
  have "gf.poly (take MAXDEG ((zero_poly tp1)[0 := 1]))"
    by (rule gf.poly_nthI) (simp add: zero_poly_nth nth_list_update l)
  then show ?thesis
    by (auto simp: genpoly_upto_def zero_poly_nth l MAXDEG_def NPAR_def)
qed

lemma genpoly_upto_cong:
  assumes "genpoly_upto i p" "MAXDEG \<le> length q" "\<And>k. k < MAXDEG \<Longrightarrow> q ! k = p ! k" "i < MAXDEG"
  shows "genpoly_upto i q"
proof -
  have "take MAXDEG q = take MAXDEG p"
    by (rule nth_equalityI) (use assms in \<open>auto simp: genpoly_upto_def\<close>)
  with assms show ?thesis by (simp add: genpoly_upto_def)
qed

lemma compute_genpoly_passes:
  assumes "length genpoly = MAXDEG * 2" "length tp = 256" "length tp1 = 256" "length tmp = MAXDEG * 2"
    "i < MAXDEG" "genpoly_upto 0 tp1"
  shows "case fold (compute_genpoly_pass tmp) [1..<Suc i] (genpoly, tp, tp1) of (g, t, t1) \<Rightarrow>
    length g = MAXDEG * 2 \<and> length t = 256 \<and> length t1 = 256 \<and> genpoly_upto i t1
      \<and> (0 < i \<longrightarrow> genpoly_upto i g)"
  using assms(5)
proof (induction i)
  case 0
  then show ?case using assms by simp
next
  case (Suc i)
  obtain g t t1 where f: "fold (compute_genpoly_pass tmp) [1..<Suc i] (genpoly, tp, tp1) = (g, t, t1)"
    by (metis prod_cases3)
  with Suc have IH: "length g = MAXDEG * 2" "length t = 256" "length t1 = 256" "genpoly_upto i t1"
    by auto
  let ?tp = "(zero_poly t)[0 := gexp ! Suc i, 1 := 1]"
  let ?m = "mult_polys g ?tp t1 tmp"
  have M: "MAXDEG \<le> 256" "Suc i < MAXDEG" using Suc.prems by (simp_all add: MAXDEG_def NPAR_def)
  have m: "genpoly_upto (Suc i) ?m"
    using Suc.prems assms(4) IH M(1) by (intro genpoly_step) (auto simp: zero_poly_nth nth_list_update)
  have lm: "length ?m = MAXDEG * 2"
    using IH assms M by (simp add: mult_polys_rows(2))
  have c: "genpoly_upto (Suc i) (copy_poly t1 ?m)"
    using m IH M by (intro genpoly_upto_cong [OF m]) (simp_all add: copy_poly_nth)
  have "[1..<Suc (Suc i)] = [1..<Suc i] @ [Suc i]" by simp
  then have "fold (compute_genpoly_pass tmp) [1..<Suc (Suc i)] (genpoly, tp, tp1) = (?m, ?tp, copy_poly t1 ?m)"
    by (simp only: fold_append comp_def f) (simp add: compute_genpoly_pass_def Let_def)
  then show ?case
    using m lm c IH by (simp del: upt_Suc)
qed

definition ecc_ready :: "ecc_state \<Rightarrow> bool" where
  "ecc_ready s \<longleftrightarrow> length (genPoly s) = MAXDEG * 2 \<and> length (pBytes s) = MAXDEG
     \<and> length (synBytes s) = MAXDEG \<and> genpoly_upto NPAR (genPoly s)"

definition ecc_shape :: "ecc_state \<Rightarrow> bool" where
  "ecc_shape s \<longleftrightarrow> length (genPoly s) = MAXDEG * 2 \<and> length (pBytes s) = MAXDEG
     \<and> length (synBytes s) = MAXDEG"

lemma ecc_shape_globals [simp]: "ecc_shape ecc_globals"
  by (simp add: ecc_shape_def ecc_globals_def)

lemma initialize_ecc_ready:
  assumes "ecc_shape s"
  shows "ecc_ready (initialize_ecc s)"
proof -
  obtain g t t1 where f: "fold (compute_genpoly_pass (replicate (MAXDEG * 2) 0)) [1..<Suc NPAR]
      (genPoly s, replicate 256 0, (zero_poly (replicate 256 0))[0 := 1]) = (g, t, t1)"
    by (metis prod_cases3)
  have st: "genpoly_upto 0 ((zero_poly (replicate 256 0))[0 := 1])"
    by (rule genpoly_start) simp
  have "length g = MAXDEG * 2 \<and> genpoly_upto NPAR g"
    using compute_genpoly_passes [OF _ _ _ _ _ st, of "genPoly s" "replicate 256 0"
        "replicate (MAXDEG * 2) 0" NPAR, unfolded f] assms
    by (simp add: ecc_shape_def)
  then show ?thesis
    using assms by (simp add: ecc_ready_def ecc_shape_def initialize_ecc_def compute_genpoly_def f del: upt_Suc One_nat_def)
qed

text \<open>The roots, for the lower coefficients of the monic generator.\<close>

lemma genpoly_root:
  assumes "ecc_ready s" "1 \<le> r" "r \<le> NPAR"
  shows "gf.poly (take NPAR (genPoly s))" "gf.ev (take NPAR (genPoly s) @ [1]) (alpha r) = 0"
proof -
  let ?g = "genPoly s"
  have M: "NPAR < MAXDEG * 2" "MAXDEG = Suc (NPAR + (MAXDEG - Suc NPAR))"
    by (simp_all add: MAXDEG_def NPAR_def)
  have g: "gf.poly (take MAXDEG ?g)" "length ?g = MAXDEG * 2" "?g ! NPAR = 1"
    "\<And>k. NPAR < k \<Longrightarrow> k < MAXDEG \<Longrightarrow> ?g ! k = 0" "gf.ev (take MAXDEG ?g) (alpha r) = 0"
    using assms by (auto simp: ecc_ready_def genpoly_upto_def)
  have eq: "take MAXDEG ?g = (take NPAR ?g @ [1]) @ replicate (MAXDEG - Suc NPAR) 0"
    by (rule nth_equalityI)
      (use g NPAR_pos(2) M in \<open>auto simp: nth_append nth_Cons less_Suc_eq min_def split: nat.splits\<close>)
  show P: "gf.poly (take NPAR ?g)"
    using g(1) unfolding eq by simp
  show "gf.ev (take NPAR ?g @ [1]) (alpha r) = 0"
    using g(5) P unfolding eq by (subst (asm) gf.ev_pad) simp_all
qed

section \<open>The encoder register\<close>

lemma length_lfsr_step [simp]: "length (lfsr_step g c r) = length r"
  by (simp add: lfsr_step_def Let_def)

lemma lfsr_step_nth:
  assumes "k < NPAR" "NPAR < length r"
  shows "lfsr_step g c r ! k = (if k = 0 then gmult (g ! 0) (c XOR r ! (NPAR - 1))
     else r ! (k - 1) XOR gmult (g ! k) (c XOR r ! (NPAR - 1)))"
  using nth_fold_shift [where s = 1 and m = 1 and n = NPAR and d = r and k = k
      and g = "\<lambda>j v. v XOR gmult (g ! j) (c XOR r ! (NPAR - 1))"] assms
  by (cases r) (auto simp: lfsr_step_def Let_def nth_list_update)

lemma lfsr_step_register:
  assumes "NPAR < length r" "NPAR \<le> length g"
  shows "take NPAR (lfsr_step g c r) = map2 (XOR) (0 # butlast (take NPAR r))
     (map (gmult (c XOR last (take NPAR r))) (take NPAR g))"
proof -
  have "last (take NPAR r) = r ! (NPAR - 1)"
    using assms NPAR_pos(1) by (subst last_conv_nth) (auto simp: min_def)
  then show ?thesis
    using assms by (intro nth_equalityI)
      (auto simp: lfsr_step_nth nth_Cons nth_butlast gmult_commute split: nat.splits)
qed

lemma lfsr_step_poly:
  assumes "gf.poly (take NPAR r)" "gf.poly (take NPAR g)" "NPAR < length r" "NPAR \<le> length g" "c < 256"
  shows "gf.poly (take NPAR (lfsr_step g c r))"
proof (rule gf.poly_nthI)
  fix k assume "k < length (take NPAR (lfsr_step g c r))"
  then have k: "k < NPAR" by simp
  have b: "r ! j < 256" "g ! j < 256" if "j < NPAR" for j
    using gf.poly_nth [OF assms(1), of j] gf.poly_nth [OF assms(2), of j] that assms by simp_all
  show "take NPAR (lfsr_step g c r) ! k < 256"
    using k assms b by (auto simp: lfsr_step_nth nat_xor_byte gmult_less)
qed

lemma lfsr_ev_step:
  assumes "gf.poly (take NPAR r)" "gf.poly (take NPAR g)" "NPAR < length r" "NPAR \<le> length g" "c < 256"
    "x < 256" "gf.ev (take NPAR g @ [1]) x = 0"
  shows "gf.ev (take NPAR (lfsr_step g c r)) x
    = gmult x (gf.ev (take NPAR r) x) XOR gmult (gf.pw x NPAR) c"
proof -
  obtain n where n: "NPAR = Suc n" using NPAR_pos(3) not0_implies_Suc by blast
  show ?thesis
    unfolding lfsr_step_register [OF assms(3,4)]
    using gf.register_step [of "take NPAR g" "take NPAR r" n c x] assms n by simp
qed

definition lfsr_run :: "nat list \<Rightarrow> nat list \<Rightarrow> nat list" where
  "lfsr_run g cs = fold (\<lambda>c r. lfsr_step g c r) cs (replicate (NPAR + 1) 0)"

lemma lfsr_run_snoc: "lfsr_run g (cs @ [c]) = lfsr_step g c (lfsr_run g cs)"
  by (simp add: lfsr_run_def)

lemma length_lfsr_run [simp]: "length (lfsr_run g cs) = NPAR + 1"
  by (induction cs rule: rev_induct) (simp_all add: lfsr_run_snoc, simp add: lfsr_run_def)

text \<open>After the message, the register holds the message's value times the leading power.\<close>

lemma lfsr_run_ev:
  assumes "gf.poly (take NPAR g)" "NPAR \<le> length g" "gf.poly cs" "x < 256"
    "gf.ev (take NPAR g @ [1]) x = 0"
  shows "gf.poly (take NPAR (lfsr_run g cs))
    \<and> gf.ev (take NPAR (lfsr_run g cs)) x = gmult (gf.pw x NPAR) (gf.horner x cs 0)"
  using assms(3)
proof (induction cs rule: rev_induct)
  case Nil
  have "take NPAR (lfsr_run g []) = replicate NPAR 0"
    by (simp add: lfsr_run_def del: replicate_Suc)
  then show ?case by simp
next
  case (snoc c cs)
  let ?H = "gf.horner x cs 0" and ?P = "gf.pw x NPAR"
  have H: "?H < 256" "?P < 256" "c < 256"
    using snoc.prems assms(4) by (simp_all add: gf.horner_less gf.pw_less)
  have r: "gf.poly (take NPAR (lfsr_run g cs))"
    "gf.ev (take NPAR (lfsr_run g cs)) x = gmult ?P ?H"
    using snoc by simp_all
  have "gf.ev (take NPAR (lfsr_run g (cs @ [c]))) x = gmult x (gmult ?P ?H) XOR gmult ?P c"
    using r H assms by (simp add: lfsr_run_snoc lfsr_ev_step)
  also have "\<dots> = gmult ?P (c XOR gmult x ?H)"
    using H assms(4) gf.mul_left_commute [of x ?P ?H] by (simp add: gmult_xor_right gmult_less nat_xor_commute)
  finally show ?case
    using r H assms by (simp add: gf.horner_append lfsr_run_snoc lfsr_step_poly)
qed

section \<open>Codewords\<close>

lemma nth_fold_offset:
  "k < length d \<Longrightarrow> fold (\<lambda>i d. d[i + n := f i]) [0..<m] d ! k
    = (if n \<le> k \<and> k < n + m then f (k - n) else d ! k)"
proof (induction m)
  case (Suc m)
  then show ?case by (cases "k = m + n") auto
qed auto

lemma build_codeword_list:
  assumes "n \<le> length msg" "n + NPAR \<le> length dst" "NPAR \<le> length (pBytes s)"
  shows "build_codeword s msg n dst
    = take n msg @ map of_nat (rev (take NPAR (pBytes s))) @ drop (n + NPAR) dst"
proof (rule nth_equalityI)
  let ?d = "fold (\<lambda>i d. d[i := msg ! i]) [0..<n] dst"
  have d: "length ?d = length dst" by (rule length_fold_upd)
  have dn: "?d ! k = (if k < n then msg ! k else dst ! k)" if "k < length dst" for k
    using that by (simp add: nth_fold_upd [where g = "\<lambda>i v. msg ! i"])
  show "length (build_codeword s msg n dst)
      = length (take n msg @ map of_nat (rev (take NPAR (pBytes s))) @ drop (n + NPAR) dst)"
    using assms d by (simp add: build_codeword_def Let_def)
  fix k assume "k < length (build_codeword s msg n dst)"
  then have k: "k < length dst" using d by (simp add: build_codeword_def Let_def)
  have "build_codeword s msg n dst ! k
      = (if n \<le> k \<and> k < n + NPAR then of_nat (pBytes s ! (NPAR - 1 - (k - n))) else ?d ! k)"
    unfolding build_codeword_def Let_def using k d by (subst nth_fold_offset) simp_all
  then show "build_codeword s msg n dst ! k
      = (take n msg @ map of_nat (rev (take NPAR (pBytes s))) @ drop (n + NPAR) dst) ! k"
    using assms k dn by (auto simp: nth_append rev_nth)
qed

lemma encode_data_lfsr:
  assumes "nbytes \<le> length msg" "nbytes + NPAR \<le> length dst" "NPAR \<le> length (pBytes s)"
  shows "fst (encode_data msg nbytes dst s) = take nbytes msg
      @ map of_nat (rev (take NPAR (lfsr_run (genPoly s) (map unat (take nbytes msg)))))
      @ drop (nbytes + NPAR) dst"
proof -
  let ?l = "lfsr_run (genPoly s) (map unat (take nbytes msg))"
  let ?p = "fold (\<lambda>i p. p[i := ?l ! i]) [0..<NPAR] (pBytes s)"
  have l: "fold (\<lambda>i r. lfsr_step (genPoly s) (unat (msg ! i)) r) [0..<nbytes] (replicate (NPAR + 1) 0) = ?l"
    unfolding lfsr_run_def fold_map comp_def
    by (rule fold_nth [OF assms(1), where f = "\<lambda>b. lfsr_step (genPoly s) (unat b)"])
  have lp: "length ?p = length (pBytes s)" by (rule length_fold_upd)
  have "take NPAR ?p = take NPAR ?l"
    by (rule nth_equalityI)
      (use assms(3) lp in \<open>auto simp: nth_fold_upd [where g = "\<lambda>i v. ?l ! i"]\<close>)
  then show ?thesis
    using assms lp unfolding encode_data_def Let_def l fst_conv
    by (subst build_codeword_list) simp_all
qed

lemma syndrome_horner:
  assumes "n \<le> length data" "j < NPAR"
  shows "syndrome data n j = gf.horner (alpha (j + 1)) (map unat (take n data)) 0"
proof -
  have "gexp ! (j + 1) = alpha (j + 1)"
    using assms(2) by (simp add: gexp_alpha NPAR_def)
  then show ?thesis
    unfolding syndrome_def gf.horner_def fold_map comp_def
    by (simp only: fold_nth [OF assms(1), where f = "\<lambda>b sum. unat b XOR gmult (alpha (j + 1)) sum"])
qed

lemma poly_bytes [simp]: "gf.poly (map unat (bs :: byte list))"
  by (auto simp: gf.poly_def)

lemma codeword_syndrome:
  assumes "ecc_ready s" "nbytes \<le> length msg" "nbytes + NPAR \<le> length dst" "j < NPAR"
  shows "syndrome (fst (encode_data msg nbytes dst s)) (nbytes + NPAR) j = 0"
proof -
  let ?x = "alpha (j + 1)" and ?g = "genPoly s"
  let ?m = "map unat (take nbytes msg)"
  let ?l = "take NPAR (lfsr_run ?g ?m)"
  let ?cw = "fst (encode_data msg nbytes dst s)"
  let ?H = "gf.horner ?x ?m 0"
  have g: "gf.poly (take NPAR ?g)" "gf.ev (take NPAR ?g @ [1]) ?x = 0" "NPAR \<le> length ?g"
    using genpoly_root [OF assms(1), of "j + 1"] assms NPAR_pos(2) by (simp_all add: ecc_ready_def MAXDEG_def)
  have pb: "NPAR \<le> length (pBytes s)"
    using assms(1) by (simp add: ecc_ready_def MAXDEG_def)
  have run: "gf.poly ?l" "gf.ev ?l ?x = gmult (gf.pw ?x NPAR) ?H"
    using lfsr_run_ev [OF g(1,3) poly_bytes alpha_less g(2)] by auto
  have cw: "?cw = take nbytes msg @ map of_nat (rev ?l) @ drop (nbytes + NPAR) dst"
    by (rule encode_data_lfsr [OF assms(2,3) pb])
  have bytes: "map (\<lambda>n. unat (of_nat n :: byte)) (rev ?l) = rev ?l"
    using run(1) by (intro map_idI) (auto simp: gf.poly_def unat_of_nat_byte)
  have tk: "map unat (take (nbytes + NPAR) ?cw) = ?m @ rev ?l"
    unfolding cw using assms(2) bytes by (simp add: comp_def)
  have lc: "nbytes + NPAR \<le> length ?cw" using assms by (simp add: cw)
  have H: "?H < 256" by (simp add: gf.horner_less)
  have lr: "gf.poly (rev ?l)" "length ?l = NPAR" using run(1) by (simp_all add: gf.poly_def)
  have "syndrome ?cw (nbytes + NPAR) j = gf.horner ?x (?m @ rev ?l) 0"
    by (simp only: syndrome_horner [OF lc assms(4)] tk)
  also have "\<dots> = gf.horner ?x (rev ?l) ?H"
    by (simp add: gf.horner_append)
  also have "\<dots> = gf.ev ?l ?x XOR gmult (gf.pw ?x NPAR) ?H"
    using gf.horner_ev [OF lr(1) H alpha_less] lr(2) by simp
  finally show ?thesis using run(2) by simp
qed

lemma check_syndrome_from_0: "check_syndrome_from is y = 0 \<longleftrightarrow> (\<forall>i\<in>set is. y ! i = 0)"
  by (induction "is" y rule: check_syndrome_from.induct) auto

lemma check_decode:
  assumes "length (synBytes s) = MAXDEG"
  shows "check_syndrome (decode_data data n s) = 0 \<longleftrightarrow> (\<forall>j<NPAR. syndrome data n j = 0)"
proof -
  have "fold (\<lambda>j y. y[j := syndrome data n j]) [0..<NPAR] (synBytes s) ! i = syndrome data n i" if "i < NPAR" for i
    using that assms
    by (subst nth_fold_upd [where g = "\<lambda>j v. syndrome data n j"]) (simp_all add: MAXDEG_def)
  then show ?thesis
    by (auto simp: check_syndrome_def decode_data_def check_syndrome_from_0)
qed

text \<open>The state the encoder leaves is still ready for the next block.\<close>

lemma encode_data_ready: "ecc_ready s \<Longrightarrow> ecc_ready (snd (encode_data msg n dst s))"
  by (simp add: encode_data_def Let_def ecc_ready_def length_fold_upd [where g = "\<lambda>i v. f i" for f])

lemma decode_data_ready: "ecc_ready s \<Longrightarrow> ecc_ready (decode_data data n s)"
  by (simp add: decode_data_def ecc_ready_def length_fold_upd [where g = "\<lambda>i v. f i" for f])

text \<open>
  C14. Every codeword that \<^verbatim>\<open>encode_data\<close> builds after \<^verbatim>\<open>initialize_ecc\<close> has a zero
  syndrome, and it starts with the message.
\<close>

theorem encoded_word_clean:
  assumes "ecc_shape s" "ecc_shape t" "n \<le> length msg" "n + NPAR \<le> length dst"
  shows "check_syndrome (decode_data (fst (encode_data msg n dst (initialize_ecc s))) (n + NPAR) t) = 0
    \<and> take n (fst (encode_data msg n dst (initialize_ecc s))) = take n msg"
proof -
  have r: "ecc_ready (initialize_ecc s)" by (rule initialize_ecc_ready [OF assms(1)])
  have "NPAR \<le> length (pBytes (initialize_ecc s))" using r by (simp add: ecc_ready_def MAXDEG_def)
  then show ?thesis
    using codeword_syndrome [OF r assms(3,4)] assms
    by (simp add: check_decode ecc_shape_def encode_data_lfsr)
qed

theorem encoded_word_clean_witness:
  "check_syndrome (decode_data (fst (encode_data [7, 1, 200] 3 (replicate (3 + NPAR) 0)
      (initialize_ecc ecc_globals))) (3 + NPAR) ecc_globals) = 0"
  using encoded_word_clean [of ecc_globals ecc_globals 3 "[7, 1, 200]" "replicate (3 + NPAR) 0"] by simp

end
