(* ===== verification/Berlekamp.thy ===== *)
theory Berlekamp
  imports Reed_Solomon
begin

text \<open>
  Error location and correction, from \<^verbatim>\<open>BMS/proj1/lib/berlekamp.c\<close>: the modified
  Berlekamp-Massey iteration, the search for the roots of the error locator and the
  correction of the codeword. Proved here: a codeword with one wrong byte is repaired, a
  location outside the codeword makes the corrector return 0 and leave the word alone,
  and the iteration never reads the syndromes below their first element.
\<close>

section \<open>The iteration\<close>

text \<open>\<^verbatim>\<open>S[n - i]\<close> has a C \<^verbatim>\<open>int\<close> index; it is never negative, see \<open>bm_index_bound\<close>.\<close>

definition compute_discrepancy :: "nat list \<Rightarrow> nat list \<Rightarrow> int \<Rightarrow> nat \<Rightarrow> nat" where
  "compute_discrepancy lam S L n =
     fold (\<lambda>i sum. sum XOR gmult (lam ! i) (S ! nat (int n - int i))) [0..<nat (L + 1)] 0"

definition compute_next_omega :: "nat \<Rightarrow> nat list \<Rightarrow> nat list \<Rightarrow> nat list \<Rightarrow> nat list" where
  "compute_next_omega d A dst src = fold (\<lambda>i p. p[i := src ! i XOR gmult d (A ! i)]) [0..<MAXDEG] dst"

definition init_gamma :: "ecc_state \<Rightarrow> nat list \<Rightarrow> nat list" where
  "init_gamma s gamma0 =
     (let tmp0 = zero_poly (replicate MAXDEG 0); gamma = (zero_poly gamma0)[0 := 1]
      in fst (fold (\<lambda>e (gamma, tmp).
           let tmp1 = mul_z_poly (scale_poly (gexp ! (ErasureLocs s ! e)) (copy_poly tmp gamma))
           in (add_polys gamma tmp1, tmp1)) [0..<NErasures s] (gamma, tmp0)))"

record bm_vars =
  bm_psi :: "nat list"
  bm_D :: "nat list"
  bm_k :: int
  bm_L :: int

definition bm_start :: "ecc_state \<Rightarrow> bm_vars" where
  "bm_start s =
     (let gamma = init_gamma s (replicate MAXDEG 0)
      in \<lparr>bm_psi = copy_poly (replicate MAXDEG 0) gamma,
          bm_D = mul_z_poly (copy_poly (replicate MAXDEG 0) gamma),
          bm_k = - 1, bm_L = int (NErasures s)\<rparr>)"

definition bm_step :: "nat list \<Rightarrow> nat \<Rightarrow> bm_vars \<Rightarrow> bm_vars" where
  "bm_step S n v =
     (let d = compute_discrepancy (bm_psi v) S (bm_L v) n;
          v' = (if d \<noteq> 0 then
                  let psi2 = fold (\<lambda>i p. p[i := bm_psi v ! i XOR gmult d (bm_D v ! i)]) [0..<MAXDEG]
                        (replicate MAXDEG 0);
                      w = (if bm_L v < int n - bm_k v then
                             v\<lparr>bm_k := int n - bm_L v,
                               bm_D := fold (\<lambda>i p. p[i := gmult (bm_psi v ! i) (ginv d)]) [0..<MAXDEG] (bm_D v),
                               bm_L := int n - bm_k v\<rparr>
                           else v)
                  in w\<lparr>bm_psi := fold (\<lambda>i p. p[i := psi2 ! i]) [0..<MAXDEG] (bm_psi w)\<rparr>
                else v)
      in v'\<lparr>bm_D := mul_z_poly (bm_D v')\<rparr>)"

definition compute_modified_omega :: "ecc_state \<Rightarrow> ecc_state" where
  "compute_modified_omega s =
     (let product = mult_polys (replicate (MAXDEG * 2) 0) (Lambda s) (synBytes s) (replicate (MAXDEG * 2) 0)
      in s\<lparr>Omega := fold (\<lambda>i p. p[i := product ! i]) [0..<NPAR] (zero_poly (Omega s))\<rparr>)"

definition Modified_Berlekamp_Massey :: "ecc_state \<Rightarrow> ecc_state" where
  "Modified_Berlekamp_Massey s =
     (let v = fold (bm_step (synBytes s)) [NErasures s..<NPAR] (bm_start s)
      in compute_modified_omega
           (s\<lparr>Lambda := fold (\<lambda>i p. p[i := bm_psi v ! i]) [0..<MAXDEG] (Lambda s)\<rparr>))"

section \<open>Roots and correction\<close>

definition locator_at :: "nat list \<Rightarrow> nat \<Rightarrow> nat" where
  "locator_at lam r = fold (\<lambda>k sum. sum XOR gmult (gexp ! ((k * r) mod 255)) (lam ! k)) [0..<NPAR + 1] 0"

definition find_root :: "nat list \<Rightarrow> nat \<Rightarrow> nat list \<times> nat \<Rightarrow> nat list \<times> nat" where
  "find_root lam r s =
     (let (locs, n) = s in if locator_at lam r = 0 then (locs[n := 255 - r], n + 1) else (locs, n))"

definition Find_Roots :: "ecc_state \<Rightarrow> ecc_state" where
  "Find_Roots s =
     (let (locs, n) = fold (find_root (Lambda s)) [1..<256] (ErrorLocs s, 0)
      in s\<lparr>ErrorLocs := locs, NErrors := n\<rparr>)"

definition error_magnitude :: "ecc_state \<Rightarrow> nat \<Rightarrow> nat" where
  "error_magnitude s i =
     (let num = fold (\<lambda>j a. a XOR gmult (Omega s ! j) (gexp ! (((255 - i) * j) mod 255))) [0..<MAXDEG] 0;
          denom = fold (\<lambda>j a. a XOR gmult (Lambda s ! j) (gexp ! (((255 - i) * (j - 1)) mod 255)))
                    (map (\<lambda>h. 2 * h + 1) [0..<MAXDEG div 2]) 0
      in gmult num (ginv denom))"

fun illegal_loc :: "nat list \<Rightarrow> nat list \<Rightarrow> nat \<Rightarrow> bool" where
  "illegal_loc [] locs csize = False"
| "illegal_loc (r # rs) locs csize = (if csize \<le> locs ! r then True else illegal_loc rs locs csize)"

text \<open>The result: the returned \<^verbatim>\<open>int\<close>, the codeword and the globals afterwards.\<close>

definition correct_errors_erasures ::
    "byte list \<Rightarrow> nat \<Rightarrow> nat \<Rightarrow> nat list \<Rightarrow> ecc_state \<Rightarrow> nat \<times> byte list \<times> ecc_state" where
  "correct_errors_erasures codeword csize nerasures erasures s =
     (let s0 = s\<lparr>NErasures := nerasures,
                 ErasureLocs := fold (\<lambda>i l. l[i := erasures ! i]) [0..<nerasures] (ErasureLocs s)\<rparr>;
          s1 = Find_Roots (Modified_Berlekamp_Massey s0)
      in if NErrors s1 \<le> NPAR \<and> 0 < NErrors s1 then
           if illegal_loc [0..<NErrors s1] (ErrorLocs s1) csize then (0, codeword, s1)
           else (1, fold (\<lambda>r cw. let i = ErrorLocs s1 ! r
                              in cw[csize - i - 1 := cw ! (csize - i - 1) XOR of_nat (error_magnitude s1 i)])
                     [0..<NErrors s1] codeword, s1)
         else (0, codeword, s1))"

section \<open>Sums with few terms\<close>

lemma fold_xor_add: "fold (\<lambda>i s. s XOR f i) is (a XOR b) = a XOR fold (\<lambda>i s. s XOR f i) is b"
  for a b :: nat
  by (induction "is" arbitrary: b) (simp_all add: nat_xor_assoc)

lemma fold_xor_zero: "(\<forall>i\<in>set is. f i = 0) \<Longrightarrow> fold (\<lambda>i s. s XOR f i) is a = a" for a :: nat
  by (induction "is" arbitrary: a) simp_all

lemma fold_xor_one:
  fixes f :: "nat \<Rightarrow> nat"
  assumes "\<forall>i. 1 \<le> i \<and> i < n \<longrightarrow> f i = 0" "0 < n"
  shows "fold (\<lambda>i s. s XOR f i) [0..<n] 0 = f 0"
proof -
  have "[0..<n] = 0 # [1..<n]" using assms(2) by (simp add: upt_conv_Cons)
  then show ?thesis using assms by (simp add: fold_xor_zero del: upt_Suc One_nat_def)
qed

lemma fold_xor_two:
  fixes f :: "nat \<Rightarrow> nat"
  assumes "\<forall>i. 2 \<le> i \<and> i < n \<longrightarrow> f i = 0" "1 < n"
  shows "fold (\<lambda>i s. s XOR f i) [0..<n] 0 = f 0 XOR f 1"
proof -
  have "[0..<n] = 0 # 1 # [2..<n]" using assms(2) by (simp add: upt_conv_Cons numeral_2_eq_2)
  then show ?thesis using assms by (simp add: fold_xor_zero del: upt_Suc One_nat_def)
qed

lemma fold_overwrite: "length d = n \<Longrightarrow> length src = n \<Longrightarrow> fold (\<lambda>i p. p[i := src ! i]) [0..<n] d = src"
  by (rule nth_equalityI) (simp_all add: nth_fold_upd [where g = "\<lambda>i v. src ! i"] length_fold_upd [where g = "\<lambda>i v. src ! i"])

lemma fold_tabulate: "length d = n \<Longrightarrow> fold (\<lambda>i p. p[i := f i]) [0..<n] d = map f [0..<n]"
  by (rule nth_equalityI) (simp_all add: nth_fold_upd [where g = "\<lambda>i v. f i"] length_fold_upd [where g = "\<lambda>i v. f i"])

lemma map_nth_all: "length xs = n \<Longrightarrow> map ((!) xs) [0..<n] = xs"
  using map_nth [of xs] by simp

lemma alpha_eq_iff: "alpha j = alpha k \<longleftrightarrow> j mod 255 = k mod 255"
proof
  assume "alpha j = alpha k"
  then have "alpha (j mod 255) = alpha (k mod 255)" by (simp add: alpha_mod)
  then show "j mod 255 = k mod 255" by (rule inj_onD [OF alpha_inj]) simp_all
qed (metis alpha_mod)

lemma alpha_eq_1: "alpha k = 1 \<longleftrightarrow> k mod 255 = 0"
  using alpha_eq_iff [of k 0] by (simp only: alpha_0 mod_0)

section \<open>The iteration stays within the syndromes\<close>

definition bm_inv :: "nat \<Rightarrow> bm_vars \<Rightarrow> bool" where
  "bm_inv n v \<longleftrightarrow> 0 \<le> bm_L v \<and> bm_L v \<le> int n \<and> - 1 \<le> bm_k v \<and> bm_k v < int n"

lemma bm_inv_step: "bm_inv n v \<Longrightarrow> bm_inv (Suc n) (bm_step S n v)"
  by (auto simp: bm_inv_def bm_step_def Let_def)

lemma bm_index_bound:
  "NErasures s \<le> n \<Longrightarrow> bm_inv n (fold (bm_step S) [NErasures s..<n] (bm_start s))"
proof (induction n rule: dec_induct)
  case base
  then show ?case by (simp add: bm_inv_def bm_start_def Let_def)
next
  case (step n)
  then show ?case by (simp add: bm_inv_step)
qed

section \<open>One wrong byte\<close>

text \<open>The locator of one error at location \<open>X\<close>, padded to the array.\<close>

definition lin :: "nat \<Rightarrow> nat list" where
  "lin x = map (\<lambda>i. if i = 0 then 1 else if i = 1 then x else 0) [0..<MAXDEG]"

lemma length_lin [simp]: "length (lin x) = MAXDEG"
  by (simp add: lin_def)

lemma lin_nth [simp]: "i < MAXDEG \<Longrightarrow> lin x ! i = (if i = 0 then 1 else if i = 1 then x else 0)"
  by (simp add: lin_def)

definition unit_poly :: "nat \<Rightarrow> nat list" where
  "unit_poly d = map (\<lambda>i. if i = 1 then d else 0) [0..<MAXDEG]"

lemma length_unit_poly [simp]: "length (unit_poly x) = MAXDEG"
  by (simp add: unit_poly_def)

lemma unit_poly_nth [simp]: "i < MAXDEG \<Longrightarrow> unit_poly x ! i = (if i = 1 then x else 0)"
  by (simp add: unit_poly_def)

lemma MAXDEG_gt [simp]: "1 < MAXDEG" "0 < MAXDEG" "Suc 0 < MAXDEG"
  by (simp_all add: MAXDEG_def NPAR_def)

lemma bm_start_no_erasures:
  assumes "NErasures s = 0"
  shows "bm_start s = \<lparr>bm_psi = lin 0, bm_D = unit_poly 1, bm_k = - 1, bm_L = 0\<rparr>"
proof -
  have g: "init_gamma s (replicate MAXDEG 0) = lin 0"
    using assms by (intro nth_equalityI)
      (auto simp: init_gamma_def Let_def zero_poly_nth nth_list_update)
  have "copy_poly (replicate MAXDEG 0) (lin 0) = lin 0"
    by (rule nth_equalityI) (auto simp: copy_poly_nth)
  moreover have "mul_z_poly (lin 0) = unit_poly 1"
    by (rule nth_equalityI) (auto simp: mul_z_poly_nth)
  ultimately show ?thesis
    using assms by (simp add: bm_start_def Let_def g)
qed

lemma discrepancy_lin:
  assumes "L = 0 \<or> L = 1" "L \<le> int n"
  shows "compute_discrepancy (lin x) S L n
    = (if L = 0 then gmult 1 (S ! n) else gmult 1 (S ! n) XOR gmult x (S ! (n - 1)))"
proof (cases "L = 0")
  case True
  then show ?thesis by (simp add: compute_discrepancy_def)
next
  case False
  then have "L = 1" using assms by simp
  moreover have "nat (int n - 1) = n - 1" by simp
  moreover have "[0..<nat (1 + 1)] = [0, 1]" by (simp add: numeral_2_eq_2 upt_conv_Cons)
  ultimately show ?thesis by (simp add: compute_discrepancy_def)
qed

text \<open>The syndromes of one error of value \<open>e\<close> at location \<open>x\<close>: a geometric sequence.\<close>

definition one_error :: "nat list \<Rightarrow> nat \<Rightarrow> nat \<Rightarrow> bool" where
  "one_error S e x \<longleftrightarrow> 0 < e \<and> e < 256 \<and> 0 < x \<and> x < 256
     \<and> (\<forall>j<NPAR. S ! j = gmult e (gf.pw x (Suc j)))"

lemma one_error_next: "one_error S e x \<Longrightarrow> Suc j < NPAR \<Longrightarrow> S ! Suc j = gmult x (S ! j)"
  by (simp add: one_error_def gf.mul_left_commute gmult_less gf.pw_less)

lemma one_error_less: "one_error S e x \<Longrightarrow> j < NPAR \<Longrightarrow> S ! j < 256"
  by (simp add: one_error_def gmult_less gf.pw_less del: gf.pw.simps)

lemma one_error_first: "one_error S e x \<Longrightarrow> S ! 0 = gmult e x \<and> S ! 0 \<noteq> 0"
  by (auto simp: one_error_def gf.mul_1_right [simplified] gf.mul_eq_0)

lemma bm_step_first:
  assumes "one_error S e x"
  shows "\<exists>d D. bm_step S 0 \<lparr>bm_psi = lin 0, bm_D = unit_poly 1, bm_k = - 1, bm_L = 0\<rparr>
    = \<lparr>bm_psi = lin (S ! 0), bm_D = unit_poly (ginv (S ! 0)), bm_k = 0, bm_L = 1\<rparr>"
proof -
  let ?d = "S ! 0"
  have d: "?d \<noteq> 0" "?d < 256"
    using one_error_first [OF assms] one_error_less [OF assms NPAR_pos(1)] by blast+
  have disc: "compute_discrepancy (lin 0) S 0 0 = ?d"
    using d by (simp add: discrepancy_lin gmult_1 [simplified])
  have p2: "map (\<lambda>i. lin 0 ! i XOR gmult ?d (unit_poly 1 ! i)) [0..<MAXDEG] = lin ?d"
    by (rule nth_equalityI) (use d in \<open>auto simp: gf.mul_1_right [simplified]\<close>)
  have D: "mul_z_poly (map (\<lambda>i. gmult (lin 0 ! i) (ginv ?d)) [0..<MAXDEG]) = unit_poly (ginv ?d)"
    by (rule nth_equalityI) (use d in \<open>auto simp: mul_z_poly_nth gmult_1 [simplified] ginv_less\<close>)
  show ?thesis
    using d by (simp add: bm_step_def Let_def disc fold_tabulate p2 [simplified] D [simplified] map_nth_all)
qed

lemma bm_step_second:
  assumes "one_error S e x"
  shows "bm_psi (bm_step S 1 \<lparr>bm_psi = lin (S ! 0), bm_D = unit_poly (ginv (S ! 0)), bm_k = 0, bm_L = 1\<rparr>) = lin x
    \<and> bm_L (bm_step S 1 \<lparr>bm_psi = lin (S ! 0), bm_D = unit_poly (ginv (S ! 0)), bm_k = 0, bm_L = 1\<rparr>) = 1"
proof -
  let ?s = "S ! 0"
  have N: "0 < NPAR" "1 < NPAR" "Suc 0 < NPAR" by (simp_all add: NPAR_def)
  have s: "?s \<noteq> 0" "?s < 256" "x < 256" "S ! 1 < 256"
    using one_error_first [OF assms] one_error_less [OF assms N(1)] one_error_less [OF assms N(2)]
      assms [unfolded one_error_def] by blast+
  let ?d = "S ! 1 XOR gmult ?s ?s"
  have disc: "compute_discrepancy (lin ?s) S 1 1 = ?d"
    using s by (simp add: discrepancy_lin gmult_1 [simplified])
  have S1: "S ! 1 = gmult x ?s" using one_error_next [OF assms, of 0] N by simp
  then have fact: "?d = gmult (x XOR ?s) ?s" using s by (simp add: gf.mul_xor_left)
  have i: "ginv ?s < 256" using s by (simp add: ginv_less)
  have "gmult ?d (ginv ?s) = gmult (x XOR ?s) (gmult ?s (ginv ?s))"
    unfolding fact using s i by (simp add: gmult_assoc nat_xor_byte)
  also have "\<dots> = x XOR ?s"
    using s by (simp add: gmult_ginv gf.mul_1_right [simplified] nat_xor_byte)
  finally have dd: "gmult ?d (ginv ?s) = x XOR ?s" .
  have p2: "map (\<lambda>i. lin ?s ! i XOR gmult ?d (unit_poly (ginv ?s) ! i)) [0..<MAXDEG] = lin x"
    by (rule nth_equalityI) (auto simp: dd [simplified] xor_laws)
  show ?thesis
  proof (cases "?d = 0")
    case True
    then have "x = ?s" using dd by (simp add: gmult_def)
    with True show ?thesis by (simp add: bm_step_def Let_def disc [simplified])
  next
    case False
    then show ?thesis
      using p2 by (simp add: bm_step_def Let_def disc [simplified] fold_tabulate map_nth_all)
  qed
qed

lemma bm_step_rest:
  assumes "one_error S e x" "2 \<le> n" "n < NPAR" "bm_psi v = lin x" "bm_L v = 1"
  shows "bm_psi (bm_step S n v) = lin x \<and> bm_L (bm_step S n v) = 1"
proof -
  obtain m where m: "n = Suc m" using assms(2) by (cases n) auto
  have "S ! n < 256" using one_error_less assms by blast
  then have "compute_discrepancy (lin x) S 1 n = 0"
    using one_error_next [OF assms(1), of m] assms
    by (simp add: discrepancy_lin gmult_1 [simplified] m)
  then show ?thesis by (simp add: bm_step_def Let_def assms)
qed

lemma bm_one_error:
  assumes "one_error S e x" "NErasures s = 0"
  shows "bm_psi (fold (bm_step S) [NErasures s..<NPAR] (bm_start s)) = lin x"
proof -
  let ?v2 = "fold (bm_step S) [0, 1] (bm_start s)"
  have v2: "bm_psi ?v2 = lin x \<and> bm_L ?v2 = 1"
    using bm_step_first [OF assms(1)] bm_step_second [OF assms(1)]
    by (auto simp: bm_start_no_erasures assms)
  have N: "2 \<le> NPAR" by (simp add: NPAR_def)
  have "n \<le> NPAR \<Longrightarrow> bm_psi (fold (bm_step S) [2..<n] ?v2) = lin x
      \<and> bm_L (fold (bm_step S) [2..<n] ?v2) = 1" if "2 \<le> n" for n
    using that
  proof (induction n rule: dec_induct)
    case base
    then show ?case using v2 by simp
  next
    case (step n)
    then show ?case using bm_step_rest [OF assms(1)] by simp
  qed
  from this [OF N] have "bm_psi (fold (bm_step S) [2..<NPAR] ?v2) = lin x" by simp
  moreover have "[0..<NPAR] = [0, 1] @ [2..<NPAR]"
    using N by (simp add: upt_conv_Cons numeral_2_eq_2)
  ultimately show ?thesis using assms(2) by simp
qed

lemma omega_one_error:
  assumes "one_error S e x" "length S = MAXDEG" "length om = MAXDEG" "k < MAXDEG"
  shows "fold (\<lambda>i p. p[i := mult_polys (replicate (MAXDEG * 2) 0) (lin x) S (replicate (MAXDEG * 2) 0) ! i])
      [0..<NPAR] (zero_poly om) ! k = (if k = 0 then S ! 0 else 0)"
proof -
  let ?m = "mult_polys (replicate (MAXDEG * 2) 0) (lin x) S (replicate (MAXDEG * 2) 0)"
  have m: "?m ! k = (if k = 0 then S ! 0 else 0)" if "k < NPAR"
  proof -
    have l: "S ! k < 256" using one_error_less [OF assms(1) that] .
    have k: "k < MAXDEG * 2" "k < MAXDEG" "k - 1 < MAXDEG" using that by (simp_all add: MAXDEG_def)
    show ?thesis
      using k l assms(2) one_error_next [OF assms(1), of "k - 1"] that
      by (subst mult_linear_nth) (auto simp: gmult_1 [simplified])
  qed
  show ?thesis
    using assms m
    by (subst nth_fold_upd [where g = "\<lambda>i v. ?m ! i"]) (auto simp: zero_poly_nth)
qed

lemma locator_at_lin:
  assumes "x = alpha loc"
  shows "locator_at (lin x) r = 0 \<longleftrightarrow> (r + loc) mod 255 = 0"
proof -
  have N: "1 < NPAR + 1" "\<And>i. i < NPAR + 1 \<Longrightarrow> i < MAXDEG"
    using NPAR_pos(2) by (simp_all add: MAXDEG_def NPAR_def)
  have g: "gexp ! ((k * r) mod 255) = alpha (k * r)" for k
    using mod_less_divisor [of 255 "k * r"] by (subst gexp_alpha) (simp_all add: alpha_mod)
  have "locator_at (lin x) r = gmult (alpha 0) 1 XOR gmult (alpha r) x"
    unfolding locator_at_def
    by (subst fold_xor_two) (use N g [of 0] g [of 1] in auto)
  also have "\<dots> = 1 XOR alpha (r + loc)"
    by (simp add: gmult_alpha assms gmult_1 [simplified])
  finally have "locator_at (lin x) r = 0 \<longleftrightarrow> alpha (r + loc) = 1" by auto
  then show ?thesis by (simp only: alpha_eq_1)
qed

lemma find_root_none: "\<forall>r\<in>set rs. locator_at lam r \<noteq> 0 \<Longrightarrow> fold (find_root lam) rs s = s"
  by (induction rs arbitrary: s) (auto simp: find_root_def split: prod.splits)

lemma find_roots_lin:
  assumes "x = alpha loc" "loc < 255"
  shows "fold (find_root (lin x)) [1..<256] (locs, 0) = (locs[0 := loc], 1)"
proof -
  let ?r = "255 - loc"
  have root: "locator_at (lin x) r = 0 \<longleftrightarrow> r = ?r" if "1 \<le> r" "r < 256" for r
  proof -
    have "(r + loc) mod 255 = 0 \<longleftrightarrow> r + loc = 255"
    proof
      assume "(r + loc) mod 255 = 0"
      then obtain q where q: "r + loc = 255 * q" by auto
      then have "q = 1" using that assms(2) by (cases q; cases "q - 1") auto
      then show "r + loc = 255" using q by simp
    qed simp
    then show ?thesis using assms that by (auto simp: locator_at_lin)
  qed
  have ne: "locator_at (lin x) r \<noteq> 0" if "1 \<le> r" "r < 256" "r \<noteq> ?r" for r
    using root [OF that(1,2)] that(3) by blast
  have split: "[1..<256] = [1..<?r] @ ?r # [Suc ?r..<256]"
    using assms(2) upt_add_eq_append [of 1 ?r "256 - ?r"] by (simp add: upt_conv_Cons)
  have a: "fold (find_root (lin x)) [1..<?r] (locs, 0) = (locs, 0)"
    by (rule find_root_none, rule ballI, rule ne) (use assms(2) in auto)
  have b: "fold (find_root (lin x)) [Suc ?r..<256] s = s" for s
    by (rule find_root_none, rule ballI, rule ne) (use assms(2) in auto)
  have c: "find_root (lin x) ?r (locs, 0) = (locs[0 := loc], 1)"
    using root [of ?r] assms(2) by (simp add: find_root_def)
  show ?thesis unfolding split fold_append fold_simps comp_def a b c by (simp add: b)
qed

text \<open>The state the corrector needs: the arrays of their lengths.\<close>

definition locator_shape :: "ecc_state \<Rightarrow> bool" where
  "locator_shape s \<longleftrightarrow> length (Lambda s) = MAXDEG \<and> length (Omega s) = MAXDEG
     \<and> length (ErrorLocs s) = 256 \<and> length (ErasureLocs s) = 256 \<and> length (synBytes s) = MAXDEG"

lemma magnitude_one_error:
  assumes "one_error S e x" "Lambda s = lin x" "\<forall>k<MAXDEG. Omega s ! k = (if k = 0 then S ! 0 else 0)"
  shows "error_magnitude s i = e"
proof -
  have e: "e < 256" "x < 256" "0 < x" using assms(1) by (simp_all add: one_error_def)
  have g0: "gexp ! 0 = 1" by (simp add: gexp_nth)
  have s0: "S ! 0 = gmult e x" "S ! 0 < 256"
    using one_error_first [OF assms(1)] one_error_less [OF assms(1) NPAR_pos(1)] by blast+
  have num: "fold (\<lambda>j a. a XOR gmult (Omega s ! j) (gexp ! (((255 - i) * j) mod 255))) [0..<MAXDEG] 0
      = gmult (S ! 0) 1"
    by (subst fold_xor_one) (use assms(3) g0 in auto)
  have up: "[0..<MAXDEG div 2] = 0 # [1..<MAXDEG div 2]"
    by (simp add: upt_conv_Cons MAXDEG_def NPAR_def)
  have "fold (\<lambda>j a. a XOR gmult (Lambda s ! j) (gexp ! (((255 - i) * (j - 1)) mod 255)))
      (map (\<lambda>h. 2 * h + 1) [1..<MAXDEG div 2]) x = x"
    by (rule fold_xor_zero) (auto simp: assms(2) MAXDEG_def NPAR_def lin_def nth_append simp del: upt_Suc)
  then have den: "fold (\<lambda>j a. a XOR gmult (Lambda s ! j) (gexp ! (((255 - i) * (j - 1)) mod 255)))
      (map (\<lambda>h. 2 * h + 1) [0..<MAXDEG div 2]) 0 = x"
    using e g0 by (simp add: up assms(2) gf.mul_1_right [simplified])
  have "gmult (S ! 0) (ginv x) = gmult e (gmult x (ginv x))"
    using e by (simp add: s0 gmult_assoc ginv_less)
  moreover have "error_magnitude s i = gmult (gmult (S ! 0) 1) (ginv x)"
    by (simp only: error_magnitude_def Let_def num den)
  ultimately show ?thesis
    using e s0 by (simp add: gmult_ginv gf.mul_1_right [simplified])
qed

lemma correct_one_error:
  assumes "one_error (synBytes s) e x" "x = alpha loc" "loc < csize" "csize \<le> 255" "locator_shape s"
  shows "\<exists>s'. correct_errors_erasures cw csize 0 [] s
    = (1, cw[csize - loc - 1 := cw ! (csize - loc - 1) XOR of_nat e], s')"
proof -
  let ?s0 = "s\<lparr>NErasures := 0, ErasureLocs := fold (\<lambda>i l. l[i := [] ! i]) [0..<0] (ErasureLocs s)\<rparr>"
  let ?s1 = "Find_Roots (Modified_Berlekamp_Massey ?s0)"
  have sh: "length (Lambda s) = MAXDEG" "length (Omega s) = MAXDEG" "length (ErrorLocs s) = 256"
    "length (synBytes s) = MAXDEG"
    using assms(5) by (simp_all add: locator_shape_def)
  have psi: "bm_psi (fold (bm_step (synBytes s)) [NErasures ?s0..<NPAR] (bm_start ?s0)) = lin x"
    by (rule bm_one_error [OF assms(1)]) simp
  have lam: "Lambda ?s1 = lin x" and om: "\<forall>k<MAXDEG. Omega ?s1 ! k = (if k = 0 then synBytes s ! 0 else 0)"
    and locs: "ErrorLocs ?s1 = (ErrorLocs s)[0 := loc]" "NErrors ?s1 = 1"
    using psi find_roots_lin [OF assms(2)] assms(3,4) omega_one_error [OF assms(1) sh(4) sh(2)]
    by (simp_all add: Find_Roots_def Modified_Berlekamp_Massey_def compute_modified_omega_def Let_def
        sh fold_overwrite del: upt_Suc)
  have mag: "error_magnitude ?s1 loc = e"
    by (rule magnitude_one_error [OF assms(1) lam om])
  have N: "NErrors ?s1 \<le> NPAR" "0 < NErrors ?s1" using locs by (simp_all add: NPAR_def)
  have l0: "ErrorLocs ?s1 ! 0 = loc" using locs sh(3) by simp
  have legal: "\<not> illegal_loc [0..<NErrors ?s1] (ErrorLocs ?s1) csize"
    using l0 locs(2) assms(3) by simp
  have "correct_errors_erasures cw csize 0 [] s
    = (1, fold (\<lambda>r cw. let i = ErrorLocs ?s1 ! r
                   in cw[csize - i - 1 := cw ! (csize - i - 1) XOR of_nat (error_magnitude ?s1 i)])
           [0..<NErrors ?s1] cw, ?s1)"
    unfolding correct_errors_erasures_def Let_def using N legal by (simp only: if_True if_False simp_thms)
  moreover have "[0..<NErrors ?s1] = [0]" unfolding locs(2) by simp
  ultimately show ?thesis
    by (simp only: fold_simps id_apply Let_def l0 mag) blast
qed

section \<open>A corrupted codeword\<close>

lemma alpha_pow: "gf.pw (alpha a) b = alpha (a * b)"
  by (induction b) (simp_all add: gmult_alpha)

lemma syndrome_flip:
  assumes "length data = n" "j < NPAR" "p < n"
  shows "syndrome (data[p := data ! p XOR e]) n j
    = syndrome data n j XOR gmult (unat e) (gf.pw (alpha (n - 1 - p)) (Suc j))"
proof -
  let ?x = "alpha (j + 1)" and ?cs = "map unat data"
  have "map unat (data[p := data ! p XOR e]) = ?cs[p := ?cs ! p XOR unat e]"
    using assms by (simp add: map_update unsigned_xor_eq)
  then have "syndrome (data[p := data ! p XOR e]) n j
      = syndrome data n j XOR gmult (gf.pw ?x (n - Suc p)) (unat e)"
    using assms gf.horner_flip [of ?cs p "unat e" 0 ?x] by (simp add: syndrome_horner)
  then show ?thesis
    by (simp only: alpha_pow gmult_commute [of _ "unat e"]) (simp add: mult.commute)
qed

lemma decode_syndrome:
  assumes "length (synBytes s) = MAXDEG" "j < NPAR"
  shows "synBytes (decode_data data n s) ! j = syndrome data n j"
  using assms unfolding decode_data_def
  by (simp, subst nth_fold_upd [where g = "\<lambda>j v. syndrome data n j"]) (simp_all add: MAXDEG_def)

lemma flipped_one_error:
  assumes "length data = n" "\<forall>j<NPAR. syndrome data n j = 0" "p < n" "e \<noteq> 0" "length (synBytes s) = MAXDEG"
  shows "one_error (synBytes (decode_data (data[p := data ! p XOR e]) n s)) (unat e) (alpha (n - 1 - p))"
  using assms by (simp add: one_error_def decode_syndrome syndrome_flip unat_gt_0 del: gf.pw.simps)

lemma locator_shape_decode: "locator_shape s \<Longrightarrow> locator_shape (decode_data data n s)"
  by (simp add: locator_shape_def decode_data_def length_fold_upd [where g = "\<lambda>i v. f i" for f])

lemma flip_repaired:
  assumes "length data = n" "\<forall>j<NPAR. syndrome data n j = 0" "p < n" "n \<le> 255" "locator_shape s" "e \<noteq> 0"
  shows "\<exists>s'. correct_errors_erasures (data[p := data ! p XOR e]) n 0 []
      (decode_data (data[p := data ! p XOR e]) n s) = (1, data, s')"
proof -
  let ?bad = "data[p := data ! p XOR e]"
  have one: "one_error (synBytes (decode_data ?bad n s)) (unat e) (alpha (n - 1 - p))"
    by (rule flipped_one_error) (use assms in \<open>auto simp: locator_shape_def\<close>)
  have idx: "n - (n - 1 - p) - 1 = p" using assms(3) by simp
  have "?bad[p := ?bad ! p XOR of_nat (unat e)] = data"
    using assms(1,3) by (simp add: xor.assoc)
  then show ?thesis
    using correct_one_error [OF one refl _ assms(4) locator_shape_decode [OF assms(5)], of ?bad]
      assms(3) by (simp only: idx)
qed

lemma flip_detected:
  assumes "length data = n" "\<forall>j<NPAR. syndrome data n j = 0" "p < n" "length (synBytes s) = MAXDEG" "e \<noteq> 0"
  shows "check_syndrome (decode_data (data[p := data ! p XOR e]) n s) \<noteq> 0"
proof -
  have "one_error (synBytes (decode_data (data[p := data ! p XOR e]) n s)) (unat e) (alpha (n - 1 - p))"
    by (rule flipped_one_error) (use assms in auto)
  then have "synBytes (decode_data (data[p := data ! p XOR e]) n s) ! 0 \<noteq> 0"
    using one_error_first by blast
  then have "syndrome (data[p := data ! p XOR e]) n 0 \<noteq> 0"
    unfolding decode_syndrome [OF assms(4) NPAR_pos(1)] .
  moreover have "syndrome (data[p := data ! p XOR e]) n 0 = 0"
    if "check_syndrome (decode_data (data[p := data ! p XOR e]) n s) = 0"
    using that [unfolded check_decode [OF assms(4)], rule_format, OF NPAR_pos(1)] .
  ultimately show ?thesis by (rule contrapos_nn)
qed

text \<open>The corrector keeps the arrays and the generator polynomial.\<close>

lemma length_find_root: "length (fst (fold (find_root lam) rs s)) = length (fst s)"
  by (induction rs arbitrary: s) (simp_all add: find_root_def split: prod.splits)

lemma Find_Roots_frame:
  "genPoly (Find_Roots s) = genPoly s" "pBytes (Find_Roots s) = pBytes s"
  "synBytes (Find_Roots s) = synBytes s" "Lambda (Find_Roots s) = Lambda s"
  "Omega (Find_Roots s) = Omega s" "ErasureLocs (Find_Roots s) = ErasureLocs s"
  "length (ErrorLocs (Find_Roots s)) = length (ErrorLocs s)"
  using length_find_root [of "Lambda s" "[1..<256]" "(ErrorLocs s, 0)"]
  by (cases "fold (find_root (Lambda s)) [1..<256] (ErrorLocs s, 0)";
      simp add: Find_Roots_def)+

lemma Modified_Berlekamp_Massey_frame:
  "genPoly (Modified_Berlekamp_Massey s) = genPoly s" "pBytes (Modified_Berlekamp_Massey s) = pBytes s"
  "synBytes (Modified_Berlekamp_Massey s) = synBytes s"
  "length (Lambda (Modified_Berlekamp_Massey s)) = length (Lambda s)"
  "length (Omega (Modified_Berlekamp_Massey s)) = length (Omega s)"
  "ErasureLocs (Modified_Berlekamp_Massey s) = ErasureLocs s"
  "ErrorLocs (Modified_Berlekamp_Massey s) = ErrorLocs s"
  by (simp_all add: Modified_Berlekamp_Massey_def compute_modified_omega_def Let_def
      length_fold_upd [where g = "\<lambda>i v. f i" for f])

lemma correct_frame:
  assumes "ecc_ready s" "locator_shape s"
  shows "ecc_ready (snd (snd (correct_errors_erasures cw n ne er s)))
    \<and> locator_shape (snd (snd (correct_errors_erasures cw n ne er s)))"
  using assms
  by (simp add: correct_errors_erasures_def Let_def ecc_ready_def locator_shape_def
      Find_Roots_frame Modified_Berlekamp_Massey_frame length_fold_upd [where g = "\<lambda>i v. f i" for f])

text \<open>Correction writes inside the codeword only.\<close>

lemma correct_length:
  "length (fst (snd (correct_errors_erasures cw n ne er s))) = length cw"
  by (simp add: correct_errors_erasures_def Let_def)

lemma locator_shape_encode: "locator_shape s \<Longrightarrow> locator_shape (snd (encode_data m n d s))"
  by (simp add: locator_shape_def encode_data_def Let_def)

lemma locator_shape_init: "locator_shape (initialize_ecc ecc_globals)"
  by (simp add: locator_shape_def initialize_ecc_def ecc_globals_def)

lemma length_encode_data: "length (fst (encode_data msg n dst s)) = length dst"
  by (simp add: encode_data_def build_codeword_def Let_def)

text \<open>
  C13. One wrong byte in a word with zero syndrome, wherever it is and whatever it became,
  is detected, located and set right by \<^verbatim>\<open>correct_errors_erasures\<close>.
\<close>

theorem wrong_byte_corrected:
  assumes "length word = n" "n \<le> 255" "locator_shape s" "check_syndrome (decode_data word n s) = 0"
    and "p < n" "e \<noteq> 0"
  shows "check_syndrome (decode_data (word[p := word ! p XOR e]) n s) \<noteq> 0
    \<and> (\<exists>s'. correct_errors_erasures (word[p := word ! p XOR e]) n 0 []
          (decode_data (word[p := word ! p XOR e]) n s) = (1, word, s'))"
proof -
  have "length (synBytes s) = MAXDEG" using assms(3) by (simp add: locator_shape_def)
  then have "\<forall>j<NPAR. syndrome word n j = 0" using assms(4) by (simp add: check_decode)
  then show ?thesis
    using flip_repaired [OF assms(1) _ assms(5,2,3,6)] flip_detected [OF assms(1) _ assms(5) _ assms(6)]
      \<open>length (synBytes s) = MAXDEG\<close> by blast
qed



theorem wrong_byte_corrected_witness:
  "\<exists>w s'. w = fst (encode_data [7, 1, 200] 3 (replicate (3 + NPAR) 0) (initialize_ecc ecc_globals))
    \<and> correct_errors_erasures (w[2 := w ! 2 XOR 90]) (3 + NPAR) 0 []
        (decode_data (w[2 := w ! 2 XOR 90]) (3 + NPAR) (initialize_ecc ecc_globals)) = (1, w, s')"
proof -
  let ?s = "initialize_ecc ecc_globals"
  let ?w = "fst (encode_data [7, 1, 200] 3 (replicate (3 + NPAR) 0) ?s)"
  have r: "ecc_ready ?s" by (rule initialize_ecc_ready) simp
  have "check_syndrome (decode_data ?w (3 + NPAR) ?s) = 0"
    using codeword_syndrome [OF r, of 3 "[7, 1, 200]" "replicate (3 + NPAR) 0"] locator_shape_init
    by (subst check_decode) (simp_all add: locator_shape_def)
  then show ?thesis
    using wrong_byte_corrected [of ?w "3 + NPAR" ?s 2 90] locator_shape_init
    by (auto simp: length_encode_data NPAR_def)
qed

end
