(* ===== verification/Block_Codec.thy ===== *)
theory Block_Codec
  imports Berlekamp
begin

text \<open>
  The file encoder and decoder of \<^verbatim>\<open>BMS/proj1\<close> (\<^verbatim>\<open>Encoder.cpp\<close>, \<^verbatim>\<open>Decoder.cpp\<close>,
  \<^verbatim>\<open>common.hpp\<close>): a file is cut into blocks of 146 bytes, every block gets 109 parity
  bytes, and the codewords are stored interleaved. A file is its list of bytes, or \<open>None\<close>
  when it cannot be opened. The theorems: what the encoder stores the decoder gives back,
  also when one byte of the stored file is damaged, unless the length is a positive
  multiple of 146; then the index arithmetic of both sides loses data.
\<close>

definition paritySize :: nat where
  "paritySize = NPAR"

definition dataSize :: nat where
  "dataSize = 255 - paritySize"

definition blockSize :: nat where
  "blockSize = dataSize + paritySize"

lemma dataSize_pos [simp]: "0 < dataSize"
  by (simp add: dataSize_def paritySize_def NPAR_def)

section \<open>Encoder\<close>

record encoder =
  enc_ecc :: ecc_state
  enc_size :: nat
  enc_input :: "byte list"
  enc_output :: "byte list"
  enc_encoded :: "byte list"

definition Encoder_new :: "ecc_state \<Rightarrow> encoder" where
  "Encoder_new s = \<lparr>enc_ecc = initialize_ecc s, enc_size = 0, enc_input = [],
     enc_output = replicate 256 0, enc_encoded = []\<rparr>"

text \<open>
  \<^verbatim>\<open>openFile\<close>: the buffer only grows; \<^verbatim>\<open>read\<close> stores what the file has and leaves the rest.
\<close>

definition Encoder_openFile :: "byte list option \<Rightarrow> encoder \<Rightarrow> nat \<times> encoder" where
  "Encoder_openFile file e =
     (case file of
        None \<Rightarrow> (1, e)
      | Some bytes \<Rightarrow>
          let e' = (if enc_size e < length bytes
                    then e\<lparr>enc_size := length bytes, enc_input := replicate (length bytes) 0\<rparr> else e)
          in (0, e'\<lparr>enc_input := bytes @ drop (length bytes) (enc_input e')\<rparr>))"

text \<open>\<^verbatim>\<open>unsigned mapIndex\<close>: the sum of sizes is cut to 32 bits, as is the difference.\<close>

definition encode_index :: "nat \<Rightarrow> nat \<Rightarrow> nat \<Rightarrow> nat \<Rightarrow> u32" where
  "encode_index blocks lastBlockSize blocksCounter i =
     (let mapIndex = of_nat (blocksCounter + i * blocks) :: u32
      in if lastBlockSize < i then mapIndex - of_nat (i - lastBlockSize) else mapIndex)"

definition interleave_block :: "nat \<Rightarrow> nat \<Rightarrow> nat \<Rightarrow> nat \<Rightarrow> byte list \<Rightarrow> byte list \<Rightarrow> byte list" where
  "interleave_block blocks lastBlockSize blocksCounter len output encoded =
     fold (\<lambda>i v. v[unat (encode_index blocks lastBlockSize blocksCounter i) := output ! i]) [0..<len] encoded"

text \<open>The \<^verbatim>\<open>while\<close> loop: its locals are the arguments.\<close>

function encode_loop :: "nat \<Rightarrow> nat \<Rightarrow> nat \<Rightarrow> nat \<Rightarrow> nat \<Rightarrow> encoder \<Rightarrow> encoder" where
  "encode_loop blocks lastBlockSize encodedLength dataLength blocksCounter e =
     (if encodedLength < enc_size e then
        let dataLength' = (if enc_size e < dataLength + encodedLength
                           then enc_size e - encodedLength else dataLength);
            (output, ecc) = encode_data (drop encodedLength (enc_input e)) dataLength' (enc_output e) (enc_ecc e);
            encoded = interleave_block blocks lastBlockSize blocksCounter (dataLength' + paritySize)
                        output (enc_encoded e)
        in encode_loop blocks lastBlockSize (encodedLength + dataSize) dataLength' (blocksCounter + 1)
             (e\<lparr>enc_output := output, enc_ecc := ecc, enc_encoded := encoded\<rparr>)
      else e)"
  by pat_completeness auto

termination
  by (relation "measure (\<lambda>(_, _, l, _, _, e). enc_size e - l)")
    (use dataSize_pos in \<open>auto simp del: dataSize_pos\<close>)

declare encode_loop.simps [simp del]

definition ceil_div :: "nat \<Rightarrow> nat \<Rightarrow> nat" where
  "ceil_div a b = (a + b - 1) div b"

definition encoded_size :: "nat \<Rightarrow> nat" where
  "encoded_size len = (len div dataSize) * blockSize
     + (if len mod dataSize \<noteq> 0 then len mod dataSize + paritySize else 0)"

definition encodeInput :: "encoder \<Rightarrow> encoder" where
  "encodeInput e =
     (let encodedSize = encoded_size (enc_size e);
          lastBlockSize = enc_size e mod dataSize + paritySize;
          blocks = ceil_div encodedSize blockSize
      in encode_loop blocks lastBlockSize 0 dataSize 0 (e\<lparr>enc_encoded := replicate encodedSize 0\<rparr>))"

definition Encoder_saveToFile :: "encoder \<Rightarrow> byte list" where
  "Encoder_saveToFile e = enc_encoded e"

text \<open>\<^verbatim>\<open>main\<close> of \<^verbatim>\<open>bms1A\<close>: \<open>Inl\<close> the exit status, \<open>Inr\<close> the file written.\<close>

definition encoder_main :: "byte list option \<Rightarrow> nat + byte list" where
  "encoder_main file =
     (let (r, e) = Encoder_openFile file (Encoder_new ecc_globals)
      in if r = 1 then Inl 1 else Inr (Encoder_saveToFile (encodeInput e)))"

section \<open>Decoder\<close>

record decoder =
  dec_ecc :: ecc_state
  dec_size :: nat
  dec_input :: "byte list"
  deInterleaved :: "byte list"
  dec_written :: "byte list"

definition Decoder_new :: "ecc_state \<Rightarrow> decoder" where
  "Decoder_new s = \<lparr>dec_ecc = initialize_ecc s, dec_size = 0, dec_input = [], deInterleaved = [], dec_written = []\<rparr>"

definition resize :: "nat \<Rightarrow> byte list \<Rightarrow> byte list" where
  "resize n v = take n v @ replicate (n - length v) 0"

definition Decoder_openFile :: "byte list option \<Rightarrow> decoder \<Rightarrow> nat \<times> decoder" where
  "Decoder_openFile file d =
     (case file of
        None \<Rightarrow> (1, d)
      | Some bytes \<Rightarrow>
          let d' = (if dec_size d < length bytes
                    then d\<lparr>dec_size := length bytes, dec_input := replicate (length bytes) 0\<rparr> else d)
          in (0, d'\<lparr>dec_input := bytes @ drop (length bytes) (dec_input d'),
                    deInterleaved := resize (dec_size d') (deInterleaved d'), dec_written := []\<rparr>))"

text \<open>
  \<^verbatim>\<open>int map\<close>: the \<^verbatim>\<open>size_t\<close> sum is cut to a signed 32-bit value, read as an index.
\<close>

definition decode_index :: "nat \<Rightarrow> nat \<Rightarrow> nat \<Rightarrow> nat \<Rightarrow> int" where
  "decode_index blocks lastBlockSize j i =
     (let map = sint (of_nat (j + i * blocks) :: u32)
      in if lastBlockSize < i then sint (of_int (map - int (i - lastBlockSize)) :: u32) else map)"

definition deinterleave_block :: "nat \<Rightarrow> nat \<Rightarrow> nat \<Rightarrow> nat \<Rightarrow> byte list \<Rightarrow> byte list \<Rightarrow> byte list" where
  "deinterleave_block blocks lastBlockSize len j input out =
     fold (\<lambda>i v. v[i + j * blockSize := input ! nat (decode_index blocks lastBlockSize j i)]) [0..<len] out"

text \<open>
  The loop bound \<^verbatim>\<open>dataLength + paritySize\<close> is a \<^verbatim>\<open>size_t\<close>: \<^verbatim>\<open>lastBlockSize - paritySize\<close>
  wraps below zero at 64 bits and the sum wraps back.
\<close>

definition last_row_count :: "nat \<Rightarrow> nat" where
  "last_row_count lastBlockSize =
     unat ((of_nat lastBlockSize - of_nat paritySize :: u64) + of_nat paritySize)"

definition deInterleave :: "decoder \<Rightarrow> decoder" where
  "deInterleave d =
     (let blocks = ceil_div (dec_size d) blockSize;
          lastBlockSize = dec_size d mod blockSize
      in d\<lparr>deInterleaved := fold (\<lambda>j out.
           deinterleave_block blocks lastBlockSize
             (if j = blocks - 1 then last_row_count lastBlockSize else dataSize + paritySize) j (dec_input d) out)
           [0..<blocks] (deInterleaved d)\<rparr>)"

definition put_block :: "nat \<Rightarrow> byte list \<Rightarrow> byte list \<Rightarrow> byte list" where
  "put_block pos block v = take pos v @ block @ drop (pos + length block) v"

text \<open>
  The \<^verbatim>\<open>while\<close> loop of \<^verbatim>\<open>decodeInput\<close>. \<^verbatim>\<open>writeSize\<close> is a \<^verbatim>\<open>size_t\<close>: a rest shorter than
  the parity wraps, and the write runs out of the buffer (\<open>None\<close>). With \<open>blockLength = 0\<close>
  nothing advances; the loop then has no fuel left (\<open>None\<close>).
\<close>

primrec decode_loop :: "nat \<Rightarrow> nat \<Rightarrow> nat \<Rightarrow> nat \<Rightarrow> decoder \<Rightarrow> decoder option" where
  "decode_loop 0 decoded blockLength writeSize d = (if decoded < dec_size d then None else Some d)"
| "decode_loop (Suc fuel) decoded blockLength writeSize d =
     (if decoded < dec_size d then
        let final = dec_size d \<le> blockLength + decoded;
            blockLength' = (if final then dec_size d - decoded else blockLength);
            writeSize' = (if final then unat (of_nat blockLength' - of_nat paritySize :: u64) else writeSize);
            block = take blockLength' (drop decoded (deInterleaved d));
            ecc = decode_data block blockLength' (dec_ecc d);
            (block', ecc') = (if check_syndrome ecc \<noteq> 0
               then let (ret, cw, s) = correct_errors_erasures block blockLength' 0 [] ecc in (cw, s)
               else (block, ecc));
            buf = put_block decoded block' (deInterleaved d)
        in if length buf < decoded + writeSize' then None
           else decode_loop fuel (decoded + blockLength') blockLength' writeSize'
                  (d\<lparr>dec_ecc := ecc', deInterleaved := buf,
                     dec_written := dec_written d @ take writeSize' (drop decoded buf)\<rparr>)
      else Some d)"

definition decodeInput :: "decoder \<Rightarrow> decoder option" where
  "decodeInput d = decode_loop (dec_size d) 0 blockSize dataSize (deInterleave d)"

text \<open>\<^verbatim>\<open>main\<close> of \<^verbatim>\<open>bms1B\<close>: \<open>Inl\<close> the exit status, \<open>Inr\<close> the file written, \<open>None\<close> no result.\<close>

definition decoder_main :: "byte list option \<Rightarrow> (nat + byte list) option" where
  "decoder_main file =
     (let (r, d) = Decoder_openFile file (Decoder_new ecc_globals)
      in if r = 1 then Some (Inl 1)
         else map_option (\<lambda>d'. Inr (dec_written d')) (decodeInput d))"

section \<open>The interleaving\<close>

text \<open>
  Where the byte \<open>i\<close> of codeword \<open>j\<close> is stored, when \<open>q\<close> full codewords precede a last one
  of \<open>l\<close> bytes: rows of \<open>q + 1\<close> bytes as long as the last codeword lasts, then rows of \<open>q\<close>.
\<close>

definition slot :: "nat \<Rightarrow> nat \<Rightarrow> nat \<Rightarrow> nat \<Rightarrow> nat" where
  "slot q l j i = j + i * (q + 1) - (i - l)"

definition word_len :: "nat \<Rightarrow> nat \<Rightarrow> nat \<Rightarrow> nat" where
  "word_len q l j = (if j < q then blockSize else l)"

lemma sizes [simp]: "blockSize = 255" "dataSize = 146" "paritySize = 109"
  by (simp_all add: blockSize_def dataSize_def paritySize_def NPAR_def)

lemma slot_low: "i \<le> l \<Longrightarrow> slot q l j i = i * (q + 1) + j"
  by (simp add: slot_def)

lemma slot_high: "l \<le> i \<Longrightarrow> slot q l j i = l * (q + 1) + (i - l) * q + j"
proof -
  assume "l \<le> i"
  then obtain k where "i = l + k" by (metis le_Suc_ex)
  then show ?thesis by (simp add: slot_def algebra_simps)
qed

definition unslot :: "nat \<Rightarrow> nat \<Rightarrow> nat \<Rightarrow> nat \<times> nat" where
  "unslot q l p = (if p < l * (q + 1) then (p mod (q + 1), p div (q + 1))
     else ((p - l * (q + 1)) mod q, l + (p - l * (q + 1)) div q))"

lemma divmod_pair: "j < n \<Longrightarrow> (i * n + j) div n = i" "j < n \<Longrightarrow> (i * n + j) mod n = j" for n :: nat
  by simp_all

lemma row_le: "i < l \<Longrightarrow> i * n + n \<le> l * n" for n :: nat
  by (metis Suc_leI add.commute mult_Suc mult_le_mono1)

lemma unslot_slot:
  assumes "j \<le> q" "i < word_len q l j"
  shows "unslot q l (slot q l j i) = (j, i)"
proof (cases "i < l")
  case True
  have "j < q + 1" using assms by simp
  moreover from this have "i * (q + 1) + j < l * (q + 1)"
    using row_le [OF True, of "q + 1"] by linarith
  moreover have "slot q l j i = i * (q + 1) + j" using True by (intro slot_low) simp
  ultimately show ?thesis by (simp only: unslot_def if_True divmod_pair)
next
  case False
  then have "j < q" using assms by (auto simp: word_len_def split: if_splits)
  moreover have "slot q l j i = l * (q + 1) + ((i - l) * q + j)"
    using False by (simp only: slot_high not_less add.assoc)
  moreover have "l + (i - l) = i" using False by simp
  ultimately show ?thesis
    by (simp only: unslot_def not_add_less1 if_False diff_add_inverse divmod_pair)
qed

lemma slot_inj:
  assumes "slot q l j i = slot q l j' i'"
    and "j \<le> q" "i < word_len q l j" "j' \<le> q" "i' < word_len q l j'"
  shows "j = j' \<and> i = i'"
  using unslot_slot [OF assms(2,3)] unslot_slot [OF assms(4,5)] assms(1) by (metis prod.inject)

lemma slot_bound:
  assumes "j \<le> q" "i < word_len q l j" "l < blockSize"
  shows "slot q l j i < q * blockSize + l"
proof (cases "i < l")
  case True
  have "l * (q + 1) = l * q + l" by simp
  moreover have "l * q \<le> 255 * q" using assms by simp
  moreover have "slot q l j i = i * (q + 1) + j" using True by (intro slot_low) simp
  moreover have "q * blockSize = 255 * q" by simp
  ultimately show ?thesis using row_le [OF True, of "q + 1"] assms(1) by linarith
next
  case False
  then have jq: "j < q" and i: "i < 255" using assms by (auto simp: word_len_def split: if_splits)
  obtain k where k: "i = l + k" using False by (metis le_Suc_ex not_less)
  have "l * (q + 1) + k * q + q = l + (l + k + 1) * q" by (simp add: algebra_simps)
  also have "\<dots> \<le> l + 255 * q" using i k by simp
  finally show ?thesis using jq k by (simp add: slot_high)
qed

text \<open>Two bytes of one codeword are at least \<open>q\<close> slots apart.\<close>

lemma slot_step: "slot q l j i + q \<le> slot q l j (Suc i)"
proof (cases "i < l")
  case True
  then show ?thesis by (simp add: slot_low)
next
  case False
  then show ?thesis by (simp add: slot_high Suc_diff_le)
qed

lemma slot_apart: "i < i' \<Longrightarrow> slot q l j i + q \<le> slot q l j i'"
proof (induction i' rule: less_induct)
  case (less k)
  then obtain m where m: "k = Suc m" by (cases k) auto
  show ?case
  proof (cases "i = m")
    case True
    then show ?thesis using slot_step m by simp
  next
    case False
    then have "slot q l j i + q \<le> slot q l j m" using less m by simp
    also have "\<dots> \<le> slot q l j k" using slot_step [of q l j m] m by simp
    finally show ?thesis .
  qed
qed

section \<open>The index arithmetic of the code\<close>

lemma slot_raw_bound:
  assumes "j \<le> q" "i < blockSize" "q < 2 ^ 22"
  shows "j + i * (q + 1) < 2 ^ 31" "i - l \<le> j + i * (q + 1)"
proof -
  have "i * (q + 1) \<le> 254 * (q + 1)" using assms by (intro mult_le_mono1) simp
  then show "j + i * (q + 1) < 2 ^ 31" using assms by simp
  show "i - l \<le> j + i * (q + 1)" by simp
qed

lemma u32_of_nat: "n < 2 ^ 32 \<Longrightarrow> unat (of_nat n :: u32) = n"
  by (simp add: unsigned_of_nat take_bit_nat_eq_self)

lemma u32_diff: "k \<le> n \<Longrightarrow> n < 2 ^ 32 \<Longrightarrow> unat (of_nat n - of_nat k :: u32) = n - k"
  using u32_of_nat [of "n - k"] by (simp only: of_nat_diff)

lemma encode_index_slot:
  assumes "j \<le> q" "i < blockSize" "q < 2 ^ 22"
  shows "unat (encode_index (q + 1) l j i) = slot q l j i"
proof -
  define n k where "n = j + i * (q + 1)" and "k = i - l"
  have "k \<le> n" "n < 2 ^ 31"
    using slot_raw_bound [OF assms] unfolding n_def k_def by blast+
  then have "k \<le> n" "n < 2 ^ 32" by simp_all
  then have "unat (of_nat n :: u32) = n" "unat (of_nat n - of_nat k :: u32) = n - k"
    by (simp_all only: u32_of_nat u32_diff)
  moreover have "k = 0" if "\<not> l < i" using that by (simp add: k_def)
  ultimately show ?thesis
    unfolding encode_index_def slot_def Let_def n_def [symmetric] k_def [symmetric] by auto
qed

lemma s32_of_int: "0 \<le> n \<Longrightarrow> n < 2 ^ 31 \<Longrightarrow> sint (of_int n :: u32) = n"
  by (simp add: signed_of_int signed_take_bit_int_eq_self)

lemma s32_of_nat: "n < 2 ^ 31 \<Longrightarrow> sint (of_nat n :: u32) = int n"
  using s32_of_int [of "int n"] by simp

lemma decode_index_slot:
  assumes "j \<le> q" "i < blockSize" "q < 2 ^ 22"
  shows "nat (decode_index (q + 1) l j i) = slot q l j i"
proof -
  define n k where "n = j + i * (q + 1)" and "k = i - l"
  have kn: "k \<le> n" "n < 2 ^ 31"
    using slot_raw_bound [OF assms] unfolding n_def k_def by blast+
  then have "sint (of_nat n :: u32) = int n" "sint (of_int (int n - int k) :: u32) = int n - int k"
    by (simp_all add: s32_of_nat s32_of_int del: of_int_diff)
  moreover have "k = 0" if "\<not> l < i" using that by (simp add: k_def)
  ultimately show ?thesis
    using kn(1) unfolding decode_index_def slot_def Let_def n_def [symmetric] k_def [symmetric] by auto
qed

lemma last_row_count_eq: "l < 2 ^ 32 \<Longrightarrow> last_row_count l = l"
  by (simp add: last_row_count_def unsigned_of_nat take_bit_nat_eq_self)

section \<open>The stored file\<close>

text \<open>The codeword of one block, and the block itself.\<close>

definition codeword :: "nat list \<Rightarrow> byte list \<Rightarrow> byte list" where
  "codeword gen bs = bs @ map of_nat (rev (take NPAR (lfsr_run gen (map unat bs))))"

definition chunk :: "byte list \<Rightarrow> nat \<Rightarrow> byte list" where
  "chunk data j = take dataSize (drop (dataSize * j) data)"

lemma length_codeword [simp]: "length (codeword gen bs) = length bs + paritySize"
  by (simp add: codeword_def NPAR_def)

lemma encode_data_codeword:
  assumes "n \<le> length msg" "n + paritySize \<le> length dst" "ecc_ready s"
  shows "fst (encode_data msg n dst s) = codeword (genPoly s) (take n msg) @ drop (n + paritySize) dst"
  using assms by (subst encode_data_lfsr) (simp_all add: codeword_def NPAR_def ecc_ready_def MAXDEG_def)

lemma encode_data_genPoly: "genPoly (snd (encode_data msg n dst s)) = genPoly s"
  by (simp add: encode_data_def Let_def)

lemma length_chunk:
  "length data = q * dataSize + r \<Longrightarrow> r < dataSize \<Longrightarrow> j \<le> q \<Longrightarrow>
    length (chunk data j) + paritySize = word_len q (r + paritySize) j"
proof -
  assume a: "length data = q * dataSize + r" "r < dataSize" "j \<le> q"
  then obtain k where k: "q = j + k" by (metis le_Suc_ex)
  with a show ?thesis by (cases k) (simp_all add: chunk_def word_len_def)
qed

definition stored_upto :: "nat list \<Rightarrow> byte list \<Rightarrow> nat \<Rightarrow> nat \<Rightarrow> nat \<Rightarrow> byte list \<Rightarrow> bool" where
  "stored_upto gen data q l c enc \<longleftrightarrow> length enc = q * blockSize + l
     \<and> (\<forall>j i. j < c \<longrightarrow> i < word_len q l j \<longrightarrow> enc ! slot q l j i = codeword gen (chunk data j) ! i)"

lemma interleave_block_stored:
  assumes "stored_upto gen data q l c enc" "c \<le> q" "q < 2 ^ 22" "l < blockSize"
    and "m = word_len q l c" "\<And>i. i < m \<Longrightarrow> out ! i = codeword gen (chunk data c) ! i"
  shows "stored_upto gen data q l (Suc c) (interleave_block (q + 1) l c m out enc)"
proof -
  let ?h = "\<lambda>i. unat (encode_index (q + 1) l c i)"
  have m: "m \<le> blockSize" using assms(4,5) by (simp add: word_len_def)
  have h: "?h i = slot q l c i" if "i < m" for i
    using that m assms(2,3) by (intro encode_index_slot) auto
  have inj: "inj_on ?h (set [0..<m])"
    using h slot_inj [of q l c _ c] assms(2,5) by (intro inj_onI) auto
  have b: "slot q l c i < length enc" if "i < m" for i
    using slot_bound [OF assms(2) that [unfolded assms(5)] assms(4)] assms(1)
    by (simp add: stored_upto_def)
  have hit: "interleave_block (q + 1) l c m out enc ! slot q l c i = out ! i" if "i < m" for i
    unfolding interleave_block_def h [OF that, symmetric]
    by (rule nth_fold_hit [OF inj]) (use that b [OF that] h [OF that] in simp_all)
  have miss: "interleave_block (q + 1) l c m out enc ! slot q l j i = enc ! slot q l j i"
    if "j < c" "i < word_len q l j" for i j
    unfolding interleave_block_def
  proof (rule nth_fold_miss, rule notI)
    assume "slot q l j i \<in> ?h ` set [0..<m]"
    then obtain i' where "i' < m" "slot q l j i = slot q l c i'" using h by auto
    then show False using slot_inj [of q l j i c i'] that assms(2,5) by simp
  qed
  show ?thesis
    using assms hit miss by (auto simp: stored_upto_def less_Suc_eq interleave_block_def)
qed

text \<open>What the loop needs of the encoder at block \<open>c\<close>.\<close>

definition enc_at :: "nat list \<Rightarrow> byte list \<Rightarrow> nat \<Rightarrow> nat \<Rightarrow> nat \<Rightarrow> encoder \<Rightarrow> bool" where
  "enc_at gen data q l c e \<longleftrightarrow> enc_size e = length data \<and> enc_input e = data
     \<and> length (enc_output e) = 256 \<and> ecc_ready (enc_ecc e) \<and> genPoly (enc_ecc e) = gen
     \<and> stored_upto gen data q l c (enc_encoded e)"

lemma encode_loop_step:
  assumes "el < enc_size e" "dl' = (if enc_size e < dl + el then enc_size e - el else dl)"
    and "encode_data (drop el (enc_input e)) dl' (enc_output e) (enc_ecc e) = (out, ecc)"
  shows "encode_loop b l el dl c e = encode_loop b l (el + dataSize) dl' (c + 1)
    (e\<lparr>enc_output := out, enc_ecc := ecc,
       enc_encoded := interleave_block b l c (dl' + paritySize) out (enc_encoded e)\<rparr>)"
  using assms(1) assms(3) [unfolded assms(2)] unfolding assms(2)
  by (subst encode_loop.simps) (simp only: if_True Let_def prod.case)

lemma encode_loop_stored:
  assumes "length data = q * dataSize + r" "0 < r" "r < dataSize" "l = r + paritySize" "q < 2 ^ 22"
    and "enc_at gen data q l c e" "c \<le> Suc q" "c \<le> q \<longrightarrow> dl = dataSize"
  shows "stored_upto gen data q l (Suc q) (enc_encoded (encode_loop (q + 1) l (dataSize * c) dl c e))"
  using assms(6-8)
proof (induction "Suc q - c" arbitrary: c e dl)
  case 0
  then have c: "c = Suc q" by simp
  then have "\<not> dataSize * c < enc_size e" using 0 assms(1,3) by (simp add: enc_at_def)
  then show ?case using 0 c by (subst encode_loop.simps) (simp add: enc_at_def)
next
  case (Suc d)
  then have cq: "c \<le> q" and dl: "dl = dataSize" by simp_all
  then obtain k where k: "q = c + k" by (metis le_Suc_ex)
  have e: "enc_size e = length data" "enc_input e = data" "length (enc_output e) = 256"
    "ecc_ready (enc_ecc e)" "genPoly (enc_ecc e) = gen" "stored_upto gen data q l c (enc_encoded e)"
    using Suc.prems(1) by (simp_all add: enc_at_def)
  have go: "dataSize * c < enc_size e" using e assms(1,2) k by simp
  define dl' where "dl' = (if enc_size e < dl + dataSize * c then enc_size e - dataSize * c else dl)"
  have tk: "take dl' (drop (dataSize * c) data) = chunk data c"
    using dl e(1) by (simp add: dl'_def chunk_def)
  have dlen: "dl' \<le> length (drop (dataSize * c) data)" "dl' + paritySize \<le> length (enc_output e)"
    using dl e(1,3) by (auto simp: dl'_def)
  have len: "dl' + paritySize = word_len q l c"
    using length_chunk [OF assms(1,3) cq] dlen(1) assms(4) unfolding tk [symmetric] by simp
  obtain out ecc where oe: "encode_data (drop (dataSize * c) (enc_input e)) dl' (enc_output e) (enc_ecc e) = (out, ecc)"
    by (metis surj_pair)
  have out: "out = codeword gen (chunk data c) @ drop (dl' + paritySize) (enc_output e)"
    using encode_data_codeword [OF dlen e(4)] oe e unfolding tk by simp
  have ecc: "ecc_ready ecc" "genPoly ecc = gen"
    using encode_data_ready [OF e(4)] encode_data_genPoly oe e(5) by (metis snd_conv)+
  have lc: "length (codeword gen (chunk data c)) = word_len q l c"
    using length_chunk [OF assms(1,3) cq] assms(4) by simp
  let ?enc = "interleave_block (q + 1) l c (dl' + paritySize) out (enc_encoded e)"
  have st: "stored_upto gen data q l (Suc c) ?enc"
    by (rule interleave_block_stored [OF e(6) cq assms(5)])
      (use assms len lc out in \<open>auto simp: nth_append\<close>)
  have lo: "length out = 256" using out lc len dlen(2) e(3) by simp
  let ?e = "e\<lparr>enc_output := out, enc_ecc := ecc, enc_encoded := ?enc\<rparr>"
  have at: "enc_at gen data q l (Suc c) ?e"
    using e ecc st lo by (simp add: enc_at_def)
  have dl2: "Suc c \<le> q \<longrightarrow> dl' = dataSize"
  proof
    assume "Suc c \<le> q"
    then show "dl' = dataSize" using len by (simp add: word_len_def)
  qed
  have "encode_loop (q + 1) l (dataSize * c) dl c e = encode_loop (q + 1) l (dataSize * Suc c) dl' (Suc c) ?e"
    using encode_loop_step [OF go dl'_def oe, of "q + 1" l c] by (simp add: add.commute)
  moreover have "stored_upto gen data q l (Suc q)
      (enc_encoded (encode_loop (q + 1) l (dataSize * Suc c) dl' (Suc c) ?e))"
    using Suc.hyps(2) cq dl2 at by (intro Suc.hyps(1)) simp_all
  ultimately show ?case by simp
qed

section \<open>Reading the blocks back\<close>

definition received :: "nat \<Rightarrow> nat \<Rightarrow> byte list \<Rightarrow> nat \<Rightarrow> byte list" where
  "received q l input j = map (\<lambda>i. input ! slot q l j i) [0..<word_len q l j]"

lemma length_received [simp]: "length (received q l input j) = word_len q l j"
  by (simp add: received_def)

lemma received_nth: "i < word_len q l j \<Longrightarrow> received q l input j ! i = input ! slot q l j i"
  by (simp add: received_def)

definition collected_upto :: "nat \<Rightarrow> nat \<Rightarrow> byte list \<Rightarrow> nat \<Rightarrow> byte list \<Rightarrow> bool" where
  "collected_upto q l input c v \<longleftrightarrow> length v = q * blockSize + l
     \<and> (\<forall>j i. j < c \<longrightarrow> i < word_len q l j \<longrightarrow> v ! (i + j * blockSize) = input ! slot q l j i)"

lemma deinterleave_block_collected:
  assumes "collected_upto q l input c v" "c \<le> q" "q < 2 ^ 22" "l < blockSize" "m = word_len q l c"
  shows "collected_upto q l input (Suc c) (deinterleave_block (q + 1) l m c input v)"
proof -
  let ?h = "\<lambda>i. i + c * blockSize"
  let ?f = "\<lambda>i. input ! nat (decode_index (q + 1) l c i)"
  have m: "m \<le> blockSize" using assms(4,5) by (simp add: word_len_def)
  have f: "?f i = input ! slot q l c i" if "i < m" for i
    using that m assms(2,3) decode_index_slot [of c q i l] by simp
  have b: "?h i < length v" if "i < m" for i
  proof (cases "c < q")
    case True
    then obtain k where "q = c + Suc k" using less_iff_Suc_add by auto
    then show ?thesis using that m assms(1) by (simp add: collected_upto_def)
  next
    case False
    then have "c = q" using assms(2) by simp
    then show ?thesis using that assms(1,5) by (simp add: collected_upto_def word_len_def)
  qed
  have inj: "inj_on ?h (set [0..<m])" by (auto intro: inj_onI)
  have hit: "deinterleave_block (q + 1) l m c input v ! (i + c * blockSize) = input ! slot q l c i"
    if "i < m" for i
    unfolding deinterleave_block_def f [OF that, symmetric]
    by (rule nth_fold_hit [OF inj, of i v ?f]) (use that b [OF that] in simp_all)
  have miss: "deinterleave_block (q + 1) l m c input v ! (i + j * blockSize) = v ! (i + j * blockSize)"
    if "j < c" "i < word_len q l j" for i j
    unfolding deinterleave_block_def
  proof (rule nth_fold_miss, rule notI)
    assume "i + j * blockSize \<in> ?h ` set [0..<m]"
    moreover have "i < blockSize" using that(2) assms(4) by (auto simp: word_len_def split: if_splits)
    ultimately show False using that(1) by auto
  qed
  show ?thesis
    using assms hit miss by (auto simp: collected_upto_def less_Suc_eq deinterleave_block_def)
qed

lemma ceil_div_eq: "0 < l \<Longrightarrow> l < b \<Longrightarrow> ceil_div (q * b + l) b = q + 1"
proof -
  assume "0 < l" "l < b"
  then have "q * b + l + b - 1 = (q + 1) * b + (l - 1)" "l - 1 < b"
    by (simp_all add: algebra_simps)
  then show ?thesis unfolding ceil_div_def by (simp only: divmod_pair)
qed

lemmas ceil_div_blocks = ceil_div_eq [of _ blockSize]

lemma deInterleave_collected:
  assumes "dec_size d = q * blockSize + l" "length (deInterleaved d) = dec_size d"
    and "0 < l" "l < blockSize" "q < 2 ^ 22"
  shows "collected_upto q l (dec_input d) (Suc q) (deInterleaved (deInterleave d))
    \<and> deInterleave d = d\<lparr>deInterleaved := deInterleaved (deInterleave d)\<rparr>"
proof -
  have lb: "dec_size d mod blockSize = l" and bl: "ceil_div (dec_size d) blockSize = q + 1"
    using assms ceil_div_blocks [of l q] by simp_all
  have cnt: "(if j = q + 1 - 1 then last_row_count l else dataSize + paritySize) = word_len q l j"
    if "j \<le> q" for j
    using that assms(4) last_row_count_eq [of l] by (simp add: word_len_def)
  let ?s = "\<lambda>j out. deinterleave_block (q + 1) l
       (if j = q + 1 - 1 then last_row_count l else dataSize + paritySize) j (dec_input d) out"
  have "c \<le> Suc q \<Longrightarrow> collected_upto q l (dec_input d) c (fold ?s [0..<c] (deInterleaved d))" for c
  proof (induction c)
    case 0
    then show ?case using assms by (simp add: collected_upto_def)
  next
    case (Suc c)
    then have "collected_upto q l (dec_input d) (Suc c)
        (deinterleave_block (q + 1) l (word_len q l c) c (dec_input d) (fold ?s [0..<c] (deInterleaved d)))"
      using assms by (intro deinterleave_block_collected) simp_all
    then show ?case using Suc.prems cnt [of c] by simp
  qed
  from this [of "q + 1"] show ?thesis
    unfolding deInterleave_def Let_def lb bl by simp
qed

lemma collected_block:
  assumes "collected_upto q l input (Suc q) v" "j \<le> q" "l \<le> blockSize"
  shows "take (word_len q l j) (drop (j * blockSize) v) = received q l input j"
proof -
  have "j * blockSize + word_len q l j \<le> length v"
  proof (cases "j < q")
    case True
    then obtain k where "q = j + Suc k" using less_iff_Suc_add by auto
    then show ?thesis using assms by (simp add: word_len_def collected_upto_def)
  qed (use assms in \<open>simp add: word_len_def collected_upto_def\<close>)
  then show ?thesis
    using assms by (intro nth_equalityI) (auto simp: collected_upto_def received_nth add.commute)
qed

section \<open>Repairing one block\<close>

lemma codeword_clean:
  assumes "ecc_ready s" "j < NPAR"
  shows "syndrome (codeword (genPoly s) bs) (length bs + paritySize) j = 0"
proof -
  let ?dst = "replicate (length bs + paritySize) 0"
  have "fst (encode_data bs (length bs) ?dst s) = codeword (genPoly s) bs"
    using encode_data_codeword [of "length bs" bs ?dst s] assms(1) by simp
  then show ?thesis
    using codeword_syndrome [OF assms(1) order_refl, of bs ?dst j] assms(2) by (simp add: NPAR_def)
qed

text \<open>At most one byte of a received block differs from what was sent.\<close>

definition nearly :: "byte list \<Rightarrow> byte list \<Rightarrow> bool" where
  "nearly w cw \<longleftrightarrow> length w = length cw
     \<and> (\<forall>i i'. i < i' \<longrightarrow> i' < length cw \<longrightarrow> w ! i = cw ! i \<or> w ! i' = cw ! i')"

lemma nearly_cases:
  assumes "nearly w cw"
  obtains "w = cw" | p e where "p < length cw" "e \<noteq> 0" "w = cw[p := cw ! p XOR e]"
proof (cases "w = cw")
  case False
  have l: "length w = length cw" using assms by (simp add: nearly_def)
  from False l obtain p where p: "p < length cw" "w ! p \<noteq> cw ! p" by (metis nth_equalityI)
  have o: "w ! i = cw ! i" if "i \<noteq> p" "i < length cw" for i
    using assms p that unfolding nearly_def by (metis nat_neq_iff)
  have "w = cw[p := cw ! p XOR (cw ! p XOR w ! p)]"
    using l o p by (intro nth_equalityI) (auto simp: nth_list_update simp flip: xor.assoc)
  moreover have "cw ! p XOR w ! p \<noteq> 0"
  proof
    assume "cw ! p XOR w ! p = 0"
    then have "cw ! p XOR (cw ! p XOR w ! p) = cw ! p" by simp
    with p show False by (simp flip: xor.assoc)
  qed
  ultimately show ?thesis using that(2) p(1) by blast
qed (rule that(1))

lemma block_repaired:
  assumes "ecc_ready s" "locator_shape s" "ecc_ready g" "nearly w (codeword (genPoly g) bs)"
    "n = length bs + paritySize" "n \<le> 255"
  shows "\<exists>s'. (if check_syndrome (decode_data w n s) \<noteq> 0
      then let (ret, cw, t) = correct_errors_erasures w n 0 [] (decode_data w n s) in (cw, t)
      else (w, decode_data w n s)) = (codeword (genPoly g) bs, s') \<and> ecc_ready s' \<and> locator_shape s'"
proof -
  let ?cw = "codeword (genPoly g) bs"
  have l: "length ?cw = n" using assms by simp
  have z: "\<forall>j<NPAR. syndrome ?cw n j = 0" using codeword_clean [OF assms(3)] assms(5) by simp
  have sy: "length (synBytes s) = MAXDEG" using assms(2) by (simp add: locator_shape_def)
  note keep = decode_data_ready [OF assms(1)] locator_shape_decode [OF assms(2)]
  from assms(4) show ?thesis
  proof (cases rule: nearly_cases)
    case 1
    then show ?thesis using z check_decode [OF sy, of ?cw n] keep by auto
  next
    case (2 p e)
    then have p: "p < n" using l by simp
    obtain t where t: "correct_errors_erasures w n 0 [] (decode_data w n s) = (1, ?cw, t)"
      using flip_repaired [OF l z p assms(6,2) 2(2)] 2(3) by auto
    have "check_syndrome (decode_data w n s) \<noteq> 0"
      using flip_detected [OF l z p sy 2(2)] 2(3) by simp
    moreover have "ecc_ready t \<and> locator_shape t"
      using correct_frame [OF keep, of w n 0 "[]" w n] t by simp
    ultimately show ?thesis using t by auto
  qed
qed

section \<open>The decoder's loop\<close>

lemma decode_loop_step:
  assumes "decoded < dec_size d"
    and "bl' = (if dec_size d \<le> bl + decoded then dec_size d - decoded else bl)"
    and "ws' = (if dec_size d \<le> bl + decoded then unat (of_nat bl' - of_nat paritySize :: u64) else ws)"
    and "block = take bl' (drop decoded (deInterleaved d))"
    and "(if check_syndrome (decode_data block bl' (dec_ecc d)) \<noteq> 0
          then let (ret, cw, t) = correct_errors_erasures block bl' 0 [] (decode_data block bl' (dec_ecc d)) in (cw, t)
          else (block, decode_data block bl' (dec_ecc d))) = (block', ecc')"
    and "buf = put_block decoded block' (deInterleaved d)" "decoded + ws' \<le> length buf"
  shows "decode_loop (Suc fuel) decoded bl ws d = decode_loop fuel (decoded + bl') bl' ws'
    (d\<lparr>dec_ecc := ecc', deInterleaved := buf,
       dec_written := dec_written d @ take ws' (drop decoded buf)\<rparr>)"
  unfolding decode_loop.simps Let_def
  unfolding assms(2) [symmetric]
  unfolding assms(3) [symmetric] assms(4) [symmetric]
  unfolding assms(5) [unfolded Let_def] prod.case
  unfolding assms(6) [symmetric]
  using assms(1,7) by simp

lemma u64_minus_parity: "paritySize \<le> l \<Longrightarrow> l \<le> 255 \<Longrightarrow> unat (of_nat l - of_nat paritySize :: u64) = l - paritySize"
proof -
  assume a: "paritySize \<le> l" "l \<le> 255"
  then have "(of_nat l - of_nat paritySize :: u64) = of_nat (l - paritySize)" by (simp only: of_nat_diff)
  then show ?thesis using a by (simp only: unsigned_of_nat) (simp add: take_bit_nat_eq_self)
qed

text \<open>What the loop needs of the decoder at block \<open>c\<close>.\<close>

definition dec_at :: "byte list \<Rightarrow> nat \<Rightarrow> nat \<Rightarrow> byte list \<Rightarrow> nat \<Rightarrow> decoder \<Rightarrow> bool" where
  "dec_at data q l v c d \<longleftrightarrow> dec_size d = q * blockSize + l \<and> length (deInterleaved d) = dec_size d
     \<and> drop (c * blockSize) (deInterleaved d) = drop (c * blockSize) v
     \<and> ecc_ready (dec_ecc d) \<and> locator_shape (dec_ecc d)
     \<and> dec_written d = take (c * dataSize) data"

lemma decode_loop_written:
  assumes "length data = q * dataSize + r" "0 < r" "r < dataSize" "l = r + paritySize"
    and "ecc_ready g" "collected_upto q l input (Suc q) v"
    and near: "\<And>j. j \<le> q \<Longrightarrow> nearly (received q l input j) (codeword (genPoly g) (chunk data j))"
    and "dec_at data q l v c d" "c \<le> q" "Suc q \<le> fuel + c"
  shows "\<exists>d'. decode_loop fuel (c * blockSize) blockSize dataSize d = Some d' \<and> dec_written d' = data"
  using assms(8-10)
proof (induction "q - c" arbitrary: c d fuel)
  case (0 c d fuel)
  then have c: "c = q" by simp
  obtain f where f: "fuel = Suc f" using 0 c by (cases fuel) auto
  have d: "dec_size d = q * blockSize + l" "length (deInterleaved d) = dec_size d"
    "drop (c * blockSize) (deInterleaved d) = drop (c * blockSize) v"
    "ecc_ready (dec_ecc d)" "locator_shape (dec_ecc d)" "dec_written d = take (c * dataSize) data"
    using 0 by (simp_all add: dec_at_def)
  have l: "0 < l" "l < blockSize" using assms(3,4) by simp_all
  let ?w = "received q l input q"
  have blk: "take l (drop (c * blockSize) (deInterleaved d)) = ?w"
    using collected_block [OF assms(6), of q] l unfolding d(3) unfolding c by (simp add: word_len_def)
  have n: "l = length (chunk data q) + paritySize" "l \<le> 255"
    using length_chunk [OF assms(1,3), of q] assms(3,4) by (simp_all add: word_len_def)
  obtain s' where s': "(if check_syndrome (decode_data ?w l (dec_ecc d)) \<noteq> 0
      then let (ret, cw, t) = correct_errors_erasures ?w l 0 [] (decode_data ?w l (dec_ecc d)) in (cw, t)
      else (?w, decode_data ?w l (dec_ecc d))) = (codeword (genPoly g) (chunk data q), s')"
    using block_repaired [OF d(4,5) assms(5) near n] by blast
  let ?cw = "codeword (genPoly g) (chunk data q)"
  let ?buf = "put_block (c * blockSize) ?cw (deInterleaved d)"
  have lc: "length ?cw = l" using n by simp
  have buf: "length ?buf = dec_size d" "take r (drop (c * blockSize) ?buf) = chunk data q"
    using lc d(1,2) c n assms(4) by (simp_all add: put_block_def codeword_def)
  have "chunk data q = drop (q * dataSize) data"
    using assms(1,3) by (simp add: chunk_def mult.commute)
  then have all: "take (c * dataSize) data @ chunk data q = data"
    by (simp add: c)
  have "decode_loop fuel (c * blockSize) blockSize dataSize d = decode_loop f (c * blockSize + l) l r
      (d\<lparr>dec_ecc := s', deInterleaved := ?buf, dec_written := dec_written d @ take r (drop (c * blockSize) ?buf)\<rparr>)"
    unfolding f using l d(1) c assms(4) u64_minus_parity [of l] buf(1)
    by (intro decode_loop_step [OF _ _ _ blk [symmetric] s' refl]) simp_all
  moreover have "decode_loop f (c * blockSize + l) l r e = Some e" if "dec_size e = q * blockSize + l" for e
    using that c by (cases f) simp_all
  ultimately show ?case using d(1,6) buf(2) all by simp
next
  case (Suc k c d fuel)
  then have c: "c < q" by simp
  then obtain k' where k': "q = c + Suc k'" using less_iff_Suc_add by auto
  obtain f where f: "fuel = Suc f" using Suc c by (cases fuel) auto
  have d: "dec_size d = q * blockSize + l" "length (deInterleaved d) = dec_size d"
    "drop (c * blockSize) (deInterleaved d) = drop (c * blockSize) v"
    "ecc_ready (dec_ecc d)" "locator_shape (dec_ecc d)" "dec_written d = take (c * dataSize) data"
    using Suc by (simp_all add: dec_at_def)
  let ?w = "received q l input c"
  have wl: "word_len q l c = blockSize" using c by (simp add: word_len_def)
  have blk: "take blockSize (drop (c * blockSize) (deInterleaved d)) = ?w"
    using collected_block [OF assms(6), of c] c assms(3,4) unfolding wl d(3) by simp
  have n: "blockSize = length (chunk data c) + paritySize" "blockSize \<le> 255"
    using length_chunk [OF assms(1,3), of c] c by (simp_all add: word_len_def)
  obtain s' where s': "(if check_syndrome (decode_data ?w blockSize (dec_ecc d)) \<noteq> 0
      then let (ret, cw, t) = correct_errors_erasures ?w blockSize 0 [] (decode_data ?w blockSize (dec_ecc d)) in (cw, t)
      else (?w, decode_data ?w blockSize (dec_ecc d))) = (codeword (genPoly g) (chunk data c), s')"
    and keep: "ecc_ready s'" "locator_shape s'"
    using block_repaired [OF d(4,5) assms(5) near n] c by fastforce
  let ?cw = "codeword (genPoly g) (chunk data c)"
  let ?buf = "put_block (c * blockSize) ?cw (deInterleaved d)"
  have lc: "length ?cw = blockSize" using n by simp
  have buf: "length ?buf = dec_size d" "take dataSize (drop (c * blockSize) ?buf) = chunk data c"
    "drop (c * blockSize + blockSize) ?buf = drop (c * blockSize + blockSize) v"
  proof -
    show "length ?buf = dec_size d" using lc d(1,2) k' by (simp add: put_block_def)
    show "take dataSize (drop (c * blockSize) ?buf) = chunk data c"
      using d(1,2) k' n by (simp add: put_block_def codeword_def)
    have "drop (c * blockSize + blockSize) ?buf = drop blockSize (drop (c * blockSize) (deInterleaved d))"
      using lc d(1,2) k' by (simp add: put_block_def add.commute)
    also have "\<dots> = drop blockSize (drop (c * blockSize) v)" by (simp only: d(3))
    also have "\<dots> = drop (c * blockSize + blockSize) v" by (simp only: drop_drop add.commute)
    finally show "drop (c * blockSize + blockSize) ?buf = drop (c * blockSize + blockSize) v" .
  qed
  let ?d = "d\<lparr>dec_ecc := s', deInterleaved := ?buf,
    dec_written := dec_written d @ take dataSize (drop (c * blockSize) ?buf)\<rparr>"
  have loop: "decode_loop fuel (c * blockSize) blockSize dataSize d
      = decode_loop f (c * blockSize + blockSize) blockSize dataSize ?d"
    unfolding f using d(1) k' assms(2,4) buf(1)
    by (intro decode_loop_step [OF _ _ _ blk [symmetric] s' refl]) simp_all
  have wr: "take (c * dataSize) data @ chunk data c = take (Suc c * dataSize) data"
  proof -
    have "Suc c * dataSize = c * dataSize + dataSize" by simp
    then show ?thesis by (simp only: chunk_def take_add mult.commute [of dataSize])
  qed
  have "dec_at data q l v (Suc c) ?d"
    using d(1,2,6) keep buf wr by (simp add: dec_at_def add.commute)
  then show ?case
    using Suc.hyps(1) [of "Suc c" ?d f] Suc.hyps(2) Suc.prems(3) f c loop by (simp add: add.commute)
qed

section \<open>The two programs\<close>

definition gen0 :: "nat list" where
  "gen0 = genPoly (initialize_ecc ecc_globals)"

lemma init_ready: "ecc_ready (initialize_ecc ecc_globals)"
  by (rule initialize_ecc_ready) simp

lemma encoder_main_stored:
  assumes "length data = q * dataSize + r" "0 < r" "r < dataSize" "l = r + paritySize" "q < 2 ^ 22"
  shows "\<exists>enc. encoder_main (Some data) = Inr enc \<and> stored_upto gen0 data q l (Suc q) enc"
proof -
  obtain e where e: "Encoder_openFile (Some data) (Encoder_new ecc_globals) = (0, e)"
    "enc_size e = length data" "enc_input e = data" "enc_output e = replicate 256 0"
    "enc_ecc e = initialize_ecc ecc_globals"
    using assms(2) by (auto simp: Encoder_openFile_def Encoder_new_def Let_def)
  have sz: "encoded_size (enc_size e) = q * blockSize + l" "enc_size e mod dataSize + paritySize = l"
    using assms e(2) by (simp_all add: encoded_size_def)
  have bl: "ceil_div (q * blockSize + l) blockSize = q + 1"
    using assms ceil_div_blocks [of l q] by simp
  let ?e = "e\<lparr>enc_encoded := replicate (q * blockSize + l) 0\<rparr>"
  have at: "enc_at gen0 data q l 0 ?e"
    using e init_ready by (simp add: enc_at_def stored_upto_def gen0_def)
  have "encodeInput e = encode_loop (q + 1) l 0 dataSize 0 ?e"
    unfolding encodeInput_def Let_def sz bl ..
  then have "stored_upto gen0 data q l (Suc q) (enc_encoded (encodeInput e))"
    using encode_loop_stored [OF assms at] by simp
  then show ?thesis
    using e(1) by (simp add: encoder_main_def Encoder_saveToFile_def)
qed

lemma decoder_main_read:
  assumes "length data = q * dataSize + r" "0 < r" "r < dataSize" "l = r + paritySize" "q < 2 ^ 22"
    and "length input = q * blockSize + l"
    and "\<And>j. j \<le> q \<Longrightarrow> nearly (received q l input j) (codeword gen0 (chunk data j))"
  shows "decoder_main (Some input) = Some (Inr data)"
proof -
  obtain d where d: "Decoder_openFile (Some input) (Decoder_new ecc_globals) = (0, d)"
    "dec_size d = q * blockSize + l" "dec_input d = input" "length (deInterleaved d) = dec_size d"
    "dec_ecc d = initialize_ecc ecc_globals" "dec_written d = []"
    using assms(2,4,6) by (auto simp: Decoder_openFile_def Decoder_new_def Let_def resize_def)
  have l: "0 < l" "l < blockSize" using assms by simp_all
  let ?v = "deInterleaved (deInterleave d)"
  have v: "collected_upto q l input (Suc q) ?v" "deInterleave d = d\<lparr>deInterleaved := ?v\<rparr>"
    using deInterleave_collected [OF d(2,4) l assms(5)] unfolding d(3) by blast+
  have "dec_at data q l ?v 0 (d\<lparr>deInterleaved := ?v\<rparr>)"
    using d v(1) init_ready locator_shape_init by (simp add: dec_at_def collected_upto_def)
  then have at: "dec_at data q l ?v 0 (deInterleave d)" using v(2) by simp
  have "\<exists>d'. decode_loop (dec_size d) (0 * blockSize) blockSize dataSize (deInterleave d) = Some d' \<and> dec_written d' = data"
    by (rule decode_loop_written [OF assms(1-4) init_ready v(1) _ at])
      (use assms(7) d(2) l in \<open>simp_all add: gen0_def\<close>)
  then show ?thesis
    using d(1) by (auto simp: decoder_main_def decodeInput_def)
qed

lemma size_split:
  assumes "length data mod dataSize \<noteq> 0" "length data < 2 ^ 29"
  obtains q r where "length data = q * dataSize + r" "0 < r" "r < dataSize" "q < 2 ^ 22" "q = length data div dataSize"
  using that [of "length data div dataSize" "length data mod dataSize"] assms by simp

lemma stored_received:
  assumes "stored_upto gen0 data q l (Suc q) enc" "length data = q * dataSize + r" "r < dataSize"
    "l = r + paritySize" "j \<le> q"
  shows "received q l enc j = codeword gen0 (chunk data j)"
  using assms length_chunk [OF assms(2,3,5)]
  by (intro nth_equalityI) (auto simp: stored_upto_def received_nth)

text \<open>
  C1. What the encoder stores, the decoder gives back: for every file below 512 MiB whose
  length is not a multiple of the block's 146 data bytes.
\<close>

theorem block_code_roundtrip:
  assumes "length data mod dataSize \<noteq> 0" "length data < 2 ^ 29"
  shows "\<exists>enc. encoder_main (Some data) = Inr enc \<and> decoder_main (Some enc) = Some (Inr data)"
proof -
  obtain q r where qr: "length data = q * dataSize + r" "0 < r" "r < dataSize" "q < 2 ^ 22"
    by (rule size_split [OF assms])
  obtain enc where enc: "encoder_main (Some data) = Inr enc"
    "stored_upto gen0 data q (r + paritySize) (Suc q) enc"
    using encoder_main_stored [OF qr(1-3) refl qr(4)] by blast
  have "decoder_main (Some enc) = Some (Inr data)"
    using enc(2) stored_received [OF enc(2) qr(1,3) refl]
    by (intro decoder_main_read [OF qr(1-3) refl qr(4)]) (simp_all add: stored_upto_def nearly_def)
  with enc(1) show ?thesis by blast
qed

theorem block_code_roundtrip_witness:
  "\<exists>enc. encoder_main (Some [104, 105, 33]) = Inr enc
    \<and> decoder_main (Some enc) = Some (Inr [104, 105, 33 :: byte])"
  by (rule block_code_roundtrip) simp_all

text \<open>
  C2. The interleaving pays off, for a file below 512 MiB whose length is no multiple of 146: when every changed byte of the
  stored file lies in one
  burst that is no longer than the number of full blocks, the decoder still returns the
  original file, whatever the bytes of the burst became. (A file of full blocks only is lost without any damage.)
\<close>

theorem burst_repaired:
  assumes "length data mod dataSize \<noteq> 0" "length data < 2 ^ 29"
    and "encoder_main (Some data) = Inr enc" "length damaged = length enc"
    and "\<forall>p < length enc. damaged ! p \<noteq> enc ! p \<longrightarrow> s \<le> p \<and> p < s + length data div dataSize"
  shows "decoder_main (Some damaged) = Some (Inr data)"
proof -
  obtain q r where qr: "length data = q * dataSize + r" "0 < r" "r < dataSize" "q < 2 ^ 22" "q = length data div dataSize"
    by (rule size_split [OF assms(1,2)])
  let ?l = "r + paritySize"
  have st: "stored_upto gen0 data q ?l (Suc q) enc"
    using encoder_main_stored [OF qr(1-3) refl qr(4)] assms(3) by simp
  have "nearly (received q ?l damaged j) (codeword gen0 (chunk data j))" if "j \<le> q" for j
    unfolding nearly_def
  proof (intro conjI allI impI)
    note rc = stored_received [OF st qr(1,3) refl that, symmetric]
    show "length (received q ?l damaged j) = length (codeword gen0 (chunk data j))" by (simp add: rc)
    fix i i' assume "i < i'" "i' < length (codeword gen0 (chunk data j))"
    then have i: "i < word_len q ?l j" "i' < word_len q ?l j" by (simp_all add: rc)
    have lt: "slot q ?l j k < length enc" if "k < word_len q ?l j" for k
      using slot_bound [OF \<open>j \<le> q\<close> that] st qr(3) by (simp add: stored_upto_def)
    have "damaged ! slot q ?l j i = enc ! slot q ?l j i \<or> damaged ! slot q ?l j i' = enc ! slot q ?l j i'"
    proof (rule ccontr)
      assume "\<not> ?thesis"
      then have "s \<le> slot q ?l j i" "slot q ?l j i' < s + q"
        using assms(5) lt [OF i(1)] lt [OF i(2)] unfolding qr(5) [symmetric] by blast+
      then show False using slot_apart [OF \<open>i < i'\<close>, of q ?l j] by linarith
    qed
    then show "received q ?l damaged j ! i = codeword gen0 (chunk data j) ! i
        \<or> received q ?l damaged j ! i' = codeword gen0 (chunk data j) ! i'"
      using i by (simp add: rc received_nth)
  qed
  then show ?thesis
    using st assms(4) by (intro decoder_main_read [OF qr(1-3) refl qr(4)]) (simp_all add: stored_upto_def)
qed

theorem burst_repaired_witness:
  "\<exists>enc. encoder_main (Some (replicate 147 7)) = Inr enc
    \<and> decoder_main (Some (enc[5 := enc ! 5 XOR 1])) = Some (Inr (replicate 147 (7 :: byte)))"
proof -
  have l: "length (replicate 147 (7 :: byte)) = 1 * dataSize + 1" by (simp only: length_replicate sizes)
  then obtain enc where enc: "encoder_main (Some (replicate 147 (7 :: byte))) = Inr enc"
    using encoder_main_stored [OF l _ _ refl] by fastforce
  have "p = 5" if "enc[5 := enc ! 5 XOR 1] ! p \<noteq> enc ! p" for p
    using that by (cases "p = 5") simp_all
  then have "\<forall>p < length enc. enc[5 := enc ! 5 XOR 1] ! p \<noteq> enc ! p \<longrightarrow>
      5 \<le> p \<and> p < 5 + length (replicate 147 (7 :: byte)) div dataSize"
    by (simp only: length_replicate sizes) fastforce
  then have "decoder_main (Some (enc[5 := enc ! 5 XOR 1])) = Some (Inr (replicate 147 (7 :: byte)))"
    by (intro burst_repaired [OF _ _ enc]) (simp_all only: length_replicate sizes length_list_update, simp_all)
  with enc show ?thesis by blast
qed

lemma length_encode_loop:
  "length (enc_encoded (encode_loop b l el dl c e)) = length (enc_encoded e)"
proof (induction b l el dl c e rule: encode_loop.induct)
  case (1 b l el dl c e)
  define dl' where "dl' = (if enc_size e < dl + el then enc_size e - el else dl)"
  obtain out ecc where oe: "encode_data (drop el (enc_input e)) dl' (enc_output e) (enc_ecc e) = (out, ecc)"
    by (metis surj_pair)
  show ?case
  proof (cases "el < enc_size e")
    case True
    then show ?thesis
      using 1 [OF True dl'_def oe [symmetric] refl refl] encode_loop_step [OF True dl'_def oe, of b l c]
      by (simp add: interleave_block_def)
  next
    case False
    then show ?thesis by (subst encode_loop.simps) simp
  qed
qed

lemma syndrome_zeros: "syndrome (replicate n 0) n j = 0"
proof -
  have "m \<le> n \<Longrightarrow> fold (\<lambda>i sum. unat (replicate n 0 ! i :: byte) XOR gmult (gexp ! (j + 1)) sum) [0..<m] 0 = 0" for m
    by (induction m) simp_all
  then show ?thesis by (simp add: syndrome_def)
qed

lemma decoder_full_block:
  assumes "length input = blockSize"
  shows "decoder_main (Some input) = Some (Inr (replicate dataSize 0))"
proof -
  obtain d where d: "Decoder_openFile (Some input) (Decoder_new ecc_globals) = (0, d)"
    "dec_size d = blockSize" "deInterleaved d = replicate blockSize 0"
    "dec_ecc d = initialize_ecc ecc_globals" "dec_written d = []"
    using assms by (auto simp: Decoder_openFile_def Decoder_new_def Let_def resize_def)
  have "ceil_div blockSize blockSize = 1" "blockSize mod blockSize = 0" by (simp_all add: ceil_div_def)
  moreover have "last_row_count 0 = 0" using last_row_count_eq [of 0] by simp
  ultimately have di: "deInterleave d = d"
    using d(2) by (simp add: deInterleave_def deinterleave_block_def del: sizes)
  let ?z = "replicate blockSize (0 :: byte)"
  let ?s = "decode_data ?z blockSize (dec_ecc d)"
  have "length (synBytes (dec_ecc d)) = MAXDEG"
    using locator_shape_init d(4) by (simp add: locator_shape_def)
  then have ck: "check_syndrome ?s = 0"
    by (simp add: check_decode syndrome_zeros del: sizes)
  have pb: "put_block 0 ?z (deInterleaved d) = ?z"
    using d(3) by (simp add: put_block_def del: sizes)
  have ws: "unat (of_nat blockSize - of_nat paritySize :: u64) = dataSize"
    using u64_minus_parity [of blockSize] by simp
  obtain f where f: "dec_size d = Suc f" using d(2) by simp
  let ?d = "d\<lparr>dec_ecc := ?s, deInterleaved := ?z, dec_written := dec_written d @ take dataSize (drop 0 ?z)\<rparr>"
  have "decode_loop (Suc f) 0 blockSize dataSize d = decode_loop f (0 + blockSize) blockSize dataSize ?d"
    by (rule decode_loop_step [where block = ?z and block' = ?z])
      (use d(2,3) ws pb ck in \<open>simp_all\<close>)
  moreover have "decode_loop f (0 + blockSize) blockSize dataSize e = Some e" if "dec_size e = blockSize" for e
    using that by (cases f) simp_all
  then have "decode_loop f (0 + blockSize) blockSize dataSize ?d = Some ?d"
    using d(2) by simp
  ultimately have "decodeInput d = Some ?d"
    unfolding decodeInput_def di f by (simp only:)
  then show ?thesis
    using d(1,5) by (simp add: decoder_main_def)
qed

text \<open>
  C33. A file of exactly one full block is lost: the encoder reports success, and the
  decoder returns 146 zero bytes, whatever the file was.
\<close>

theorem full_block_lost:
  assumes "length data = dataSize"
  shows "\<exists>enc. encoder_main (Some data) = Inr enc
    \<and> decoder_main (Some enc) = Some (Inr (replicate dataSize 0))"
proof -
  obtain e where e: "Encoder_openFile (Some data) (Encoder_new ecc_globals) = (0, e)" "enc_size e = dataSize"
    using assms by (auto simp: Encoder_openFile_def Encoder_new_def Let_def)
  have "length (enc_encoded (encodeInput e)) = blockSize"
    using e(2) by (simp add: encodeInput_def Let_def length_encode_loop encoded_size_def)
  from decoder_full_block [OF this] show ?thesis
    using e(1) by (simp add: encoder_main_def Encoder_saveToFile_def)
qed

theorem full_block_lost_witness:
  "\<exists>enc. encoder_main (Some (replicate 146 1)) = Inr enc
    \<and> decoder_main (Some enc) = Some (Inr (replicate dataSize 0))"
  by (rule full_block_lost) (simp only: length_replicate sizes)

end
