(* ===== verification/Std_Map.thy ===== *)
theory Std_Map
  imports Prelude
begin

text \<open>
  The containers \<^verbatim>\<open>std::map\<close> and \<^verbatim>\<open>std::set\<close> as the C++ sources use them: a list of
  entries in ascending key order, and the interface of a finite map that the clients
  rely on. The interface is a locale; its lemmas on counting serve every component
  that tallies keys, and the sorted list is its first interpretation.
\<close>

section \<open>The interface of a finite map\<close>

locale finite_map =
  fixes lookup :: "'m \<Rightarrow> 'k \<Rightarrow> 'v option"
    and put :: "'k \<Rightarrow> 'v \<Rightarrow> 'm \<Rightarrow> 'm"
    and ok :: "'m \<Rightarrow> bool"
  assumes ok_put: "ok m \<Longrightarrow> ok (put k v m)"
    and lookup_put: "ok m \<Longrightarrow> lookup (put k v m) k' = (if k' = k then Some v else lookup m k')"
begin

lemma lookup_put_same: "ok m \<Longrightarrow> lookup (put k v m) k = Some v"
  by (simp add: lookup_put)

lemma lookup_put_other: "ok m \<Longrightarrow> k' \<noteq> k \<Longrightarrow> lookup (put k v m) k' = lookup m k'"
  by (simp add: lookup_put)

lemma lookup_put_put: "ok m \<Longrightarrow> lookup (put k v (put k w m)) = lookup (put k v m)"
  by (rule ext) (simp add: lookup_put ok_put)

lemma lookup_put_commute:
  "ok m \<Longrightarrow> k \<noteq> l \<Longrightarrow> lookup (put k v (put l w m)) = lookup (put l w (put k v m))"
  by (rule ext) (auto simp: lookup_put ok_put)

text \<open>Storing a list of entries: the last one of a key wins.\<close>

lemma ok_puts: "ok m \<Longrightarrow> ok (fold (\<lambda>(k, v). put k v) kvs m)"
  by (induction kvs arbitrary: m) (auto simp: ok_put)

lemma lookup_puts:
  "ok m \<Longrightarrow> lookup (fold (\<lambda>(k, v). put k v) kvs m) x
    = (case map_of (rev kvs) x of None \<Rightarrow> lookup m x | Some v \<Rightarrow> Some v)"
  by (induction kvs arbitrary: m) (auto simp: lookup_put ok_put map_add_def split: option.splits)

text \<open>Updating the entry of every key of a list in turn.\<close>

definition tally :: "('v option \<Rightarrow> 'v) \<Rightarrow> 'k list \<Rightarrow> 'm \<Rightarrow> 'm" where
  "tally f ks m = fold (\<lambda>k m. put k (f (lookup m k)) m) ks m"

lemma ok_tally: "ok m \<Longrightarrow> ok (tally f ks m)"
  by (induction ks arbitrary: m) (simp_all add: tally_def ok_put)

lemma lookup_tally:
  "ok m \<Longrightarrow> lookup (tally f ks m) x = ((\<lambda>v. Some (f v)) ^^ count_list ks x) (lookup m x)"
proof (induction ks arbitrary: m)
  case (Cons k ks)
  then have "lookup (tally f ks (put k (f (lookup m k)) m)) x
      = ((\<lambda>v. Some (f v)) ^^ count_list ks x) (lookup (put k (f (lookup m k)) m) x)"
    by (simp add: ok_put)
  with Cons.prems show ?case
    by (auto simp: tally_def lookup_put funpow_Suc_right simp del: funpow.simps(2))
qed (simp add: tally_def)

end

section \<open>Maps with deletion\<close>

text \<open>
  What a client may do to a map, and what that does to the map it has in mind: a provider
  of the interface behaves, under any sequence of commands, like a function to options.
\<close>

datatype ('k, 'v) map_cmd = Put 'k 'v | Del 'k

fun cmd_map :: "('k, 'v) map_cmd \<Rightarrow> ('k \<rightharpoonup> 'v) \<Rightarrow> ('k \<rightharpoonup> 'v)" where
  "cmd_map (Put k v) f = f(k \<mapsto> v)"
| "cmd_map (Del k) f = f(k := None)"

locale deletable_map = finite_map lookup put ok
  for lookup :: "'m \<Rightarrow> 'k \<Rightarrow> 'v option" and put :: "'k \<Rightarrow> 'v \<Rightarrow> 'm \<Rightarrow> 'm" and ok :: "'m \<Rightarrow> bool" +
  fixes delete :: "'k \<Rightarrow> 'm \<Rightarrow> 'm"
  assumes ok_delete: "ok m \<Longrightarrow> ok (delete k m)"
    and lookup_delete: "ok m \<Longrightarrow> lookup (delete k m) k' = (if k' = k then None else lookup m k')"
begin

definition perform :: "('k, 'v) map_cmd \<Rightarrow> 'm \<Rightarrow> 'm" where
  "perform cmd m = (case cmd of Put k v \<Rightarrow> put k v m | Del k \<Rightarrow> delete k m)"

lemma perform_step: "ok m \<Longrightarrow> ok (perform cmd m) \<and> lookup (perform cmd m) = cmd_map cmd (lookup m)"
  by (cases cmd) (auto simp: perform_def ok_put ok_delete lookup_put lookup_delete)

lemma perform_all: "ok m \<Longrightarrow> ok (fold perform cmds m) \<and> lookup (fold perform cmds m) = fold cmd_map cmds (lookup m)"
proof (induction cmds arbitrary: m)
  case (Cons cmd cmds)
  then show ?case using perform_step [of m cmd] by simp
qed simp

lemma delete_put: "ok m \<Longrightarrow> lookup m k = None \<Longrightarrow> lookup (delete k (put k v m)) = lookup m"
  by (rule ext) (simp add: lookup_delete lookup_put ok_put)

end

section \<open>Sorted association lists\<close>

fun map_put :: "'k::linorder \<Rightarrow> 'v \<Rightarrow> ('k \<times> 'v) list \<Rightarrow> ('k \<times> 'v) list" where
  "map_put k v [] = [(k, v)]"
| "map_put k v ((k', v') # m) =
     (if k < k' then (k, v) # (k', v') # m
      else if k = k' then (k, v) # m
      else (k', v') # map_put k v m)"

definition map_ok :: "('k::linorder \<times> 'v) list \<Rightarrow> bool" where
  "map_ok m \<longleftrightarrow> sorted_wrt (<) (map fst m)"

text \<open>\<^verbatim>\<open>insert\<close> keeps an entry that is there.\<close>

definition map_insert :: "'k::linorder \<Rightarrow> 'v \<Rightarrow> ('k \<times> 'v) list \<Rightarrow> ('k \<times> 'v) list" where
  "map_insert k v m = (case map_of m k of None \<Rightarrow> map_put k v m | Some _ \<Rightarrow> m)"

text \<open>\<^verbatim>\<open>operator[]\<close> adds a default entry for a missing key before it is read.\<close>

definition map_at :: "'k::linorder \<Rightarrow> 'v \<Rightarrow> ('k \<times> 'v) list \<Rightarrow> 'v \<times> ('k \<times> 'v) list" where
  "map_at k d m = (case map_of m k of None \<Rightarrow> (d, map_put k d m) | Some v \<Rightarrow> (v, m))"

fun set_insert :: "'a::linorder \<Rightarrow> 'a list \<Rightarrow> 'a list" where
  "set_insert x [] = [x]"
| "set_insert x (y # ys) = (if x < y then x # y # ys else if x = y then y # ys else y # set_insert x ys)"

lemma set_map_put: "fst ` set (map_put k v m) = insert k (fst ` set m)"
  by (induction k v m rule: map_put.induct) auto

lemma map_ok_Nil [simp]: "map_ok []"
  by (simp add: map_ok_def)

lemma map_ok_Cons: "map_ok (kv # m) \<longleftrightarrow> (\<forall>k \<in> fst ` set m. fst kv < k) \<and> map_ok m"
  by (auto simp: map_ok_def)

lemma map_ok_put: "map_ok m \<Longrightarrow> map_ok (map_put k v m)"
  by (induction k v m rule: map_put.induct)
    (force simp: map_ok_Cons set_map_put simp del: image_iff)+

lemma map_of_smaller: "\<forall>x \<in> fst ` set m. k < x \<Longrightarrow> map_of m k = None"
  for k :: "'k::linorder"
  by (force simp: map_of_eq_None_iff)

lemma map_of_put: "map_ok m \<Longrightarrow> map_of (map_put k v m) k' = (if k' = k then Some v else map_of m k')"
proof (induction k v m rule: map_put.induct)
  case (2 k v k0 v0 m)
  then show ?case using map_of_smaller [of m k0] by (auto simp: map_ok_Cons)
qed simp

interpretation std_map: finite_map "map_of :: ('k::linorder \<times> 'v) list \<Rightarrow> 'k \<Rightarrow> 'v option" map_put map_ok
  by unfold_locales (simp_all add: map_ok_put map_of_put)

lemma map_ok_insert: "map_ok m \<Longrightarrow> map_ok (map_insert k v m)"
  by (simp add: map_insert_def map_ok_put split: option.splits)

lemma map_of_insert:
  "map_ok m \<Longrightarrow> map_of (map_insert k v m) x
    = (case map_of m x of None \<Rightarrow> if x = k then Some v else None | Some w \<Rightarrow> Some w)"
  by (auto simp: map_insert_def map_of_put split: option.splits)

lemma map_at_fst: "fst (map_at k d m) = (case map_of m k of None \<Rightarrow> d | Some v \<Rightarrow> v)"
  by (simp add: map_at_def split: option.splits)

lemma map_at_snd:
  "map_ok m \<Longrightarrow> map_of (snd (map_at k d m)) x
    = (case map_of m x of None \<Rightarrow> if x = k then Some d else None | Some w \<Rightarrow> Some w)"
  by (auto simp: map_at_def map_of_put split: option.splits)

lemma set_set_insert: "set (set_insert x ys) = insert x (set ys)"
  by (induction x ys rule: set_insert.induct) auto

lemma sorted_set_insert: "sorted_wrt (<) ys \<Longrightarrow> sorted_wrt (<) (set_insert x ys)"
  by (induction x ys rule: set_insert.induct) (force simp: set_set_insert)+

end
