(* ===== verification/TS_Packet.thy ===== *)
theory TS_Packet
  imports Std_Map
begin

text \<open>
  A packet of an MPEG transport stream, from \<^verbatim>\<open>BMS/proj2/TSPacket.h\<close>, \<^verbatim>\<open>TSPacket.cpp\<close>
  and \<^verbatim>\<open>common.h\<close>: 188 bytes, a header of bit fields, an adaptation field and a
  payload. Bit fields are words of their width. \<^verbatim>\<open>parse\<close> is \<open>None\<close> where the code copies
  from beyond the end of the packet. The theorems: header and payload of a serialised
  packet are read back, and with an adaptation field the payload starts one byte early.
\<close>

definition TS_PID_PAT :: byte where "TS_PID_PAT = 0"
definition TS_PID_NIT :: byte where "TS_PID_NIT = 0x10"
definition TS_PID_SDT :: byte where "TS_PID_SDT = 0x11"
definition TS_TABLE_PAT :: byte where "TS_TABLE_PAT = 0"
definition TS_TABLE_PMT :: byte where "TS_TABLE_PMT = 2"
definition TS_TABLE_NIT :: byte where "TS_TABLE_NIT = 0x40"
definition TS_DESCRIPTOR_NETWORK_NAME :: byte where "TS_DESCRIPTOR_NETWORK_NAME = 0x40"
definition TS_DESCRIPTOR_SERVICE :: byte where "TS_DESCRIPTOR_SERVICE = 0x48"
definition TS_DESCRIPTOR_TERRESTRIAL :: byte where "TS_DESCRIPTOR_TERRESTRIAL = 0x5A"

lemmas ts_consts = TS_PID_PAT_def TS_PID_NIT_def TS_PID_SDT_def TS_TABLE_PAT_def TS_TABLE_PMT_def
  TS_TABLE_NIT_def TS_DESCRIPTOR_NETWORK_NAME_def TS_DESCRIPTOR_SERVICE_def TS_DESCRIPTOR_TERRESTRIAL_def

record ts_header =
  syncByte :: byte
  transportError :: byte
  payloadStart :: "1 word"
  transportPriority :: "1 word"
  pid :: "13 word"
  transportScrambling :: "2 word"
  adaptionField :: "2 word"
  continuityCounter :: "4 word"

record ts_packet =
  ts_raw :: "byte list"
  ts_head :: ts_header
  ts_adaption :: "byte list"
  ts_payload :: "byte list"

definition ts_size :: nat where
  "ts_size = 188"

text \<open>The header of a new packet is whatever the memory holds: an argument.\<close>

definition TSPacket_empty :: "ts_header \<Rightarrow> ts_packet" where
  "TSPacket_empty h = \<lparr>ts_raw = replicate ts_size 0, ts_head = h, ts_adaption = [], ts_payload = []\<rparr>"

definition TSPacket_new :: "ts_header \<Rightarrow> byte list \<Rightarrow> ts_packet" where
  "TSPacket_new h dat = \<lparr>ts_raw = dat, ts_head = h, ts_adaption = [], ts_payload = []\<rparr>"

definition transportErr :: "ts_packet \<Rightarrow> bool" where
  "transportErr p \<longleftrightarrow> transportError (ts_head p) \<noteq> 0"

definition isNull :: "ts_packet \<Rightarrow> bool" where
  "isNull p \<longleftrightarrow> pid (ts_head p) = 0x1FFF"

definition getPid :: "ts_packet \<Rightarrow> u16" where
  "getPid p = ucast (pid (ts_head p))"

definition getPayloadStart :: "ts_packet \<Rightarrow> bool" where
  "getPayloadStart p \<longleftrightarrow> payloadStart (ts_head p) = 1"

definition getContinuity :: "ts_packet \<Rightarrow> byte" where
  "getContinuity p = ucast (continuityCounter (ts_head p))"

text \<open>\<^verbatim>\<open>read\<close> from an open file whose rest is \<open>bytes\<close>; a closed file is \<open>None\<close>.\<close>

definition TSPacket_read :: "byte list option \<Rightarrow> ts_packet \<Rightarrow> bool \<times> ts_packet" where
  "TSPacket_read file p =
     (case file of
        None \<Rightarrow> (False, p)
      | Some bytes \<Rightarrow> (True, p\<lparr>ts_raw := take ts_size bytes @ drop (length (take ts_size bytes)) (ts_raw p)\<rparr>))"

definition read_header :: "byte list \<Rightarrow> ts_header" where
  "read_header raw = \<lparr>syncByte = raw ! 0,
     transportError = drop_bit 7 (raw ! 1),
     payloadStart = ucast (drop_bit 6 (raw ! 1) AND 1),
     transportPriority = ucast (drop_bit 5 (raw ! 1) AND 1),
     pid = ucast (push_bit 8 (ucast (raw ! 1 AND 0x1F)) OR ucast (raw ! 2) :: u32),
     transportScrambling = ucast (drop_bit 6 (raw ! 3)),
     adaptionField = ucast (drop_bit 4 (raw ! 3) AND 3),
     continuityCounter = ucast (raw ! 3 AND 0xF)\<rparr>"

definition TSPacket_parse :: "ts_packet \<Rightarrow> (bool \<times> ts_packet) option" where
  "TSPacket_parse p0 =
     (let p = p0\<lparr>ts_adaption := [], ts_payload := []\<rparr>; raw = ts_raw p in
      if raw = [] then None
      else if raw ! 0 \<noteq> 0x47 then Some (False, p\<lparr>ts_head := (ts_head p)\<lparr>syncByte := raw ! 0\<rparr>\<rparr>)
      else if length raw < 4 then None
      else
        let h = read_header raw;
            adapted = (adaptionField h = 2 \<or> adaptionField h = 3);
            len = (if adapted then raw ! 4 else 0);
            adaption = (if adapted then take (unat len) (drop 4 raw) else []);
            len' = (if payloadStart h \<noteq> 0 then len + 1 else len);
            loaded = (adaptionField h = 1 \<or> adaptionField h = 3)
        in if (adapted \<and> (length raw < 5 \<or> length raw < 4 + unat len))
              \<or> (loaded \<and> length raw < 4 + unat len') then None
           else Some (True, p\<lparr>ts_head := h, ts_adaption := adaption,
                  ts_payload := (if loaded then drop (4 + unat len') raw else [])\<rparr>))"

section \<open>Serialised packets\<close>

text \<open>The first four bytes of a packet with a given header, as the standard lays them out.\<close>

definition header_bytes :: "ts_header \<Rightarrow> byte list" where
  "header_bytes h = [syncByte h,
     push_bit 7 (transportError h) OR push_bit 6 (ucast (payloadStart h))
       OR push_bit 5 (ucast (transportPriority h)) OR ucast (drop_bit 8 (pid h)),
     ucast (pid h),
     push_bit 6 (ucast (transportScrambling h)) OR push_bit 4 (ucast (adaptionField h))
       OR ucast (continuityCounter h)]"

lemma and_masks:
  "w AND 3 = take_bit 2 w" "w AND 7 = take_bit 3 w"
  "w AND 0xF = take_bit 4 w" "w AND 0x1F = take_bit 5 w" for w :: byte
  by (simp_all add: take_bit_eq_mask mask_eq_exp_minus_1)

lemma one_or_zero: "w \<le> 1 \<Longrightarrow> w = 0 \<or> w = 1" for w :: byte
  by (simp add: word_le_nat_alt unat_eq_0 le_Suc_eq) (metis One_nat_def unat_1 word_unat_eq_iff)

lemma read_header_bytes:
  assumes "transportError h \<le> 1"
  shows "read_header (header_bytes h @ rest) = h"
  using one_or_zero [OF assms]
  by (cases h; simp add: read_header_def header_bytes_def and_masks)
    (intro conjI; rule bit_word_eqI; auto simp: bit_simps dest: bit_imp_le_length)+

lemma parse_new:
  assumes "syncByte h = 0x47" "transportError h \<le> 1"
  shows "TSPacket_parse (TSPacket_new junk (header_bytes h @ rest)) =
    (let adapted = (adaptionField h = 2 \<or> adaptionField h = 3);
         len = (if adapted then rest ! 0 else 0);
         len' = (if payloadStart h \<noteq> 0 then len + 1 else len);
         loaded = (adaptionField h = 1 \<or> adaptionField h = 3)
     in if (adapted \<and> (rest = [] \<or> length rest < unat len)) \<or> (loaded \<and> length rest < unat len') then None
        else Some (True, \<lparr>ts_raw = header_bytes h @ rest, ts_head = h,
               ts_adaption = (if adapted then take (unat len) rest else []),
               ts_payload = (if loaded then drop (unat len') rest else [])\<rparr>))"
proof -
  have len: "length (header_bytes h @ rest) = 4 + length rest"
    and fst: "(header_bytes h @ rest) ! 0 = 0x47" and hb: "header_bytes h \<noteq> []"
    and nth: "(header_bytes h @ rest) ! 4 = rest ! 0"
    and drp: "drop 4 (header_bytes h @ rest) = rest"
    using assms(1) by (simp_all add: header_bytes_def nth_Cons')
  have drn: "drop (4 + n) (header_bytes h @ rest) = drop n rest" for n
    unfolding add.commute [of 4] drop_drop [symmetric] drp ..
  have ne: "4 + length rest < 5 \<longleftrightarrow> rest = []" "\<not> 4 + length rest < 4"
    "4 + length rest < 4 + n \<longleftrightarrow> length rest < n" for n
    by auto
  show ?thesis
    unfolding TSPacket_parse_def TSPacket_new_def Let_def ts_packet.simps ts_packet.update_convs
      len fst nth drp drn ne read_header_bytes [OF assms(2)]
    using hb by (simp add: id_def)
qed

text \<open>
  A packet without adaptation field is read back: the header field by field, and as
  payload the rest of the packet, without the pointer byte when a section starts in it.
\<close>

theorem packet_read_back:
  assumes "syncByte h = 0x47" "transportError h \<le> 1" "adaptionField h = 1" "length rest = 184"
  shows "TSPacket_parse (TSPacket_new junk (header_bytes h @ rest)) =
    Some (True, \<lparr>ts_raw = header_bytes h @ rest, ts_head = h, ts_adaption = [],
      ts_payload = (if payloadStart h = 0 then rest else tl rest)\<rparr>)"
  using assms by (simp add: parse_new drop_Suc)

theorem packet_read_back_witness:
  "\<exists>p. TSPacket_parse (TSPacket_new undefined (header_bytes \<lparr>syncByte = 0x47, transportError = 0,
      payloadStart = 1, transportPriority = 0, pid = 0x11, transportScrambling = 0,
      adaptionField = 1, continuityCounter = 9\<rparr> @ replicate 184 7)) = Some (True, p)
    \<and> getPid p = 0x11 \<and> ts_payload p = replicate 183 7"
  by (subst packet_read_back) (simp_all add: getPid_def)

text \<open>
  With an adaptation field the payload starts one byte early: its first byte is the
  last byte of the field, since the length byte of the field is not counted.
\<close>

theorem payload_after_adaption:
  assumes "syncByte h = 0x47" "transportError h \<le> 1" "adaptionField h = 3" "payloadStart h = 0"
    and "af \<noteq> []" "length af \<le> 183" "length pl = 183 - length af"
  shows "\<exists>p. TSPacket_parse (TSPacket_new junk (header_bytes h @ of_nat (length af) # af @ pl)) = Some (True, p)
    \<and> ts_head p = h \<and> ts_payload p = last af # pl"
proof -
  have u: "unat (of_nat (length af) :: byte) = length af"
    using assms(6) by (simp add: unat_of_nat_byte)
  obtain as a where af: "af = as @ [a]" using assms(5) by (metis append_butlast_last_id)
  have "drop (length af) (of_nat (length af) # af @ pl) = a # pl"
    by (simp add: af drop_Cons')
  then show ?thesis
    using assms u by (simp add: parse_new Let_def) (simp add: af)
qed

theorem payload_after_adaption_witness:
  "\<exists>p. TSPacket_parse (TSPacket_new undefined (header_bytes \<lparr>syncByte = 0x47, transportError = 0,
      payloadStart = 0, transportPriority = 0, pid = 0x11, transportScrambling = 0,
      adaptionField = 3, continuityCounter = 9\<rparr> @ of_nat (length [1, 2 :: byte]) # [1, 2] @ replicate 181 7))
        = Some (True, p)
    \<and> ts_payload p = 2 # replicate 181 7"
  using payload_after_adaption [of "\<lparr>syncByte = 0x47, transportError = 0,
      payloadStart = 0, transportPriority = 0, pid = 0x11, transportScrambling = 0,
      adaptionField = 3, continuityCounter = 9\<rparr>" "[1, 2]" "replicate 181 7" undefined] by auto

end
