(* ===== verification/Demultiplexor.thy ===== *)
theory Demultiplexor
  imports TS_Packet
begin

text \<open>
  The demultiplexer of \<^verbatim>\<open>BMS/proj2\<close> (\<^verbatim>\<open>Demultiplexor.h\<close>, \<^verbatim>\<open>Demultiplexor.cpp\<close>,
  \<^verbatim>\<open>TStream.cpp\<close>): it collects the tables of a transport stream packet by packet and
  counts the packets of every PID. The containers are those of \<^verbatim>\<open>Std_Map\<close>. \<open>None\<close> means
  that the code reads outside a vector, erases from a set it iterates over, or does not
  return. The bit rates, which are \<^verbatim>\<open>long double\<close>, and the printed report are left out.
\<close>

record program_info =
  pi_pid :: u16
  pi_serviceID :: u16
  pi_provider :: "byte list"
  pi_name :: "byte list"

record demux =
  NITPid :: u16
  analyzedNIT :: bool
  analyzedPAT :: bool
  analyzedSDT :: bool
  packetsCounter :: "(u16 \<times> u32) list"
  programElementary :: "(u16 \<times> u16 list) list"
  packets :: u32
  PAT :: "(u16 \<times> u16) list"
  newSDT :: bool
  parseSDT_now :: bool
  networkName :: "byte list"
  networkID :: u16
  bandwidth :: byte
  constellation :: byte
  codeRateHP :: byte
  guardInterval :: byte
  sdtData :: "byte list"
  programs :: "program_info list"

text \<open>The fields the constructor does not set are those of the argument.\<close>

definition Demultiplexor_new :: "demux \<Rightarrow> demux" where
  "Demultiplexor_new m = m\<lparr>NITPid := ucast TS_PID_NIT, analyzedNIT := False, analyzedPAT := False,
     analyzedSDT := False, packetsCounter := [], programElementary := [], packets := 0, PAT := [],
     newSDT := False, parseSDT_now := False, networkName := [], sdtData := [], programs := []\<rparr>"

section \<open>Report strings\<close>

definition table_entry :: "string list \<Rightarrow> byte \<Rightarrow> string" where
  "table_entry t i = (if unat i < length t then t ! unat i else ''Unknown'')"

definition getBandwidth :: "demux \<Rightarrow> string" where
  "getBandwidth d = table_entry [''8 MHz'', ''7 MHz'', ''6 MHz'', ''5 MHz'', ''1,7 MHz''] (bandwidth d)"

definition getConstellation :: "demux \<Rightarrow> string" where
  "getConstellation d = table_entry [''QPSK'', ''16-QAM'', ''64-QAM''] (constellation d)"

definition getCodeRate :: "demux \<Rightarrow> string" where
  "getCodeRate d = table_entry [''1/2'', ''2/3'', ''3/4'', ''5/6'', ''7/8''] (codeRateHP d)"

definition getGuardInterval :: "demux \<Rightarrow> string" where
  "getGuardInterval d = table_entry [''1/32'', ''1/16'', ''1/8'', ''1/4''] (guardInterval d)"

section \<open>Program association table\<close>

partial_function (option) pat_loop :: "byte list \<Rightarrow> u16 \<Rightarrow> byte \<Rightarrow> demux \<Rightarrow> demux option" where
  "pat_loop payload sectionLength index d =
     (if ucast index < sectionLength then
        do {
          a \<leftarrow> vec_at payload (unat index + 8);
          b \<leftarrow> vec_at payload (unat index + 9);
          c \<leftarrow> vec_at payload (unat index + 10);
          e \<leftarrow> vec_at payload (unat index + 11);
          let programNumber = be16 a b;
          let p = be16 (c AND 0x1F) e;
          let d1 = d\<lparr>PAT := map_insert programNumber p (PAT d)\<rparr>;
          let d2 = (if programNumber = 0 then d1\<lparr>NITPid := p\<rparr> else d1);
          pat_loop payload sectionLength (index + 4) d2
        }
      else Some d)"

definition parsePAT :: "ts_packet \<Rightarrow> demux \<Rightarrow> (bool \<times> demux) option" where
  "parsePAT packet d =
     do {
       let payload = ts_payload packet;
       tableID \<leftarrow> vec_at payload 0;
       if tableID \<noteq> TS_TABLE_PAT then Some (False, d)
       else do {
         hi \<leftarrow> vec_at payload 1;
         lo \<leftarrow> vec_at payload 2;
         d' \<leftarrow> pat_loop payload (be16 (hi AND 0xF) lo) 0 d;
         Some (True, d'\<lparr>analyzedPAT := True\<rparr>)
       }
     }"

definition isPMTPacket :: "u16 \<Rightarrow> demux \<Rightarrow> bool" where
  "isPMTPacket p d = (if p = NITPid d then False else list_ex (\<lambda>kv. snd kv = p) (PAT d))"

section \<open>Network information table\<close>

definition descriptor :: "byte list \<Rightarrow> nat \<Rightarrow> byte \<Rightarrow> byte \<Rightarrow> demux \<Rightarrow> demux option" where
  "descriptor payload pos tag len d =
     (if tag = TS_DESCRIPTOR_NETWORK_NAME then
        do { name \<leftarrow> vec_slice payload (pos + 2) (unat len); Some (d\<lparr>networkName := name\<rparr>) }
      else if tag = TS_DESCRIPTOR_TERRESTRIAL then
        do {
          b6 \<leftarrow> vec_at payload (pos + 6);
          b7 \<leftarrow> vec_at payload (pos + 7);
          b8 \<leftarrow> vec_at payload (pos + 8);
          Some (d\<lparr>bandwidth := drop_bit 5 b6, constellation := drop_bit 6 b7, codeRateHP := b7 AND 7,
                  guardInterval := drop_bit 3 b8 AND 3\<rparr>)
        }
      else Some d)"

partial_function (option) parseDescriptors_loop ::
    "byte list \<Rightarrow> byte \<Rightarrow> u16 \<Rightarrow> u16 \<Rightarrow> demux \<Rightarrow> demux option" where
  "parseDescriptors_loop payload offset len index d =
     (if index < len then
        do {
          l \<leftarrow> vec_at payload (unat index + unat offset + 1);
          tag \<leftarrow> vec_at payload (unat index + unat offset);
          d' \<leftarrow> descriptor payload (unat index + unat offset) tag l d;
          parseDescriptors_loop payload offset len (index + (ucast l + 2)) d'
        }
      else Some d)"

definition parseDescriptors :: "ts_packet \<Rightarrow> byte \<Rightarrow> u16 \<Rightarrow> demux \<Rightarrow> demux option" where
  "parseDescriptors packet offset len d = parseDescriptors_loop (ts_payload packet) offset len 0 d"

partial_function (option) nit_loop :: "ts_packet \<Rightarrow> u16 \<Rightarrow> byte \<Rightarrow> byte \<Rightarrow> demux \<Rightarrow> demux option" where
  "nit_loop packet transportStreamLength payloadIndex i d =
     (if ucast i < transportStreamLength then
        do {
          let pos = payloadIndex + 2 + 2;
          hi \<leftarrow> vec_at (ts_payload packet) (unat pos);
          lo \<leftarrow> vec_at (ts_payload packet) (unat pos + 1);
          let transportDescriptorLen = be16 (hi AND 0xF) lo;
          d' \<leftarrow> parseDescriptors packet (pos + 2) transportDescriptorLen d;
          nit_loop packet transportStreamLength (pos + 2) (i + ucast (transportDescriptorLen + 6)) d'
        }
      else Some d)"

definition parseNIT :: "ts_packet \<Rightarrow> demux \<Rightarrow> (bool \<times> demux) option" where
  "parseNIT packet d =
     do {
       let payload = ts_payload packet;
       tableID \<leftarrow> vec_at payload 0;
       if tableID \<noteq> TS_TABLE_NIT then Some (False, d)
       else do {
         n1 \<leftarrow> vec_at payload 3;
         n2 \<leftarrow> vec_at payload 4;
         l1 \<leftarrow> vec_at payload 8;
         l2 \<leftarrow> vec_at payload 9;
         let networkLength = be16 (l1 AND 0xF) l2;
         d1 \<leftarrow> parseDescriptors packet 10 networkLength (d\<lparr>networkID := be16 n1 n2\<rparr>);
         t1 \<leftarrow> vec_at payload (unat networkLength + 10);
         t2 \<leftarrow> vec_at payload (unat networkLength + 11);
         d2 \<leftarrow> nit_loop packet (be16 (t1 AND 0xF) t2) (ucast (networkLength + 12)) 0 d1;
         Some (True, d2\<lparr>analyzedNIT := True\<rparr>)
       }
     }"

section \<open>Service description table\<close>

text \<open>
  The body of the loop ends in \<^verbatim>\<open>break\<close>, so at most the first descriptor is read. The
  \<^verbatim>\<open>pid\<close> of the new entry is only set by \<^verbatim>\<open>bindMaps\<close>; until then it is 0 here.
\<close>

definition parseServiceDescriptor :: "u16 \<Rightarrow> u16 \<Rightarrow> u16 \<Rightarrow> demux \<Rightarrow> demux option" where
  "parseServiceDescriptor offset len serviceID d =
     (if 0 < len then
        do {
          let pos = unat offset;
          _ \<leftarrow> vec_at (sdtData d) (pos + 1);
          tag \<leftarrow> vec_at (sdtData d) pos;
          if tag = TS_DESCRIPTOR_SERVICE then
            do {
              pl \<leftarrow> vec_at (sdtData d) (pos + 3);
              provider \<leftarrow> vec_slice (sdtData d) (pos + 4) (unat pl);
              nl \<leftarrow> vec_at (sdtData d) (pos + unat pl + 4);
              name \<leftarrow> vec_slice (sdtData d) (pos + unat pl + 5) (unat nl);
              Some (d\<lparr>programs := programs d @
                [\<lparr>pi_pid = 0, pi_serviceID = serviceID, pi_provider = provider, pi_name = name\<rparr>]\<rparr>)
            }
          else Some d
        }
      else Some d)"

partial_function (option) sdt_loop :: "u16 \<Rightarrow> u16 \<Rightarrow> demux \<Rightarrow> demux option" where
  "sdt_loop sectionLength index d =
     (if index < sectionLength then
        do {
          s1 \<leftarrow> vec_at (sdtData d) (unat index + 11);
          s2 \<leftarrow> vec_at (sdtData d) (unat index + 11 + 1);
          l1 \<leftarrow> vec_at (sdtData d) (unat index + 11 + 3);
          l2 \<leftarrow> vec_at (sdtData d) (unat index + 11 + 4);
          let desLength = be16 (l1 AND 0xF) l2;
          d' \<leftarrow> parseServiceDescriptor (index + 11 + 5) desLength (be16 s1 s2) d;
          sdt_loop sectionLength (index + (desLength + 5)) d'
        }
      else Some d)"

definition parseSDT :: "ts_packet \<Rightarrow> demux \<Rightarrow> (bool \<times> demux) option" where
  "parseSDT packet d =
     do {
       hi \<leftarrow> vec_at (ts_payload packet) 1;
       lo \<leftarrow> vec_at (ts_payload packet) 2;
       let d1 = (if getPayloadStart packet
         then (if newSDT d then d\<lparr>parseSDT_now := True\<rparr> else d)\<lparr>newSDT := True\<rparr> else d);
       let d2 = (if \<not> parseSDT_now d1 then d1\<lparr>sdtData := sdtData d1 @ ts_payload packet\<rparr> else d1);
       if parseSDT_now d2 then
         do {
           d3 \<leftarrow> sdt_loop (be16 (hi AND 0xF) lo) 0 d2;
           Some (True, d3\<lparr>parseSDT_now := False, analyzedSDT := True\<rparr>)
         }
       else Some (False, d2)
     }"

section \<open>Program map table\<close>

partial_function (option) pmt_loop ::
    "byte list \<Rightarrow> u16 \<Rightarrow> u16 \<Rightarrow> byte \<Rightarrow> byte \<Rightarrow> demux \<Rightarrow> demux option" where
  "pmt_loop payload sectionLength programNumber payloadIndex i d =
     (if ucast i < sectionLength then
        do {
          e1 \<leftarrow> vec_at payload (unat payloadIndex + unat i + 1);
          e2 \<leftarrow> vec_at payload (unat payloadIndex + unat i + 2);
          l1 \<leftarrow> vec_at payload (unat payloadIndex + unat i + 3);
          l2 \<leftarrow> vec_at payload (unat payloadIndex + unat i + 4);
          let elementaryPID = be16 (e1 AND 0x1F) e2;
          let ESInfoLength = be16 (l1 AND 0xF) l2;
          let d' = (if elementaryPID \<noteq> 0x1FFF then
              (let (s, m) = map_at programNumber [] (programElementary d)
               in d\<lparr>programElementary := map_put programNumber (set_insert elementaryPID s) m\<rparr>)
            else d);
          pmt_loop payload sectionLength programNumber payloadIndex (i + ucast (ESInfoLength + 5)) d'
        }
      else Some d)"

definition parsePMT :: "ts_packet \<Rightarrow> demux \<Rightarrow> (bool \<times> demux) option" where
  "parsePMT packet d =
     do {
       let payload = ts_payload packet;
       tableID \<leftarrow> vec_at payload 0;
       if tableID \<noteq> TS_TABLE_PMT then Some (False, d)
       else do {
         s1 \<leftarrow> vec_at payload 1;
         s2 \<leftarrow> vec_at payload 2;
         p1 \<leftarrow> vec_at payload 3;
         p2 \<leftarrow> vec_at payload 4;
         i1 \<leftarrow> vec_at payload 10;
         i2 \<leftarrow> vec_at payload 11;
         let programInfoLength = be16 (i1 AND 0xF) i2;
         d' \<leftarrow> pmt_loop payload (be16 (s1 AND 0xF) s2) (be16 p1 p2) (ucast (programInfoLength + 12)) 0 d;
         Some (True, d')
       }
     }"

section \<open>Binding the tables\<close>

text \<open>
  Erasing an uncounted PID invalidates the iterator of the loop that erases it: \<open>None\<close>.
\<close>

definition all_counted :: "demux \<Rightarrow> bool" where
  "all_counted d \<longleftrightarrow> list_all (\<lambda>(_, es). list_all (\<lambda>e. map_of (packetsCounter d) e \<noteq> None) es)
     (programElementary d)"

text \<open>\<^verbatim>\<open>packetsCounter[program.pid] += packetsCounter[epid]\<close>: the right operand first.\<close>

definition add_count :: "u16 \<Rightarrow> u16 \<Rightarrow> demux \<Rightarrow> demux" where
  "add_count ppid epid d =
     (let (r, m) = map_at epid 0 (packetsCounter d);
          (l, m') = map_at ppid 0 m
      in d\<lparr>packetsCounter := map_put ppid (l + r) m'\<rparr>)"

definition bind_program :: "program_info \<Rightarrow> demux \<Rightarrow> program_info \<times> demux" where
  "bind_program program d =
     (let (p, m) = map_at (pi_serviceID program) 0 (PAT d);
          (es, pe) = map_at (pi_serviceID program) [] (programElementary d);
          d1 = d\<lparr>PAT := m, programElementary := pe\<rparr>
      in (program\<lparr>pi_pid := p\<rparr>, fold (add_count p) es d1))"

fun bind_programs :: "program_info list \<Rightarrow> demux \<Rightarrow> program_info list \<times> demux" where
  "bind_programs [] d = ([], d)"
| "bind_programs (p # ps) d =
     (let (p', d1) = bind_program p d; (ps', d2) = bind_programs ps d1 in (p' # ps', d2))"

text \<open>The bit rates that the loop over the programs computes are left out. \<^verbatim>\<open>std::sort\<close> by PID; of entries with one PID the order is not promised, here it is kept.\<close>

definition bindMaps :: "demux \<Rightarrow> demux option" where
  "bindMaps d =
     (if all_counted d then
        let (ps, d') = bind_programs (programs d) d in Some (d'\<lparr>programs := sort_key pi_pid ps\<rparr>)
      else None)"

section \<open>The stream\<close>

text \<open>
  One pass of the loop of \<^verbatim>\<open>TStream::read\<close>. The result of \<^verbatim>\<open>parse\<close> is not looked at, so
  a packet with a wrong sync byte goes on with the header the memory held, \<open>junk\<close>.
\<close>

definition count_packet :: "u16 \<Rightarrow> demux \<Rightarrow> demux" where
  "count_packet p d = (let (n, m) = map_at p 0 (packetsCounter d) in d\<lparr>packetsCounter := map_put p (n + 1) m\<rparr>)"

definition dispatch :: "ts_packet \<Rightarrow> demux \<Rightarrow> demux option" where
  "dispatch packet d =
     (if transportErr packet \<or> isNull packet then Some d
      else if \<not> analyzedPAT d \<and> getPid packet = ucast TS_PID_PAT then map_option snd (parsePAT packet d)
      else if \<not> analyzedNIT d \<and> getPid packet = NITPid d then map_option snd (parseNIT packet d)
      else if getPid packet = ucast TS_PID_SDT \<and> \<not> analyzedSDT d then map_option snd (parseSDT packet d)
      else if analyzedPAT d \<and> isPMTPacket (getPid packet) d then map_option snd (parsePMT packet d)
      else Some d)"

definition handle_packet :: "ts_header \<Rightarrow> byte list \<Rightarrow> demux \<Rightarrow> demux option" where
  "handle_packet junk buffer d =
     do {
       let d1 = d\<lparr>packets := packets d + 1\<rparr>;
       (_, packet) \<leftarrow> TSPacket_parse (TSPacket_new junk buffer);
       dispatch packet (count_packet (getPid packet) d1)
     }"

function stream_loop :: "(nat \<Rightarrow> ts_header) \<Rightarrow> byte list \<Rightarrow> demux \<Rightarrow> demux option" where
  "stream_loop junk bytes d =
     (if length bytes < ts_size then Some d
      else do {
        d' \<leftarrow> handle_packet (junk (length bytes)) (take ts_size bytes) d;
        stream_loop junk (drop ts_size bytes) d'
      })"
  by pat_completeness auto
termination
  by (relation "measure (\<lambda>(_, bytes, _). length bytes)") (auto simp: ts_size_def)

declare stream_loop.simps [simp del]

definition TStream_read :: "(nat \<Rightarrow> ts_header) \<Rightarrow> byte list \<Rightarrow> demux \<Rightarrow> demux option" where
  "TStream_read junk file m =
     do {
       d \<leftarrow> stream_loop junk file (Demultiplexor_new m);
       bindMaps d
     }"

section \<open>What the parsers leave alone\<close>

definition same_counts :: "demux \<Rightarrow> demux \<Rightarrow> bool" where
  "same_counts d d' \<longleftrightarrow> packetsCounter d' = packetsCounter d \<and> packets d' = packets d"

definition same_pat :: "demux \<Rightarrow> demux \<Rightarrow> bool" where
  "same_pat d d' \<longleftrightarrow> PAT d' = PAT d \<and> NITPid d' = NITPid d \<and> analyzedPAT d' = analyzedPAT d"

lemmas frames = same_counts_def same_pat_def

lemma pat_loop_counts: "pat_loop payload s i d = Some d' \<Longrightarrow> same_counts d d'"
proof (induct rule: pat_loop.raw_induct [rotated, consumes 1, case_names 1])
  case (1 loop payload s i d d')
  from 1(2) show ?case
    by (auto simp: same_counts_def Let_def split: if_splits bind_splits dest!: 1(1))
qed

lemma descriptor_frame:
  "descriptor payload pos tag l d = Some d' \<Longrightarrow> same_counts d d' \<and> same_pat d d'"
  by (auto simp: descriptor_def frames split: if_splits bind_splits)

lemma parseDescriptors_loop_frame:
  "parseDescriptors_loop payload offset len index d = Some d' \<Longrightarrow> same_counts d d' \<and> same_pat d d'"
proof (induct rule: parseDescriptors_loop.raw_induct [rotated, consumes 1, case_names 1])
  case (1 loop payload offset len index d d')
  from 1(2) show ?case
    by (auto simp: frames split: if_splits bind_splits dest!: descriptor_frame 1(1))
qed

lemma nit_loop_frame: "nit_loop packet t p i d = Some d' \<Longrightarrow> same_counts d d' \<and> same_pat d d'"
proof (induct rule: nit_loop.raw_induct [rotated, consumes 1, case_names 1])
  case (1 loop packet t p i d d')
  from 1(2) show ?case
    by (auto simp: frames Let_def parseDescriptors_def split: if_splits bind_splits
        dest!: parseDescriptors_loop_frame 1(1))
qed

lemma parseNIT_frame: "parseNIT packet d = Some (b, d') \<Longrightarrow> same_counts d d' \<and> same_pat d d'"
  by (auto simp: parseNIT_def frames Let_def parseDescriptors_def split: if_splits bind_splits
      dest!: parseDescriptors_loop_frame nit_loop_frame)

lemma parseServiceDescriptor_frame:
  "parseServiceDescriptor off len sid d = Some d' \<Longrightarrow> same_counts d d' \<and> same_pat d d'"
  by (auto simp: parseServiceDescriptor_def frames Let_def split: if_splits bind_splits)

lemma sdt_loop_frame: "sdt_loop s i d = Some d' \<Longrightarrow> same_counts d d' \<and> same_pat d d'"
proof (induct rule: sdt_loop.raw_induct [rotated, consumes 1, case_names 1])
  case (1 loop s i d d')
  from 1(2) show ?case
    by (auto simp: frames Let_def split: if_splits bind_splits dest!: parseServiceDescriptor_frame 1(1))
qed

lemma parseSDT_frame: "parseSDT packet d = Some (b, d') \<Longrightarrow> same_counts d d' \<and> same_pat d d'"
  by (auto simp: parseSDT_def frames Let_def split: if_splits bind_splits dest!: sdt_loop_frame)

lemma pmt_loop_frame: "pmt_loop payload s n p i d = Some d' \<Longrightarrow> same_counts d d' \<and> same_pat d d'"
proof (induct rule: pmt_loop.raw_induct [rotated, consumes 1, case_names 1])
  case (1 loop payload s n p i d d')
  from 1(2) show ?case
    by (auto simp: frames Let_def split: if_splits bind_splits prod.splits dest!: 1(1))
qed

lemma parsePMT_frame: "parsePMT packet d = Some (b, d') \<Longrightarrow> same_counts d d' \<and> same_pat d d'"
  by (auto simp: parsePMT_def frames Let_def split: if_splits bind_splits dest!: pmt_loop_frame)

lemma parsePAT_counts: "parsePAT packet d = Some (b, d') \<Longrightarrow> same_counts d d'"
  by (auto simp: parsePAT_def frames Let_def split: if_splits bind_splits dest!: pat_loop_counts)

lemma dispatch_counts: "dispatch packet d = Some d' \<Longrightarrow> same_counts d d'"
  by (auto simp: dispatch_def same_counts_def split: if_splits
      dest!: parsePAT_counts parseNIT_frame parseSDT_frame parsePMT_frame)

lemma dispatch_pat: "dispatch packet d = Some d' \<Longrightarrow> analyzedPAT d \<Longrightarrow> same_pat d d'"
  by (auto simp: dispatch_def same_counts_def same_pat_def split: if_splits
      dest!: parseNIT_frame parseSDT_frame parsePMT_frame)

section \<open>Counting the packets\<close>

definition bump :: "u32 option \<Rightarrow> u32" where
  "bump v = (case v of None \<Rightarrow> 0 | Some n \<Rightarrow> n) + 1"

lemma map_put_put: "map_ok m \<Longrightarrow> map_put k v (map_put k w m) = map_put k v m"
  by (induction k w m rule: map_put.induct) (auto simp: map_ok_Cons)

lemma map_put_at: "map_ok m \<Longrightarrow> map_put k v (snd (map_at k w m)) = map_put k v m"
  by (simp add: map_at_def map_put_put split: option.splits)

lemma count_packet_tally:
  "map_ok (packetsCounter d) \<Longrightarrow> count_packet p d
    = d\<lparr>packetsCounter := std_map.tally bump [p] (packetsCounter d)\<rparr>"
  using map_put_at [of "packetsCounter d" p "fst (map_at p 0 (packetsCounter d)) + 1" 0]
  by (cases "map_at p 0 (packetsCounter d)")
    (simp add: count_packet_def std_map.tally_def bump_def flip: map_at_fst [of p])

text \<open>The PIDs of the packets of a file, in order, as \<^verbatim>\<open>getPid\<close> reports them.\<close>

definition packet_pid :: "ts_header \<Rightarrow> byte list \<Rightarrow> u16" where
  "packet_pid junk buffer =
     (case TSPacket_parse (TSPacket_new junk buffer) of None \<Rightarrow> 0 | Some (_, p) \<Rightarrow> getPid p)"

function stream_pids :: "(nat \<Rightarrow> ts_header) \<Rightarrow> byte list \<Rightarrow> u16 list" where
  "stream_pids junk bytes =
     (if length bytes < ts_size then []
      else packet_pid (junk (length bytes)) (take ts_size bytes) # stream_pids junk (drop ts_size bytes))"
  by pat_completeness auto
termination
  by (relation "measure (\<lambda>(_, bytes). length bytes)") (auto simp: ts_size_def)

declare stream_pids.simps [simp del]

lemma handle_packet_counts:
  assumes "handle_packet junk buffer d = Some d'" "map_ok (packetsCounter d)"
  shows "packetsCounter d' = std_map.tally bump [packet_pid junk buffer] (packetsCounter d)
    \<and> packets d' = packets d + 1"
proof -
  obtain b p where p: "TSPacket_parse (TSPacket_new junk buffer) = Some (b, p)"
    and d: "dispatch p (count_packet (getPid p) (d\<lparr>packets := packets d + 1\<rparr>)) = Some d'"
    using assms(1) by (auto simp: handle_packet_def Let_def split: bind_splits prod.splits)
  have "count_packet (getPid p) (d\<lparr>packets := packets d + 1\<rparr>) = d\<lparr>packets := packets d + 1,
      packetsCounter := std_map.tally bump [getPid p] (packetsCounter d)\<rparr>"
    using count_packet_tally [of "d\<lparr>packets := packets d + 1\<rparr>" "getPid p"] assms(2) by simp
  then show ?thesis
    using dispatch_counts [OF d] p by (simp add: packet_pid_def same_counts_def)
qed

lemma stream_loop_tally:
  assumes "stream_loop junk bytes d = Some d'" "map_ok (packetsCounter d)"
  shows "packetsCounter d' = std_map.tally bump (stream_pids junk bytes) (packetsCounter d)
    \<and> packets d' = packets d + of_nat (length (stream_pids junk bytes))"
  using assms
proof (induction junk bytes d rule: stream_loop.induct)
  case (1 junk bytes d)
  show ?case
  proof (cases "length bytes < ts_size")
    case True
    then show ?thesis
      using "1.prems" by (simp add: stream_loop.simps stream_pids.simps std_map.tally_def)
  next
    case False
    with "1.prems"(1) obtain d1 where d1: "handle_packet (junk (length bytes)) (take ts_size bytes) d = Some d1"
      "stream_loop junk (drop ts_size bytes) d1 = Some d'"
      by (subst (asm) stream_loop.simps) (auto split: bind_splits)
    note h = handle_packet_counts [OF d1(1) "1.prems"(2)]
    have "map_ok (packetsCounter d1)"
      using h std_map.ok_tally [OF "1.prems"(2)] by simp
    from "1.IH" [OF False d1 this] h show ?thesis
      using False by (subst (1 2) stream_pids.simps) (simp add: std_map.tally_def)
  qed
qed

lemma bump_pow: "((\<lambda>v. Some (bump v)) ^^ n) None = (if n = 0 then None else Some (of_nat n))"
  by (induction n) (auto simp: bump_def)

text \<open>
  C15. When the loop over the packets of a file ends, before \<^verbatim>\<open>bindMaps\<close> adds the counts of the elementary streams to those of their
  programs, \<^verbatim>\<open>packetsCounter\<close> holds for every PID the number of
  packets that reported it, broken and null packets included, and \<^verbatim>\<open>packets\<close> their total,
  both modulo \<open>2^32\<close>.
\<close>

theorem packets_counted:
  assumes "stream_loop junk bytes (Demultiplexor_new m) = Some d"
  shows "map_of (packetsCounter d) x
      = (if count_list (stream_pids junk bytes) x = 0 then None
         else Some (of_nat (count_list (stream_pids junk bytes) x)))
    \<and> packets d = of_nat (length bytes div ts_size)"
proof -
  have ok: "map_ok (packetsCounter (Demultiplexor_new m))" by (simp add: Demultiplexor_new_def)
  have "length (stream_pids junk bytes) = length bytes div ts_size"
    by (induction junk bytes rule: stream_pids.induct)
      (subst stream_pids.simps, auto simp: ts_size_def le_div_geq)
  then show ?thesis
    using stream_loop_tally [OF assms ok]
      std_map.lookup_tally [of "packetsCounter (Demultiplexor_new m)" bump "stream_pids junk bytes" x]
    by (simp add: Demultiplexor_new_def bump_pow)
qed

text \<open>A file of one null packet, for the witnesses.\<close>

definition null_header :: ts_header where
  "null_header = \<lparr>syncByte = 0x47, transportError = 0, payloadStart = 0, transportPriority = 0,
     pid = 0x1FFF, transportScrambling = 0, adaptionField = 1, continuityCounter = 0\<rparr>"

lemma null_stream:
  "\<exists>d'. stream_loop junk (header_bytes null_header @ replicate 184 0) d = Some d'"
proof -
  let ?f = "header_bytes null_header @ replicate 184 0"
  have len: "length ?f = ts_size" by (simp add: header_bytes_def ts_size_def)
  have "\<exists>d1. handle_packet (junk (length ?f)) ?f d = Some d1"
    by (simp add: handle_packet_def parse_new null_header_def dispatch_def isNull_def)
  then show ?thesis
    using len by (subst stream_loop.simps) (auto simp: stream_loop.simps ts_size_def)
qed

definition blank_demux :: demux where
  "blank_demux = \<lparr>NITPid = 0, analyzedNIT = False, analyzedPAT = False, analyzedSDT = False, packetsCounter = [],
     programElementary = [], packets = 0, PAT = [], newSDT = False, parseSDT_now = False, networkName = [],
     networkID = 0, bandwidth = 0, constellation = 0, codeRateHP = 0, guardInterval = 0, sdtData = [],
     programs = []\<rparr>"

theorem packets_counted_witness:
  "\<exists>d. stream_loop (\<lambda>_. null_header) (header_bytes null_header @ replicate 184 0) (Demultiplexor_new blank_demux) = Some d
    \<and> packets d = 1"
proof -
  obtain d where d: "stream_loop (\<lambda>_. null_header) (header_bytes null_header @ replicate 184 0) (Demultiplexor_new blank_demux) = Some d"
    using null_stream by blast
  from packets_counted [OF d, of 0] d show ?thesis by (simp add: header_bytes_def ts_size_def)
qed

section \<open>The association table is read once\<close>

lemma handle_packet_pat:
  "handle_packet junk buffer d = Some d' \<Longrightarrow> analyzedPAT d \<Longrightarrow> same_pat d d'"
  by (auto simp: handle_packet_def Let_def count_packet_def same_pat_def split: bind_splits prod.splits
      dest!: dispatch_pat)

text \<open>
  Once the program association table has been analysed, nothing that follows in the
  stream changes it or the PID of the network table.
\<close>

theorem pat_is_final:
  assumes "stream_loop junk bytes d = Some d'" "analyzedPAT d"
  shows "PAT d' = PAT d \<and> NITPid d' = NITPid d \<and> analyzedPAT d'"
  using assms
proof (induction junk bytes d rule: stream_loop.induct)
  case (1 junk bytes d)
  show ?case
  proof (cases "length bytes < ts_size")
    case True
    then show ?thesis using "1.prems" by (simp add: stream_loop.simps)
  next
    case False
    with "1.prems"(1) obtain d1 where d1: "handle_packet (junk (length bytes)) (take ts_size bytes) d = Some d1"
      "stream_loop junk (drop ts_size bytes) d1 = Some d'"
      by (subst (asm) stream_loop.simps) (auto split: bind_splits)
    from handle_packet_pat [OF d1(1) "1.prems"(2)] "1.IH" [OF False d1] "1.prems"(2)
    show ?thesis by (simp add: same_pat_def)
  qed
qed

theorem pat_is_final_witness:
  "\<exists>d'. stream_loop (\<lambda>_. null_header) (header_bytes null_header @ replicate 184 0)
      ((Demultiplexor_new blank_demux)\<lparr>analyzedPAT := True, PAT := [(1, 0x100)]\<rparr>) = Some d' \<and> PAT d' = [(1, 0x100)]"
proof -
  obtain d' where d: "stream_loop (\<lambda>_. null_header) (header_bytes null_header @ replicate 184 0)
      ((Demultiplexor_new blank_demux)\<lparr>analyzedPAT := True, PAT := [(1, 0x100)]\<rparr>) = Some d'"
    using null_stream by blast
  from pat_is_final [OF d] d show ?thesis by simp
qed

section \<open>Reading the association table\<close>

definition entry_bytes :: "u16 \<times> 13 word \<Rightarrow> byte list" where
  "entry_bytes e = [ucast (drop_bit 8 (fst e)), ucast (fst e),
     0xE0 OR ucast (drop_bit 8 (snd e)), ucast (snd e)]"

definition enter_program :: "u16 \<times> 13 word \<Rightarrow> demux \<Rightarrow> demux" where
  "enter_program e d = d\<lparr>PAT := map_insert (fst e) (ucast (snd e)) (PAT d),
     NITPid := (if fst e = 0 then ucast (snd e) else NITPid d)\<rparr>"

lemma be16_entry:
  "be16 (ucast (drop_bit 8 n)) (ucast n) = n"
  "be16 ((0xE0 OR ucast (drop_bit 8 p)) AND 0x1F) (ucast p) = ucast (p :: 13 word)"
  unfolding be16_def and_masks
  by (rule bit_word_eqI; auto simp: bit_simps dest: bit_imp_le_length)+

lemma length_entry_bytes: "length (concat (map entry_bytes es)) = 4 * length es"
  by (induction es) (simp_all add: entry_bytes_def)

lemma enter_program_eq:
  "(if fst e = 0 then d\<lparr>PAT := map_insert (fst e) (ucast (snd e)) (PAT d)\<rparr>\<lparr>NITPid := ucast (snd e)\<rparr>
    else d\<lparr>PAT := map_insert (fst e) (ucast (snd e)) (PAT d)\<rparr>) = enter_program e d"
  by (cases d) (simp add: enter_program_def)

lemma unat_ucast_byte: "unat (ucast (i :: byte) :: u16) = unat i"
proof -
  have "unat i < 2 ^ 16" using unat_byte_less [of i] by (rule less_trans) simp
  then show ?thesis by (simp only: unsigned_ucast_eq) (simp add: take_bit_nat_eq_self)
qed

lemma pat_loop_entries:
  assumes "length pre = unat index + 8" "unat index + 4 * length es < 256"
    and "unat s \<le> unat index + 4 * length es" "es \<noteq> [] \<longrightarrow> unat index + 4 * length es < unat s + 4"
  shows "pat_loop (pre @ concat (map entry_bytes es) @ rest) s index d = Some (fold enter_program es d)"
  using assms
proof (induction es arbitrary: pre index d)
  case Nil
  then have "\<not> ucast index < s" by (simp add: word_less_nat_alt unat_ucast_byte)
  then show ?case by (subst pat_loop.simps) simp
next
  case (Cons e es)
  let ?p = "pre @ concat (map entry_bytes (e # es)) @ rest"
  have go: "ucast index < s" using Cons.prems by (simp add: word_less_nat_alt unat_ucast_byte)
  have at: "vec_at ?p (unat index + 8) = Some (ucast (drop_bit 8 (fst e)))"
    "vec_at ?p (unat index + 9) = Some (ucast (fst e))"
    "vec_at ?p (unat index + 10) = Some (0xE0 OR ucast (drop_bit 8 (snd e)))"
    "vec_at ?p (unat index + 11) = Some (ucast (snd e))"
    using Cons.prems(1) by (simp_all add: entry_bytes_def nth_append)
  have n: "unat (index + 4) = unat index + 4"
    using Cons.prems(2) by (simp add: unat_word_ariths)
  have "pat_loop ?p s index d = pat_loop ?p s (index + 4) (enter_program e d)"
    by (subst pat_loop.simps) (simp only: go at if_True Option.bind.simps Let_def be16_entry enter_program_eq)
  also have "?p = (pre @ entry_bytes e) @ concat (map entry_bytes es) @ rest" by simp
  also have "pat_loop \<dots> s (index + 4) (enter_program e d) = Some (fold enter_program es (enter_program e d))"
    using Cons.prems by (intro Cons.IH) (auto simp: n entry_bytes_def)
  finally show ?case by simp
qed

text \<open>
  \<^verbatim>\<open>parsePAT\<close> enters one program for each four bytes of the section, counted from the
  ninth: as many as the section length has multiples of four, rounded up.
\<close>

theorem parsePAT_entries:
  assumes "ts_payload packet = [0, hi, lo] @ five @ concat (map entry_bytes es) @ rest"
    and "length five = 5" "length es \<le> 63"
    and "unat (be16 (hi AND 0xF) lo) \<le> 4 * length es" "4 * length es < unat (be16 (hi AND 0xF) lo) + 4"
  shows "parsePAT packet d = Some (True, (fold enter_program es d)\<lparr>analyzedPAT := True\<rparr>)"
proof -
  let ?s = "be16 (hi AND 0xF) lo"
  have pl: "ts_payload packet = ([0, hi, lo] @ five) @ concat (map entry_bytes es) @ rest"
    using assms(1) by simp
  have "pat_loop (ts_payload packet) ?s 0 d = Some (fold enter_program es d)"
    unfolding pl using assms(2-5) by (intro pat_loop_entries) auto
  then show ?thesis
    by (simp add: parsePAT_def Let_def assms(1) ts_consts vec_at_def)
qed

text \<open>
  A section with one program, its checksum \<open>0x2AB104B2\<close> and stuffing: the checksum and the
  stuffing are entered as programs 0x2AB1 and 0xFFFF.
\<close>

theorem parsePAT_entries_witness:
  "parsePAT \<lparr>ts_raw = [], ts_head = null_header, ts_adaption = [],
      ts_payload = [0, 0xB0, 13] @ [0, 1, 0xC1, 0, 0]
        @ concat (map entry_bytes [(1, 0x100), (0x2AB1, 0x4B2), (0xFFFF, 0x1FFF), (0xFFFF, 0x1FFF)]) @ [0xFF]\<rparr>
      (Demultiplexor_new blank_demux)
    = Some (True, (Demultiplexor_new blank_demux)\<lparr>PAT := [(1, 0x100), (0x2AB1, 0x4B2), (0xFFFF, 0x1FFF)],
        analyzedPAT := True\<rparr>)"
  by (subst parsePAT_entries [where hi = "0xB0" and lo = "13" and five = "[0, 1, 0xC1, 0, 0]" and rest = "[0xFF]"
      and es = "[(1, 0x100), (0x2AB1, 0x4B2), (0xFFFF, 0x1FFF), (0xFFFF, 0x1FFF)]"])
    (auto simp: be16_def enter_program_def Demultiplexor_new_def map_insert_def)

section \<open>Binding programs to their PIDs\<close>

definition pat_pid :: "demux \<Rightarrow> u16 \<Rightarrow> u16" where
  "pat_pid d sid = (case map_of (PAT d) sid of None \<Rightarrow> 0 | Some p \<Rightarrow> p)"

lemma add_counts_PAT: "PAT (fold (add_count p) es d) = PAT d"
  by (induction es arbitrary: d) (simp_all add: add_count_def split: prod.splits)

lemma bind_program_eq:
  assumes "map_ok (PAT d)"
  shows "fst (bind_program program d) = program\<lparr>pi_pid := pat_pid d (pi_serviceID program)\<rparr>
    \<and> pat_pid (snd (bind_program program d)) = pat_pid d \<and> map_ok (PAT (snd (bind_program program d)))"
proof -
  let ?s = "pi_serviceID program"
  have "map_ok (snd (map_at ?s 0 (PAT d)))"
    using assms by (simp add: map_at_def map_ok_put split: option.splits)
  moreover have "(case map_of (snd (map_at ?s 0 (PAT d))) x of None \<Rightarrow> 0 | Some p \<Rightarrow> p) = pat_pid d x" for x
    using map_at_snd [OF assms, of ?s 0 x] by (simp add: pat_pid_def split: option.splits)
  ultimately show ?thesis
    by (simp add: bind_program_def add_counts_PAT pat_pid_def fun_eq_iff map_at_fst split: prod.splits)
      (metis fst_conv map_at_fst snd_conv)
qed

lemma bind_programs_eq:
  "map_ok (PAT d) \<Longrightarrow> fst (bind_programs ps d) = map (\<lambda>p. p\<lparr>pi_pid := pat_pid d (pi_serviceID p)\<rparr>) ps"
proof (induction ps arbitrary: d)
  case (Cons p ps)
  obtain p' d1 where b: "bind_program p d = (p', d1)" by (metis surj_pair)
  obtain ps' d2 where bs: "bind_programs ps d1 = (ps', d2)" by (metis surj_pair)
  show ?case
    using bind_program_eq [OF Cons.prems, of p] Cons.IH [of d1] b bs by simp
qed simp

text \<open>
  \<^verbatim>\<open>bindMaps\<close> gives every program the PID the association table has for its service,
  0 where it has none, loses and adds no program, and sorts them by PID.
\<close>

theorem bindMaps_sorted:
  assumes "bindMaps d = Some d'" "map_ok (PAT d)"
  shows "sorted (map pi_pid (programs d'))
    \<and> mset (programs d') = mset (map (\<lambda>p. p\<lparr>pi_pid := pat_pid d (pi_serviceID p)\<rparr>) (programs d))"
  using assms bind_programs_eq [OF assms(2), of "programs d"]
  by (auto simp: bindMaps_def split: if_splits prod.splits)

theorem bindMaps_sorted_witness:
  "\<exists>d'. bindMaps ((Demultiplexor_new blank_demux)\<lparr>PAT := [(1, 0x200), (2, 0x100)],
      programs := [\<lparr>pi_pid = 0, pi_serviceID = 1, pi_provider = [], pi_name = [65]\<rparr>,
                   \<lparr>pi_pid = 0, pi_serviceID = 2, pi_provider = [], pi_name = [66]\<rparr>]\<rparr>) = Some d'
    \<and> sorted (map pi_pid (programs d'))"
proof -
  let ?d = "(Demultiplexor_new blank_demux)\<lparr>PAT := [(1, 0x200), (2, 0x100)],
      programs := [\<lparr>pi_pid = 0, pi_serviceID = 1, pi_provider = [], pi_name = [65]\<rparr>,
                   \<lparr>pi_pid = 0, pi_serviceID = 2, pi_provider = [], pi_name = [66]\<rparr>]\<rparr>"
  have "all_counted ?d" by (simp add: all_counted_def Demultiplexor_new_def)
  moreover obtain ps e where "bind_programs (programs ?d) ?d = (ps, e)" by (metis surj_pair)
  ultimately obtain d' where d: "bindMaps ?d = Some d'"
    by (simp only: bindMaps_def if_True Let_def prod.case)
  from bindMaps_sorted [OF d] d show ?thesis by (simp add: map_ok_def)
qed

end
