(* ===== verification/C_Numbers.thy ===== *)
theory C_Numbers
  imports Prelude
begin

text \<open>
  Numbers in C strings: the functions of the C library that several programs read their
  arguments with. A string is the list of its bytes.
\<close>

text \<open>\<^verbatim>\<open>strtol\<close> in base 10, and the conversion of its \<^verbatim>\<open>long\<close> result to \<^verbatim>\<open>int\<close>.\<close>

definition is_digit :: "byte \<Rightarrow> bool" where
  "is_digit c \<longleftrightarrow> 48 \<le> c \<and> c \<le> 57"

definition is_space :: "byte \<Rightarrow> bool" where
  "is_space c \<longleftrightarrow> c = 32 \<or> (9 \<le> c \<and> c \<le> 13)"

definition digits_value :: "byte list \<Rightarrow> int" where
  "digits_value ds = foldl (\<lambda>n c. n * 10 + int (unat (c - 48))) 0 ds"

definition clamp_long :: "int \<Rightarrow> int" where
  "clamp_long n = max (- (2 ^ 63)) (min (2 ^ 63 - 1) n)"

definition strtol :: "byte list \<Rightarrow> int \<times> byte list" where
  "strtol s =
     (let t = dropWhile is_space s;
          neg = (t \<noteq> [] \<and> hd t = 45);
          u = (if t \<noteq> [] \<and> (hd t = 45 \<or> hd t = 43) then tl t else t);
          ds = takeWhile is_digit u;
          v = digits_value ds
      in if ds = [] then (0, s) else (clamp_long (if neg then - v else v), dropWhile is_digit u))"

text \<open>Whether the number is out of the range of \<^verbatim>\<open>long\<close>.\<close>

definition strtol_range :: "byte list \<Rightarrow> bool" where
  "strtol_range s =
     (let t = dropWhile is_space s;
          neg = (t \<noteq> [] \<and> hd t = 45);
          u = (if t \<noteq> [] \<and> (hd t = 45 \<or> hd t = 43) then tl t else t);
          v = digits_value (takeWhile is_digit u);
          n = (if neg then - v else v)
      in clamp_long n \<noteq> n)"

definition to_int32 :: "int \<Rightarrow> int" where
  "to_int32 n = sint (of_int n :: u32)"

text \<open>A number as \<^verbatim>\<open>%u\<close> of \<^verbatim>\<open>printf\<close> writes it.\<close>

fun decimal :: "nat \<Rightarrow> byte list" where
  "decimal n = (if n < 10 then [48 + of_nat n] else decimal (n div 10) @ [48 + of_nat (n mod 10)])"

declare decimal.simps [simp del]

lemma digit_byte:
  assumes "k < 10"
  shows "unat (48 + of_nat k :: byte) = 48 + k" "is_digit (48 + of_nat k)" "unat (48 + of_nat k - 48 :: byte) = k"
    "uint (of_nat k :: byte) = int k"
proof -
  have e: "48 + of_nat k = (of_nat (48 + k) :: byte)" by simp
  have u: "unat (of_nat (48 + k) :: byte) = 48 + k" by (rule unat_of_nat_byte) (use assms in simp)
  show "unat (48 + of_nat k :: byte) = 48 + k" unfolding e u ..
  show "is_digit (48 + of_nat k)" unfolding e is_digit_def word_le_nat_alt u using assms by simp
  show "unat (48 + of_nat k - 48 :: byte) = k" using unat_of_nat_byte [of k] assms by simp
  show "uint (of_nat k :: byte) = int k" using unat_of_nat_byte [of k] assms by (simp add: uint_nat del: of_nat_unat)
qed

lemma digits_value_snoc: "digits_value (ds @ [c]) = digits_value ds * 10 + int (unat (c - 48))"
  by (simp add: digits_value_def)

lemma decimal:
  "decimal n \<noteq> [] \<and> (\<forall>c \<in> set (decimal n). is_digit c) \<and> digits_value (decimal n) = int n"
proof (induction n rule: decimal.induct)
  case (1 n)
  show ?case
  proof (cases "n < 10")
    case True
    then show ?thesis using digit_byte(2,4) [of n] by (simp add: decimal.simps [of n] digits_value_def)
  next
    case False
    moreover have "int (n div 10) * 10 + int (n mod 10) = int n"
      by (metis div_mult_mod_eq of_nat_add of_nat_mult of_nat_numeral)
    ultimately show ?thesis using 1 digit_byte(2,4) [of "n mod 10"]
      by (auto simp: decimal.simps [of n] digits_value_snoc)
  qed
qed

end
