(* ===== verification/User_Info.thy ===== *)
theory User_Info
  imports C_Numbers
begin

text \<open>
  The user information service of \<^verbatim>\<open>IPK/proj1\<close>: its packets (\<^verbatim>\<open>Packet.h\<close>,
  \<^verbatim>\<open>Packet.cpp\<close>), the account lookup (\<^verbatim>\<open>Passwd.h\<close>, \<^verbatim>\<open>Passwd.cpp\<close>) and the server's
  handling of a connection (\<^verbatim>\<open>Socket.cpp\<close>). Characters are bytes. The account database
  that \<^verbatim>\<open>getpwent\<close> enumerates is an argument. Sockets are reduced to the bytes a read
  returned and the packets written. A buffer write past the end of the vector is not
  stored; the ghost field \<open>pk_over\<close> counts such bytes.
\<close>

section \<open>Packets\<close>

definition CMSG_FLAGS :: byte where "CMSG_FLAGS = 0"
definition CMSG_DATA :: byte where "CMSG_DATA = 1"
definition SMSG_SIZE :: byte where "SMSG_SIZE = 0"
definition SMSG_DATA :: byte where "SMSG_DATA = 1"
definition DELIMETER :: byte where "DELIMETER = 10"
definition NOT_FOUND :: byte where "NOT_FOUND = 11"
definition NOT_FOUND_S :: "byte list" where "NOT_FOUND_S = [64, 110, 102]"

lemmas ui_consts = CMSG_FLAGS_def CMSG_DATA_def SMSG_SIZE_def SMSG_DATA_def DELIMETER_def
  NOT_FOUND_def NOT_FOUND_S_def

record packet =
  pk_size :: nat
  pk_writepos :: nat
  pk_buffer :: "byte list"
  pk_readpos :: nat
  pk_over :: nat

definition resized :: "byte list \<Rightarrow> nat \<Rightarrow> byte list" where
  "resized v n = take n v @ replicate (n - length v) 0"

definition Packet_default :: packet where
  "Packet_default = \<lparr>pk_size = 0, pk_writepos = 0, pk_buffer = [], pk_readpos = 0, pk_over = 0\<rparr>"

definition Packet_new :: "byte \<Rightarrow> nat \<Rightarrow> packet" where
  "Packet_new op n = \<lparr>pk_size = n, pk_writepos = 0, pk_buffer = (resized [] n)[0 := op], pk_readpos = 0,
     pk_over = 0\<rparr>"

definition Packet_from :: "byte list \<Rightarrow> nat \<Rightarrow> packet" where
  "Packet_from buffer n = \<lparr>pk_size = n, pk_writepos = 0, pk_buffer = take n buffer, pk_readpos = 0, pk_over = 0\<rparr>"

definition Packet_Init :: "byte \<Rightarrow> nat \<Rightarrow> packet \<Rightarrow> packet" where
  "Packet_Init op n p = p\<lparr>pk_size := n, pk_writepos := 0, pk_buffer := (resized (pk_buffer p) n)[0 := op]\<rparr>"

definition getOpcode :: "packet \<Rightarrow> byte" where
  "getOpcode p = pk_buffer p ! 0 AND 1"

text \<open>The host is little-endian.\<close>

definition le32 :: "u32 \<Rightarrow> byte list" where
  "le32 w = [ucast w, ucast (drop_bit 8 w), ucast (drop_bit 16 w), ucast (drop_bit 24 w)]"

definition of_le32 :: "byte list \<Rightarrow> u32" where
  "of_le32 bs = ucast (bs ! 0) OR push_bit 8 (ucast (bs ! 1)) OR push_bit 16 (ucast (bs ! 2))
     OR push_bit 24 (ucast (bs ! 3))"

definition getDataSize :: "packet \<Rightarrow> u32" where
  "getDataSize p = drop_bit 8 (of_le32 (take 4 (pk_buffer p)))"

text \<open>\<^verbatim>\<open>memcpy(&m_buffer[1] + m_writepos, ...)\<close> and the advance of the position.\<close>

definition put_bytes :: "byte list \<Rightarrow> packet \<Rightarrow> packet" where
  "put_bytes bs p =
     (let pos = 1 + pk_writepos p; room = length (pk_buffer p) - pos
      in p\<lparr>pk_buffer := take pos (pk_buffer p) @ take room bs @ drop (pos + length (take room bs)) (pk_buffer p),
           pk_writepos := pk_writepos p + length bs,
           pk_over := pk_over p + (length bs - room)\<rparr>)"

definition put_uint :: "u32 \<Rightarrow> packet \<Rightarrow> packet" where
  "put_uint d = put_bytes (le32 d)"

definition put_string :: "byte list \<Rightarrow> packet \<Rightarrow> packet" where
  "put_string s = put_bytes (s @ [0])"

definition put_uchar :: "byte \<Rightarrow> packet \<Rightarrow> packet" where
  "put_uchar c = put_bytes [c]"

definition getFlags :: "packet \<Rightarrow> byte" where
  "getFlags p = pk_buffer p ! 0"

definition WriteFlagsData :: "byte \<Rightarrow> u32 \<Rightarrow> packet \<Rightarrow> packet" where
  "WriteFlagsData flags n p =
     (let b = (pk_buffer p)[0 := (pk_buffer p ! 0) OR push_bit 1 flags]
      in p\<lparr>pk_buffer := take 1 b @ take 3 (le32 n) @ drop 4 b\<rparr>)"

text \<open>\<^verbatim>\<open>getUID(i)\<close> reads four bytes after the opcode; outside the vector there is no value.\<close>

definition getUID :: "packet \<Rightarrow> nat \<Rightarrow> u32 option" where
  "getUID p i = map_option of_le32 (vec_slice (pk_buffer p) (1 + 4 * i) 4)"

fun uids_from :: "packet \<Rightarrow> nat list \<Rightarrow> u32 list option" where
  "uids_from p [] = Some []"
| "uids_from p (i # is) = do { u \<leftarrow> getUID p i; us \<leftarrow> uids_from p is; Some (u # us) }"

definition getUIDs :: "packet \<Rightarrow> u32 list option" where
  "getUIDs p = uids_from p [0..<pk_size p div 4]"

text \<open>The loop of \<^verbatim>\<open>getLogins\<close>, over the bytes after the opcode.\<close>

fun logins_from :: "byte list \<Rightarrow> byte list \<Rightarrow> byte list list" where
  "logins_from [] buffer = []"
| "logins_from (c # cs) buffer =
     (if c = 0 then buffer # logins_from cs [] else logins_from cs (buffer @ [c]))"

definition getLogins :: "packet \<Rightarrow> byte list list" where
  "getLogins p = logins_from (drop 1 (take (pk_size p) (pk_buffer p))) []"

fun records_from :: "byte list \<Rightarrow> byte list \<Rightarrow> byte list list" where
  "records_from [] buffer = []"
| "records_from (c # cs) buffer =
     (if c = NOT_FOUND then NOT_FOUND_S # records_from cs buffer
      else if c = 0 then buffer # records_from cs []
      else records_from cs (buffer @ [c]))"

definition getRecords_client :: "packet \<Rightarrow> byte list list" where
  "getRecords_client p = records_from (drop 1 (take (pk_size p) (pk_buffer p))) []"

definition ServerPacket_new :: "packet \<Rightarrow> packet" where
  "ServerPacket_new p = p\<lparr>pk_readpos := 1\<rparr>"

text \<open>
  The loop of \<^verbatim>\<open>getRecord\<close> over the unread bytes: the fields, and how many bytes were
  passed over when the loop ended.
\<close>

fun record_from :: "byte list \<Rightarrow> byte list \<Rightarrow> byte list list \<times> nat" where
  "record_from [] buffer = ([], 0)"
| "record_from (c # cs) buffer =
     (if c = 0 then ([], 0)
      else if c = NOT_FOUND then ([[NOT_FOUND]], 0)
      else if c = DELIMETER then (let (fs, n) = record_from cs [] in (buffer # fs, n + 1))
      else (let (fs, n) = record_from cs (buffer @ [c]) in (fs, n + 1)))"

definition getRecord :: "packet \<Rightarrow> byte list list \<times> packet" where
  "getRecord p =
     (let (fs, n) = record_from (drop (pk_readpos p) (take (pk_size p) (pk_buffer p))) []
      in (fs, p\<lparr>pk_readpos := pk_readpos p + n + 1\<rparr>))"

fun fields_from :: "byte list \<Rightarrow> byte list \<Rightarrow> byte list list \<times> nat" where
  "fields_from [] buffer = ([], 0)"
| "fields_from (c # cs) buffer =
     (if c = 0 then ([], 0)
      else if c = DELIMETER then (let (fs, n) = fields_from cs [] in (buffer # fs, n + 1))
      else (let (fs, n) = fields_from cs (buffer @ [c]) in (fs, n + 1)))"

definition extract_record :: "byte list list \<Rightarrow> packet \<Rightarrow> byte list list \<times> packet" where
  "extract_record record p =
     (let (fs, n) = fields_from (drop (pk_readpos p) (take (pk_size p) (pk_buffer p))) []
      in (record @ fs, p\<lparr>pk_readpos := pk_readpos p + n + 1\<rparr>))"

section \<open>Accounts\<close>

record account =
  pw_name :: "byte list"
  pw_uid :: u32
  pw_gid :: u32
  pw_gecos :: "byte list"
  pw_dir :: "byte list"
  pw_shell :: "byte list"

text \<open>
  \<^verbatim>\<open>AddToRecords\<close>: the selected fields in the fixed order, each with the delimiter.
\<close>

definition add_text :: "byte list \<Rightarrow> byte list \<Rightarrow> byte list" where
  "add_text str record = str @ record @ [DELIMETER]"

definition add_number :: "byte list \<Rightarrow> u32 \<Rightarrow> byte list" where
  "add_number str number = str @ decimal (unat number) @ [DELIMETER]"

definition AddToRecords :: "byte \<Rightarrow> account \<Rightarrow> byte list list \<Rightarrow> byte list list" where
  "AddToRecords flags r records =
     (let s0 = [];
          s1 = (if flags AND 0x02 \<noteq> 0 then add_text s0 (pw_name r) else s0);
          s2 = (if flags AND 0x04 \<noteq> 0 then add_number s1 (pw_uid r) else s1);
          s3 = (if flags AND 0x08 \<noteq> 0 then add_number s2 (pw_gid r) else s2);
          s4 = (if flags AND 0x10 \<noteq> 0 then add_text s3 (pw_gecos r) else s3);
          s5 = (if flags AND 0x20 \<noteq> 0 then add_text s4 (pw_dir r) else s4);
          s6 = (if flags AND 0x40 \<noteq> 0 then add_text s5 (pw_shell r) else s5)
      in records @ [s6])"

definition to_lower :: "byte \<Rightarrow> byte" where
  "to_lower c = (if 65 \<le> c \<and> c \<le> 90 then c + 32 else c)"

definition same_nocase :: "byte list \<Rightarrow> byte list \<Rightarrow> bool" where
  "same_nocase a b \<longleftrightarrow> map to_lower a = map to_lower b"

text \<open>\<^verbatim>\<open>my_getpwnam\<close> stops at the first match, \<^verbatim>\<open>my_getpwuid\<close> goes through all accounts.\<close>

fun my_getpwnam :: "account list \<Rightarrow> byte \<Rightarrow> byte list \<Rightarrow> byte list list \<Rightarrow> bool \<times> byte list list" where
  "my_getpwnam [] flags name records = (False, records)"
| "my_getpwnam (a # db) flags name records =
     (if same_nocase name (pw_name a) then (True, AddToRecords flags a records)
      else my_getpwnam db flags name records)"

fun my_getpwuid :: "account list \<Rightarrow> byte \<Rightarrow> u32 \<Rightarrow> bool \<Rightarrow> byte list list \<Rightarrow> bool \<times> byte list list" where
  "my_getpwuid [] flags u found records = (found, records)"
| "my_getpwuid (a # db) flags u found records =
     (if pw_uid a = u then my_getpwuid db flags u True (AddToRecords flags a records)
      else my_getpwuid db flags u found records)"

fun loadRecordsByLogins :: "account list \<Rightarrow> byte \<Rightarrow> byte list list \<Rightarrow> byte list list \<Rightarrow> byte list list" where
  "loadRecordsByLogins db flags [] records = records"
| "loadRecordsByLogins db flags (l # ls) records =
     (let (found, rs) = my_getpwnam db flags l records
      in loadRecordsByLogins db flags ls (if found then rs else rs @ [NOT_FOUND_S]))"

fun loadRecordsByUIDs :: "account list \<Rightarrow> byte \<Rightarrow> u32 list \<Rightarrow> byte list list \<Rightarrow> byte list list" where
  "loadRecordsByUIDs db flags [] records = records"
| "loadRecordsByUIDs db flags (u # us) records =
     (let (found, rs) = my_getpwuid db flags u False records
      in loadRecordsByUIDs db flags us (if found then rs else rs @ [NOT_FOUND_S]))"

section \<open>The server\<close>

text \<open>\<^verbatim>\<open>Recv\<close>: \<open>None\<close> is a failed read; the rest of a short read is whatever the stack holds.\<close>

definition Recv :: "byte list \<Rightarrow> byte list option \<Rightarrow> nat \<Rightarrow> string + packet" where
  "Recv junk got n =
     (case got of
        None \<Rightarrow> Inl ''Socket::Recv: Failed to receive a packet''
      | Some bs \<Rightarrow> Inr (Packet_from (take n bs @ drop (length (take n bs)) junk) n))"

definition response_size :: "byte list list \<Rightarrow> nat" where
  "response_size records =
     fold (\<lambda>s n. if s = NOT_FOUND_S then n + 1 else n + length s + 1) records 1"

definition put_record :: "byte list \<Rightarrow> packet \<Rightarrow> packet" where
  "put_record s = (if s = NOT_FOUND_S then put_uchar NOT_FOUND else put_string s)"

text \<open>\<^verbatim>\<open>ProcessData\<close>: the two packets written, or \<open>None\<close> when a UID is read outside the packet.\<close>

definition ProcessData :: "account list \<Rightarrow> byte \<Rightarrow> packet \<Rightarrow> (packet \<times> packet) option" where
  "ProcessData db flags dataPacket =
     do {
       records \<leftarrow> (if flags AND 1 \<noteq> 0
                  then map_option (\<lambda>us. loadRecordsByUIDs db flags us []) (getUIDs dataPacket)
                  else Some (loadRecordsByLogins db flags (getLogins dataPacket) []));
       let sz = response_size records;
       let sizePacket = put_uint (of_nat sz) (Packet_new SMSG_SIZE 4);
       let sDataPacket = fold put_record records (Packet_new SMSG_DATA sz);
       Some (sizePacket, sDataPacket)
     }"

text \<open>
  One connection, as the thread of \<^verbatim>\<open>Listen\<close> handles it: the first read, then the read of
  as many bytes as the flags packet announces. \<open>Inl\<close> is the exception, \<open>Inr\<close> the packets
  sent; an empty data packet has no opcode to look at.
\<close>

definition connection :: "account list \<Rightarrow> byte list \<Rightarrow> byte list option \<Rightarrow> (nat \<Rightarrow> byte list option)
    \<Rightarrow> (string + packet \<times> packet) option" where
  "connection db junk got1 got2 =
     (case Recv junk got1 4 of
        Inl e \<Rightarrow> Some (Inl e)
      | Inr flagsPacket \<Rightarrow>
          if getOpcode flagsPacket \<noteq> CMSG_FLAGS
          then Some (Inl ''Socket::Listen: First socket have to be flag packet'')
          else let n = unat (getDataSize flagsPacket) in
            (case Recv junk (got2 n) n of
               Inl e \<Rightarrow> Some (Inl e)
             | Inr dataPacket \<Rightarrow>
                 if n = 0 then None
                 else if getOpcode dataPacket \<noteq> CMSG_DATA
                 then Some (Inl ''Socket::Listen: Second socket have to be data packet'')
                 else map_option Inr (ProcessData db (drop_bit 1 (getFlags flagsPacket)) dataPacket)))"

section \<open>Writing into a packet\<close>

text \<open>A packet of \<open>n\<close> bytes with the opcode and the bytes written so far.\<close>

definition holds :: "byte \<Rightarrow> byte list \<Rightarrow> nat \<Rightarrow> packet \<Rightarrow> bool" where
  "holds op w n p \<longleftrightarrow> pk_size p = n \<and> pk_writepos p = length w \<and> length w < n
     \<and> pk_buffer p = op # w @ replicate (n - 1 - length w) 0"

lemma holds_new: "0 < n \<Longrightarrow> holds op [] n (Packet_new op n)"
  by (cases n) (auto simp: holds_def Packet_new_def resized_def)

lemma holds_Init: "0 < n \<Longrightarrow> holds op [] n (Packet_Init op n Packet_default)"
  by (cases n) (auto simp: holds_def Packet_Init_def Packet_default_def resized_def)

lemma accounts_put:
  assumes "holds op w n p" "length w + length bs < n"
  shows "holds op (w @ bs) n (put_bytes bs p) \<and> pk_over (put_bytes bs p) = pk_over p"
  using assms by (auto simp: holds_def put_bytes_def Let_def)

lemma holds_put_strings:
  assumes "holds op w n p" "length w + length (concat (map (\<lambda>s. s @ [0]) ss)) < n"
  shows "holds op (w @ concat (map (\<lambda>s. s @ [0]) ss)) n (fold put_string ss p)
    \<and> pk_over (fold put_string ss p) = pk_over p"
  using assms
proof (induction ss arbitrary: w p)
  case (Cons s ss)
  then have s: "holds op (w @ s @ [0]) n (put_string s p)" "pk_over (put_string s p) = pk_over p"
    using accounts_put [of op w n p "s @ [0]"] by (auto simp: put_string_def)
  with Cons.IH [OF s(1)] Cons.prems(2) show ?case by simp
qed simp

lemma holds_put_uints:
  assumes "holds op w n p" "length w + 4 * length us < n"
  shows "holds op (w @ concat (map le32 us)) n (fold put_uint us p)
    \<and> pk_over (fold put_uint us p) = pk_over p"
  using assms
proof (induction us arbitrary: w p)
  case (Cons u us)
  then have u: "holds op (w @ le32 u) n (put_uint u p)" "pk_over (put_uint u p) = pk_over p"
    using accounts_put [of op w n p "le32 u"] by (auto simp: put_uint_def le32_def)
  with Cons.IH [OF u(1)] Cons.prems(2) show ?case by (simp add: le32_def)
qed simp

section \<open>Reading it back\<close>

lemma length_le32 [simp]: "length (le32 w) = 4"
  by (simp add: le32_def)

lemma of_le32_le32 [simp]: "of_le32 (le32 w) = w"
proof (rule bit_word_eqI)
  fix n assume "n < LENGTH(32)"
  then show "bit (of_le32 (le32 w)) n = bit w n"
    by (cases "n < 8"; cases "n < 16"; cases "n < 24")
      (auto simp: of_le32_def le32_def bit_simps nth_Cons')
qed

lemma of_le32_append: "of_le32 (le32 w @ rest) = w"
  using of_le32_le32 [of w] by (simp add: of_le32_def le32_def)

lemma logins_from_string: "0 \<notin> set s \<Longrightarrow> logins_from (s @ 0 # cs) b = (b @ s) # logins_from cs []"
  by (induction s arbitrary: b) auto

lemma logins_from_strings:
  "\<forall>s \<in> set ss. 0 \<notin> set s \<Longrightarrow> logins_from (concat (map (\<lambda>s. s @ [0]) ss)) [] = ss"
  by (induction ss) (auto simp: logins_from_string)

lemma getUID_holds:
  assumes "pk_buffer p = op # concat (map le32 us)" "i < length us"
  shows "getUID p i = Some (us ! i)"
proof -
  have len: "length (concat (map le32 vs)) = 4 * length vs" for vs
    by (induction vs) simp_all
  have "drop (4 * i) (concat (map le32 us)) = concat (map le32 (drop i us))"
    using assms(2)
  proof (induction us arbitrary: i)
    case (Cons u us)
    show ?case
    proof (cases i)
      case (Suc k)
      then have "drop (4 * i) (concat (map le32 (u # us))) = drop (4 * k) (concat (map le32 us))"
        by simp
      then show ?thesis using Cons Suc by simp
    qed simp
  qed simp
  moreover have "drop i us = us ! i # drop (Suc i) us" using assms(2) by (simp add: Cons_nth_drop_Suc)
  moreover have "4 * i + 4 \<le> 4 * length us" using assms(2) by simp
  ultimately show ?thesis
    using assms by (simp add: getUID_def vec_slice_def len)
qed

lemma uids_from_all:
  assumes "\<And>i. i \<in> set is \<Longrightarrow> getUID p i = Some (f i)"
  shows "uids_from p is = Some (map f is)"
  using assms by (induction "is") auto

section \<open>Records on the wire\<close>

text \<open>The fields of an account that the flags select, in the order of \<^verbatim>\<open>AddToRecords\<close>.\<close>

definition selected :: "byte \<Rightarrow> account \<Rightarrow> byte list list" where
  "selected flags a =
     (if flags AND 0x02 \<noteq> 0 then [pw_name a] else []) @
     (if flags AND 0x04 \<noteq> 0 then [decimal (unat (pw_uid a))] else []) @
     (if flags AND 0x08 \<noteq> 0 then [decimal (unat (pw_gid a))] else []) @
     (if flags AND 0x10 \<noteq> 0 then [pw_gecos a] else []) @
     (if flags AND 0x20 \<noteq> 0 then [pw_dir a] else []) @
     (if flags AND 0x40 \<noteq> 0 then [pw_shell a] else [])"

definition wire :: "byte list list \<Rightarrow> byte list" where
  "wire fs = concat (map (\<lambda>f. f @ [DELIMETER]) fs)"

lemma AddToRecords_wire: "AddToRecords flags a rs = rs @ [wire (selected flags a)]"
  by (simp add: AddToRecords_def Let_def selected_def wire_def add_text_def add_number_def)

definition clean :: "byte list \<Rightarrow> bool" where
  "clean s \<longleftrightarrow> 0 \<notin> set s \<and> DELIMETER \<notin> set s \<and> NOT_FOUND \<notin> set s"

definition clean_account :: "account \<Rightarrow> bool" where
  "clean_account a \<longleftrightarrow> clean (pw_name a) \<and> clean (pw_gecos a) \<and> clean (pw_dir a) \<and> clean (pw_shell a)"

lemma decimal_digits: "c \<in> set (decimal n) \<Longrightarrow> 48 \<le> c \<and> c \<le> 57"
  using decimal [of n] by (auto simp: is_digit_def)

lemma clean_decimal: "clean (decimal n)"
  using decimal_digits [of _ n] by (force simp: clean_def ui_consts)

lemma clean_selected: "clean_account a \<Longrightarrow> f \<in> set (selected flags a) \<Longrightarrow> clean f"
  by (auto simp: selected_def clean_account_def clean_decimal split: if_splits)

lemma record_from_field:
  "clean f \<Longrightarrow> record_from (f @ DELIMETER # cs) b
    = (let (fs, n) = record_from cs [] in ((b @ f) # fs, n + length f + 1))"
  by (induction f arbitrary: b) (auto simp: clean_def ui_consts split: prod.splits)

lemma record_from_wire:
  "\<forall>f \<in> set fs. clean f \<Longrightarrow> record_from (wire fs @ 0 # cs) [] = (fs, length (wire fs))"
  by (induction fs) (simp_all add: wire_def record_from_field)

text \<open>What a record of the answer is on the wire and after decoding.\<close>

definition wire_record :: "byte list \<Rightarrow> byte list" where
  "wire_record s = (if s = NOT_FOUND_S then [NOT_FOUND] else s @ [0])"

lemma holds_put_records:
  assumes "holds op w n p" "length w + length (concat (map wire_record rs)) < n"
  shows "holds op (w @ concat (map wire_record rs)) n (fold put_record rs p)
    \<and> pk_over (fold put_record rs p) = pk_over p"
  using assms
proof (induction rs arbitrary: w p)
  case (Cons r rs)
  then have r: "holds op (w @ wire_record r) n (put_record r p)" "pk_over (put_record r p) = pk_over p"
    using accounts_put [of op w n p "wire_record r"]
    by (auto simp: put_record_def wire_record_def put_string_def put_uchar_def)
  with Cons.IH [OF r(1)] Cons.prems(2) show ?case by simp
qed simp

lemma response_size_wire: "response_size rs = 1 + length (concat (map wire_record rs))"
proof -
  have "fold (\<lambda>s n. if s = NOT_FOUND_S then n + 1 else n + length s + 1) rs k
      = k + length (concat (map wire_record rs))" for k
    by (induction rs arbitrary: k) (simp_all add: wire_record_def)
  then show ?thesis by (simp add: response_size_def)
qed

text \<open>The loop of the client's \<^verbatim>\<open>main\<close>: records are read until an empty one.\<close>

lemma record_from_bound: "record_from cs b = (fs, n) \<Longrightarrow> n \<le> length cs"
  by (induction cs arbitrary: b fs n) (auto split: if_splits prod.splits)

lemma getRecord_progress:
  "getRecord p = (fs, p') \<Longrightarrow> fs \<noteq> [] \<Longrightarrow>
    pk_readpos p < pk_size p \<and> pk_size p' = pk_size p \<and> pk_buffer p' = pk_buffer p \<and> pk_readpos p < pk_readpos p'"
  by (cases "pk_readpos p < pk_size p")
    (auto simp: getRecord_def split: prod.splits)

function read_records :: "packet \<Rightarrow> byte list list list" where
  "read_records p =
     (let (record, p') = getRecord p
      in if record = [] then [] else record # read_records p')"
  by pat_completeness auto
termination
  by (relation "measure (\<lambda>p. pk_size p - pk_readpos p)")
    (auto dest!: getRecord_progress [OF sym])

declare read_records.simps [simp del]

section \<open>Answers\<close>

text \<open>The answer to one name: the selected fields of the first account that has it.\<close>

definition lookup_name :: "account list \<Rightarrow> byte \<Rightarrow> byte list \<Rightarrow> byte list list option" where
  "lookup_name db flags l = map_option (selected flags) (find (\<lambda>a. same_nocase l (pw_name a)) db)"

definition answer_record :: "byte list list option \<Rightarrow> byte list" where
  "answer_record a = (case a of None \<Rightarrow> NOT_FOUND_S | Some fs \<Rightarrow> wire fs)"

definition answer_fields :: "byte list list option \<Rightarrow> byte list list" where
  "answer_fields a = (case a of None \<Rightarrow> [[NOT_FOUND]] | Some fs \<Rightarrow> fs)"

definition good_answer :: "byte list list option \<Rightarrow> bool" where
  "good_answer a \<longleftrightarrow> (case a of None \<Rightarrow> True | Some fs \<Rightarrow> fs \<noteq> [] \<and> (\<forall>f \<in> set fs. clean f))"

lemma loadRecordsByLogins_answers:
  "loadRecordsByLogins db flags ls rs = rs @ map (\<lambda>l. answer_record (lookup_name db flags l)) ls"
proof -
  have one: "(if found then rs' else rs' @ [NOT_FOUND_S]) = rs @ [answer_record (lookup_name db flags l)]"
    if "my_getpwnam db flags l rs = (found, rs')" for l rs rs' found
    using that
    by (induction db) (auto simp: lookup_name_def answer_record_def AddToRecords_wire split: if_splits)
  show ?thesis
  proof (induction ls arbitrary: rs)
    case (Cons l ls)
    obtain found rs' where g: "my_getpwnam db flags l rs = (found, rs')" by (metis surj_pair)
    show ?case using Cons.IH one [OF g] g by simp
  qed simp
qed

lemma wire_not_marker: "fs \<noteq> [] \<Longrightarrow> wire fs \<noteq> NOT_FOUND_S"
proof
  assume "fs \<noteq> []" "wire fs = NOT_FOUND_S"
  moreover from this(1) have "last (wire fs) = DELIMETER"
    by (cases fs rule: rev_cases) (simp_all add: wire_def)
  ultimately show False by (simp add: ui_consts)
qed

lemma record_from_answer:
  "good_answer a \<Longrightarrow> record_from (wire_record (answer_record a) @ cs) []
    = (answer_fields a, length (wire_record (answer_record a)) - 1)"
  by (cases a) (auto simp: good_answer_def answer_record_def answer_fields_def wire_record_def
      record_from_wire ui_consts dest: wire_not_marker [unfolded NOT_FOUND_S_def])

lemma wire_record_ne: "0 < length (wire_record s)"
  by (simp add: wire_record_def)

lemma answer_fields_ne: "good_answer a \<Longrightarrow> answer_fields a \<noteq> []"
  by (auto simp: good_answer_def answer_fields_def split: option.splits)

lemma read_records_answers:
  assumes "\<forall>a \<in> set as. good_answer a"
    and "drop (pk_readpos p) (take (pk_size p) (pk_buffer p)) = concat (map (\<lambda>a. wire_record (answer_record a)) as)"
  shows "read_records p = map answer_fields as"
  using assms
proof (induction as arbitrary: p)
  case Nil
  then show ?case by (subst read_records.simps) (simp add: getRecord_def)
next
  case (Cons a as)
  let ?w = "wire_record (answer_record a)"
  let ?p = "p\<lparr>pk_readpos := pk_readpos p + length ?w\<rparr>"
  have "getRecord p = (answer_fields a, ?p)"
    using Cons.prems record_from_answer [of a] wire_record_ne [of "answer_record a"]
    by (simp add: getRecord_def)
  moreover have "drop (length ?w) (drop (pk_readpos p) (take (pk_size p) (pk_buffer p)))
      = concat (map (\<lambda>a. wire_record (answer_record a)) as)"
    using Cons.prems(2) by (simp add: comp_def)
  then have "drop (pk_readpos ?p) (take (pk_size ?p) (pk_buffer ?p)) = concat (map (\<lambda>a. wire_record (answer_record a)) as)"
    by (simp add: add.commute)
  ultimately show ?case
    using Cons.IH [of ?p] Cons.prems(1) answer_fields_ne [of a]
    by (subst read_records.simps) simp
qed

lemma selected_ne: "flags AND 0x7E \<noteq> 0 \<Longrightarrow> selected flags a \<noteq> []" for flags :: byte
proof
  assume f: "flags AND 0x7E \<noteq> 0" and "selected flags a = []"
  then have "flags AND 0x02 = 0" "flags AND 0x04 = 0" "flags AND 0x08 = 0" "flags AND 0x10 = 0"
    "flags AND 0x20 = 0" "flags AND 0x40 = 0"
    by (auto simp: selected_def split: if_splits)
  then have "flags AND (0x02 OR 0x04 OR 0x08 OR 0x10 OR 0x20 OR 0x40) = 0"
    by (simp only: bit.conj_disj_distrib) simp
  with f show False by simp
qed

lemma lookup_good:
  assumes "\<forall>a \<in> set db. clean_account a" "flags AND 0x7E \<noteq> 0"
  shows "good_answer (lookup_name db flags l)"
proof (cases "find (\<lambda>a. same_nocase l (pw_name a)) db")
  case (Some a)
  then have "a \<in> set db" by (metis (no_types, lifting) find_Some_iff nth_mem)
  then show ?thesis
    using assms Some selected_ne [OF assms(2)] by (auto simp: lookup_name_def good_answer_def intro: clean_selected)
qed (simp add: lookup_name_def good_answer_def)

text \<open>The size packet: its four payload bytes do not fit, one is written past the vector.\<close>

lemma size_packet:
  "pk_buffer (put_uint d (Packet_new SMSG_SIZE 4)) = [0, ucast d, ucast (drop_bit 8 d), ucast (drop_bit 16 d)]
    \<and> pk_over (put_uint d (Packet_new SMSG_SIZE 4)) = 1"
  by (simp add: put_uint_def put_bytes_def Packet_new_def resized_def le32_def ui_consts numeral_eq_Suc)

lemma getDataSize_bytes:
  assumes "take 4 (pk_buffer p) = [c, ucast d, ucast (drop_bit 8 d), ucast (drop_bit 16 d)]" "d < 2 ^ 24"
  shows "getDataSize p = (d :: u32)"
proof (rule bit_word_eqI)
  fix n assume n: "n < LENGTH(32)"
  have "take_bit 24 d = d"
    using assms(2) by (simp add: take_bit_eq_self_iff_drop_bit_eq_0 word_less_nat_alt drop_bit_eq_div word_arith_nat_div)
  then have hi: "\<not> bit d n" if "24 \<le> n"
    using that by (metis bit_take_bit_iff not_le)
  show "bit (getDataSize p) n = bit d n"
    using n hi unfolding getDataSize_def of_le32_def assms(1)
    by (cases "n < 8"; cases "n < 16"; cases "n < 24") (auto simp: bit_simps nth_Cons' dest: bit_imp_le_length)
qed

end
