(* ===== verification/User_Client.thy ===== *)
theory User_Client
  imports User_Info C_Numbers Std_Map
begin

text \<open>
  The client of the user information service, from \<^verbatim>\<open>IPK/proj1\<close>: its arguments
  (\<^verbatim>\<open>ClientArgParser.h\<close>, \<^verbatim>\<open>ClientArgParser.cpp\<close>) and its \<^verbatim>\<open>main\<close> (\<^verbatim>\<open>client.cpp\<close>).
  \<^verbatim>\<open>getopt\<close> is an argument: from its state and \<^verbatim>\<open>optind\<close> it yields the next option
  character, its argument, the new \<^verbatim>\<open>optind\<close> and state, or \<open>None\<close> for -1. The theorems:
  what the client asks the server understands, what it answers the client reads, and the
  columns come out in the order in which the options were given.
\<close>

section \<open>Arguments\<close>

definition HOSTNAME :: u32 where "HOSTNAME = 0x001"
definition PORT :: u32 where "PORT = 0x002"
definition LOGINS :: u32 where "LOGINS = 0x004"
definition UIDS :: u32 where "UIDS = 0x008"
definition USER_NAME :: u32 where "USER_NAME = 0x010"
definition UID :: u32 where "UID = 0x020"
definition GID :: u32 where "GID = 0x040"
definition NAME :: u32 where "NAME = 0x080"
definition HOME_FOLDER :: u32 where "HOME_FOLDER = 0x100"
definition SHELL :: u32 where "SHELL = 0x200"

lemmas flag_consts = HOSTNAME_def PORT_def LOGINS_def UIDS_def USER_NAME_def UID_def GID_def NAME_def
  HOME_FOLDER_def SHELL_def

record client_args =
  m_port :: int
  m_flags :: u32
  m_order :: byte
  m_flagsOrder :: "(nat \<times> nat) list"
  m_hostname :: "byte list"
  m_logins :: "byte list list"
  m_uids :: "u32 list"

text \<open>\<^verbatim>\<open>m_port\<close> is not initialised; the argument is what the memory holds.\<close>

definition ClientArgParser_new :: "int \<Rightarrow> nat \<Rightarrow> string + client_args" where
  "ClientArgParser_new port argc =
     (if argc < 1 then Inl ''ClientArgParser: Wrong input''
      else Inr \<lparr>m_port = port, m_flags = 0, m_order = 0, m_flagsOrder = [], m_hostname = [], m_logins = [], m_uids = []\<rparr>)"

definition SetFlag :: "u32 \<Rightarrow> client_args \<Rightarrow> string + client_args" where
  "SetFlag flag a =
     (if m_flags a AND flag \<noteq> 0 then Inl (''Arguments: Can'' @ [CHR 0x27] @ ''t enter same argument more times'')
      else let f = m_flags a OR flag
        in Inr (a\<lparr>m_flags := (if flag = LOGINS then f AND NOT UIDS
                        else if flag = UIDS then f AND NOT LOGINS else f)\<rparr>))"

definition MINUS :: byte where "MINUS = 45"

text \<open>The arguments after \<^verbatim>\<open>-l\<close> and \<^verbatim>\<open>-u\<close>, up to the next that starts with a minus sign.\<close>

definition list_args :: "byte list list \<Rightarrow> nat \<Rightarrow> byte list list" where
  "list_args argv optind = takeWhile (\<lambda>a. a = [] \<or> hd a \<noteq> MINUS) (drop optind argv)"

fun read_uids :: "byte list list \<Rightarrow> client_args \<Rightarrow> string + client_args" where
  "read_uids [] a = Inr a"
| "read_uids (s # ss) a =
     (let (v, err) = strtol s; number = to_int32 v
      in if err \<noteq> [] \<or> number < 0 then Inl ''Arguments: Invalid UID''
         else read_uids ss (a\<lparr>m_uids := m_uids a @ [of_int number]\<rparr>))"

definition add_column :: "u32 \<Rightarrow> nat \<Rightarrow> client_args \<Rightarrow> string + client_args" where
  "add_column flag column a =
     (case SetFlag flag a of
        Inl e \<Rightarrow> Inl e
      | Inr a' \<Rightarrow> Inr (a'\<lparr>m_flagsOrder := map_put (unat (m_order a')) column (m_flagsOrder a'),
                        m_order := m_order a' + 1\<rparr>))"

text \<open>One option: the new arguments and the new \<^verbatim>\<open>optind\<close>.\<close>

definition parse_option :: "byte list list \<Rightarrow> char \<Rightarrow> byte list \<Rightarrow> nat \<Rightarrow> client_args
    \<Rightarrow> string + nat \<times> client_args" where
  "parse_option argv ch optarg optind a =
     (let keep = (\<lambda>r. case r of Inl e \<Rightarrow> Inl e | Inr a' \<Rightarrow> Inr (optind, a')) in
      if ch = CHR ''h'' then keep (map_sum id (\<lambda>a'. a'\<lparr>m_hostname := optarg\<rparr>) (SetFlag HOSTNAME a))
      else if ch = CHR ''p'' then
        keep (case SetFlag PORT a of
           Inl e \<Rightarrow> Inl e
         | Inr a' \<Rightarrow>
             let (v, err) = strtol optarg; port = to_int32 v
             in if err \<noteq> [] \<or> port \<le> 0 \<or> 65535 < port then Inl ''Arguments: Invalid port number''
                else Inr (a'\<lparr>m_port := port\<rparr>))
      else if ch = CHR ''l'' then
        (case SetFlag LOGINS a of
           Inl e \<Rightarrow> Inl e
         | Inr a' \<Rightarrow> Inr (optind + length (list_args argv optind),
                       a'\<lparr>m_logins := m_logins a' @ list_args argv optind\<rparr>))
      else if ch = CHR ''u'' then
        (case SetFlag UIDS a of
           Inl e \<Rightarrow> Inl e
         | Inr a' \<Rightarrow> map_sum id (\<lambda>b. (optind + length (list_args argv optind), b))
                       (read_uids (list_args argv optind) a'))
      else if ch = CHR ''L'' then keep (add_column USER_NAME 0 a)
      else if ch = CHR ''U'' then keep (add_column UID 1 a)
      else if ch = CHR ''G'' then keep (add_column GID 2 a)
      else if ch = CHR ''N'' then keep (add_column NAME 3 a)
      else if ch = CHR ''H'' then keep (add_column HOME_FOLDER 4 a)
      else if ch = CHR ''S'' then keep (add_column SHELL 5 a)
      else Inl ''Arguments: Unknown parameter'')"

text \<open>The option loop; \<open>None\<close> when the fuel, the number of \<^verbatim>\<open>getopt\<close> calls, is used up.\<close>

fun parse_loop :: "('g \<Rightarrow> nat \<Rightarrow> (char \<times> byte list \<times> nat \<times> 'g) option) \<Rightarrow> byte list list \<Rightarrow> nat
    \<Rightarrow> 'g \<Rightarrow> nat \<Rightarrow> client_args \<Rightarrow> (string + client_args) option" where
  "parse_loop getopt argv 0 g optind a = None"
| "parse_loop getopt argv (Suc fuel) g optind a =
     (case getopt g optind of
        None \<Rightarrow> Some (Inr a)
      | Some (ch, optarg, optind', g') \<Rightarrow>
          (case parse_option argv ch optarg optind' a of
             Inl e \<Rightarrow> Some (Inl e)
           | Inr (optind2, a') \<Rightarrow> parse_loop getopt argv fuel g' optind2 a'))"

definition Parse :: "('g \<Rightarrow> nat \<Rightarrow> (char \<times> byte list \<times> nat \<times> 'g) option) \<Rightarrow> byte list list \<Rightarrow> nat
    \<Rightarrow> 'g \<Rightarrow> client_args \<Rightarrow> (string + client_args) option" where
  "Parse getopt argv fuel g a =
     (if length argv < 6 then Some (Inl ''Arguments: Wrong count'')
      else parse_loop getopt argv fuel g 1 a)"

definition CheckValidity :: "client_args \<Rightarrow> string + unit" where
  "CheckValidity a =
     (if m_flags a AND (HOSTNAME OR PORT) \<noteq> HOSTNAME OR PORT
      then Inl ''Arguments: Hostname and port are required''
      else if m_flags a AND LOGINS = 0 \<and> m_flags a AND UIDS = 0
      then Inl ''Arguments: You need specify at least one of: -l -u''
      else if (m_flags a AND LOGINS \<noteq> 0 \<and> m_logins a = []) \<or> (m_flags a AND UIDS \<noteq> 0 \<and> m_uids a = [])
      then Inl ''Arguments: You need specify list(at least one thing) in -l -u''
      else if sint (m_flags a) < sint USER_NAME
      then Inl ''Arguments: You need specify at least one of: -L -U -G -N -H -S''
      else Inr ())"

section \<open>Requests and answers\<close>

definition order_at :: "client_args \<Rightarrow> nat \<Rightarrow> nat" where
  "order_at a i = fst (map_at i 0 (m_flagsOrder a))"

definition rightOrder :: "client_args \<Rightarrow> nat list" where
  "rightOrder a =
     (let fCount = unat (m_order a)
      in map (\<lambda>i. fold (\<lambda>j count. if order_at a j < order_at a i then count + 1 else count) [0..<fCount] 0) [0..<fCount])"

text \<open>The flags and the data packet that \<^verbatim>\<open>main\<close> sends.\<close>

definition client_packets :: "client_args \<Rightarrow> string + packet \<times> packet" where
  "client_packets a =
     (let flags8 = ucast (drop_bit 3 (m_flags a)); flagsPacket = Packet_new CMSG_FLAGS 4
      in if m_flags a AND LOGINS \<noteq> 0 then
           let n = fold (\<lambda>l n. n + length l + 1) (m_logins a) 0
           in Inr (WriteFlagsData flags8 (of_nat (n + 1)) flagsPacket,
                   fold put_string (m_logins a) (Packet_Init CMSG_DATA (n + 1) Packet_default))
         else if m_flags a AND UIDS \<noteq> 0 then
           let n = length (m_uids a) * 4 + 1
           in Inr (WriteFlagsData flags8 (of_nat n) flagsPacket,
                   fold put_uint (m_uids a) (Packet_Init CMSG_DATA n Packet_default))
         else Inl ''This should never happen'')"

text \<open>What the client reads from the two packets of the answer.\<close>

definition client_records :: "byte list \<Rightarrow> byte list \<Rightarrow> byte list list list" where
  "client_records size_bytes data_bytes =
     (let n = unat (getDataSize (Packet_from size_bytes 4))
      in read_records (ServerPacket_new (Packet_from (take n data_bytes @ replicate (n - length data_bytes) 0) n)))"

text \<open>The printed line of a record; \<open>None\<close> is the exception of \<^verbatim>\<open>record.at\<close>.\<close>

fun show_columns :: "nat list \<Rightarrow> nat \<Rightarrow> byte list list \<Rightarrow> byte list option" where
  "show_columns [] back record = Some []"
| "show_columns (x # xs) back record =
     do {
       field \<leftarrow> vec_at record x;
       rest \<leftarrow> show_columns xs back record;
       Some (field @ [if x \<noteq> back then 32 else 10] @ rest)
     }"

datatype line = Out "byte list" | Login_not_found "byte list" | UID_not_found u32

definition show_row :: "client_args \<Rightarrow> nat \<Rightarrow> byte list list \<Rightarrow> line list option" where
  "show_row a i record =
     (if hd record \<noteq> [] \<and> hd (hd record) = NOT_FOUND then
        (if m_flags a AND LOGINS \<noteq> 0 then map_option (\<lambda>l. [Login_not_found l]) (vec_at (m_logins a) i)
         else if m_flags a AND UIDS \<noteq> 0 then map_option (\<lambda>u. [UID_not_found u]) (vec_at (m_uids a) i)
         else Some [])
      else map_option (\<lambda>s. [Out s]) (show_columns (rightOrder a) (last (rightOrder a)) record))"

fun show_rows :: "client_args \<Rightarrow> nat \<Rightarrow> byte list list list \<Rightarrow> line list option" where
  "show_rows a i [] = Some []"
| "show_rows a i (r # rs) =
     do { l \<leftarrow> show_row a i r; ls \<leftarrow> show_rows a (i + 1) rs; Some (l @ ls) }"

section \<open>What the parser leaves\<close>

definition column_flag :: "nat \<Rightarrow> u32" where
  "column_flag v = push_bit (v + 4) 1"

lemma column_flag_simps:
  "USER_NAME = column_flag 0" "UID = column_flag 1" "GID = column_flag 2" "NAME = column_flag 3"
  "HOME_FOLDER = column_flag 4" "SHELL = column_flag 5"
  by (simp_all add: column_flag_def flag_consts push_bit_eq_mult)

lemma and_column: "w AND column_flag v \<noteq> 0 \<longleftrightarrow> v < 28 \<and> bit w (v + 4)"
  by (auto simp: column_flag_def bit_eq_iff [where 'a = "32 word"] bit_simps) 

text \<open>
  The columns chosen: entry \<open>i\<close> of \<^verbatim>\<open>m_flagsOrder\<close> is the column of the option given as
  the \<open>i\<close>-th; no column occurs twice, and a column is there exactly when its flag is set.
\<close>

definition chosen :: "client_args \<Rightarrow> nat list" where
  "chosen a = map (order_at a) [0..<unat (m_order a)]"

definition args_ok :: "client_args \<Rightarrow> bool" where
  "args_ok a \<longleftrightarrow> map_ok (m_flagsOrder a) \<and> distinct (chosen a) \<and> set (chosen a) = {v. v < 6 \<and> bit (m_flags a) (v + 4)}
     \<and> \<not> (bit (m_flags a) 2 \<and> bit (m_flags a) 3) \<and> (\<forall>n \<ge> 10. \<not> bit (m_flags a) n)"

lemma args_ok_new: "ClientArgParser_new port n = Inr a \<Longrightarrow> args_ok a"
  by (auto simp: ClientArgParser_new_def args_ok_def chosen_def split: if_splits)

lemma chosen_bound:
  assumes "args_ok a"
  shows "unat (m_order a) \<le> 6"
proof -
  have "card (set (chosen a)) \<le> card {..<6 :: nat}"
    using assms by (intro card_mono) (auto simp: args_ok_def)
  moreover have "card (set (chosen a)) = unat (m_order a)"
    using assms distinct_card [of "chosen a"] by (simp add: args_ok_def chosen_def)
  ultimately show ?thesis by simp
qed

lemma order_at_frame: "m_flagsOrder b = m_flagsOrder a \<Longrightarrow> order_at b = order_at a"
  by (simp add: order_at_def fun_eq_iff)

lemma args_ok_frame:
  "args_ok a \<Longrightarrow> m_flagsOrder b = m_flagsOrder a \<Longrightarrow> m_order b = m_order a \<Longrightarrow> m_flags b = m_flags a \<Longrightarrow> args_ok b"
  using order_at_frame [of b a] by (simp add: args_ok_def chosen_def)

lemma flag_powers:
  "HOSTNAME = push_bit 0 1" "PORT = push_bit 1 1" "LOGINS = push_bit 2 1" "UIDS = push_bit 3 1"
  by (simp_all add: flag_consts push_bit_eq_mult)

lemma bit_push_1: "k < 32 \<Longrightarrow> bit (push_bit k 1 :: u32) n \<longleftrightarrow> n = k"
  by (auto simp: bit_simps)

lemma flag_bits:
  "bit HOSTNAME n \<longleftrightarrow> n = 0" "bit PORT n \<longleftrightarrow> n = 1" "bit LOGINS n \<longleftrightarrow> n = 2" "bit UIDS n \<longleftrightarrow> n = 3"
  unfolding flag_powers by (rule bit_push_1, simp)+

lemma column_bits: "v < 6 \<Longrightarrow> bit (column_flag v) n \<longleftrightarrow> n = v + 4"
  unfolding column_flag_def by (rule bit_push_1) simp

lemma flags_differ:
  "HOSTNAME \<noteq> LOGINS" "PORT \<noteq> LOGINS" "HOSTNAME \<noteq> UIDS" "PORT \<noteq> UIDS" "UIDS \<noteq> LOGINS" "LOGINS \<noteq> UIDS"
  by (simp_all add: flag_consts)

lemma column_differs: "v < 6 \<Longrightarrow> column_flag v \<noteq> LOGINS" "v < 6 \<Longrightarrow> column_flag v \<noteq> UIDS"
  using column_bits [of v "v + 4"] flag_bits(3) [of "v + 4"] flag_bits(4) [of "v + 4"] by auto

lemma SetFlag_list:
  assumes "SetFlag f a = Inr b" "args_ok a" "f \<in> {HOSTNAME, PORT, LOGINS, UIDS}"
  shows "args_ok b"
proof -
  have bits: "bit (m_flags b) n = bit (m_flags a) n" if "4 \<le> n" for n
    using that assms(1,3) bit_imp_le_length [of "m_flags a" n]
    by (auto simp: SetFlag_def Let_def flags_differ bit_simps flag_bits split: if_splits)
  moreover have "\<not> (bit (m_flags b) 2 \<and> bit (m_flags b) 3)"
    using assms by (auto simp: SetFlag_def Let_def flags_differ args_ok_def bit_simps flag_bits split: if_splits)
  moreover have o: "m_flagsOrder b = m_flagsOrder a" "m_order b = m_order a"
    using assms(1) by (auto simp: SetFlag_def Let_def split: if_splits)
  ultimately show ?thesis
    using assms(2) order_at_frame [OF o(1)] by (simp add: args_ok_def chosen_def)
qed

lemma add_column_ok:
  assumes "add_column (column_flag v) v a = Inr b" "args_ok a" "v < 6"
  shows "args_ok b"
proof -
  have ok: "map_ok (m_flagsOrder a)" using assms(2) by (simp add: args_ok_def)
  have new: "\<not> bit (m_flags a) (v + 4)" and
    b: "m_flags b = m_flags a OR column_flag v" "m_order b = m_order a + 1"
      "m_flagsOrder b = map_put (unat (m_order a)) v (m_flagsOrder a)"
    using assms(1,3) and_column [of "m_flags a" v]
    by (auto simp: add_column_def SetFlag_def Let_def column_differs split: if_splits sum.splits)
  have n: "unat (m_order b) = Suc (unat (m_order a))"
    using chosen_bound [OF assms(2)] b(2) by (simp add: unat_word_ariths)
  have "order_at b i = (if i = unat (m_order a) then v else order_at a i)" for i
    by (simp add: order_at_def map_at_fst b(3) map_of_put [OF ok])
  then have c: "chosen b = chosen a @ [v]"
    by (simp add: chosen_def n)
  have bits: "bit (m_flags b) k \<longleftrightarrow> bit (m_flags a) k \<or> k = v + 4" for k
    by (simp add: b(1) bit_or_iff column_bits [OF assms(3)])
  show ?thesis
    using assms(2,3) new unfolding args_ok_def c bits b(3)
    by (auto simp: map_ok_put)
qed

lemma read_uids_frame:
  "read_uids ss a = Inr b \<Longrightarrow> m_flagsOrder b = m_flagsOrder a \<and> m_order b = m_order a \<and> m_flags b = m_flags a"
proof (induction ss arbitrary: a)
  case (Cons s ss)
  then show ?case by (cases "strtol s") (auto simp: Let_def split: if_splits)
qed simp

lemma read_uids_ok: "read_uids ss a = Inr b \<Longrightarrow> args_ok a \<Longrightarrow> args_ok b"
  using read_uids_frame [of ss a b] args_ok_frame [of a b] by blast

lemma keep_Inr:
  "(case r of Inl e \<Rightarrow> Inl e | Inr a' \<Rightarrow> Inr (k, a')) = Inr (k', b) \<longleftrightarrow> r = Inr b \<and> k' = k"
  by (auto split: sum.splits)

lemma map_sum_Inr: "map_sum id f r = Inr y \<longleftrightarrow> (\<exists>x. r = Inr x \<and> y = f x)"
  by (cases r) auto

lemma parse_option_ok:
  assumes "parse_option argv ch arg ind a = Inr (ind', b)" "args_ok a"
  shows "args_ok b"
proof -
  note S = SetFlag_list [OF _ assms(2)]
  have col: "args_ok b" if "\<exists>v \<in> {0, 1, 2, 3, 4, 5}. add_column (column_flag v) v a = Inr b"
    using that add_column_ok [OF _ assms(2)] by auto
  consider (h) a' where "SetFlag HOSTNAME a = Inr a'" "b = a'\<lparr>m_hostname := arg\<rparr>"
    | (p) a' port where "SetFlag PORT a = Inr a'" "b = a'\<lparr>m_port := port\<rparr>"
    | (l) a' where "SetFlag LOGINS a = Inr a'" "b = a'\<lparr>m_logins := m_logins a' @ list_args argv ind\<rparr>"
    | (u) a' where "SetFlag UIDS a = Inr a'" "read_uids (list_args argv ind) a' = Inr b"
    | (c) "\<exists>v \<in> {0, 1, 2, 3, 4, 5}. add_column (column_flag v) v a = Inr b"
    using assms(1) unfolding parse_option_def Let_def column_flag_simps keep_Inr
    by (auto simp: map_sum_Inr split: if_splits sum.splits prod.splits)
  then show ?thesis
  proof cases
    case c
    then show ?thesis by (rule col)
  next
    case u
    then show ?thesis using S read_uids_ok by blast
  next
    case h
    then show ?thesis using S [of HOSTNAME a'] args_ok_frame [of a' b] by simp
  next
    case p
    then show ?thesis using S [of PORT a'] args_ok_frame [of a' b] by simp
  next
    case l
    then show ?thesis using S [of LOGINS a'] args_ok_frame [of a' b] by simp
  qed
qed

text \<open>
  Whatever the options are, a parse that succeeds leaves consistent arguments: the
  chosen columns are distinct and are exactly those whose flags are set, and not both of
  \<^verbatim>\<open>-l\<close> and \<^verbatim>\<open>-u\<close> are in force.
\<close>

theorem parse_consistent:
  assumes "ClientArgParser_new port argc = Inr a0" "Parse getopt argv fuel g a0 = Some (Inr a)"
  shows "args_ok a"
proof -
  have "parse_loop getopt argv n g ind c = Some (Inr a) \<Longrightarrow> args_ok c \<Longrightarrow> args_ok a" for n g ind c
  proof (induction n arbitrary: g ind c)
    case (Suc n)
    then show ?case
      by (auto split: option.splits sum.splits prod.splits) (blast intro: parse_option_ok)
  qed simp
  then show ?thesis
    using assms args_ok_new by (auto simp: Parse_def split: if_splits)
qed

text \<open>
  Enough fuel: when \<open>left\<close> bounds the options that \<^verbatim>\<open>getopt\<close> still finds, whatever the code does to
  \<^verbatim>\<open>optind\<close>, which it only moves forward, then that many passes and one more give a result.
\<close>

lemma parse_option_forward: "parse_option argv ch optarg optind a = Inr (optind', a') \<Longrightarrow> optind \<le> optind'"
  by (cases "read_uids (list_args argv optind) (case SetFlag UIDS a of Inr b \<Rightarrow> b | Inl _ \<Rightarrow> a)")
    (auto simp: parse_option_def Let_def split: if_splits sum.splits prod.splits)

theorem parse_returns:
  assumes getopt: "\<And>g i ch optarg i' g' j. getopt g i = Some (ch, optarg, i', g') \<Longrightarrow> i' \<le> j \<Longrightarrow> left g' j < left g i"
    and "left g 1 < fuel"
  shows "Parse getopt argv fuel g a \<noteq> None"
proof -
  have "parse_loop getopt argv n g ind c \<noteq> None" if "left g ind < n" for n g ind c
    using that
  proof (induction n arbitrary: g ind c)
    case (Suc n)
    have "left g' j < n" if "getopt g ind = Some (ch, optarg, i', g')" "parse_option argv ch optarg i' c = Inr (j, c')" for ch optarg i' g' j c'
      using getopt [OF that(1) parse_option_forward [OF that(2)]] Suc.prems by simp
    then show ?case by (auto split: option.split sum.split simp: Suc.IH simp del: not_None_eq)
  qed simp
  then show ?thesis using assms(2) by (auto simp: Parse_def)
qed

text \<open>A run of \<^verbatim>\<open>client -h h -p 80 -l root -U -L\<close>, with the results of its \<^verbatim>\<open>getopt\<close> calls.\<close>

definition sample_argv :: "byte list list" where
  "sample_argv = [[99], [45, 104], [104], [45, 112], [56, 48], [45, 108], [114, 111, 111, 116], [45, 85], [45, 76]]"

definition sample_getopt :: "nat \<Rightarrow> nat \<Rightarrow> (char \<times> byte list \<times> nat \<times> nat) option" where
  "sample_getopt g ind = (if g = 0 then Some (CHR ''h'', [104], 3, 1) else if g = 1 then Some (CHR ''p'', [56, 48], 5, 2)
     else if g = 2 then Some (CHR ''l'', [], 6, 3) else if g = 3 then Some (CHR ''U'', [], 8, 4)
     else if g = 4 then Some (CHR ''L'', [], 9, 5) else None)"

definition sample_args :: client_args where
  "sample_args = \<lparr>m_port = 80, m_flags = 0x37, m_order = 2, m_flagsOrder = [(0, 1), (1, 0)], m_hostname = [104],
     m_logins = [[114, 111, 111, 116]], m_uids = []\<rparr>"

lemma sample_run:
  "Parse sample_getopt sample_argv (Suc (Suc (Suc (Suc (Suc (Suc 0)))))) 0 \<lparr>m_port = 0, m_flags = 0, m_order = 0, m_flagsOrder = [],
     m_hostname = [], m_logins = [], m_uids = []\<rparr> = Some (Inr sample_args)"
  by (simp add: Parse_def sample_argv_def sample_getopt_def parse_option_def SetFlag_def flag_consts
      strtol_def is_space_def is_digit_def digits_value_def clamp_long_def to_int32_def list_args_def
      MINUS_def add_column_def sample_args_def Let_def)

theorem parse_consistent_witness: "args_ok sample_args"
proof -
  have "ClientArgParser_new 0 9 = Inr \<lparr>m_port = 0, m_flags = 0, m_order = 0, m_flagsOrder = [],
     m_hostname = [], m_logins = [], m_uids = []\<rparr>" by (simp add: ClientArgParser_new_def)
  from parse_consistent [OF this sample_run] show ?thesis .
qed

theorem parse_returns_witness: "Parse sample_getopt sample_argv 6 0 c \<noteq> None"
  by (rule parse_returns [where left = "\<lambda>g _. 5 - g"]) (auto simp: sample_getopt_def split: if_splits)

section \<open>The columns of the output\<close>

text \<open>\<open>rightOrder\<close> ranks the chosen columns.\<close>

lemma count_fold:
  "fold (\<lambda>j count. if f j then count + 1 else count) js n = n + length (filter f js)"
  by (induction js arbitrary: n) auto

lemma rightOrder_rank:
  "rightOrder a = map (\<lambda>v. length (filter (\<lambda>w. w < v) (chosen a))) (chosen a)"
proof -
  have "length (filter (\<lambda>j. order_at a j < order_at a i) js) = length (filter (\<lambda>w. w < order_at a i) (map (order_at a) js))" for i js
    by (induction js) auto
  then show ?thesis
    by (simp add: rightOrder_def chosen_def Let_def count_fold)
qed

lemma rank_card: "distinct xs \<Longrightarrow> length (filter (\<lambda>w. w < v) xs) = card {w \<in> set xs. w < v}"
  by (metis distinct_card distinct_filter set_filter)

lemma filter_rank:
  fixes P :: "nat \<Rightarrow> bool"
  assumes "v < n" "P v"
  shows "filter P [0..<n] ! card {w. P w \<and> w < v} = v \<and> card {w. P w \<and> w < v} < length (filter P [0..<n])"
proof -
  have "[0..<n] = [0..<v] @ v # [Suc v..<n]"
    using assms(1) by (metis le_add1 le_add_same_cancel1 less_imp_add_positive upt_add_eq_append upt_conv_Cons zero_le less_or_eq_imp_le)
  then have "filter P [0..<n] = filter P [0..<v] @ v # filter P [Suc v..<n]" using assms(2) by simp
  moreover have "length (filter P [0..<v]) = card {w. P w \<and> w < v}"
    using distinct_card [of "filter P [0..<v]"] by (simp add: conj_commute)
  ultimately show ?thesis by (metis add_less_cancel_left length_Cons length_append less_add_same_cancel1 nth_append_length zero_less_Suc)
qed

definition column :: "account \<Rightarrow> nat \<Rightarrow> byte list" where
  "column r v = (if v = 0 then pw_name r else if v = 1 then decimal (unat (pw_uid r))
     else if v = 2 then decimal (unat (pw_gid r)) else if v = 3 then pw_gecos r
     else if v = 4 then pw_dir r else pw_shell r)"

definition request_flags :: "client_args \<Rightarrow> byte" where
  "request_flags a = ucast (drop_bit 3 (m_flags a))"

lemma request_bit: "v < 7 \<Longrightarrow> bit (request_flags a) v \<longleftrightarrow> bit (m_flags a) (v + 3)"
  by (simp add: request_flags_def bit_simps add.commute)

lemma byte_mask: "k < 8 \<Longrightarrow> (f AND push_bit k 1) \<noteq> 0 \<longleftrightarrow> bit f k" for f :: byte
  by (auto simp: bit_eq_iff [where 'a = "8 word"] bit_simps)

lemma selected_columns:
  "selected (request_flags a) r = map (column r) (filter (\<lambda>v. bit (m_flags a) (v + 4)) [0..<6])"
proof -
  have m: "(2 :: byte) = push_bit 1 1" "(4 :: byte) = push_bit 2 1" "(8 :: byte) = push_bit 3 1"
    "(16 :: byte) = push_bit 4 1" "(32 :: byte) = push_bit 5 1" "(64 :: byte) = push_bit 6 1"
    by (simp_all add: push_bit_eq_mult)
  have u: "[0..<6] = [0, 1, 2, 3, 4, 5 :: nat]" by (simp add: upt_conv_Cons)
  have b: "request_flags a AND 2 \<noteq> 0 \<longleftrightarrow> bit (m_flags a) 4" "request_flags a AND 4 \<noteq> 0 \<longleftrightarrow> bit (m_flags a) 5"
    "request_flags a AND 8 \<noteq> 0 \<longleftrightarrow> bit (m_flags a) 6" "request_flags a AND 16 \<noteq> 0 \<longleftrightarrow> bit (m_flags a) 7"
    "request_flags a AND 32 \<noteq> 0 \<longleftrightarrow> bit (m_flags a) 8" "request_flags a AND 64 \<noteq> 0 \<longleftrightarrow> bit (m_flags a) 9"
    unfolding m by (subst byte_mask; simp add: request_bit)+
  show ?thesis
    unfolding selected_def b u by (simp add: column_def)
qed

fun joined :: "byte list list \<Rightarrow> byte list" where
  "joined [] = []"
| "joined [f] = f @ [10]"
| "joined (f # g # fs) = f @ [32] @ joined (g # fs)"

lemma show_columns_joined:
  assumes "distinct xs" "xs \<noteq> []" "\<forall>x \<in> set xs. x < length record"
  shows "show_columns xs (last xs) record = Some (joined (map ((!) record) xs))"
  using assms
proof (induction xs)
  case (Cons x xs)
  show ?case
  proof (cases xs)
    case Nil
    then show ?thesis using Cons.prems by (simp add: vec_at_in)
  next
    case (Cons y ys)
    then have "x \<noteq> last xs" using Cons.prems(1) by (metis distinct.simps(2) last_in_set list.discI)
    then show ?thesis
      using Cons Cons.IH Cons.prems by (simp add: vec_at_in)
  qed
qed simp

text \<open>
  A found account is printed with its columns in the order in which the options were
  given, though the server sends them in a fixed order.
\<close>

theorem columns_in_option_order:
  assumes "args_ok a" "m_order a \<noteq> 0"
  shows "show_columns (rightOrder a) (last (rightOrder a)) (selected (request_flags a) r)
    = Some (joined (map (column r) (chosen a)))"
proof -
  let ?P = "\<lambda>v. bit (m_flags a) (v + 4)"
  let ?rank = "\<lambda>v. card {w. ?P w \<and> w < v}"
  have c: "distinct (chosen a)" "set (chosen a) = {v. v < 6 \<and> ?P v}" "chosen a \<noteq> []"
    using assms by (auto simp: args_ok_def chosen_def unat_eq_0)
  have r: "rightOrder a = map ?rank (chosen a)"
    unfolding rightOrder_rank
  proof (rule map_cong [OF refl])
    have mem: "w \<in> set (chosen a) \<longleftrightarrow> w < 6 \<and> ?P w" for w by (simp only: c(2) mem_Collect_eq)
    fix v assume "v \<in> set (chosen a)"
    then have "v < 6" by (simp only: mem)
    then have "{w \<in> set (chosen a). w < v} = {w. ?P w \<and> w < v}"
      unfolding mem by (intro Collect_cong) linarith
    then show "length (filter (\<lambda>w. w < v) (chosen a)) = ?rank v" by (simp add: rank_card [OF c(1)])
  qed
  let ?f = "filter ?P [0..<6]"
  have pos: "?f ! ?rank v = v" "?rank v < length ?f" if "v \<in> set (chosen a)" for v
    using filter_rank [of v 6 ?P] that c(2) by auto
  have inj: "inj_on ?rank (set (chosen a))"
    by (rule inj_on_inverseI [where g = "(!) ?f"]) (rule pos(1))
  have "show_columns (rightOrder a) (last (rightOrder a)) (selected (request_flags a) r)
      = Some (joined (map ((!) (selected (request_flags a) r)) (rightOrder a)))"
    using c inj pos(2) by (intro show_columns_joined) (auto simp: r distinct_map selected_columns)
  moreover have "map ((!) (selected (request_flags a) r)) (rightOrder a) = map (column r) (chosen a)"
    using pos by (auto simp: r selected_columns)
  ultimately show ?thesis by simp
qed

lemma sample_args_ok: "args_ok sample_args"
proof -
  have "(0x37 :: u32) = HOSTNAME OR PORT OR LOGINS OR column_flag 0 OR column_flag 1"
    by (simp add: flag_consts column_flag_def push_bit_eq_mult)
  then have bits: "bit (0x37 :: u32) n \<longleftrightarrow> n = 0 \<or> n = 1 \<or> n = 2 \<or> n = 4 \<or> n = 5" for n
    by (simp only: bit_or_iff flag_bits) (auto simp: column_bits)
  have ch: "chosen sample_args = [1, 0]"
    by (simp add: chosen_def sample_args_def order_at_def map_at_def upt_conv_Cons)
  have fl: "m_flags sample_args = 0x37" "map_ok (m_flagsOrder sample_args)"
    by (simp_all add: sample_args_def map_ok_def)
  show ?thesis
    unfolding args_ok_def ch fl(1) bits using fl(2) by auto
qed

theorem columns_in_option_order_witness:
  "show_columns (rightOrder sample_args) (last (rightOrder sample_args))
      (selected (request_flags sample_args) \<lparr>pw_name = [114], pw_uid = 0, pw_gid = 0, pw_gecos = [], pw_dir = [47], pw_shell = [115]\<rparr>)
    = Some [48, 32, 114, 10]"
proof -
  have ch: "chosen sample_args = [1, 0]"
    by (simp add: chosen_def sample_args_def order_at_def map_at_def upt_conv_Cons)
  have "args_ok sample_args" by (rule sample_args_ok)
  moreover have "m_order sample_args \<noteq> 0" by (simp add: sample_args_def)
  moreover have "rightOrder sample_args = [1, 0]"
    unfolding rightOrder_rank ch by simp
  ultimately show ?thesis
    using columns_in_option_order [of sample_args "\<lparr>pw_name = [114], pw_uid = 0, pw_gid = 0, pw_gecos = [], pw_dir = [47], pw_shell = [115]\<rparr>"]
    by (simp add: ch column_def decimal.simps)
qed

section \<open>A request and its answer\<close>

lemma request_length: "fold (\<lambda>l n. Suc (n + length l)) ls k = k + length (concat (map (\<lambda>s. s @ [0]) ls))"
  by (induction ls arbitrary: k) simp_all

lemma flags_packet:
  assumes "f < 0x80"
  shows "pk_buffer (WriteFlagsData f d (Packet_new CMSG_FLAGS 4))
      = [push_bit 1 f, ucast d, ucast (drop_bit 8 d), ucast (drop_bit 16 d)]"
    and "pk_over (WriteFlagsData f d (Packet_new CMSG_FLAGS 4)) = 0"
    and "drop_bit 1 (push_bit 1 f) = f" "push_bit 1 f AND 1 = 0"
proof -
  show "pk_buffer (WriteFlagsData f d (Packet_new CMSG_FLAGS 4))
      = [push_bit 1 f, ucast d, ucast (drop_bit 8 d), ucast (drop_bit 16 d)]"
    by (simp add: WriteFlagsData_def Packet_new_def resized_def le32_def ui_consts numeral_eq_Suc)
  show "pk_over (WriteFlagsData f d (Packet_new CMSG_FLAGS 4)) = 0"
    by (simp add: WriteFlagsData_def Packet_new_def)
  have "take_bit 7 f = f"
    using assms by (simp add: take_bit_eq_self_iff_drop_bit_eq_0 word_less_nat_alt drop_bit_eq_div word_arith_nat_div)
  then have hi: "bit f n \<Longrightarrow> n < 7" for n by (metis bit_take_bit_iff)
  have "bit (drop_bit 1 (push_bit 1 f)) n = bit f n" for n
    by (simp only: bit_drop_bit_eq o_def bit_push_bit_iff possible_bit_word) (auto dest: hi)
  then show "drop_bit 1 (push_bit 1 f) = f" by (rule bit_eqI)
  have "\<not> bit (push_bit 1 f AND 1) n" for n
    by (simp only: bit_and_iff bit_push_bit_iff bit_1_iff possible_bit_word) simp
  then show "push_bit 1 f AND 1 = 0" by (intro bit_eqI) (simp only: bit_0_eq bot_apply bot_bool_def)
qed

lemma Recv_full: "length bs = n \<Longrightarrow> Recv junk (Some bs) n = Inr (Packet_from bs n)"
  by (simp add: Recv_def Packet_from_def)

lemma holds_full: "holds op w n p \<Longrightarrow> n = Suc (length w) \<Longrightarrow> pk_buffer p = op # w"
  by (simp add: holds_def)

lemma request_flags_ok:
  assumes "args_ok a" "m_order a \<noteq> 0" "m_flags a AND LOGINS \<noteq> 0"
  shows "request_flags a < 0x80" "request_flags a AND 1 = 0" "request_flags a AND 0x7E \<noteq> 0"
proof -
  have b: "bit (request_flags a) n \<longleftrightarrow> n < 8 \<and> bit (m_flags a) (n + 3)" for n
    by (auto simp: request_flags_def bit_simps add.commute)
  have hi: "\<not> bit (m_flags a) n" if "10 \<le> n" for n using assms(1) that by (simp add: args_ok_def)
  have "bit (request_flags a) n \<Longrightarrow> n < 7" for n
    using b [of n] hi [of "n + 3"] by (cases "n < 7") auto
  then have "take_bit 7 (request_flags a) = request_flags a"
    by (intro bit_eqI) (auto simp: bit_take_bit_iff)
  then have "uint (request_flags a) < 2 ^ 7"
    by (metis take_bit_int_less_exp unsigned_take_bit_eq)
  then show "request_flags a < 0x80" by (simp add: word_less_def)
  have "bit (m_flags a) 2"
    using assms(3) by (auto simp: bit_eq_iff [of "m_flags a AND LOGINS" 0] bit_and_iff flag_bits)
  then have "\<not> bit (m_flags a) 3" using assms(1) by (simp add: args_ok_def)
  then show "request_flags a AND 1 = 0"
    using b [of 0] by (simp add: and_one_eq mod_2_eq_odd bit_0)
  have "chosen a \<noteq> []" using assms(2) by (simp add: chosen_def unat_eq_0)
  then obtain v where "v \<in> set (chosen a)" by (cases "chosen a") auto
  then have "v < 6" "bit (request_flags a) (v + 1)" using assms(1) b [of "v + 1"] by (auto simp: args_ok_def add.commute)
  moreover have "bit (0x7E :: byte) (v + 1)"
  proof -
    have "(0x7E :: byte) = push_bit 1 1 OR push_bit 2 1 OR push_bit 3 1 OR push_bit 4 1 OR push_bit 5 1 OR push_bit 6 1"
      by (simp add: push_bit_eq_mult)
    then show ?thesis using \<open>v < 6\<close> by (simp only: bit_or_iff bit_push_bit_iff bit_1_iff) auto
  qed
  ultimately show "request_flags a AND 0x7E \<noteq> 0" by (metis bit_0_eq bit_and_iff bot_apply bot_bool_def)
qed

text \<open>
  C6. A request by names and its answer: the client sends what the server takes apart
  again, the server looks every name up, and the client reads, name by name, the selected
  fields of the first account with that name or the mark that there is none. No data
  packet is written past its end; the size packet is, by one byte.
\<close>

theorem names_answered:
  assumes "client_packets a = Inr (fp, dp)" "args_ok a" "m_order a \<noteq> 0" "m_flags a AND LOGINS \<noteq> 0"
    and "\<forall>l \<in> set (m_logins a). 0 \<notin> set l" "\<forall>r \<in> set db. clean_account r"
    and "1 + length (concat (map (\<lambda>s. s @ [0]) (m_logins a))) < 2 ^ 24"
    and "response_size (map (\<lambda>l. answer_record (lookup_name db (request_flags a) l)) (m_logins a)) < 2 ^ 24"
  shows "\<exists>sp rp. connection db junk (Some (pk_buffer fp)) (\<lambda>n. Some (take n (pk_buffer dp))) = Some (Inr (sp, rp))
    \<and> client_records (pk_buffer sp) (pk_buffer rp)
        = map (\<lambda>l. answer_fields (lookup_name db (request_flags a) l)) (m_logins a)
    \<and> pk_over fp = 0 \<and> pk_over dp = 0 \<and> pk_over rp = 0 \<and> pk_over sp = 1"
proof -
  note rf = request_flags_ok [OF assms(2-4)]
  let ?f = "request_flags a"
  let ?names = "concat (map (\<lambda>s. s @ [0]) (m_logins a))"
  let ?n = "Suc (length ?names)" and ?rs = "map (\<lambda>l. answer_record (lookup_name db ?f l)) (m_logins a)"
  have fp: "fp = WriteFlagsData ?f (of_nat ?n) (Packet_new CMSG_FLAGS 4)"
    and dp: "dp = fold put_string (m_logins a) (Packet_Init CMSG_DATA ?n Packet_default)"
    using assms(1,4) by (simp_all add: client_packets_def Let_def request_length request_flags_def)
  have d: "holds CMSG_DATA ?names ?n dp" "pk_over dp = 0"
    using holds_put_strings [of CMSG_DATA "[]" ?n "Packet_Init CMSG_DATA ?n Packet_default" "m_logins a"]
    by (simp_all add: dp holds_Init) (simp add: Packet_Init_def Packet_default_def)
  have db: "pk_buffer dp = CMSG_DATA # ?names" by (rule holds_full [OF d(1)]) simp
  note f = flags_packet [OF rf(1)]
  have n24: "?n < 2 ^ 24" using assms(7) by simp
  have w24: "(of_nat k :: u32) < 2 ^ 24" "unat (of_nat k :: u32) = k" if "k < 2 ^ 24" for k
    using that by (simp_all add: word_less_nat_alt unsigned_of_nat take_bit_nat_eq_self)
  have fl: "Recv junk (Some (pk_buffer fp)) 4 = Inr (Packet_from (pk_buffer fp) 4)"
    by (rule Recv_full) (simp add: fp f(1))
  have fsz: "unat (getDataSize (Packet_from (pk_buffer fp) 4)) = ?n"
    using getDataSize_bytes [OF _ w24(1) [OF n24]] w24(2) [OF n24]
    by (simp add: Packet_from_def fp f(1))
  have fop: "getOpcode (Packet_from (pk_buffer fp) 4) = CMSG_FLAGS" "drop_bit (Suc 0) (getFlags (Packet_from (pk_buffer fp) 4)) = ?f"
    using f by (simp_all add: Packet_from_def getOpcode_def getFlags_def fp CMSG_FLAGS_def)
  have dl: "Recv junk (Some (take ?n (pk_buffer dp))) ?n = Inr (Packet_from (pk_buffer dp) ?n)"
    using Recv_full [of "pk_buffer dp" ?n] by (simp add: db)
  have dop: "getOpcode (Packet_from (pk_buffer dp) ?n) = CMSG_DATA"
    by (simp add: Packet_from_def getOpcode_def db ui_consts)
  have logins: "getLogins (Packet_from (pk_buffer dp) ?n) = m_logins a"
    using logins_from_strings [OF assms(5)] by (simp add: getLogins_def Packet_from_def db)
  let ?sz = "response_size ?rs"
  let ?sp = "put_uint (of_nat ?sz) (Packet_new SMSG_SIZE 4)" and ?rp = "fold put_record ?rs (Packet_new SMSG_DATA ?sz)"
  have "ProcessData db ?f (Packet_from (pk_buffer dp) ?n) = Some (?sp, ?rp)"
    using rf(2) by (simp add: ProcessData_def logins loadRecordsByLogins_answers Let_def)
  then have conn: "connection db junk (Some (pk_buffer fp)) (\<lambda>n. Some (take n (pk_buffer dp))) = Some (Inr (?sp, ?rp))"
    by (simp add: connection_def fl fsz fop dl dop Let_def)
  have sz: "?sz = Suc (length (concat (map wire_record ?rs)))" by (simp add: response_size_wire)
  have r: "holds SMSG_DATA (concat (map wire_record ?rs)) ?sz ?rp" "pk_over ?rp = 0"
    using holds_put_records [of SMSG_DATA "[]" ?sz "Packet_new SMSG_DATA ?sz" ?rs] sz
    by (simp_all add: holds_new) (simp add: Packet_new_def)
  have rb: "pk_buffer ?rp = SMSG_DATA # concat (map wire_record ?rs)" by (rule holds_full [OF r(1) sz])
  have ssz: "unat (getDataSize (Packet_from (pk_buffer ?sp) 4)) = ?sz"
    using getDataSize_bytes [OF _ w24(1) [OF assms(8)]] w24(2) [OF assms(8)] size_packet [of "of_nat ?sz"]
    by (simp add: Packet_from_def)
  have "client_records (pk_buffer ?sp) (pk_buffer ?rp)
      = map answer_fields (map (lookup_name db ?f) (m_logins a))"
    unfolding client_records_def Let_def ssz
    using lookup_good [OF assms(6) rf(3)] rb sz
    by (intro read_records_answers) (auto simp: ServerPacket_new_def Packet_from_def comp_def)
  then show ?thesis
    using conn d(2) r(2) f(2) size_packet [of "of_nat ?sz"] by (auto simp: fp comp_def)
qed


definition root_account :: account where
  "root_account = \<lparr>pw_name = [114, 111, 111, 116], pw_uid = 0, pw_gid = 0, pw_gecos = [114], pw_dir = [47], pw_shell = [115]\<rparr>"

theorem names_answered_witness:
  "\<exists>fp dp sp rp. client_packets sample_args = Inr (fp, dp)
    \<and> connection [root_account] [] (Some (pk_buffer fp)) (\<lambda>n. Some (take n (pk_buffer dp))) = Some (Inr (sp, rp))
    \<and> client_records (pk_buffer sp) (pk_buffer rp)
        = map (\<lambda>l. answer_fields (lookup_name [root_account] (request_flags sample_args) l)) [[114, 111, 111, 116]]"
proof -
  obtain fp dp where c: "client_packets sample_args = Inr (fp, dp)"
    by (simp add: client_packets_def sample_args_def flag_consts Let_def)
  have r: "request_flags sample_args = 6" by (simp add: request_flags_def sample_args_def)
  have d: "decimal 0 = [48]" by (simp add: decimal.simps)
  note S = sample_args_ok
  have sz: "response_size (map (\<lambda>l. answer_record (lookup_name [root_account] (request_flags sample_args) l)) (m_logins sample_args)) < 2 ^ 24"
  proof -
    have "lookup_name [root_account] 6 [114, 111, 111, 116] = Some [[114, 111, 111, 116], [48]]"
      by (simp add: lookup_name_def root_account_def same_nocase_def selected_def d)
    then show ?thesis
      unfolding r by (simp add: sample_args_def answer_record_def wire_def response_size_def)
  qed
  have o: "m_order sample_args \<noteq> 0" "m_flags sample_args AND LOGINS \<noteq> 0"
      "m_logins sample_args = [[114, 111, 111, 116]]"
    by (simp_all add: sample_args_def flag_consts)
  have h: "\<forall>l \<in> set (m_logins sample_args). 0 \<notin> set l" "\<forall>r \<in> set [root_account]. clean_account r"
    "1 + length (concat (map (\<lambda>s. s @ [0]) (m_logins sample_args))) < 2 ^ 24"
    unfolding o(3) by (simp_all add: clean_account_def root_account_def clean_def ui_consts)
  from names_answered [OF c S o(1,2) h sz, of "[]"] show ?thesis
    unfolding o(3) using c by blast
qed

end
