(* ===== verification/Http_Text.thy ===== *)
theory Http_Text
  imports Prelude
begin

text \<open>
  Text handling of the web server and its client, from \<^verbatim>\<open>IPK/proj2\<close>: URL decoding
  (\<^verbatim>\<open>common.cpp\<close>), the URI parser (\<^verbatim>\<open>uriparser.h\<close>, \<^verbatim>\<open>uriparser.cpp\<close>), hexadecimal
  numbers (\<^verbatim>\<open>connection.cpp\<close>) and what the standard library's number readers do. A
  \<^verbatim>\<open>char\<close> is a \<open>char\<close>. The theorems: decoding inverts percent encoding, and a URI
  is taken apart into its server, port and path.
\<close>

section \<open>Numbers in text\<close>

definition isspace :: "char \<Rightarrow> bool" where
  "isspace c \<longleftrightarrow> of_char c = (32 :: nat) \<or> (9 \<le> (of_char c :: nat) \<and> (of_char c :: nat) \<le> 13)"

definition hexval :: "char \<Rightarrow> nat option" where
  "hexval c = (let n = of_char c in
     if 48 \<le> n \<and> n \<le> 57 then Some (n - 48)
     else if 97 \<le> n \<and> n \<le> 102 then Some (n - 87)
     else if 65 \<le> n \<and> n \<le> 70 then Some (n - 55) else None)"

definition hex_digits :: string where
  "hex_digits = ''0123456789abcdef''"

text \<open>The digits of a number in base \<open>b\<close>, as streams and \<^verbatim>\<open>to_string\<close> write it.\<close>

fun show_base :: "nat \<Rightarrow> nat \<Rightarrow> string" where
  "show_base b n = (if b < 2 \<or> n < b then [hex_digits ! n] else show_base b (n div b) @ [hex_digits ! (n mod b)])"

declare show_base.simps [simp del]

definition to_hex_string :: "nat \<Rightarrow> string" where
  "to_hex_string value = show_base 16 value"

definition to_dec_string :: "nat \<Rightarrow> string" where
  "to_dec_string value = show_base 10 value"

text \<open>The value of the leading digits in base \<open>b\<close>; \<open>None\<close> when there is none.\<close>

definition is_digit_in :: "nat \<Rightarrow> char \<Rightarrow> bool" where
  "is_digit_in b c \<longleftrightarrow> (case hexval c of None \<Rightarrow> False | Some v \<Rightarrow> v < b)"

definition digits_in :: "nat \<Rightarrow> string \<Rightarrow> nat" where
  "digits_in b ds = foldl (\<lambda>n c. n * b + the (hexval c)) 0 ds"

definition leading :: "nat \<Rightarrow> string \<Rightarrow> nat option" where
  "leading b s = (let ds = takeWhile (is_digit_in b) s in if ds = [] then None else Some (digits_in b ds))"

text \<open>
  \<^verbatim>\<open>std::stoul(line, nullptr, 16)\<close>: blanks, a sign, a prefix \<^verbatim>\<open>0x\<close> that digits follow,
  digits. \<open>None\<close> is one of its exceptions.
\<close>

definition hex_prefix :: "string \<Rightarrow> string" where
  "hex_prefix s = (case s of a # b # c # t \<Rightarrow>
       (if a = CHR ''0'' \<and> (b = CHR ''x'' \<or> b = CHR ''X'') \<and> hexval c \<noteq> None then c # t else s)
     | _ \<Rightarrow> s)"

definition stoul16 :: "string \<Rightarrow> nat option" where
  "stoul16 line =
     (let s = dropWhile isspace line;
          neg = (s \<noteq> [] \<and> hd s = CHR ''-'');
          u = (if s \<noteq> [] \<and> (hd s = CHR ''-'' \<or> hd s = CHR ''+'') then tl s else s)
      in case leading 16 (hex_prefix u) of
           None \<Rightarrow> None
         | Some v \<Rightarrow> if 2 ^ 64 \<le> v then None else Some (if neg then (2 ^ 64 - v) mod 2 ^ 64 else v))"

text \<open>\<^verbatim>\<open>istringstream(s) >> c_length\<close> for an \<^verbatim>\<open>unsigned int\<close>: 0 where no number starts.\<close>

definition extract_uint :: "string \<Rightarrow> u32" where
  "extract_uint str =
     (let s = dropWhile isspace str;
          neg = (s \<noteq> [] \<and> hd s = CHR ''-'');
          u = (if s \<noteq> [] \<and> (hd s = CHR ''-'' \<or> hd s = CHR ''+'') then tl s else s)
      in case leading 10 u of
           None \<Rightarrow> 0
         | Some v \<Rightarrow> if 2 ^ 32 \<le> v then - 1 else if neg then - of_nat v else of_nat v)"

section \<open>URL decoding\<close>

text \<open>
  \<^verbatim>\<open>istringstream(in.substr(i + 1, 2)) >> std::hex >> value\<close>: blanks, a sign and digits of
  the two characters; a lone \<^verbatim>\<open>0x\<close> is no number.
\<close>

definition hex_field :: "char \<Rightarrow> char \<Rightarrow> int option" where
  "hex_field a b =
     (if isspace a then map_option int (hexval b)
      else if a = CHR ''+'' then map_option int (hexval b)
      else if a = CHR ''-'' then map_option (\<lambda>v. - int v) (hexval b)
      else case hexval a of
        None \<Rightarrow> None
      | Some h \<Rightarrow>
          if a = CHR ''0'' \<and> (b = CHR ''x'' \<or> b = CHR ''X'') then None
          else (case hexval b of None \<Rightarrow> Some (int h) | Some l \<Rightarrow> Some (int (16 * h + l))))"

text \<open>The return value, and what \<^verbatim>\<open>out\<close> holds then.\<close>

fun url_decode :: "string \<Rightarrow> bool \<times> string" where
  "url_decode [] = (True, [])"
| "url_decode (c # cs) =
     (if c = CHR ''%'' then
        (case cs of
           a # b # rest \<Rightarrow>
             (case hex_field a b of
                Some v \<Rightarrow> (let (ok, out) = url_decode rest in (ok, char_of (nat (v mod 256)) # out))
              | None \<Rightarrow> (False, []))
         | _ \<Rightarrow> (False, []))
      else (let (ok, out) = url_decode cs in (ok, (if c = CHR ''+'' then CHR '' '' else c) # out)))"

section \<open>URIs\<close>

record uri =
  u_server :: string
  u_port :: string
  u_path :: string

datatype uri_state = s_hostname | s_port | s_path

definition uri_char :: "char \<Rightarrow> uri_state \<times> uri \<Rightarrow> uri_state \<times> uri" where
  "uri_char c su =
     (case su of
        (s_hostname, u) \<Rightarrow>
          if c = CHR ''/'' then (s_path, u)
          else if c = CHR '':'' then (s_port, u)
          else (s_hostname, u\<lparr>u_server := u_server u @ [c]\<rparr>)
      | (s_port, u) \<Rightarrow> if c = CHR ''/'' then (s_path, u) else (s_port, u\<lparr>u_port := u_port u @ [c]\<rparr>)
      | (s_path, u) \<Rightarrow> (s_path, u\<lparr>u_path := u_path u @ [c]\<rparr>))"

definition Uri_new :: "string \<Rightarrow> uri" where
  "Uri_new str =
     (let (_, decoded_path) = url_decode str;
          (_, u) = fold uri_char decoded_path (s_hostname, \<lparr>u_server = [], u_port = [], u_path = ''/''\<rparr>)
      in if u_port u = [] then u\<lparr>u_port := ''80''\<rparr> else u)"

section \<open>Writing and reading numbers\<close>

lemma hex_digit_cases:
  assumes "k < 16"
  shows "hexval (hex_digits ! k) = Some k" "\<not> isspace (hex_digits ! k)"
    "hex_digits ! k \<noteq> CHR ''+''" "hex_digits ! k \<noteq> CHR ''-''" "hex_digits ! k \<noteq> CHR ''x''"
    "hex_digits ! k \<noteq> CHR ''X''" "hex_digits ! k \<noteq> CHR 0x0A"
proof -
  have "\<forall>k \<in> set [0..<16]. hexval (hex_digits ! k) = Some k \<and> \<not> isspace (hex_digits ! k)
      \<and> hex_digits ! k \<noteq> CHR ''+'' \<and> hex_digits ! k \<noteq> CHR ''-'' \<and> hex_digits ! k \<noteq> CHR ''x''
      \<and> hex_digits ! k \<noteq> CHR ''X'' \<and> hex_digits ! k \<noteq> CHR 0x0A"
    by code_simp
  then show "hexval (hex_digits ! k) = Some k" "\<not> isspace (hex_digits ! k)"
    "hex_digits ! k \<noteq> CHR ''+''" "hex_digits ! k \<noteq> CHR ''-''" "hex_digits ! k \<noteq> CHR ''x''"
    "hex_digits ! k \<noteq> CHR ''X''" "hex_digits ! k \<noteq> CHR 0x0A"
    using assms by auto
qed

lemma show_base_digits:
  assumes "2 \<le> b" "b \<le> 16"
  shows "show_base b n \<noteq> [] \<and> (\<forall>c \<in> set (show_base b n). \<exists>k < b. c = hex_digits ! k)
    \<and> digits_in b (show_base b n) = n"
proof (induction n rule: less_induct)
  case (less n)
  show ?case
  proof (cases "n < b")
    case True
    then show ?thesis
      using assms hex_digit_cases(1) [of n] by (auto simp: show_base.simps [of b n] digits_in_def)
  next
    case False
    have "n div b < n" using False assms by (intro div_less_dividend) auto
    moreover have m: "n mod b < b" using assms by simp
    then have "hexval (hex_digits ! (n mod b)) = Some (n mod b)" using assms(2) by (intro hex_digit_cases(1)) linarith
    moreover have "\<exists>k < b. hex_digits ! (n mod b) = hex_digits ! k" using m by blast
    ultimately show ?thesis
      using less.IH [of "n div b"] False assms
      by (auto simp: show_base.simps [of b n] digits_in_def)
  qed
qed

lemma leading_show:
  assumes "2 \<le> b" "b \<le> 16" "s = [] \<or> \<not> is_digit_in b (hd s)"
  shows "leading b (show_base b n @ s) = Some n"
proof -
  note d = show_base_digits [OF assms(1,2), of n]
  have "is_digit_in b c" if c: "c \<in> set (show_base b n)" for c
  proof -
    obtain k where "k < b" "c = hex_digits ! k" using d c by blast
    then show ?thesis using assms hex_digit_cases(1) [of k] by (simp add: is_digit_in_def)
  qed
  then have "takeWhile (is_digit_in b) (show_base b n @ s) = show_base b n @ takeWhile (is_digit_in b) s"
    by (intro takeWhile_append2) simp
  moreover have "takeWhile (is_digit_in b) s = []"
    using assms(3) by (cases s) auto
  ultimately show ?thesis using d by (simp add: leading_def)
qed

lemma show_base_hd:
  assumes "2 \<le> b" "b \<le> 16"
  obtains k where "k < 16" "hd (show_base b n @ s) = hex_digits ! k" "show_base b n @ s \<noteq> []"
proof -
  note d = show_base_digits [OF assms, of n]
  then have "hd (show_base b n) \<in> set (show_base b n)" by simp
  then obtain k where "k < b" "hd (show_base b n) = hex_digits ! k" using d by blast
  then show thesis using that [of k] d assms by simp
qed

lemma dropWhile_hd: "s \<noteq> [] \<Longrightarrow> \<not> P (hd s) \<Longrightarrow> dropWhile P s = s"
  by (cases s) auto

lemma extract_uint_show:
  assumes "n < 2 ^ 32" "s = [] \<or> \<not> is_digit_in 10 (hd s)"
  shows "extract_uint (to_dec_string n @ s) = of_nat n"
proof -
  obtain k where k: "k < 16" "hd (show_base 10 n @ s) = hex_digits ! k" "show_base 10 n @ s \<noteq> []"
    by (rule show_base_hd [of 10 n s]) simp_all
  have "dropWhile isspace (show_base 10 n @ s) = show_base 10 n @ s"
    using hex_digit_cases(2) [OF k(1)] k(2,3) by (intro dropWhile_hd) simp_all
  then show ?thesis
    using k hex_digit_cases [OF k(1)] leading_show [OF _ _ assms(2), of n] assms(1)
    by (simp add: extract_uint_def to_dec_string_def Let_def)
qed

lemma stoul16_show:
  assumes "n < 2 ^ 64" "s \<noteq> [] \<Longrightarrow> \<not> is_digit_in 16 (hd s)" "s \<noteq> [] \<Longrightarrow> hd s \<noteq> CHR ''x''" "s \<noteq> [] \<Longrightarrow> hd s \<noteq> CHR ''X''"
  shows "stoul16 (to_hex_string n @ s) = Some n"
proof -
  let ?t = "show_base 16 n @ s"
  obtain k where k: "k < 16" "hd ?t = hex_digits ! k" "?t \<noteq> []"
    by (rule show_base_hd [of 16 n s]) simp_all
  have ds: "c \<noteq> CHR ''x'' \<and> c \<noteq> CHR ''X''" if "c \<in> set (show_base 16 n)" for c
    using show_base_digits [of 16 n] that hex_digit_cases(5,6) by force
  have "b \<noteq> CHR ''x'' \<and> b \<noteq> CHR ''X''" if "?t = a # b # t" for a b t
    using that ds assms(3,4) show_base_digits [of 16 n]
    by (cases "show_base 16 n"; cases "tl (show_base 16 n)") auto
  then have "hex_prefix ?t = ?t" by (auto simp: hex_prefix_def split: list.splits)
  moreover have "dropWhile isspace ?t = ?t"
    using hex_digit_cases(2) [OF k(1)] k(2,3) by (intro dropWhile_hd) simp_all
  moreover have "leading 16 ?t = Some n" using assms(2) by (intro leading_show) auto
  ultimately show ?thesis
    using k hex_digit_cases [OF k(1)] assms(1) by (simp add: stoul16_def to_hex_string_def Let_def)
qed

section \<open>Decoding what was encoded\<close>

text \<open>Percent encoding of the characters that \<open>keep\<close> does not leave as they are.\<close>

definition percent_encode :: "(char \<Rightarrow> bool) \<Rightarrow> string \<Rightarrow> string" where
  "percent_encode keep s = concat (map (\<lambda>c. if keep c then [c]
     else [CHR ''%'', hex_digits ! (of_char c div 16), hex_digits ! (of_char c mod 16)]) s)"

lemma hex_field_digits:
  assumes "h < 16" "l < 16"
  shows "hex_field (hex_digits ! h) (hex_digits ! l) = Some (int (16 * h + l))"
  using hex_digit_cases [OF assms(1)] hex_digit_cases [OF assms(2)] by (simp add: hex_field_def)

lemma url_decode_percent:
  assumes "\<And>c. keep c \<Longrightarrow> c \<noteq> CHR ''%'' \<and> c \<noteq> CHR ''+''"
  shows "url_decode (percent_encode keep s) = (True, s)"
proof (induction s)
  case (Cons c s)
  have lt: "of_char c < (256 :: nat)" by (rule nat_of_char_less_256)
  then have d: "of_char c div 16 < (16 :: nat)" "of_char c mod 16 < (16 :: nat)"
    using less_mult_imp_div_less [of "of_char c" 16 16] by simp_all
  have n: "int (16 * (of_char c div 16) + of_char c mod 16) = int (of_char c)" by simp
  have v: "hex_field (hex_digits ! (of_char c div 16)) (hex_digits ! (of_char c mod 16)) = Some (int (of_char c))"
    using hex_field_digits [OF d] unfolding n .
  show ?case
    using Cons.IH assms [of c] v lt by (simp add: percent_encode_def)
qed (simp add: percent_encode_def)

text \<open>
  \<^verbatim>\<open>url_decode\<close> gives back every text from its percent encoding, whichever characters
  the encoder left alone, as long as it encoded the percent and the plus sign.
\<close>

theorem url_decode_roundtrip:
  assumes "\<And>c. keep c \<Longrightarrow> c \<noteq> CHR ''%'' \<and> c \<noteq> CHR ''+''"
  shows "url_decode (percent_encode keep s) = (True, s)"
  using assms by (rule url_decode_percent)

theorem url_decode_roundtrip_witness:
  "url_decode ''a%20b%25'' = (True, ''a b%'')"
proof -
  have "percent_encode (\<lambda>c. c = CHR ''a'' \<or> c = CHR ''b'') ''a b%'' = ''a%20b%25''" by code_simp
  moreover have "url_decode (percent_encode (\<lambda>c. c = CHR ''a'' \<or> c = CHR ''b'') ''a b%'') = (True, ''a b%'')"
    by (rule url_decode_roundtrip) auto
  ultimately show ?thesis by (simp only:)
qed

section \<open>Taking a URI apart\<close>

lemma fold_path: "fold uri_char p (s_path, u) = (s_path, u\<lparr>u_path := u_path u @ p\<rparr>)"
  by (induction p arbitrary: u) (simp_all add: uri_char_def)

lemma fold_port: "CHR ''/'' \<notin> set p \<Longrightarrow> fold uri_char p (s_port, u) = (s_port, u\<lparr>u_port := u_port u @ p\<rparr>)"
  by (induction p arbitrary: u) (auto simp: uri_char_def)

lemma fold_server:
  "CHR ''/'' \<notin> set p \<Longrightarrow> CHR '':'' \<notin> set p \<Longrightarrow>
    fold uri_char p (s_hostname, u) = (s_hostname, u\<lparr>u_server := u_server u @ p\<rparr>)"
  by (induction p arbitrary: u) (auto simp: uri_char_def)

lemma Uri_new_parts:
  assumes "url_decode str = (ok, server @ (if port = [] then [] else CHR '':'' # port) @ (if rest then CHR ''/'' # path else []))"
    and "CHR ''/'' \<notin> set server" "CHR '':'' \<notin> set server" "CHR ''/'' \<notin> set port"
  shows "Uri_new str = \<lparr>u_server = server, u_port = (if port = [] then ''80'' else port),
      u_path = ''/'' @ (if rest then path else [])\<rparr>"
  using assms(2-4)
  by (simp add: Uri_new_def assms(1) fold_server fold_port fold_path uri_char_def Let_def)

text \<open>
  A URI without a scheme is taken apart into its server, its port, 80 when there is
  none, and its path, which starts with a slash.
\<close>

theorem uri_parts:
  assumes "url_decode str = (ok, server @ (if port = [] then [] else CHR '':'' # port) @ (if rest then CHR ''/'' # path else []))"
    and "CHR ''/'' \<notin> set server" "CHR '':'' \<notin> set server" "CHR ''/'' \<notin> set port"
  shows "Uri_new str = \<lparr>u_server = server, u_port = (if port = [] then ''80'' else port),
      u_path = ''/'' @ (if rest then path else [])\<rparr>"
  using assms by (rule Uri_new_parts)

text \<open>The port and path are found; of a URI with a scheme the scheme is taken for the server.\<close>

theorem uri_parts_witness:
  "Uri_new ''h:8080/a%20b'' = \<lparr>u_server = ''h'', u_port = ''8080'', u_path = ''/a b''\<rparr>
    \<and> Uri_new ''http://h/a'' = \<lparr>u_server = ''http'', u_port = ''80'', u_path = ''//h/a''\<rparr>"
proof
  have sp: "char_of (32 :: nat) = CHR '' ''" by code_simp
  show "Uri_new ''h:8080/a%20b'' = \<lparr>u_server = ''h'', u_port = ''8080'', u_path = ''/a b''\<rparr>"
    using sp uri_parts [of "''h:8080/a%20b''" True "''h''" "''8080''" True "''a b''"]
    by (simp add: hex_field_def isspace_def hexval_def)
  show "Uri_new ''http://h/a'' = \<lparr>u_server = ''http'', u_port = ''80'', u_path = ''//h/a''\<rparr>"
    by (simp add: Uri_new_def uri_char_def)
qed

end
