(* ===== verification/Http_Server.thy ===== *)
theory Http_Server
  imports Http_Text
begin

text \<open>
  The web server of \<^verbatim>\<open>IPK/proj2\<close>: requests (\<^verbatim>\<open>request_parser.h\<close>,
  \<^verbatim>\<open>request_parser.cpp\<close>), replies (\<^verbatim>\<open>reply.h\<close>, \<^verbatim>\<open>reply.cpp\<close>), connections
  (\<^verbatim>\<open>connection.h\<close>, \<^verbatim>\<open>connection.cpp\<close>) and their manager
  (\<^verbatim>\<open>connection_manager.cpp\<close>). The file system, which the code reaches through Boost and
  streams, is an argument. A connection is a state machine: its steps are the completion
  handlers that the event loop runs, and the socket taking bytes. A write that is started gives the socket what it has room for; the rest
  waits, behind earlier writes, and is taken later from the members that the write refers to, which may have changed by then. The
  two log files are left out.
\<close>

section \<open>Replies\<close>

definition crlf :: string where
  "crlf = [CHR 0x0D, CHR 0x0A]"

datatype status_type = status_ok | bad_request | not_found

record reply =
  rp_status :: status_type
  rp_headers :: "(string \<times> string) list"
  rp_content :: string

definition status_line :: "status_type \<Rightarrow> string" where
  "status_line s = (case s of
       status_ok \<Rightarrow> ''HTTP/1.1 200 OK''
     | bad_request \<Rightarrow> ''HTTP/1.1 400 Bad Request''
     | not_found \<Rightarrow> ''HTTP/1.1 404 Not Found'') @ crlf"

definition status_page :: "status_type \<Rightarrow> string" where
  "status_page s = (case s of
       status_ok \<Rightarrow> []
     | bad_request \<Rightarrow> ''<html><head><title>Bad Request</title></head><body><h1>400 Bad Request</h1></body></html>''
     | not_found \<Rightarrow> ''<html><head><title>Not Found</title></head><body><h1>404 Not Found</h1></body></html>'')"

definition header_line :: "string \<times> string \<Rightarrow> string" where
  "header_line h = fst h @ '': '' @ snd h @ crlf"

definition to_buffers :: "reply \<Rightarrow> string" where
  "to_buffers r = status_line (rp_status r) @ concat (map header_line (rp_headers r)) @ crlf @ rp_content r"

definition chunk_to_buffer :: "reply \<Rightarrow> string" where
  "chunk_to_buffer r = rp_content r"

definition stock_reply :: "status_type \<Rightarrow> bool \<Rightarrow> reply" where
  "stock_reply s chunk =
     (let content = status_page s in
      \<lparr>rp_status = s,
       rp_headers = [if chunk then (''Transfer-Encoding'', ''chunked'')
                     else (''Content-Length'', to_dec_string (length content)),
                     (''Content-Type'', ''text/html'')],
       rp_content = content\<rparr>)"

section \<open>Requests\<close>

text \<open>What the code asks the file system: a directory entry is its name, whether it is a
  directory, and its extension.\<close>

record filesystem =
  fs_exists :: "string \<Rightarrow> bool"
  fs_is_directory :: "string \<Rightarrow> bool"
  fs_file :: "string \<Rightarrow> string option"
  fs_entries :: "string \<Rightarrow> (string \<times> bool \<times> string) list"
  fs_extension :: "string \<Rightarrow> string"

record request =
  rq_method :: string
  rq_path :: string
  rq_keepAlive :: bool

definition doc :: string where "doc = ''www''"
definition img_doc :: string where "img_doc = ''/icons/image1.gif''"
definition img_img :: string where "img_img = ''/icons/image2.gif''"
definition img_dir :: string where "img_dir = ''/icons/folder.gif''"

fun read_method :: "string \<Rightarrow> string \<times> nat" where
  "read_method [] = ([], 0)"
| "read_method (c # cs) =
     (if c \<noteq> CHR '' '' then (let (m, n) = read_method cs in (c # m, n + 1)) else ([], 1))"

text \<open>\<^verbatim>\<open>data[data.size()]\<close> is a null character; there is nothing after it.\<close>

fun read_path :: "string \<Rightarrow> string option" where
  "read_path [] = None"
| "read_path (c # cs) = (if c \<noteq> CHR '' '' then map_option ((#) c) (read_path cs) else Some [])"

definition lower :: "char \<Rightarrow> char" where
  "lower c = (let n = of_char c :: nat in if 65 \<le> n \<and> n \<le> 90 then char_of (n + 32) else c)"

fun prefixed :: "string \<Rightarrow> string \<Rightarrow> bool" where
  "prefixed [] s = True"
| "prefixed (c # cs) [] = False"
| "prefixed (c # cs) (d # ds) = (lower c = lower d \<and> prefixed cs ds)"

fun ifind_first :: "string \<Rightarrow> string \<Rightarrow> bool" where
  "ifind_first [] needle = prefixed needle []"
| "ifind_first (c # cs) needle = (prefixed needle (c # cs) \<or> ifind_first cs needle)"

definition RequestParser_parse :: "string \<Rightarrow> request option" where
  "RequestParser_parse dat =
     (let (m, readpos) = read_method dat
      in map_option (\<lambda>p. \<lparr>rq_method = m, rq_path = p, rq_keepAlive = ifind_first dat ''Connection: Keep-Alive''\<rparr>)
           (read_path (drop readpos (dat @ [CHR 0x00]))))"

definition ext2mime :: "string \<Rightarrow> string" where
  "ext2mime ext =
     (if ext = ''.gif'' then ''image/gif''
      else if ext = ''.jpg'' then ''image/jpeg''
      else if ext = ''.png'' then ''image/png''
      else if ext = ''.htm'' \<or> ext = ''.html'' then ''text/html''
      else ''text/plain'')"

definition quoted :: "string \<Rightarrow> string" where
  "quoted s = CHR 0x22 # s @ [CHR 0x22]"

definition list_row :: "string \<times> bool \<times> string \<Rightarrow> string" where
  "list_row e = (case e of (name, dir, ext) \<Rightarrow>
     ''<tr><td valign='' @ quoted ''top'' @ ''><img src='' @
     (if dir then quoted img_dir @ '' alt='' @ quoted ''[DIR]'' @ ''></td><td><a href=''
      else if ext = ''.jpg'' \<or> ext = ''.png'' then quoted img_img @ '' alt='' @ quoted ''[IMG]'' @ ''></td><td><a href=''
      else quoted img_doc @ '' alt='' @ quoted ''[DOC]'' @ ''></td><td><a href='') @
     name @ ''>'' @ name @ ''</a></td>'')"

definition gen_list :: "filesystem \<Rightarrow> string \<Rightarrow> string" where
  "gen_list fs path =
     (let pathx = drop (length doc) path in
      ''<html><head><title> Index of '' @ pathx @ ''</title></head><body><h1>Index of '' @ pathx @
      ''<table><tr><th><img src='' @ quoted ''/icons/blank.gif'' @ '' alt = '' @ quoted ''[ICO]'' @ ''></th><th>'' @
      ''Name</a></th></tr>'' @
      ''<tr><td valign='' @ quoted ''top'' @ ''><img src='' @ quoted ''/icons/back.gif'' @ '' alt='' @ quoted ''[DIR]'' @
      ''></td><td><a href='' @ quoted ''/'' @ ''>Parent Directory</a> '' @
      concat (map list_row (fs_entries fs path)) @
      ''</table><address>IPK 2015 Server(xmikus15) at localhost</address></body></html>'')"

definition index_html :: string where
  "index_html = ''/index.html''"

definition RequestParser_handle :: "filesystem \<Rightarrow> request \<Rightarrow> reply" where
  "RequestParser_handle fs rq =
     (let (decoded, path) = url_decode (doc @ rq_path rq) in
      if \<not> decoded then stock_reply bad_request False
      else
        let directory = fs_is_directory fs path;
            index = (directory \<and> \<not> fs_exists fs (path @ index_html));
            file = (if directory then path @ index_html else path);
            answer = (\<lambda>content mime.
              \<lparr>rp_status = status_ok,
               rp_headers = [(''Content-Length'', to_dec_string (length content)), (''Content-Type'', mime)]
                 @ (if rq_keepAlive rq then [(''Connection'', ''Keep-Alive'')] else []),
               rp_content = content\<rparr>)
        in if index then answer (gen_list fs path) ''text/html''
           else case fs_file fs file of
             None \<Rightarrow> stock_reply not_found False
           | Some content \<Rightarrow> answer content (if directory then ''text/html'' else ext2mime (fs_extension fs path)))"

section \<open>Connections\<close>

text \<open>
  \<^verbatim>\<open>_buffer\<close> keeps 8192 characters from one read to the next. \<open>cn_writes\<close> and
  \<open>cn_reads\<close> count the started writes and reads that have not completed, \<open>cn_armed\<close> and
  \<open>cn_idle\<close> tell whether a handler waits for the chunk and the keep-alive timer. \<open>cn_sent\<close> are the bytes that the socket
  has taken, and \<open>cn_room\<close> is the number that it can take at once. \<open>cn_waiting\<close> are the writes that it has not taken whole:
  whether the write is one of a chunk, how many bytes of it were taken, and its length when it was started.
\<close>

record connection =
  cn_shut :: bool
  cn_managed :: bool
  cn_keepAlive :: bool
  cn_raw :: string
  cn_buffer :: string
  cn_reply :: reply
  cn_maxchunk :: nat
  cn_chunkTime :: nat
  cn_sent :: string
  cn_room :: nat
  cn_waiting :: "(bool \<times> nat \<times> nat) list"
  cn_writes :: nat
  cn_reads :: nat
  cn_armed :: bool
  cn_idle :: bool

text \<open>\<^verbatim>\<open>_buffer\<close> and \<^verbatim>\<open>_reply\<close> are not initialised: arguments.\<close>

definition Connection_new :: "nat \<Rightarrow> string \<Rightarrow> reply \<Rightarrow> nat \<Rightarrow> nat \<Rightarrow> connection" where
  "Connection_new room raw rep maxchunk time =
     \<lparr>cn_shut = False, cn_managed = False, cn_keepAlive = False, cn_raw = raw, cn_buffer = [], cn_reply = rep,
      cn_maxchunk = maxchunk, cn_chunkTime = time, cn_sent = [], cn_room = room, cn_waiting = [], cn_writes = 0, cn_reads = 0,
      cn_armed = False, cn_idle = False\<rparr>"

definition connection_read :: "connection \<Rightarrow> connection" where
  "connection_read c = c\<lparr>cn_reads := cn_reads c + 1\<rparr>"

text \<open>\<^verbatim>\<open>connection_manager.start\<close> and \<^verbatim>\<open>stop\<close>, for the connection itself.\<close>

definition connection_start :: "connection \<Rightarrow> connection" where
  "connection_start c = connection_read (c\<lparr>cn_managed := True\<rparr>)"

definition connection_stop :: "connection \<Rightarrow> connection" where
  "connection_stop c = c\<lparr>cn_managed := False, cn_shut := True\<rparr>"

text \<open>The members that a write refers to, and what starting it gives to the socket. A shut socket takes nothing.\<close>

definition write_bytes :: "bool \<Rightarrow> reply \<Rightarrow> string" where
  "write_bytes chunk r = (if chunk then chunk_to_buffer r else to_buffers r)"

definition connection_write :: "bool \<Rightarrow> connection \<Rightarrow> connection" where
  "connection_write chunk c =
     (let bytes = write_bytes chunk (cn_reply c);
          k = (if cn_shut c \<or> cn_waiting c \<noteq> [] then 0 else min (cn_room c) (length bytes))
      in c\<lparr>cn_sent := cn_sent c @ take k bytes, cn_room := cn_room c - k,
           cn_waiting := (if k = length bytes then cn_waiting c else cn_waiting c @ [(chunk, k, length bytes)]),
           cn_writes := cn_writes c + 1\<rparr>)"

text \<open>
  The socket gets room for \<open>n\<close> bytes: the first waiting write goes on, with what its members hold now. \<open>None\<close>: they have
  become shorter, and what is behind their end is sent.
\<close>

definition socket_takes :: "nat \<Rightarrow> connection \<Rightarrow> connection option" where
  "socket_takes n c =
     (case cn_waiting c of
        [] \<Rightarrow> Some (c\<lparr>cn_room := n\<rparr>)
      | (chunk, from, len) # ws \<Rightarrow>
          (let k = min n (len - from); bytes = write_bytes chunk (cn_reply c)
           in if length bytes < from + k then None
              else Some (c\<lparr>cn_sent := cn_sent c @ take k (drop from bytes), cn_room := n - k,
                           cn_waiting := (if from + k = len then ws else (chunk, from + k, len) # ws)\<rparr>)))"

definition chunk_bytes :: "string \<Rightarrow> string" where
  "chunk_bytes d = to_hex_string (length d) @ crlf @ d @ crlf"

definition send_chunk :: "connection \<Rightarrow> nat \<times> connection" where
  "send_chunk c =
     (let n = (if cn_maxchunk c < length (cn_buffer c) then cn_maxchunk c else length (cn_buffer c));
          content = to_hex_string n @ crlf @ take n (cn_buffer c) @ crlf;
          c1 = connection_write True (c\<lparr>cn_reply := (cn_reply c)\<lparr>rp_content := content\<rparr>\<rparr>)
      in (n, c1\<lparr>cn_buffer := drop n (cn_buffer c)\<rparr>))"

text \<open>The loop over the blocks of the file, of \<open>n\<close> characters each.\<close>

function send_blocks :: "nat \<Rightarrow> string \<Rightarrow> connection \<Rightarrow> connection" where
  "send_blocks n rest c =
     (if take n rest = [] then c
      else
        let c1 = c\<lparr>cn_buffer := cn_buffer c @ take n rest\<rparr>;
            c2 = (if cn_chunkTime c1 \<noteq> 0 then c1\<lparr>cn_armed := True\<rparr>
                  else if cn_maxchunk c1 \<le> length (cn_buffer c1) then snd (send_chunk c1) else c1)
        in send_blocks n (drop n rest) c2)"
  by pat_completeness auto
termination
  by (relation "measure (\<lambda>(n, rest, c). length rest)") auto

declare send_blocks.simps [simp del]

text \<open>The loop that empties the buffer; \<open>None\<close> when it does not end.\<close>

partial_function (option) send_all :: "connection \<Rightarrow> connection option" where
  "send_all c = (if cn_buffer c = [] then Some c else send_all (snd (send_chunk c)))"

text \<open>The header of a chunked answer, and a listing put into the buffer.\<close>

definition start_chunked :: "filesystem \<Rightarrow> string \<Rightarrow> connection \<Rightarrow> connection" where
  "start_chunked fs path c =
     (let directory = fs_is_directory fs path;
          genList = (directory \<and> \<not> fs_exists fs (path @ index_html));
          mime = (if directory then ''text/html'' else ext2mime (fs_extension fs path));
          rep = \<lparr>rp_status = status_ok,
            rp_headers = [(''Transfer-Encoding'', ''chunked''), (''Content-Type'', mime)]
              @ (if cn_keepAlive c then [(''Connection'', ''Keep-Alive'')] else []),
            rp_content = status_page status_ok\<rparr>
      in connection_write False (c\<lparr>cn_buffer := (if genList then gen_list fs path else cn_buffer c), cn_reply := rep\<rparr>))"

text \<open>The chunks: at once, or by the timer when there is a chunk time.\<close>

definition file_chunks :: "string \<Rightarrow> connection \<Rightarrow> connection" where
  "file_chunks content c =
     (let c2 = send_blocks (if 512 < cn_maxchunk c then 512 else cn_maxchunk c) content c
      in if cn_chunkTime c2 = 0 then
           let c3 = (if cn_buffer c2 \<noteq> [] then snd (send_chunk c2) else c2) in snd (send_chunk c3)
         else c2)"

definition list_chunks :: "connection \<Rightarrow> connection option" where
  "list_chunks c =
     (if cn_chunkTime c \<noteq> 0 then Some (c\<lparr>cn_armed := True\<rparr>)
      else map_option (\<lambda>c'. snd (send_chunk c')) (send_all c))"

definition chunked_reply :: "filesystem \<Rightarrow> string \<Rightarrow> connection \<Rightarrow> connection option" where
  "chunked_reply fs url c =
     (let (decoded, path0) = url_decode url; path = doc @ path0 in
      if \<not> decoded then Some (connection_write False (c\<lparr>cn_reply := stock_reply bad_request False\<rparr>))
      else if \<not> fs_exists fs path then Some (connection_write False (c\<lparr>cn_reply := stock_reply not_found False\<rparr>))
      else
        let index = (fs_is_directory fs path \<and> fs_exists fs (path @ index_html));
            genList = (fs_is_directory fs path \<and> \<not> index);
            file = (if index then path @ index_html else path);
            c1 = start_chunked fs path c
        in if genList then list_chunks c1
           else Some (file_chunks (case fs_file fs file of None \<Rightarrow> [] | Some s \<Rightarrow> s) c1))"

text \<open>
  The handler of a completed read. \<open>None\<close>: the request has no second blank, or it is longer than the buffer, and then no read completes with
  all of it.
\<close>

definition handle_read :: "filesystem \<Rightarrow> string \<Rightarrow> connection \<Rightarrow> connection option" where
  "handle_read fs bytes c =
     (let raw = bytes @ drop (length bytes) (cn_raw c);
          c0 = c\<lparr>cn_raw := raw, cn_reads := cn_reads c - 1\<rparr>
      in if length (cn_raw c) < length bytes then None
      else case RequestParser_parse raw of
           None \<Rightarrow> None
         | Some rq \<Rightarrow>
             let c1 = c0\<lparr>cn_keepAlive := rq_keepAlive rq\<rparr>
             in if cn_maxchunk c1 \<noteq> 0 then chunked_reply fs (rq_path rq) c1
                else Some (connection_write False (c1\<lparr>cn_reply := RequestParser_handle fs rq\<rparr>)))"

datatype outcome = Completed | Failed | Aborted

definition handle_read_error :: "outcome \<Rightarrow> connection \<Rightarrow> connection" where
  "handle_read_error r c =
     (let c1 = c\<lparr>cn_reads := cn_reads c - 1\<rparr>
      in if r \<noteq> Aborted \<and> \<not> cn_keepAlive c1 then connection_stop c1 else c1)"

definition handle_write :: "outcome \<Rightarrow> connection \<Rightarrow> connection" where
  "handle_write r c =
     (let c1 = c\<lparr>cn_writes := cn_writes c - 1, cn_idle := False\<rparr>;
          c2 = (if r = Completed then
                  (if cn_keepAlive c1 then connection_read (c1\<lparr>cn_idle := True\<rparr>) else c1\<lparr>cn_shut := True\<rparr>)
                else c1)
      in if r \<noteq> Aborted \<and> \<not> cn_keepAlive c2 then connection_stop c2 else c2)"

definition handle_timeout :: "connection \<Rightarrow> connection" where
  "handle_timeout c = connection_stop (c\<lparr>cn_idle := False, cn_shut := True\<rparr>)"

definition handle_chunk_timer :: "connection \<Rightarrow> connection" where
  "handle_chunk_timer c = (let (send, c1) = send_chunk c in c1\<lparr>cn_armed := (send \<noteq> 0)\<rparr>)"

section \<open>The event loop\<close>

text \<open>
  What the event loop may run next. A shut socket delivers and takes no bytes. A write completes well when the socket has taken it whole,
  and otherwise badly; the first one that waits is then given up.
\<close>

datatype event = Received string | Read_error outcome | Written outcome | Socket_takes nat | Chunk_timer | Idle_timer

inductive conn_step :: "filesystem \<Rightarrow> connection \<Rightarrow> event \<Rightarrow> connection \<Rightarrow> bool" for fs where
  received: "0 < cn_reads c \<Longrightarrow> \<not> cn_shut c \<Longrightarrow> bytes \<noteq> []
    \<Longrightarrow> handle_read fs bytes c = Some c' \<Longrightarrow> conn_step fs c (Received bytes) c'"
| read_error: "0 < cn_reads c \<Longrightarrow> r \<noteq> Completed \<Longrightarrow> conn_step fs c (Read_error r) (handle_read_error r c)"
| written: "length (cn_waiting c) < cn_writes c \<Longrightarrow> conn_step fs c (Written Completed) (handle_write Completed c)"
| not_written: "cn_waiting c = w # ws \<Longrightarrow> r \<noteq> Completed \<Longrightarrow> conn_step fs c (Written r) (handle_write r (c\<lparr>cn_waiting := ws\<rparr>))"
| taken: "\<not> cn_shut c \<Longrightarrow> socket_takes n c = Some c' \<Longrightarrow> conn_step fs c (Socket_takes n) c'"
| chunk_timer: "cn_armed c \<Longrightarrow> conn_step fs c Chunk_timer (handle_chunk_timer c)"
| idle_timer: "cn_idle c \<Longrightarrow> conn_step fs c Idle_timer (handle_timeout c)"

inductive_simps conn_step_simps: "conn_step fs c e c'"

inductive conn_run :: "filesystem \<Rightarrow> connection \<Rightarrow> event list \<Rightarrow> connection \<Rightarrow> bool" for fs where
  run_none: "conn_run fs c [] c"
| run_step: "conn_run fs c es c1 \<Longrightarrow> conn_step fs c1 e c2 \<Longrightarrow> conn_run fs c (es @ [e]) c2"

text \<open>A run is timely when the chunk timer fires only after the socket has taken all that was written.\<close>

inductive timely_run :: "filesystem \<Rightarrow> connection \<Rightarrow> event list \<Rightarrow> connection \<Rightarrow> bool" for fs where
  timely_none: "timely_run fs c [] c"
| timely_step: "timely_run fs c es c1 \<Longrightarrow> (e = Chunk_timer \<Longrightarrow> cn_waiting c1 = []) \<Longrightarrow> conn_step fs c1 e c2
    \<Longrightarrow> timely_run fs c (es @ [e]) c2"

section \<open>The manager\<close>

type_synonym manager = "nat \<Rightarrow> connection option"

definition manager_start :: "nat \<Rightarrow> connection \<Rightarrow> manager \<Rightarrow> manager" where
  "manager_start i c m = m(i \<mapsto> connection_start c)"

text \<open>\<^verbatim>\<open>stop_all\<close>: the stopped connections, none of which is kept.\<close>

definition manager_stop_all :: "manager \<Rightarrow> manager \<times> manager" where
  "manager_stop_all m = (\<lambda>i. map_option connection_stop (m i), Map.empty)"

section \<open>What is sent\<close>

text \<open>
  What the socket has yet to take, and that at most one write waits, for what it refers to has not changed.
\<close>

definition waiting_bytes :: "connection \<Rightarrow> string" where
  "waiting_bytes c = (case cn_waiting c of [] \<Rightarrow> [] | (b, from, len) # _ \<Rightarrow> drop from (take len (write_bytes b (cn_reply c))))"

definition waiting_ok :: "connection \<Rightarrow> bool" where
  "waiting_ok c \<longleftrightarrow> cn_waiting c = [] \<or>
     (\<exists>b from. cn_waiting c = [(b, from, length (write_bytes b (cn_reply c)))] \<and> from < length (write_bytes b (cn_reply c)))"

lemma waiting_same [simp]:
  "waiting_bytes (c\<lparr>cn_buffer := x\<rparr>) = waiting_bytes c" "waiting_bytes (c\<lparr>cn_armed := a\<rparr>) = waiting_bytes c"
  "waiting_ok (c\<lparr>cn_buffer := x\<rparr>) = waiting_ok c" "waiting_ok (c\<lparr>cn_armed := a\<rparr>) = waiting_ok c"
  "waiting_bytes (c\<lparr>cn_reads := r\<rparr>) = waiting_bytes c" "waiting_ok (c\<lparr>cn_reads := r\<rparr>) = waiting_ok c"
  by (simp_all add: waiting_bytes_def waiting_ok_def split: list.split)

lemma write_waits:
  assumes "\<not> cn_shut c" "cn_waiting c = []"
  shows "cn_sent (connection_write b c) @ waiting_bytes (connection_write b c) = cn_sent c @ write_bytes b (cn_reply c)"
    "waiting_ok (connection_write b c)"
  using assms by (auto simp: connection_write_def waiting_bytes_def waiting_ok_def Let_def min_def)

lemma takes_waiting:
  assumes "waiting_ok c" "socket_takes n c = Some c'"
  shows "cn_sent c' @ waiting_bytes c' = cn_sent c @ waiting_bytes c" "waiting_ok c'"
proof -
  have "cn_sent c' @ waiting_bytes c' = cn_sent c @ waiting_bytes c \<and> waiting_ok c'"
  proof (cases "cn_waiting c = []")
    case True
    then show ?thesis using assms(2) by (auto simp: socket_takes_def waiting_bytes_def waiting_ok_def)
  next
    case False
    define bytes where "bytes b = write_bytes b (cn_reply c)" for b
    obtain b "from" where w: "cn_waiting c = [(b, from, length (bytes b))]" "from < length (bytes b)"
      using assms(1) False by (auto simp: waiting_ok_def bytes_def)
    define k where "k = min n (length (bytes b) - from)"
    have "take k (drop from (bytes b)) @ drop (from + k) (bytes b) = drop from (bytes b)"
      by (metis append_take_drop_id add.commute drop_drop)
    moreover have k: "from + k \<le> length (bytes b)" using w(2) by (simp add: k_def)
    moreover have "c' = c\<lparr>cn_sent := cn_sent c @ take k (drop from (bytes b)), cn_room := n - k,
        cn_waiting := (if from + k = length (bytes b) then [] else [(b, from + k, length (bytes b))])\<rparr>"
      using assms(2) k
      unfolding socket_takes_def w(1) list.case prod.case Let_def bytes_def [symmetric] k_def [symmetric] by simp
    ultimately show ?thesis using w by (simp add: waiting_bytes_def waiting_ok_def bytes_def [symmetric])
  qed
  then show "cn_sent c' @ waiting_bytes c' = cn_sent c @ waiting_bytes c" "waiting_ok c'" by simp_all
qed

text \<open>From one state to another the connection has written the chunks \<open>ds\<close>; the socket takes them at once when it has the room.\<close>

definition room_for :: "string \<Rightarrow> connection \<Rightarrow> bool" where
  "room_for bytes c \<longleftrightarrow> \<not> cn_shut c \<and> cn_waiting c = [] \<and> length bytes \<le> cn_room c"

definition emits :: "string list \<Rightarrow> connection \<Rightarrow> connection \<Rightarrow> bool" where
  "emits ds c c' \<longleftrightarrow>
     (\<forall>rest. room_for (concat (map chunk_bytes ds) @ rest) c \<longrightarrow>
        cn_sent c' = cn_sent c @ concat (map chunk_bytes ds) \<and> room_for rest c')
     \<and> cn_shut c' = cn_shut c \<and> cn_maxchunk c' = cn_maxchunk c \<and> cn_chunkTime c' = cn_chunkTime c
     \<and> cn_keepAlive c' = cn_keepAlive c \<and> (\<forall>d \<in> set ds. length d \<le> cn_maxchunk c)"

lemma room_for_buffer [simp]: "room_for b (c\<lparr>cn_buffer := x\<rparr>) = room_for b c"
  by (simp add: room_for_def)

lemma emits_none: "emits [] c c"
  by (simp add: emits_def)

lemma emits_trans: "emits ds c c1 \<Longrightarrow> emits es c1 c2 \<Longrightarrow> emits (ds @ es) c c2"
  by (auto simp: emits_def)

lemma write_same:
  "cn_shut (connection_write b c) = cn_shut c" "cn_maxchunk (connection_write b c) = cn_maxchunk c"
  "cn_chunkTime (connection_write b c) = cn_chunkTime c" "cn_keepAlive (connection_write b c) = cn_keepAlive c"
  by (simp_all add: connection_write_def Let_def)

lemma write_room:
  assumes "room_for (write_bytes b (cn_reply c) @ rest) c"
  shows "cn_sent (connection_write b c) = cn_sent c @ write_bytes b (cn_reply c)" "room_for rest (connection_write b c)"
  using assms by (auto simp: room_for_def connection_write_def Let_def)

lemma emits_send_chunk:
  "emits [take (cn_maxchunk c) (cn_buffer c)] c (snd (send_chunk c))"
  "cn_buffer (snd (send_chunk c)) = drop (cn_maxchunk c) (cn_buffer c)"
  "fst (send_chunk c) = min (cn_maxchunk c) (length (cn_buffer c))"
proof -
  let ?d = "take (cn_maxchunk c) (cn_buffer c)"
  let ?c = "c\<lparr>cn_reply := (cn_reply c)\<lparr>rp_content := chunk_bytes ?d\<rparr>\<rparr>"
  have s: "snd (send_chunk c) = (connection_write True ?c)\<lparr>cn_buffer := drop (cn_maxchunk c) (cn_buffer c)\<rparr>"
    by (auto simp: send_chunk_def chunk_bytes_def Let_def)
  have "cn_sent (connection_write True ?c) = cn_sent c @ chunk_bytes ?d \<and> room_for rest (connection_write True ?c)"
    if "room_for (chunk_bytes ?d @ rest) c" for rest
    using write_room [of True ?c rest] that by (simp add: write_bytes_def chunk_to_buffer_def room_for_def)
  then show "emits [?d] c (snd (send_chunk c))"
    unfolding s by (simp add: emits_def write_same)
qed (auto simp: send_chunk_def Let_def)

lemma send_blocks_untimed:
  assumes "cn_chunkTime c = 0" "0 < n" "n \<le> cn_maxchunk c" "length (cn_buffer c) < cn_maxchunk c"
  shows "\<exists>ds. emits ds c (send_blocks n rest c) \<and> [] \<notin> set ds
    \<and> concat ds @ cn_buffer (send_blocks n rest c) = cn_buffer c @ rest
    \<and> length (cn_buffer (send_blocks n rest c)) < cn_maxchunk c"
  using assms
proof (induction "length rest" arbitrary: rest c rule: less_induct)
  case less
  show ?case
  proof (cases "rest = []")
    case True
    then have "send_blocks n rest c = c" by (subst send_blocks.simps) simp
    moreover have "emits [] c c" by (rule emits_none)
    ultimately show ?thesis using less.prems True by (intro exI [of _ "[]"]) simp
  next
    case False
    then have ne: "take n rest \<noteq> []" using less.prems(2) by simp
    define c1 where "c1 = c\<lparr>cn_buffer := cn_buffer c @ take n rest\<rparr>"
    define full where "full = (cn_maxchunk c1 \<le> length (cn_buffer c1))"
    define c2 where "c2 = (if full then snd (send_chunk c1) else c1)"
    define es where "es = (if full then [take (cn_maxchunk c1) (cn_buffer c1)] else [])"
    define e where "e = send_blocks n (drop n rest) c2"
    have b: "send_blocks n rest c = e"
      using ne less.prems(1) by (subst send_blocks.simps) (simp add: c1_def c2_def full_def e_def Let_def)
    have b1: "cn_buffer c1 = cn_buffer c @ take n rest" "cn_maxchunk c1 = cn_maxchunk c" by (simp_all add: c1_def)
    have "emits es c1 c2" using emits_send_chunk(1) [of c1] emits_none [of c1] by (simp add: es_def c2_def)
    then have e: "emits es c c2" by (simp add: emits_def c1_def)
    have "concat es @ cn_buffer c2 = cn_buffer c1" by (simp add: es_def c2_def emits_send_chunk(2))
    then have e2: "concat es @ cn_buffer c2 = cn_buffer c @ take n rest" by (simp add: b1)
    have e3: "[] \<notin> set es" using ne less.prems by (simp add: es_def c1_def)
    have l: "cn_maxchunk c2 = cn_maxchunk c" "cn_chunkTime c2 = 0"
      using e less.prems(1) by (simp_all add: emits_def)
    have "length (cn_buffer c2) < cn_maxchunk c"
      using less.prems(3,4) by (auto simp: c2_def full_def emits_send_chunk(2) b1)
    moreover have "length (drop n rest) < length rest" using False less.prems(2) by simp
    ultimately obtain ds where ds: "emits ds c2 e" "[] \<notin> set ds" "concat ds @ cn_buffer e = cn_buffer c2 @ drop n rest"
        "length (cn_buffer e) < cn_maxchunk c"
      using less.hyps [of "drop n rest" c2] l less.prems(2,3) by (auto simp: e_def)
    have "concat (es @ ds) @ cn_buffer e = cn_buffer c @ rest"
      using ds(3) e2 by (metis append_assoc append_take_drop_id concat_append)
    then show ?thesis
      unfolding b using emits_trans [OF e ds(1)] e3 ds(2,4) by (intro exI [of _ "es @ ds"]) auto
  qed
qed

lemma send_blocks_timed:
  assumes "cn_chunkTime c \<noteq> 0" "0 < n"
  shows "send_blocks n rest c = c\<lparr>cn_buffer := cn_buffer c @ rest, cn_armed := (cn_armed c \<or> rest \<noteq> [])\<rparr>"
  using assms
proof (induction n rest c rule: send_blocks.induct)
  case (1 n rest c)
  show ?case
  proof (cases "rest = []")
    case False
    then have ne: "take n rest \<noteq> []" using "1.prems"(2) by simp
    show ?thesis
      using "1.IH" [OF ne, OF refl refl] ne "1.prems" by (subst send_blocks.simps) (simp add: Let_def False)
  qed (simp add: send_blocks.simps)
qed

lemma send_all_ends:
  assumes "0 < cn_maxchunk c"
  shows "\<exists>c' ds. send_all c = Some c' \<and> emits ds c c' \<and> [] \<notin> set ds \<and> concat ds = cn_buffer c \<and> cn_buffer c' = []"
  using assms
proof (induction "length (cn_buffer c)" arbitrary: c rule: less_induct)
  case less
  show ?case
  proof (cases "cn_buffer c = []")
    case True
    then show ?thesis using emits_none [of c] by (subst send_all.simps) (auto intro!: exI [of _ "[]"])
  next
    case False
    let ?c1 = "snd (send_chunk c)" and ?d = "take (cn_maxchunk c) (cn_buffer c)"
    note s = emits_send_chunk [of c]
    have "length (cn_buffer ?c1) < length (cn_buffer c)" using less.prems False s(2) by simp
    moreover have "0 < cn_maxchunk ?c1" using s(1) less.prems by (simp add: emits_def)
    ultimately obtain c' ds where c': "send_all ?c1 = Some c'" "emits ds ?c1 c'" "[] \<notin> set ds"
        "concat ds = cn_buffer ?c1" "cn_buffer c' = []"
      using less.hyps [of ?c1] by blast
    have "send_all c = Some c'" using False c'(1) by (subst send_all.simps) simp
    moreover have "concat (?d # ds) = cn_buffer c" using c'(4) s(2) by simp
    ultimately show ?thesis
      using emits_trans [OF s(1) c'(2)] c'(3,5) less.prems False
      by (intro exI [of _ c'] exI [of _ "?d # ds"]) auto
  qed
qed

text \<open>The last chunk, which is empty, after all others.\<close>

lemma finish_untimed:
  assumes "length (cn_buffer c) < cn_maxchunk c"
  shows "\<exists>ds. emits (ds @ [[]]) c (snd (send_chunk (if cn_buffer c \<noteq> [] then snd (send_chunk c) else c)))
    \<and> [] \<notin> set ds \<and> concat ds = cn_buffer c"
proof (cases "cn_buffer c = []")
  case True
  then show ?thesis using emits_send_chunk(1) [of c] by (intro exI [of _ "[]"]) simp
next
  case False
  let ?c1 = "snd (send_chunk c)"
  have e: "emits [cn_buffer c] c ?c1" "cn_buffer ?c1 = []"
    using assms emits_send_chunk [of c] by simp_all
  have "emits [[]] ?c1 (snd (send_chunk ?c1))" using emits_send_chunk(1) [of ?c1] e(2) by simp
  from emits_trans [OF e(1) this] False show ?thesis by (intro exI [of _ "[cn_buffer c]"]) simp
qed

section \<open>The whole answer\<close>

text \<open>What the server means to send for a path: the content, and its media type.\<close>

definition served :: "filesystem \<Rightarrow> string \<Rightarrow> string \<times> string" where
  "served fs path =
     (if fs_is_directory fs path then
        (if fs_exists fs (path @ index_html) then
           (case fs_file fs (path @ index_html) of None \<Rightarrow> [] | Some s \<Rightarrow> s)
         else gen_list fs path, ''text/html'')
      else (case fs_file fs path of None \<Rightarrow> [] | Some s \<Rightarrow> s, ext2mime (fs_extension fs path)))"

definition chunked_header :: "string \<Rightarrow> bool \<Rightarrow> string" where
  "chunked_header mime keep = status_line status_ok @ concat (map header_line
     ([(''Transfer-Encoding'', ''chunked''), (''Content-Type'', mime)] @ (if keep then [(''Connection'', ''Keep-Alive'')] else []))) @ crlf"

lemma start_chunked_same:
  "cn_shut (start_chunked fs path c) = cn_shut c" "cn_maxchunk (start_chunked fs path c) = cn_maxchunk c"
  "cn_chunkTime (start_chunked fs path c) = cn_chunkTime c"
  "cn_buffer (start_chunked fs path c)
     = (if fs_is_directory fs path \<and> \<not> fs_exists fs (path @ index_html) then gen_list fs path else cn_buffer c)"
  "cn_armed (start_chunked fs path c) = cn_armed c" "cn_keepAlive (start_chunked fs path c) = cn_keepAlive c"
  by (simp_all add: start_chunked_def connection_write_def Let_def)

lemma start_chunked_sent:
  fixes c :: connection and fs :: filesystem and path :: string
  defines "hdr \<equiv> chunked_header (snd (served fs path)) (cn_keepAlive c)"
  shows "room_for (hdr @ rest) c \<Longrightarrow>
      cn_sent (start_chunked fs path c) = cn_sent c @ hdr \<and> room_for rest (start_chunked fs path c)"
    "\<not> cn_shut c \<Longrightarrow> cn_waiting c = [] \<Longrightarrow>
      cn_sent (start_chunked fs path c) @ waiting_bytes (start_chunked fs path c) = cn_sent c @ hdr
        \<and> waiting_ok (start_chunked fs path c)"
proof -
  define c1 where "c1 = c\<lparr>cn_buffer := (if fs_is_directory fs path \<and> \<not> fs_exists fs (path @ index_html) then gen_list fs path else cn_buffer c),
    cn_reply := \<lparr>rp_status = status_ok,
      rp_headers = [(''Transfer-Encoding'', ''chunked''), (''Content-Type'', snd (served fs path))]
        @ (if cn_keepAlive c then [(''Connection'', ''Keep-Alive'')] else []),
      rp_content = status_page status_ok\<rparr>\<rparr>"
  have s: "start_chunked fs path c = connection_write False c1"
    by (simp add: start_chunked_def c1_def served_def Let_def)
  have w: "write_bytes False (cn_reply c1) = hdr"
    by (simp add: write_bytes_def to_buffers_def c1_def hdr_def chunked_header_def status_page_def)
  have same: "cn_shut c1 = cn_shut c" "cn_waiting c1 = cn_waiting c" "cn_sent c1 = cn_sent c" "cn_room c1 = cn_room c"
    by (simp_all add: c1_def)
  show "room_for (hdr @ rest) c \<Longrightarrow>
      cn_sent (start_chunked fs path c) = cn_sent c @ hdr \<and> room_for rest (start_chunked fs path c)"
    using write_room [of False c1 rest] same unfolding s w room_for_def by simp
  show "\<not> cn_shut c \<Longrightarrow> cn_waiting c = [] \<Longrightarrow>
      cn_sent (start_chunked fs path c) @ waiting_bytes (start_chunked fs path c) = cn_sent c @ hdr
        \<and> waiting_ok (start_chunked fs path c)"
    using write_waits [of c1 False] same unfolding s w by simp
qed

lemma file_chunks_untimed:
  assumes "cn_chunkTime c = 0" "0 < cn_maxchunk c" "cn_buffer c = []"
  shows "\<exists>ds. emits (ds @ [[]]) c (file_chunks content c) \<and> [] \<notin> set ds \<and> concat ds = content"
proof -
  define n where "n = (if 512 < cn_maxchunk c then 512 else cn_maxchunk c)"
  define c2 where "c2 = send_blocks n content c"
  have "0 < n" "n \<le> cn_maxchunk c" using assms(2) by (auto simp: n_def)
  then obtain ds where ds: "emits ds c c2" "[] \<notin> set ds" "concat ds @ cn_buffer c2 = content"
      "length (cn_buffer c2) < cn_maxchunk c"
    using send_blocks_untimed [OF assms(1), of n content] assms(2,3) by (auto simp: c2_def)
  then have same: "cn_maxchunk c2 = cn_maxchunk c" "cn_chunkTime c2 = 0" using assms(1) by (simp_all add: emits_def)
  let ?c = "snd (send_chunk (if cn_buffer c2 \<noteq> [] then snd (send_chunk c2) else c2))"
  obtain es where es: "emits (es @ [[]]) c2 ?c" "[] \<notin> set es" "concat es = cn_buffer c2"
    using finish_untimed [of c2] ds(4) same(1) by auto
  have "file_chunks content c = ?c"
    using same(2) by (simp add: file_chunks_def c2_def n_def Let_def)
  moreover have "emits ((ds @ es) @ [[]]) c ?c" using emits_trans [OF ds(1) es(1)] by simp
  moreover have "concat (ds @ es) = content" using ds(3) es(3) by simp
  ultimately show ?thesis using ds(2) es(2) by (intro exI [of _ "ds @ es"]) auto
qed

lemma list_chunks_untimed:
  assumes "cn_chunkTime c = 0" "0 < cn_maxchunk c"
  shows "\<exists>c' ds. list_chunks c = Some c' \<and> emits (ds @ [[]]) c c' \<and> [] \<notin> set ds \<and> concat ds = cn_buffer c"
proof -
  obtain c2 ds where c2: "send_all c = Some c2" "emits ds c c2" "[] \<notin> set ds" "concat ds = cn_buffer c" "cn_buffer c2 = []"
    using send_all_ends [OF assms(2)] by blast
  have "emits (ds @ [[]]) c (snd (send_chunk c2))"
    using emits_trans [OF c2(2) emits_send_chunk(1) [of c2]] c2(5) by simp
  then show ?thesis using c2 assms(1) by (auto simp: list_chunks_def)
qed

lemma chunked_reply_untimed:
  assumes "url_decode url = (True, p)" "fs_exists fs (doc @ p)" "cn_chunkTime c = 0"
    and "0 < cn_maxchunk c" "cn_buffer c = []"
  shows "\<exists>c' ds. chunked_reply fs url c = Some c' \<and> [] \<notin> set ds \<and> concat ds = fst (served fs (doc @ p))
    \<and> (\<forall>d \<in> set ds. length d \<le> cn_maxchunk c)
    \<and> (room_for (chunked_header (snd (served fs (doc @ p))) (cn_keepAlive c) @ concat (map chunk_bytes ds) @ chunk_bytes []) c \<longrightarrow>
         cn_sent c' = cn_sent c @ chunked_header (snd (served fs (doc @ p))) (cn_keepAlive c)
           @ concat (map chunk_bytes ds) @ chunk_bytes [])"
proof -
  let ?path = "doc @ p"
  let ?c1 = "start_chunked fs ?path c"
  let ?gen = "fs_is_directory fs ?path \<and> \<not> fs_exists fs (?path @ index_html)"
  note st = start_chunked_same [of fs ?path c]
  have "\<exists>c' ds. chunked_reply fs url c = Some c' \<and> emits (ds @ [[]]) ?c1 c' \<and> [] \<notin> set ds
      \<and> concat ds = fst (served fs ?path)"
  proof (cases ?gen)
    case True
    obtain c' ds where "list_chunks ?c1 = Some c'" "emits (ds @ [[]]) ?c1 c'" "[] \<notin> set ds" "concat ds = cn_buffer ?c1"
      using list_chunks_untimed [of ?c1] st(2,3) assms(3,4) by auto
    then show ?thesis using True assms(1,2) st(4) by (auto simp: chunked_reply_def served_def Let_def)
  next
    case False
    let ?content = "fst (served fs ?path)"
    obtain ds where "emits (ds @ [[]]) ?c1 (file_chunks ?content ?c1)" "[] \<notin> set ds" "concat ds = ?content"
      using file_chunks_untimed [of ?c1 ?content] st(2-4) assms(3-5) False by auto
    moreover have "chunked_reply fs url c = Some (file_chunks ?content ?c1)"
      using False assms(1,2) by (cases "fs_is_directory fs ?path") (simp_all add: chunked_reply_def served_def Let_def)
    ultimately show ?thesis by blast
  qed
  then obtain c' ds where r: "chunked_reply fs url c = Some c'" "emits (ds @ [[]]) ?c1 c'" "[] \<notin> set ds"
      "concat ds = fst (served fs ?path)"
    by blast
  let ?h = "chunked_header (snd (served fs ?path)) (cn_keepAlive c)" and ?b = "concat (map chunk_bytes (ds @ [[]]))"
  have "cn_sent c' = cn_sent c @ ?h @ ?b" if "room_for (?h @ ?b) c"
  proof -
    have h: "cn_sent ?c1 = cn_sent c @ ?h" "room_for ?b ?c1" using start_chunked_sent(1) [OF that] by simp_all
    then have "cn_sent c' = cn_sent ?c1 @ ?b" using r(2) unfolding emits_def by (metis append_Nil2)
    then show ?thesis using h by simp
  qed
  moreover have "\<forall>d \<in> set ds. length d \<le> cn_maxchunk c" using r(2) st(2) by (simp add: emits_def)
  ultimately show ?thesis using r(1,3,4) by (intro exI [of _ c'] exI [of _ ds]) simp
qed

section \<open>Chunks by the timer\<close>

text \<open>What was written: the bytes that were sent and those that wait.\<close>

definition timed_progress :: "string \<Rightarrow> string \<Rightarrow> nat \<Rightarrow> connection \<Rightarrow> bool" where
  "timed_progress base content m c \<longleftrightarrow> cn_maxchunk c = m \<and> waiting_ok c \<and>
     (\<exists>ds. cn_sent c @ waiting_bytes c = base @ concat (map chunk_bytes ds) \<and> concat ds @ cn_buffer c = content
       \<and> (\<forall>d \<in> set ds. length d \<le> m)
       \<and> (if cn_armed c then [] \<notin> set ds else content \<noteq> [] \<longrightarrow> (\<exists>es. ds = es @ [[]] \<and> [] \<notin> set es \<and> cn_buffer c = [])))"

lemma timed_progress_same:
  assumes "timed_progress base content m c" "cn_sent c' @ waiting_bytes c' = cn_sent c @ waiting_bytes c" "waiting_ok c'"
    and "cn_maxchunk c' = cn_maxchunk c" "cn_buffer c' = cn_buffer c" "cn_armed c' = cn_armed c"
  shows "timed_progress base content m c'"
  using assms(1,3) unfolding timed_progress_def assms(2,4,5,6) by blast

lemma timer_progress:
  assumes "timed_progress base content m c" "cn_armed c" "\<not> cn_shut c" "0 < m" "cn_waiting c = []"
  shows "timed_progress base content m (handle_chunk_timer c)"
proof -
  obtain ds where ds: "cn_sent c = base @ concat (map chunk_bytes ds)" "concat ds @ cn_buffer c = content"
      "\<forall>d \<in> set ds. length d \<le> m" "[] \<notin> set ds" and m: "cn_maxchunk c = m"
    using assms(1,2,5) by (auto simp: timed_progress_def waiting_bytes_def)
  let ?d = "take m (cn_buffer c)" and ?c = "handle_chunk_timer c"
  let ?r = "c\<lparr>cn_reply := (cn_reply c)\<lparr>rp_content := chunk_bytes ?d\<rparr>\<rparr>"
  have e: "?c = (connection_write True ?r)\<lparr>cn_buffer := drop m (cn_buffer c), cn_armed := (min m (length (cn_buffer c)) \<noteq> 0)\<rparr>"
    using m assms(4) by (cases "cn_buffer c = []") (auto simp: handle_chunk_timer_def send_chunk_def chunk_bytes_def Let_def)
  have "cn_sent ?c @ waiting_bytes ?c = cn_sent c @ chunk_bytes ?d" "waiting_ok ?c"
    using write_waits [of ?r True] assms(3,5) unfolding e
    by (simp_all add: write_bytes_def chunk_to_buffer_def)
  moreover have "cn_buffer ?c = drop m (cn_buffer c)" "cn_maxchunk ?c = m" "cn_armed ?c \<longleftrightarrow> cn_buffer c \<noteq> []"
    using assms(4) m unfolding e by (auto simp: connection_write_def Let_def)
  ultimately show ?thesis
    using ds assms(4) unfolding timed_progress_def by (intro conjI exI [of _ "ds @ [?d]"]) auto
qed

lemma timer_shut:
  "cn_shut (handle_chunk_timer c) = cn_shut c" "cn_shut c \<Longrightarrow> cn_sent (handle_chunk_timer c) = cn_sent c"
  by (simp_all add: handle_chunk_timer_def send_chunk_def connection_write_def case_prod_beta Let_def)

text \<open>The steps without a request, a failed write or an untimely timer.\<close>

definition undisturbed :: "event \<Rightarrow> bool" where
  "undisturbed e \<longleftrightarrow> (\<forall>b. e \<noteq> Received b) \<and> (\<forall>r. e = Written r \<longrightarrow> r = Completed)"

lemma step_progress:
  assumes "conn_step fs c e c'" "undisturbed e" "\<not> cn_shut c'" "0 < m" "timed_progress base content m c"
    and "e = Chunk_timer \<Longrightarrow> cn_waiting c = []"
  shows "timed_progress base content m c' \<and> \<not> cn_shut c"
  using assms(1)
proof cases
  case chunk_timer
  then have "\<not> cn_shut c" using assms(3) timer_shut(1) [of c] by simp
  then show ?thesis using chunk_timer timer_progress assms(4-6) by blast
next
  case (taken n)
  have "waiting_ok c" using assms(5) by (simp add: timed_progress_def)
  from timed_progress_same [OF assms(5) takes_waiting [OF this taken(3)]] taken show ?thesis
    by (auto simp: socket_takes_def Let_def split: list.splits if_splits)
next
  case written
  have "cn_sent c' @ waiting_bytes c' = cn_sent c @ waiting_bytes c" "waiting_ok c' = waiting_ok c" "cn_maxchunk c' = cn_maxchunk c"
      "cn_buffer c' = cn_buffer c" "cn_armed c' = cn_armed c" "cn_shut c \<Longrightarrow> cn_shut c'"
    unfolding written by (simp_all add: handle_write_def connection_stop_def connection_read_def waiting_bytes_def waiting_ok_def Let_def
      split: list.split)
  moreover have "waiting_ok c" using assms(5) by (simp add: timed_progress_def)
  ultimately show ?thesis using timed_progress_same [OF assms(5)] assms(3) by blast
next
  case (read_error r)
  then have "c' = c\<lparr>cn_reads := cn_reads c - 1\<rparr>"
    using assms(3) by (auto simp: handle_read_error_def connection_stop_def Let_def split: if_splits)
  moreover have "waiting_ok c" using assms(5) by (simp add: timed_progress_def)
  ultimately show ?thesis using timed_progress_same [OF assms(5), of c'] assms(3) by simp
next
  case idle_timer
  then show ?thesis using assms(3) by (simp add: handle_timeout_def connection_stop_def)
qed (use assms(2) in \<open>auto simp: undisturbed_def\<close>)

lemma step_shut: "conn_step fs c e c' \<Longrightarrow> cn_shut c \<Longrightarrow> cn_shut c' \<and> cn_sent c' = cn_sent c"
  by (erule conn_step.cases)
    (auto simp: timer_shut handle_read_error_def handle_write_def handle_timeout_def connection_stop_def connection_read_def
      Let_def split: if_splits)

lemma run_shut: "conn_run fs c es c' \<Longrightarrow> cn_shut c \<Longrightarrow> cn_shut c' \<and> cn_sent c' = cn_sent c"
  by (induction rule: conn_run.induct) (auto dest: step_shut)

lemma run_progress:
  assumes "timely_run fs c es c'" "\<forall>e \<in> set es. undisturbed e" "\<not> cn_shut c'" "0 < m" "timed_progress base content m c"
  shows "timed_progress base content m c'"
  using assms
proof (induction rule: timely_run.induct)
  case (timely_step c es c1 e c2)
  have e: "undisturbed e" using timely_step.prems(1) by simp
  have "\<not> cn_shut c1"
    using step_shut [OF timely_step.hyps(3)] timely_step.prems(2) by blast
  then have "timed_progress base content m c1" using timely_step by simp
  then show ?case using step_progress [OF timely_step.hyps(3) e timely_step.prems(2,3)] timely_step.hyps(2) by blast
qed

lemma chunked_reply_timed:
  assumes "url_decode url = (True, p)" "fs_exists fs (doc @ p)" "cn_chunkTime c \<noteq> 0"
    and "0 < cn_maxchunk c" "cn_buffer c = []" "\<not> cn_shut c" "cn_waiting c = []" "\<not> cn_armed c" "chunked_reply fs url c = Some c1"
  shows "timed_progress (cn_sent c @ chunked_header (snd (served fs (doc @ p))) (cn_keepAlive c))
      (fst (served fs (doc @ p))) (cn_maxchunk c) c1
    \<and> cn_sent c1 @ waiting_bytes c1 = cn_sent c @ chunked_header (snd (served fs (doc @ p))) (cn_keepAlive c)
    \<and> cn_keepAlive c1 = cn_keepAlive c \<and> (cn_armed c1 \<longleftrightarrow> fst (served fs (doc @ p)) \<noteq> []) \<and> \<not> cn_shut c1
    \<and> (room_for (chunked_header (snd (served fs (doc @ p))) (cn_keepAlive c)) c \<longrightarrow> cn_waiting c1 = [])"
proof -
  let ?path = "doc @ p"
  let ?s = "start_chunked fs ?path c"
  let ?gen = "fs_is_directory fs ?path \<and> \<not> fs_exists fs (?path @ index_html)"
  note st = start_chunked_same [of fs ?path c] and hd = start_chunked_sent(2) [OF assms(6,7), of fs ?path]
  have "cn_buffer c1 = fst (served fs ?path) \<and> (cn_armed c1 \<longleftrightarrow> fst (served fs ?path) \<noteq> [])
      \<and> cn_sent c1 = cn_sent ?s \<and> cn_waiting c1 = cn_waiting ?s \<and> cn_reply c1 = cn_reply ?s \<and> cn_maxchunk c1 = cn_maxchunk ?s \<and> cn_keepAlive c1 = cn_keepAlive ?s \<and> cn_shut c1 = cn_shut ?s"
  proof (cases ?gen)
    case True
    then have "gen_list fs ?path \<noteq> []" by (simp add: gen_list_def Let_def)
    moreover have "c1 = ?s\<lparr>cn_armed := True\<rparr>"
      using True assms(1-3,9) st(3) by (simp add: chunked_reply_def list_chunks_def Let_def)
    ultimately show ?thesis using True st(4) by (simp add: served_def)
  next
    case False
    define n where "n = (if 512 < cn_maxchunk ?s then 512 else cn_maxchunk ?s)"
    have n: "0 < n" using assms(4) st(2) by (simp add: n_def)
    have "file_chunks content ?s = ?s\<lparr>cn_buffer := content, cn_armed := (content \<noteq> [])\<rparr>" for content
    proof -
      have b: "cn_buffer ?s = []" "\<not> cn_armed ?s" "cn_chunkTime ?s \<noteq> 0" using False st assms(3,5,8) by auto
      have "send_blocks n content ?s = ?s\<lparr>cn_buffer := content, cn_armed := (content \<noteq> [])\<rparr>"
        using send_blocks_timed [OF b(3) n, of content] b(1,2) by simp
      then show ?thesis using b(3) by (simp add: file_chunks_def n_def [symmetric] Let_def)
    qed
    moreover have "c1 = file_chunks (fst (served fs ?path)) ?s"
      using False assms(1,2,9) by (cases "fs_is_directory fs ?path") (simp_all add: chunked_reply_def served_def Let_def)
    ultimately show ?thesis by simp
  qed
  then show ?thesis
    unfolding timed_progress_def waiting_ok_def waiting_bytes_def using st hd [unfolded waiting_ok_def waiting_bytes_def] assms(6)
      start_chunked_sent(1) [of fs ?path c "[]"] by (auto simp: room_for_def intro!: exI [of _ "[]"])
qed

text \<open>
  C8. With a chunk time, however the timer, the completed writes, the socket, failed reads and timeouts follow
  each other, as long as no further request comes, no write fails, and the timer fires only after the socket has taken what was written before: what
  an open connection has written after the header is a sequence of chunks of
  at most the maximal size, and their content and the unsent buffer make up what was asked
  for. When the timer no longer runs, everything that was asked for, unless it is empty, has been written, and the empty chunk last.
\<close>

theorem timed_chunks:
  assumes "url_decode url = (True, p)" "fs_exists fs (doc @ p)" "cn_chunkTime c \<noteq> 0"
    and "0 < cn_maxchunk c" "cn_buffer c = []" "\<not> cn_shut c" "cn_waiting c = []" "\<not> cn_armed c" "chunked_reply fs url c = Some c1"
    and "timely_run fs c1 es c2" "\<forall>e \<in> set es. undisturbed e" "\<not> cn_shut c2"
  shows "\<exists>ds. cn_sent c2 @ waiting_bytes c2
      = cn_sent c @ chunked_header (snd (served fs (doc @ p))) (cn_keepAlive c) @ concat (map chunk_bytes ds)
    \<and> concat ds @ cn_buffer c2 = fst (served fs (doc @ p)) \<and> (\<forall>d \<in> set ds. length d \<le> cn_maxchunk c)
    \<and> (\<not> cn_armed c2 \<and> fst (served fs (doc @ p)) \<noteq> [] \<longrightarrow> cn_buffer c2 = [] \<and> last ds = [] \<and> [] \<notin> set (butlast ds))"
proof -
  have "timed_progress (cn_sent c @ chunked_header (snd (served fs (doc @ p))) (cn_keepAlive c))
      (fst (served fs (doc @ p))) (cn_maxchunk c) c2"
    using run_progress [OF assms(10-12,4)] chunked_reply_timed [OF assms(1-9)] by blast
  then show ?thesis unfolding timed_progress_def by (auto split: if_splits)
qed

text \<open>A file of two characters, sent in chunks of one, for the witnesses.\<close>

definition sample_fs :: filesystem where
  "sample_fs = \<lparr>fs_exists = (\<lambda>p. p = ''www/a''), fs_is_directory = (\<lambda>_. False),
     fs_file = (\<lambda>p. if p = ''www/a'' then Some ''xy'' else None), fs_entries = (\<lambda>_. []), fs_extension = (\<lambda>_. [])\<rparr>"

definition sample_conn :: "nat \<Rightarrow> nat \<Rightarrow> bool \<Rightarrow> connection" where
  "sample_conn m t keep = (connection_start (Connection_new 65536 (replicate 8192 CHR 0x00) (stock_reply status_ok False) m t))\<lparr>cn_keepAlive := keep\<rparr>"

lemma sample_start:
  "url_decode ''/a'' = (True, ''/a'') \<and> fs_exists sample_fs (doc @ ''/a'')
    \<and> cn_chunkTime (sample_conn 1 100 k) \<noteq> 0 \<and> 0 < cn_maxchunk (sample_conn 1 100 k) \<and> cn_buffer (sample_conn 1 100 k) = []
    \<and> \<not> cn_shut (sample_conn 1 100 k) \<and> cn_waiting (sample_conn 1 100 k) = [] \<and> \<not> cn_armed (sample_conn 1 100 k)
    \<and> (\<exists>c1. chunked_reply sample_fs ''/a'' (sample_conn 1 100 k) = Some c1)
    \<and> served sample_fs (doc @ ''/a'') = (''xy'', ''text/plain'')
    \<and> cn_sent (sample_conn 1 100 k) = [] \<and> cn_keepAlive (sample_conn 1 100 k) = k"
  by (simp add: sample_fs_def sample_conn_def Connection_new_def connection_start_def connection_read_def doc_def
      chunked_reply_def served_def ext2mime_def Let_def)

lemma sample_room: "room_for (chunked_header (snd (served sample_fs (doc @ ''/a''))) (cn_keepAlive (sample_conn 1 100 k))) (sample_conn 1 100 k)"
  by (simp add: sample_fs_def sample_conn_def Connection_new_def connection_start_def connection_read_def doc_def served_def ext2mime_def
      room_for_def chunked_header_def status_line_def header_line_def crlf_def)

theorem timed_chunks_witness:
  "\<exists>c1 c2. chunked_reply sample_fs ''/a'' (sample_conn 1 100 True) = Some c1 \<and> timely_run sample_fs c1 [Chunk_timer] c2
    \<and> (\<exists>ds. concat ds @ cn_buffer c2 = ''xy'')"
proof -
  let ?c = "sample_conn 1 100 True"
  note s = sample_start [of True]
  then obtain c1 where c1: "chunked_reply sample_fs ''/a'' ?c = Some c1" by blast
  have h: "url_decode ''/a'' = (True, ''/a'')" "fs_exists sample_fs (doc @ ''/a'')" "cn_chunkTime ?c \<noteq> 0" "0 < cn_maxchunk ?c"
      "cn_buffer ?c = []" "\<not> cn_shut ?c" "cn_waiting ?c = []" "\<not> cn_armed ?c"
    and sv: "fst (served sample_fs (doc @ ''/a'')) = ''xy''"
    using s by simp_all
  have p: "cn_armed c1" "cn_waiting c1 = []" "\<not> cn_shut (handle_chunk_timer c1)"
    using chunked_reply_timed [OF h c1] sv sample_room [of True] by (simp_all add: timer_shut)
  have r: "timely_run sample_fs c1 [Chunk_timer] (handle_chunk_timer c1)"
    using timely_step [OF timely_none _ chunk_timer [OF p(1)]] p(2) by simp
  have "\<forall>e \<in> set [Chunk_timer]. undisturbed e" by (simp add: undisturbed_def)
  from timed_chunks [OF h c1 r this p(3)] sv c1 r show ?thesis by auto
qed

section \<open>Closed connections\<close>

text \<open>
  A client that does not ask for the connection to be kept alive gets no content when
  there is a chunk time: once the write of the header has completed the socket is shut, and
  whatever happens then, nothing more is sent.
\<close>

theorem header_only:
  assumes "url_decode url = (True, p)" "fs_exists fs (doc @ p)" "cn_chunkTime c \<noteq> 0"
    and "0 < cn_maxchunk c" "cn_buffer c = []" "\<not> cn_shut c" "cn_waiting c = []" "\<not> cn_armed c" "chunked_reply fs url c = Some c1"
    and "\<not> cn_keepAlive c" "cn_waiting c1 = []" "conn_run fs (handle_write Completed c1) es c2"
  shows "cn_sent c2 = cn_sent c @ chunked_header (snd (served fs (doc @ p))) False"
proof -
  have c1: "cn_sent c1 = cn_sent c @ chunked_header (snd (served fs (doc @ p))) False" "\<not> cn_keepAlive c1"
    using chunked_reply_timed [OF assms(1-9)] assms(10,11) by (auto simp: waiting_bytes_def)
  then have "cn_shut (handle_write Completed c1)" "cn_sent (handle_write Completed c1) = cn_sent c1"
    by (simp_all add: handle_write_def connection_stop_def Let_def)
  then show ?thesis using run_shut [OF assms(12)] c1(1) by simp
qed

theorem header_only_witness:
  "\<exists>c1. chunked_reply sample_fs ''/a'' (sample_conn 1 100 False) = Some c1
    \<and> cn_sent (handle_write Completed c1) = chunked_header ''text/plain'' False"
proof -
  let ?c = "sample_conn 1 100 False"
  note s = sample_start [of False]
  then obtain c1 where c1: "chunked_reply sample_fs ''/a'' ?c = Some c1" by blast
  have h: "url_decode ''/a'' = (True, ''/a'')" "fs_exists sample_fs (doc @ ''/a'')" "cn_chunkTime ?c \<noteq> 0" "0 < cn_maxchunk ?c"
      "cn_buffer ?c = []" "\<not> cn_shut ?c" "cn_waiting ?c = []" "\<not> cn_armed ?c"
    and k: "\<not> cn_keepAlive ?c"
    using s by simp_all
  from header_only [OF h c1 k _ run_none] chunked_reply_timed [OF h c1] sample_room [of False] s c1 show ?thesis by simp
qed

text \<open>
  A failed write on a connection that is kept alive leaves it in the manager with its
  socket open and nothing pending: no handler will ever run for it again.
\<close>

theorem failed_write_leaks:
  assumes "cn_keepAlive c" "cn_writes c = 1" "cn_waiting c = [w]" "cn_reads c = 0" "\<not> cn_armed c" "cn_managed c" "\<not> cn_shut c"
    and "conn_step fs c (Written Failed) c'"
  shows "cn_managed c' \<and> \<not> cn_shut c' \<and> (\<forall>e c''. conn_step fs c' e c'' \<longrightarrow> (\<exists>n. e = Socket_takes n))"
  using assms by (auto simp: conn_step_simps handle_write_def Let_def)

theorem failed_write_leaks_witness:
  "\<exists>c'. \<not> cn_shut c' \<and> (\<forall>e c''. conn_step sample_fs c' e c'' \<longrightarrow> (\<exists>n. e = Socket_takes n))"
proof -
  let ?c = "(sample_conn 0 0 True)\<lparr>cn_writes := 1, cn_waiting := [(False, 0, 5)], cn_reads := 0\<rparr>"
  have "conn_step sample_fs ?c (Written Failed) (handle_write Failed (?c\<lparr>cn_waiting := []\<rparr>))"
    by (rule not_written) simp_all
  from failed_write_leaks [OF _ _ _ _ _ _ _ this] show ?thesis
    by (simp add: sample_conn_def connection_start_def connection_read_def Connection_new_def) blast
qed

section \<open>Overwritten chunks\<close>

text \<open>
  The timer fires while a chunk waits: \<^verbatim>\<open>send_chunk\<close> overwrites the content that the waiting write refers to, and what the
  socket takes then is the second chunk, and again the second chunk.
\<close>

definition slow_conn :: connection where
  "slow_conn = (Connection_new 0 [] (stock_reply status_ok True) 1 100)\<lparr>cn_keepAlive := True, cn_buffer := ''xy'', cn_armed := True\<rparr>"

theorem chunk_overwritten:
  "\<exists>c. conn_run sample_fs slow_conn [Chunk_timer, Chunk_timer, Socket_takes 6, Socket_takes 6] c \<and> cn_sent c = chunk_bytes ''y'' @ chunk_bytes ''y''"
proof -
  define c1 where "c1 = handle_chunk_timer slow_conn"
  define c2 where "c2 = handle_chunk_timer c1"
  define c3 where "c3 = the (socket_takes 6 c2)"
  define c4 where "c4 = the (socket_takes 6 c3)"
  have a: "cn_armed slow_conn" "cn_armed c1" "\<not> cn_shut c2" "\<not> cn_shut c3" "socket_takes 6 c2 = Some c3" "socket_takes 6 c3 = Some c4"
    and sent: "cn_sent c4 = chunk_bytes ''y'' @ chunk_bytes ''y''"
    unfolding c4_def c3_def c2_def c1_def by code_simp+
  have "conn_run sample_fs slow_conn ((([] @ [Chunk_timer]) @ [Chunk_timer]) @ [Socket_takes 6]) c3"
    by (rule run_step [OF run_step [OF run_step [OF run_none]],
          OF chunk_timer [OF a(1), folded c1_def] chunk_timer [OF a(2), folded c2_def] taken [OF a(3,5)]])
  then have "conn_run sample_fs slow_conn (((([] @ [Chunk_timer]) @ [Chunk_timer]) @ [Socket_takes 6]) @ [Socket_takes 6]) c4"
    by (rule run_step) (rule taken [OF a(4,6)])
  then show ?thesis using sent by auto
qed

section \<open>Requests in a used buffer\<close>

lemma ifind_append: "ifind_first ys needle \<Longrightarrow> ifind_first (xs @ ys) needle"
  by (induction xs) auto

lemma chunks_keepAlive:
  "cn_keepAlive (send_blocks n rest c) = cn_keepAlive c"
  "send_all c = Some c' \<Longrightarrow> cn_keepAlive c' = cn_keepAlive c"
proof -
  have s: "cn_keepAlive (snd (send_chunk c)) = cn_keepAlive c" for c
    using emits_send_chunk(1) [of c] by (simp add: emits_def)
  show "cn_keepAlive (send_blocks n rest c) = cn_keepAlive c"
  proof (induction n rest c rule: send_blocks.induct)
    case (1 n rest c)
    show ?case
    proof (cases "take n rest = []")
      case False
      then show ?thesis
        using "1.IH" [OF False refl refl] s by (subst send_blocks.simps) (simp add: Let_def)
    qed (simp add: send_blocks.simps)
  qed
  show "send_all c = Some c' \<Longrightarrow> cn_keepAlive c' = cn_keepAlive c"
  proof (induct rule: send_all.raw_induct [rotated, consumes 1, case_names 1])
    case (1 send_all c c')
    then show ?case by (auto simp: s split: if_splits dest!: 1(1))
  qed
qed

lemma handle_read_keepAlive:
  assumes "handle_read fs bytes c = Some c'"
  shows "cn_keepAlive c' = ifind_first (bytes @ drop (length bytes) (cn_raw c)) ''Connection: Keep-Alive''"
proof -
  have s: "cn_keepAlive (snd (send_chunk c)) = cn_keepAlive c" for c
    using emits_send_chunk(1) [of c] by (simp add: emits_def)
  have w: "cn_keepAlive (connection_write b c) = cn_keepAlive c" for b c
    by (simp add: connection_write_def Let_def)
  have st: "cn_keepAlive (start_chunked fs p c) = cn_keepAlive c" for p c
    by (simp add: start_chunked_def w Let_def)
  have f: "cn_keepAlive (file_chunks content c) = cn_keepAlive c" for content c
    by (simp add: file_chunks_def s chunks_keepAlive(1) Let_def)
  have l: "list_chunks c = Some c' \<Longrightarrow> cn_keepAlive c' = cn_keepAlive c" for c c'
    by (auto simp: list_chunks_def s dest: chunks_keepAlive(2) split: if_splits)
  have k: "cn_keepAlive c' = cn_keepAlive c" if "chunked_reply fs url c = Some c'" for url c c'
    using that l [of "start_chunked fs _ c" c'] by (auto simp: chunked_reply_def w f st Let_def split: if_splits prod.splits)
  let ?raw = "bytes @ drop (length bytes) (cn_raw c)"
  obtain rq where rq: "RequestParser_parse ?raw = Some rq" "rq_keepAlive rq = ifind_first ?raw ''Connection: Keep-Alive''"
    using assms by (auto simp: handle_read_def RequestParser_parse_def Let_def split: option.splits prod.splits)
  let ?c1 = "c\<lparr>cn_raw := ?raw, cn_reads := cn_reads c - 1, cn_keepAlive := rq_keepAlive rq\<rparr>"
  have "cn_keepAlive c' = cn_keepAlive ?c1"
  proof (cases "cn_maxchunk c = 0")
    case True
    then show ?thesis using assms rq(1) by (auto simp: handle_read_def Let_def w split: if_splits)
  next
    case False
    then have "chunked_reply fs (rq_path rq) ?c1 = Some c'" using assms rq(1) by (simp add: handle_read_def Let_def split: if_splits)
    then show ?thesis by (rule k)
  qed
  then show ?thesis using rq(2) by simp
qed

text \<open>
  The buffer of a connection is not cleared between requests and is parsed whole: when
  an earlier, longer request left \<^verbatim>\<open>Connection: Keep-Alive\<close> behind the bytes of the new
  one, the new one counts as keep-alive, whatever it says.
\<close>

theorem stale_keep_alive:
  assumes "handle_read fs bytes c = Some c'" "ifind_first (drop (length bytes) (cn_raw c)) ''Connection: Keep-Alive''"
  shows "cn_keepAlive c'"
  using handle_read_keepAlive [OF assms(1)] ifind_append [OF assms(2)] by simp

theorem stale_keep_alive_witness:
  "\<exists>c'. handle_read sample_fs ''GET /a HTTP/1.0'' ((sample_conn 0 0 False)\<lparr>cn_raw := ''GET /a HTTP/1.0 Connection: Keep-Alive''\<rparr>) = Some c'
    \<and> cn_keepAlive c'"
proof -
  let ?c = "(sample_conn 0 0 False)\<lparr>cn_raw := ''GET /a HTTP/1.0 Connection: Keep-Alive''\<rparr>"
  have "cn_maxchunk ?c = 0" by (simp add: sample_conn_def connection_start_def connection_read_def Connection_new_def)
  then obtain c' where h: "handle_read sample_fs ''GET /a HTTP/1.0'' ?c = Some c'"
    by (simp add: handle_read_def RequestParser_parse_def Let_def)
  have "ifind_first (drop (length ''GET /a HTTP/1.0'') (cn_raw ?c)) ''Connection: Keep-Alive''"
    by (simp add: lower_def)
  from stale_keep_alive [OF h this] h show ?thesis by blast
qed

end
