(* ===== verification/Http_Client.thy ===== *)
theory Http_Client
  imports Http_Server
begin

text \<open>
  The client of \<^verbatim>\<open>IPK/proj2\<close> (\<^verbatim>\<open>client.h\<close>, \<^verbatim>\<open>client.cpp\<close>): the request it sends and
  its handlers of a response, each a function of what the response buffer holds when it
  runs. Resolving, connecting and the log files are left out. The theorems span both
  programs: what the client asks for is what the server parses, and what the server sends,
  whole or in chunks, is what the client keeps.
\<close>

definition client_request :: "uri \<Rightarrow> string" where
  "client_request u =
     ''GET '' @ u_path u @ '' HTTP/1.1'' @ crlf @
     ''Host: '' @ u_server u @ crlf @
     ''Accept: */*'' @ crlf @
     ''Connection: Keep-Alive'' @ crlf @ crlf"

record client =
  cl_status :: string
  cl_header :: "string list"
  cl_data :: string
  cl_chunkTransfer :: bool

definition Client_new :: client where
  "Client_new = \<lparr>cl_status = [], cl_header = [], cl_data = [], cl_chunkTransfer = False\<rparr>"

text \<open>What a handler leads to: the response is logged, nothing, or a further read.\<close>

datatype client_next = Logged | Stopped | Read_header_end | Read_at_least nat | Read_last_chunk

definition LF :: char where "LF = CHR 0x0A"
definition CR :: char where "CR = CHR 0x0D"

text \<open>\<^verbatim>\<open>getline\<close>: the line and what follows its end.\<close>

definition getline :: "string \<Rightarrow> string \<times> string" where
  "getline s = (let l = takeWhile (\<lambda>c. c \<noteq> LF) s in (l, drop (length l + 1) s))"

fun contains :: "string \<Rightarrow> string \<Rightarrow> bool" where
  "contains needle [] \<longleftrightarrow> needle = []"
| "contains needle (c # cs) \<longleftrightarrow> take (length needle) (c # cs) = needle \<or> contains needle cs"

text \<open>
  The status line: whether the stream is still good, the status, and the rest of the
  buffer. After a failed number the version is still in the variable that \<^verbatim>\<open>getline\<close> does
  not set; with an empty stream the number is not set at all: \<open>None\<close>.
\<close>

definition read_header :: "string \<Rightarrow> client \<Rightarrow> (client_next \<times> client \<times> string) option" where
  "read_header response c =
     (let s = dropWhile isspace response;
          version = takeWhile (\<lambda>x. \<not> isspace x) s;
          t = drop (length version) s;
          number = dropWhile isspace t;
          digits = takeWhile (is_digit_in 10) (if number \<noteq> [] \<and> (hd number = CHR ''+'' \<or> hd number = CHR ''-'') then tl number else number);
          sc = extract_uint t;
          good = (digits \<noteq> [] \<and> digits_in 10 digits < 2 ^ 32);
          after = drop (length digits) (if number \<noteq> [] \<and> (hd number = CHR ''+'' \<or> hd number = CHR ''-'') then tl number else number);
          (line, rest) = (if good then getline after else (version, after));
          c' = c\<lparr>cl_status := cl_status c @ version @ '' '' @ to_dec_string (unat sc) @ line\<rparr>
      in if version = [] \<or> number = [] then None
         else Some (if sc \<noteq> 200 then Logged else Read_header_end, c', rest))"

text \<open>The loop over the header lines; \<open>None\<close> when it does not end.\<close>

function read_lines :: "string \<Rightarrow> (string list \<times> string) option" where
  "read_lines s =
     (if s = [] then None
      else let (line, rest) = getline s
        in if line = [CR] then Some ([], rest)
           else map_option (\<lambda>(ls, r). (line # ls, r)) (read_lines rest))"
  by pat_completeness auto
termination
  by (relation "measure length") (auto simp: getline_def Let_def)

declare read_lines.simps [simp del]

definition con_len :: string where
  "con_len = ''Content-Length: ''"

definition chunked_line :: string where
  "chunked_line = ''Transfer-Encoding: chunked'' @ [CR]"

definition last_chunk :: string where
  "last_chunk = ''0'' @ crlf @ crlf"

text \<open>
  The chunks of a response: \<open>None\<close> is the exception of \<^verbatim>\<open>stoul\<close>; \<open>junk n\<close> is what a fresh
  array of \<open>n\<close> characters holds.
\<close>

function reconstruct_chunks :: "(nat \<Rightarrow> string) \<Rightarrow> string \<Rightarrow> string option" where
  "reconstruct_chunks junk s =
     (if s = [] then Some []
      else let (line, rest) = getline s
        in case stoul16 line of
             None \<Rightarrow> None
           | Some v \<Rightarrow>
               let count = v mod 2 ^ 32
               in if count = 0 then Some []
                  else map_option (\<lambda>object. take count rest @ drop (length rest) (take count (junk count)) @ object)
                         (reconstruct_chunks junk (drop (count + 2) rest)))"
  by pat_completeness auto
termination
  by (relation "measure (\<lambda>(_, s). length s)") (auto simp: getline_def Let_def)

declare reconstruct_chunks.simps [simp del]

definition finish_chunks :: "(nat \<Rightarrow> string) \<Rightarrow> client \<Rightarrow> (client_next \<times> client) option" where
  "finish_chunks junk c = map_option (\<lambda>d. (Logged, c\<lparr>cl_data := d\<rparr>)) (reconstruct_chunks junk (cl_data c))"

definition read_content :: "(nat \<Rightarrow> string) \<Rightarrow> string \<Rightarrow> client \<Rightarrow> (client_next \<times> client) option" where
  "read_content junk response c =
     (case read_lines response of
        None \<Rightarrow> None
      | Some (lines, rest) \<Rightarrow>
          let c1 = c\<lparr>cl_header := cl_header c @ lines, cl_data := rest,
                     cl_chunkTransfer := (cl_chunkTransfer c \<or> chunked_line \<in> set lines)\<rparr>
          in if \<not> cl_chunkTransfer c1 then
               (case find (contains con_len) (cl_header c1) of
                  None \<Rightarrow> if cl_header c1 \<noteq> [] then Some (Stopped, c1)
                    else Some (if rest = [] then Logged else Read_at_least ((2 ^ 64 - length rest) mod 2 ^ 64), c1)
                | Some h \<Rightarrow>
                    let c_length = unat (extract_uint (drop (length con_len) h))
                    in Some (if length rest = c_length then Logged
                             else Read_at_least ((2 ^ 64 + c_length - length rest mod 2 ^ 64) mod 2 ^ 64), c1))
             else if contains last_chunk (cl_data c1) then finish_chunks junk c1
             else Some (Read_last_chunk, c1))"

definition read_data :: "string \<Rightarrow> client \<Rightarrow> client_next \<times> client" where
  "read_data response c = (Logged, c\<lparr>cl_data := cl_data c @ response\<rparr>)"

definition read_chunk_data :: "(nat \<Rightarrow> string) \<Rightarrow> string \<Rightarrow> client \<Rightarrow> (client_next \<times> client) option" where
  "read_chunk_data junk response c = finish_chunks junk (c\<lparr>cl_data := cl_data c @ response\<rparr>)"

text \<open>
  A response that arrives in two parts: the first holds at least the header, the second is
  what came by the time the read for the rest completes.
\<close>

definition fetch :: "(nat \<Rightarrow> string) \<Rightarrow> string \<Rightarrow> string \<Rightarrow> (client_next \<times> client) option" where
  "fetch junk part1 part2 =
     do {
       (next1, c1, rest) \<leftarrow> read_header part1 Client_new;
       if next1 = Logged then Some (Logged, c1)
       else do {
         (next2, c2) \<leftarrow> read_content junk rest c1;
         case next2 of
           Read_at_least n \<Rightarrow> Some (read_data part2 c2)
         | Read_last_chunk \<Rightarrow> read_chunk_data junk part2 c2
         | _ \<Rightarrow> Some (next2, c2)
       }
     }"

section \<open>Reading what was written\<close>

lemma getline_line: "LF \<notin> set l \<Longrightarrow> getline (l @ LF # s) = (l, s)"
  by (simp add: getline_def takeWhile_append Let_def)

lemma crlf_lf: "crlf = [CR, LF]" "CR \<noteq> LF"
  by (simp_all add: crlf_def CR_def LF_def)




lemma read_lines_step:
  assumes "getline s = (line, rest)" "s \<noteq> []"
  shows "read_lines s = (if line = [CR] then Some ([], rest) else map_option (\<lambda>(ls, r). (line # ls, r)) (read_lines rest))"
  using assms by (subst read_lines.simps) simp





lemma contains_append: "contains needle (needle @ ys)"
proof (cases "needle @ ys")
  case (Cons a t)
  then have "take (length needle) (a # t) = needle" by (metis append_eq_conv_conj)
  then show ?thesis using Cons by simp
qed simp


lemma read_lines_header:
  assumes "LF \<notin> set (fst h)" "LF \<notin> set (snd h)"
  shows "read_lines (header_line h @ s) = map_option (\<lambda>(ls, r). ((fst h @ '': '' @ snd h @ [CR]) # ls, r)) (read_lines s)"
proof -
  let ?l = "fst h @ '': '' @ snd h @ [CR]"
  have "header_line h @ s = ?l @ LF # s" by (simp add: header_line_def crlf_lf)
  moreover have "LF \<notin> set ?l" using assms crlf_lf(2) by (auto simp: LF_def)
  ultimately have "getline (header_line h @ s) = (?l, s)" using getline_line by metis
  moreover have "?l \<noteq> [CR]" "header_line h @ s \<noteq> []" by (simp_all add: append_eq_Cons_conv header_line_def)
  ultimately show ?thesis by (simp add: read_lines_step)
qed

lemma read_lines_headers:
  assumes "\<forall>h \<in> set hs. LF \<notin> set (fst h) \<and> LF \<notin> set (snd h)"
  shows "read_lines (concat (map header_line hs) @ crlf @ body) = Some (map (\<lambda>h. fst h @ '': '' @ snd h @ [CR]) hs, body)"
  using assms
proof (induction hs)
  case Nil
  have "getline ([CR] @ LF # body) = ([CR], body)" by (rule getline_line) (use crlf_lf(2) in simp)
  then show ?case by (simp add: read_lines_step crlf_lf)
next
  case (Cons h hs)
  then show ?case by (simp add: read_lines_header)
qed

lemma read_header_ok:
  "read_header (status_line status_ok @ s) c
    = Some (Read_header_end, c\<lparr>cl_status := cl_status c @ ''HTTP/1.1 200 OK'' @ [CR]\<rparr>, s)"
proof -
  have d: "to_dec_string 200 = ''200''"
    by (simp add: to_dec_string_def show_base.simps hex_digits_def)
  show ?thesis
    by (simp add: read_header_def status_line_def isspace_def is_digit_in_def hexval_def extract_uint_def leading_def
        digits_in_def crlf_def getline_def LF_def CR_def Let_def d)
qed

text \<open>The request as the server sees it, with whatever else its buffer holds.\<close>

lemma read_method_blank: "CHR '' '' \<notin> set m \<Longrightarrow> read_method (m @ CHR '' '' # s) = (m, Suc (length m))"
  by (induction m) auto

lemma read_path_blank: "CHR '' '' \<notin> set p \<Longrightarrow> read_path (p @ CHR '' '' # s) = Some p"
  by (induction p) auto

lemma prefixed_self: "prefixed s (s @ t)"
  by (induction s) auto

lemma parse_client_request:
  assumes "CHR '' '' \<notin> set (u_path u)"
  shows "RequestParser_parse (client_request u @ junk)
    = Some \<lparr>rq_method = ''GET'', rq_path = u_path u, rq_keepAlive = True\<rparr>"
proof -
  let ?ka = "''Connection: Keep-Alive''"
  have m: "read_method (client_request u @ junk) = (''GET'', Suc (length ''GET''))"
    using read_method_blank [of "''GET''"] by (simp add: client_request_def)
  have p: "read_path (drop (Suc (length ''GET'')) ((client_request u @ junk) @ [CHR 0x00])) = Some (u_path u)"
    using read_path_blank [OF assms] by (simp add: client_request_def)
  have "ifind_first (?ka @ t) ?ka" for t
    using prefixed_self [of ?ka t] by (cases "?ka @ t") (simp_all only: ifind_first.simps append_is_Nil_conv, simp_all)
  moreover have "client_request u @ junk = (''GET '' @ u_path u @ '' HTTP/1.1'' @ crlf @ ''Host: '' @ u_server u @ crlf
      @ ''Accept: */*'' @ crlf) @ (?ka @ (crlf @ crlf @ junk))"
    by (simp add: client_request_def)
  ultimately have "ifind_first (client_request u @ junk) ?ka" by (metis ifind_append)
  with m p show ?thesis unfolding RequestParser_parse_def by simp
qed

lemma served_mime: "LF \<notin> set (snd (served fs p))"
  by (simp add: served_def ext2mime_def LF_def)




lemma fetch_whole_bytes:
  assumes "LF \<notin> set mime" "length content < 2 ^ 32" "b1 @ b2 = content"
    and "r = \<lparr>rp_status = status_ok, rp_headers = [(''Content-Length'', to_dec_string (length content)), (''Content-Type'', mime)]
      @ (if keep then [(''Connection'', ''Keep-Alive'')] else []), rp_content = content\<rparr>"
  shows "\<exists>hdr cl. to_buffers r = hdr @ content \<and> fetch junk (hdr @ b1) b2 = Some (Logged, cl) \<and> cl_data cl = content"
proof -
  let ?hs = "rp_headers r"
  let ?c1 = "Client_new\<lparr>cl_status := cl_status Client_new @ ''HTTP/1.1 200 OK'' @ [CR]\<rparr>"
  define lines where "lines = map (\<lambda>h. fst h @ '': '' @ snd h @ [CR]) ?hs"
  let ?c2 = "?c1\<lparr>cl_header := lines, cl_data := b1, cl_chunkTransfer := False\<rparr>"
  define hdr where "hdr = status_line status_ok @ concat (map header_line ?hs) @ crlf"
  have tb: "to_buffers r = hdr @ content" using assms(4) by (simp add: to_buffers_def hdr_def)
  have rh: "read_header (hdr @ b1) Client_new = Some (Read_header_end, ?c1, concat (map header_line ?hs) @ crlf @ b1)"
    unfolding hdr_def append_assoc by (rule read_header_ok)
  have dec: "LF \<notin> set (to_dec_string n)" for n
  proof
    assume "LF \<in> set (to_dec_string n)"
    then obtain k where "k < 10" "LF = hex_digits ! k"
      using show_base_digits [of 10 n] by (auto simp: to_dec_string_def)
    then show False using hex_digit_cases(7) [of k] by (simp add: LF_def)
  qed
  have rl: "read_lines (concat (map header_line ?hs) @ crlf @ b1) = Some (lines, b1)"
    unfolding lines_def by (rule read_lines_headers) (use assms(1,4) dec in \<open>auto simp: LF_def\<close>)
  have nc: "chunked_line \<notin> set lines" using assms(4) by (auto simp: chunked_line_def lines_def)
  have hd: "find (contains con_len) lines = Some (con_len @ to_dec_string (length content) @ [CR])"
    using assms(4) contains_append [of con_len "to_dec_string (length content) @ [CR]"] by (simp add: con_len_def lines_def)
  have "extract_uint (to_dec_string (length content) @ [CR]) = of_nat (length content)"
    using assms(2) by (intro extract_uint_show) (auto simp: is_digit_in_def hexval_def CR_def)
  then have n: "unat (extract_uint (drop (length con_len) (con_len @ to_dec_string (length content) @ [CR]))) = length content"
    using assms(2) by (simp add: unsigned_of_nat take_bit_nat_eq_self)
  have "\<exists>k. read_content junk (concat (map header_line ?hs) @ crlf @ b1) ?c1
      = Some (if b2 = [] then Logged else Read_at_least k, ?c2)"
  proof (cases "b2 = []")
    case True
    then show ?thesis using nc hd n assms(3) unfolding read_content_def rl by (simp add: Client_new_def Let_def)
  next
    case False
    then have "length b1 \<noteq> length content" using assms(3) by auto
    then show ?thesis using nc hd n False unfolding read_content_def rl by (simp add: Client_new_def Let_def)
  qed
  then obtain k where rc: "read_content junk (concat (map header_line ?hs) @ crlf @ b1) ?c1
      = Some (if b2 = [] then Logged else Read_at_least k, ?c2)" by blast
  have "\<exists>cl. fetch junk (hdr @ b1) b2 = Some (Logged, cl) \<and> cl_data cl = content"
    using assms(3) unfolding fetch_def rh using rc by (auto simp: read_data_def)
  with tb show ?thesis by blast
qed

text \<open>
  C17. Without chunks: for a file or a listing that exists and is below 4 GiB, and a request that the buffer of the server can hold and that is read in
  one piece, what the server sends and the socket has yet to take is a header and the content; and the client keeps exactly the content, in
  whatever two pieces its bytes arrive after the header.
\<close>

theorem whole_transfer:
  assumes "CHR '' '' \<notin> set (u_path u)" "url_decode (doc @ u_path u) = (True, path)"
    and "fs_is_directory fs path \<longrightarrow> fs_exists fs (path @ index_html) \<longrightarrow> fs_file fs (path @ index_html) \<noteq> None"
    and "\<not> fs_is_directory fs path \<longrightarrow> fs_file fs path \<noteq> None" "length (fst (served fs path)) < 2 ^ 32"
    and "length (client_request u) \<le> length (cn_raw c)"
    and "cn_maxchunk c = 0" "\<not> cn_shut c" "cn_waiting c = []" "cn_sent c = []" "b1 @ b2 = fst (served fs path)"
  shows "\<exists>c' hdr cl. handle_read fs (client_request u) c = Some c' \<and> cn_sent c' @ waiting_bytes c' = hdr @ fst (served fs path)
    \<and> fetch junk (hdr @ b1) b2 = Some (Logged, cl) \<and> cl_data cl = fst (served fs path)"
proof -
  let ?rq = "\<lparr>rq_method = ''GET'', rq_path = u_path u, rq_keepAlive = True\<rparr>"
  let ?r = "\<lparr>rp_status = status_ok, rp_headers = [(''Content-Length'', to_dec_string (length (fst (served fs path)))),
      (''Content-Type'', snd (served fs path))] @ (if True then [(''Connection'', ''Keep-Alive'')] else []),
      rp_content = fst (served fs path)\<rparr>"
  have h: "RequestParser_handle fs ?rq = ?r"
    using assms(2-4) by (auto simp: RequestParser_handle_def served_def Let_def split: option.splits)
  let ?c1 = "c\<lparr>cn_raw := client_request u @ drop (length (client_request u)) (cn_raw c), cn_reads := cn_reads c - 1, cn_keepAlive := True,
    cn_reply := ?r\<rparr>"
  have "handle_read fs (client_request u) c = Some (connection_write False ?c1)"
    using assms(6,7) by (simp add: handle_read_def parse_client_request [OF assms(1)] h Let_def)
  moreover have "cn_sent (connection_write False ?c1) @ waiting_bytes (connection_write False ?c1) = to_buffers ?r"
    using write_waits(1) [of ?c1 False] assms(8-10) by (simp add: write_bytes_def)
  ultimately obtain c' where c': "handle_read fs (client_request u) c = Some c'" "cn_sent c' @ waiting_bytes c' = to_buffers ?r" by blast
  obtain hdr cl where "to_buffers ?r = hdr @ fst (served fs path)" "fetch junk (hdr @ b1) b2 = Some (Logged, cl)"
      "cl_data cl = fst (served fs path)"
    using fetch_whole_bytes [OF served_mime assms(5,11), of ?r fs path True junk] by blast
  then show ?thesis using c' by (intro exI conjI) simp_all
qed

theorem whole_transfer_witness:
  "\<exists>c' cl. handle_read sample_fs (client_request (Uri_new ''h/a'')) (sample_conn 0 0 False) = Some c'
    \<and> (\<exists>hdr. cn_sent c' @ waiting_bytes c' = hdr @ ''xy'' \<and> fetch (\<lambda>_. []) (hdr @ ''x'') ''y'' = Some (Logged, cl)) \<and> cl_data cl = ''xy''"
proof -
  let ?c = "sample_conn 0 0 False"
  have u: "u_path (Uri_new ''h/a'') = ''/a''" "u_server (Uri_new ''h/a'') = ''h''" by (simp_all add: Uri_new_def uri_char_def)
  have h: "CHR '' '' \<notin> set (u_path (Uri_new ''h/a''))" "url_decode (doc @ u_path (Uri_new ''h/a'')) = (True, ''www/a'')"
      "fst (served sample_fs ''www/a'') = ''xy''"
    by (simp_all add: u sample_fs_def doc_def served_def)
  have c: "length (client_request (Uri_new ''h/a'')) \<le> length (cn_raw ?c)" "cn_maxchunk ?c = 0" "\<not> cn_shut ?c" "cn_waiting ?c = []" "cn_sent ?c = []"
    by (simp_all add: sample_conn_def connection_start_def connection_read_def Connection_new_def client_request_def u crlf_def)
  have s: "fs_is_directory sample_fs ''www/a'' \<longrightarrow> fs_exists sample_fs (''www/a'' @ index_html) \<longrightarrow> fs_file sample_fs (''www/a'' @ index_html) \<noteq> None"
      "\<not> fs_is_directory sample_fs ''www/a'' \<longrightarrow> fs_file sample_fs ''www/a'' \<noteq> None" "length (fst (served sample_fs ''www/a'')) < 2 ^ 32"
      "''x'' @ ''y'' = fst (served sample_fs ''www/a'')"
    unfolding h(3) by (simp_all add: sample_fs_def)
  from whole_transfer [OF h(1,2) s(1-3) c s(4), of "\<lambda>_. []"] h(3) show ?thesis by auto
qed

end
