(* ===== verification/Search_Tree.thy ===== *)
theory Search_Tree
  imports Std_Map
begin

text \<open>
  The recursive binary search tree of \<^verbatim>\<open>IAL/c401.c\<close>. A node is owned by one pointer, so
  that a pointer is the tree below it and a function that is given the address of a pointer
  returns the new one. Keys are of any linear order, as the C comparison of characters is.
  \<open>mem\<close> tells whether \<^verbatim>\<open>malloc\<close> succeeds. The theorems: the tree is a map, deletion
  included, and disposing it frees every node once.
\<close>

datatype ('k, 'c) bst = Null | Node (LPtr: "('k, 'c) bst") (Key: 'k) (Content: 'c) (RPtr: "('k, 'c) bst")
  where "LPtr Null = Null" | "RPtr Null = Null"

definition BSTInit :: "('k, 'c) bst" where
  "BSTInit = Null"

fun BSTSearch :: "('k::linorder, 'c) bst \<Rightarrow> 'k \<Rightarrow> 'c option" where
  "BSTSearch Null K = None"
| "BSTSearch (Node l k c r) K =
     (if k = K then Some c else if k < K then BSTSearch r K else BSTSearch l K)"

fun BSTInsert :: "bool \<Rightarrow> 'k::linorder \<Rightarrow> 'c \<Rightarrow> ('k, 'c) bst \<Rightarrow> ('k, 'c) bst" where
  "BSTInsert mem K C Null = (if mem then Node Null K C Null else Null)"
| "BSTInsert mem K C (Node l k c r) =
     (if k = K then Node l k C r
      else if k < K then Node l k c (BSTInsert mem K C r)
      else Node (BSTInsert mem K C l) k c r)"

text \<open>The key and the content for the replaced node, and the subtree without its rightmost node.\<close>

fun ReplaceByRightmost :: "('k, 'c) bst \<Rightarrow> ('k \<times> 'c) option \<times> ('k, 'c) bst" where
  "ReplaceByRightmost Null = (None, Null)"
| "ReplaceByRightmost (Node l k c r) =
     (if r = Null then (Some (k, c), l)
      else (let (kc, r') = ReplaceByRightmost r in (kc, Node l k c r')))"

fun BSTDelete :: "'k::linorder \<Rightarrow> ('k, 'c) bst \<Rightarrow> ('k, 'c) bst" where
  "BSTDelete K Null = Null"
| "BSTDelete K (Node l k c r) =
     (if K < k then Node (BSTDelete K l) k c r
      else if k < K then Node l k c (BSTDelete K r)
      else if l = Null then r
      else if r = Null then l
      else (case ReplaceByRightmost l of
          (Some (k', c'), l') \<Rightarrow> Node l' k' c' r
        | (None, l') \<Rightarrow> Node l' k c r))"

text \<open>The pointer afterwards, and the keys of the freed nodes in the order of their freeing.\<close>

fun BSTDispose :: "('k, 'c) bst \<Rightarrow> ('k, 'c) bst \<times> 'k list" where
  "BSTDispose Null = (Null, [])"
| "BSTDispose (Node l k c r) =
     (let (_, fl) = BSTDispose l; (_, fr) = BSTDispose r in (Null, fl @ fr @ [k]))"

section \<open>The order of the keys\<close>

fun keys :: "('k, 'c) bst \<Rightarrow> 'k list" where
  "keys Null = []"
| "keys (Node l k c r) = keys l @ k # keys r"

definition ordered :: "('k::linorder, 'c) bst \<Rightarrow> bool" where
  "ordered t \<longleftrightarrow> sorted_wrt (<) (keys t)"

lemma ordered_Null [simp]: "ordered Null"
  by (simp add: ordered_def)

lemma ordered_Node [simp]:
  "ordered (Node l k c r) \<longleftrightarrow> ordered l \<and> ordered r \<and> (\<forall>x \<in> set (keys l). x < k) \<and> (\<forall>x \<in> set (keys r). k < x)"
  by (auto simp: ordered_def sorted_wrt_append dest: less_trans)

lemma keys_insert: "set (keys (BSTInsert mem K C t)) = (if mem then insert K (set (keys t)) else set (keys t))"
  by (induction t) auto

lemma ordered_insert: "ordered t \<Longrightarrow> ordered (BSTInsert mem K C t)"
  by (induction t) (auto simp: keys_insert)

lemma search_insert: "BSTSearch (BSTInsert True K C t) x = (if x = K then Some C else BSTSearch t x)"
  by (induction t) auto

lemma search_missing: "ordered t \<Longrightarrow> x \<notin> set (keys t) \<Longrightarrow> BSTSearch t x = None"
  by (induction t) auto

lemma search_outside:
  "ordered t \<Longrightarrow> \<forall>y \<in> set (keys t). y < m \<Longrightarrow> \<not> x < m \<Longrightarrow> BSTSearch t x = None"
  "ordered t \<Longrightarrow> \<forall>y \<in> set (keys t). m < y \<Longrightarrow> \<not> m < x \<Longrightarrow> BSTSearch t x = None"
  by (auto intro!: search_missing)

lemma search_some: "ordered t \<Longrightarrow> BSTSearch t x = None \<longleftrightarrow> x \<notin> set (keys t)"
  by (induction t) (auto dest: less_asym)

lemma rightmost_keys:
  "t \<noteq> Null \<Longrightarrow> ReplaceByRightmost t = (kc, t') \<Longrightarrow> \<exists>k c. kc = Some (k, c) \<and> keys t = keys t' @ [k]"
  by (induction t arbitrary: t') (auto split: if_splits prod.splits)

lemma rightmost_search:
  assumes "ordered t" "ReplaceByRightmost t = (Some (k, c), t')" "t \<noteq> Null"
  shows "BSTSearch t x = (if x = k then Some c else BSTSearch t' x)"
  using assms
proof (induction t arbitrary: t')
  case (Node l k0 c0 r)
  show ?case
  proof (cases "r = Null")
    case False
    obtain r' where r': "ReplaceByRightmost r = (Some (k, c), r')" "t' = Node l k0 c0 r'"
      using Node.prems(2) False by (auto split: prod.splits)
    then have "k \<in> set (keys r)" using rightmost_keys [OF False r'(1)] by auto
    then have "k0 < k" using Node.prems(1) by simp
    then show ?thesis using Node.IH(2) [OF _ r'(1) False] Node.prems(1) r'(2) by auto
  qed (use Node.prems search_outside [of l k0] in auto)
qed simp

lemma delete_keys: "ordered t \<Longrightarrow> set (keys (BSTDelete K t)) = set (keys t) - {K}"
proof (induction t)
  case (Node l k c r)
  show ?case
  proof (cases "K = k \<and> l \<noteq> Null \<and> r \<noteq> Null")
    case True
    obtain kc l' where rm: "ReplaceByRightmost l = (kc, l')" by fastforce
    then obtain k' c' where kc: "kc = Some (k', c')" "keys l = keys l' @ [k']"
      using rightmost_keys True by blast
    then show ?thesis using Node.prems True rm by auto
  qed (use Node in \<open>auto split: prod.splits option.splits\<close>)
qed simp

lemma ordered_delete: "ordered t \<Longrightarrow> ordered (BSTDelete K t)"
proof (induction t)
  case (Node l k c r)
  show ?case
  proof (cases "K = k \<and> l \<noteq> Null \<and> r \<noteq> Null")
    case True
    obtain kc l' where rm: "ReplaceByRightmost l = (kc, l')" by fastforce
    then obtain k' c' where kc: "kc = Some (k', c')" "keys l = keys l' @ [k']"
      using rightmost_keys True by blast
    have "ordered l'" "\<forall>x \<in> set (keys l'). x < k'"
      using Node.prems kc(2) by (simp_all add: ordered_def sorted_wrt_append)
    then show ?thesis using Node.prems True rm kc by auto
  qed (use Node delete_keys in \<open>auto split: prod.splits option.splits\<close>)
qed simp

lemma search_delete: "ordered t \<Longrightarrow> BSTSearch (BSTDelete K t) x = (if x = K then None else BSTSearch t x)"
proof (induction t)
  case (Node l k c r)
  show ?case
  proof (cases "K = k \<and> l \<noteq> Null \<and> r \<noteq> Null")
    case True
    obtain kc l' where rm: "ReplaceByRightmost l = (kc, l')" by fastforce
    then obtain k' c' where kc: "kc = Some (k', c')" "keys l = keys l' @ [k']"
      using rightmost_keys True by blast
    have s: "BSTSearch l y = (if y = k' then Some c' else BSTSearch l' y)" for y
      using rightmost_search [of l k' c' l' y] rm kc(1) Node.prems True by auto
    have "BSTSearch r k = None" "BSTSearch l k = None" using Node.prems by (auto intro!: search_missing)
    moreover have "ordered l'" "\<forall>y \<in> set (keys l'). y < k'" "k' < k"
      using Node.prems kc(2) by (simp_all add: ordered_def sorted_wrt_append)
    ultimately show ?thesis
      using Node.prems True rm kc s [of x] s [of k] search_outside(2) [of r k x] search_outside(1) [of l' k' x]
        search_outside(1) [of l k x]
      by (auto simp: not_less dest: less_trans)
  qed (use Node search_missing [of l x] search_missing [of r x] in \<open>auto split: prod.splits option.splits\<close>)
qed simp

interpretation bst_map: deletable_map BSTSearch "BSTInsert True" ordered BSTDelete
  by unfold_locales (simp_all add: ordered_insert search_insert ordered_delete search_delete)

text \<open>
  C9. Under any sequence of insertions and deletions the search tree answers every search
  as the map that the same commands make of a function, and its keys stay in order.
\<close>

theorem bst_refines_map:
  "ordered (fold bst_map.perform cmds BSTInit)
    \<and> BSTSearch (fold bst_map.perform cmds BSTInit) = fold cmd_map cmds Map.empty"
  for cmds :: "('k::linorder, 'c) map_cmd list"
proof -
  have "BSTSearch (Null :: ('k, 'c) bst) = Map.empty" by (rule ext) simp
  then show ?thesis using bst_map.perform_all [of Null cmds] by (simp only: BSTInit_def ordered_Null simp_thms)
qed

text \<open>
  \<^verbatim>\<open>BSTDispose\<close> leaves an empty tree and frees every node exactly once.
\<close>

theorem dispose_frees_all:
  "fst (BSTDispose t) = Null \<and> mset (snd (BSTDispose t)) = mset (keys t)"
  by (induction t) (auto split: prod.splits)

end
