(* ===== verification/Tree_Walks.thy ===== *)
theory Tree_Walks
  imports Prelude "HOL-Library.Tree" "HOL-Library.Tree_Multiset"
begin

text \<open>
  The tree of \<^verbatim>\<open>IAL/c402.c\<close> and its traversals, which use arrays of pointers and flags as
  stacks in place of recursion. A pointer is the tree below it; a stack is the list of what
  it holds, the top first, of at most \<open>M\<close> = \<^verbatim>\<open>MAXSTACK\<close> entries: a push onto a full stack is
  reported and dropped. A traversal yields the contents it works out, in order. The theorem:
  while the height of the tree is at most \<open>M\<close>, the loops visit what the recursive
  traversals visit, and disposing frees every node once.
\<close>

section \<open>Stacks\<close>

definition SPush :: "nat \<Rightarrow> 'a \<Rightarrow> 'a list \<Rightarrow> 'a list" where
  "SPush M x s = (if length s = M then s else x # s)"

fun STopPopP :: "'a tree list \<Rightarrow> 'a tree \<times> 'a tree list" where
  "STopPopP [] = (Leaf, [])"
| "STopPopP (t # s) = (t, s)"

fun STopPopB :: "bool list \<Rightarrow> bool \<times> bool list" where
  "STopPopB [] = (False, [])"
| "STopPopB (b # s) = (b, s)"

section \<open>Insertion\<close>

text \<open>The loop that walks down to the pointer to be set; \<open>mem\<close> is the success of \<^verbatim>\<open>malloc\<close>.\<close>

fun BTInsert :: "bool \<Rightarrow> int \<Rightarrow> int tree \<Rightarrow> int tree" where
  "BTInsert mem C Leaf = (if mem then Node Leaf C Leaf else Leaf)"
| "BTInsert mem C (Node l c r) =
     (if c = C then Node l c r
      else if C < c then Node (BTInsert mem C l) c r
      else Node l c (BTInsert mem C r))"

section \<open>Preorder\<close>

fun Leftmost_Preorder :: "nat \<Rightarrow> 'a tree \<Rightarrow> 'a tree list \<Rightarrow> 'a list \<times> 'a tree list" where
  "Leftmost_Preorder M Leaf s = ([], s)"
| "Leftmost_Preorder M (Node l a r) s =
     (let (out, s') = Leftmost_Preorder M l (SPush M (Node l a r) s) in (a # out, s'))"

text \<open>The inner loop: the first pointer to the right that is not null.\<close>

fun next_right :: "'a tree \<Rightarrow> 'a tree list \<Rightarrow> 'a tree \<times> 'a tree list" where
  "next_right ptr [] = (ptr, [])"
| "next_right ptr (t # s) = (if right t = Leaf then next_right Leaf s else (right t, s))"

text \<open>\<open>None\<close> when the loop does not end, as with a stack of no entries.\<close>

partial_function (option) preorder_loop :: "nat \<Rightarrow> 'a tree \<Rightarrow> 'a tree list \<Rightarrow> 'a list option" where
  "preorder_loop M ptr s =
     (if ptr = Leaf then Some []
      else let (out, s1) = Leftmost_Preorder M ptr s; (ptr', s2) = next_right ptr s1
        in do { rest \<leftarrow> preorder_loop M ptr' s2; Some (out @ rest) })"

definition BTPreorder :: "nat \<Rightarrow> 'a tree \<Rightarrow> 'a list option" where
  "BTPreorder M ptr = (if ptr = Leaf then Some [] else preorder_loop M ptr [])"

section \<open>Inorder\<close>

fun Leftmost_Inorder :: "nat \<Rightarrow> 'a tree \<Rightarrow> 'a tree list \<Rightarrow> 'a tree list" where
  "Leftmost_Inorder M Leaf s = s"
| "Leftmost_Inorder M (Node l a r) s = Leftmost_Inorder M l (SPush M (Node l a r) s)"

definition in_weight :: "'a tree list \<Rightarrow> nat" where
  "in_weight s = sum_list (map (\<lambda>t. 1 + size (right t)) s)"

lemma in_weight_leftmost: "in_weight (Leftmost_Inorder M t s) \<le> size t + in_weight s"
proof (induction M t s rule: Leftmost_Inorder.induct)
  case (2 M l a r s)
  have "in_weight (SPush M (Node l a r) s) \<le> 1 + size r + in_weight s" by (simp add: SPush_def in_weight_def)
  with 2 show ?case by simp
qed simp

function inorder_loop :: "nat \<Rightarrow> 'a tree list \<Rightarrow> 'a list" where
  "inorder_loop M s =
     (if s = [] then []
      else let (ptr, s1) = STopPopP s
        in map value (case ptr of Leaf \<Rightarrow> [] | _ \<Rightarrow> [ptr])
          @ inorder_loop M (if right ptr \<noteq> Leaf then Leftmost_Inorder M (right ptr) s1 else s1))"
  by pat_completeness auto
termination
proof (relation "measure (\<lambda>(M, s). in_weight s)", goal_cases)
  case (2 M s x ptr s1)
  then show ?case
    using in_weight_leftmost [of M "right ptr" s1] by (cases s) (auto simp: in_weight_def)
qed simp

declare inorder_loop.simps [simp del]

definition BTInorder :: "nat \<Rightarrow> 'a tree \<Rightarrow> 'a list" where
  "BTInorder M ptr = (if ptr = Leaf then [] else inorder_loop M (Leftmost_Inorder M ptr []))"

section \<open>Postorder\<close>

fun Leftmost_Postorder :: "nat \<Rightarrow> 'a tree \<Rightarrow> 'a tree list \<Rightarrow> bool list \<Rightarrow> 'a tree list \<times> bool list" where
  "Leftmost_Postorder M Leaf p b = (p, b)"
| "Leftmost_Postorder M (Node l a r) p b = Leftmost_Postorder M l (SPush M (Node l a r) p) (SPush M True b)"

partial_function (option) postorder_loop :: "nat \<Rightarrow> 'a tree list \<Rightarrow> bool list \<Rightarrow> 'a list option" where
  "postorder_loop M p b =
     (if p = [] then Some []
      else let (L, b1) = STopPopB b; (ptr, p1) = STopPopP p
        in if \<not> L then do { rest \<leftarrow> postorder_loop M p1 b1; Some ((case ptr of Leaf \<Rightarrow> [] | Node _ a _ \<Rightarrow> [a]) @ rest) }
           else let (p2, b2) = Leftmost_Postorder M (right ptr) (SPush M ptr p1) (SPush M False b1)
             in postorder_loop M p2 b2)"

definition BTPostorder :: "nat \<Rightarrow> 'a tree \<Rightarrow> 'a list option" where
  "BTPostorder M ptr =
     (if ptr = Leaf then Some []
      else let (p, b) = Leftmost_Postorder M ptr [] [] in postorder_loop M p b)"

section \<open>Disposal\<close>

text \<open>The contents of the freed nodes, in the order of their freeing.\<close>

partial_function (option) dispose_loop :: "nat \<Rightarrow> 'a tree \<Rightarrow> 'a tree list \<Rightarrow> 'a list option" where
  "dispose_loop M ptr s =
     (case ptr of
        Leaf \<Rightarrow> Some []
      | Node l a r \<Rightarrow>
          let (nextPtr, s1) =
                (if l \<noteq> Leaf then (l, if r \<noteq> Leaf then SPush M r s else s)
                 else if r \<noteq> Leaf then (r, s)
                 else if s = [] then (Leaf, s) else STopPopP s)
          in do { rest \<leftarrow> dispose_loop M nextPtr s1; Some (a # rest) })"

definition BTDisposeTree :: "nat \<Rightarrow> 'a tree \<Rightarrow> ('a tree \<times> 'a list) option" where
  "BTDisposeTree M ptr =
     (if ptr = Leaf then Some (Leaf, []) else map_option (\<lambda>freed. (Leaf, freed)) (dispose_loop M ptr []))"

section \<open>Loops and recursion\<close>

text \<open>
  The room the trees on a stack need: the right subtree of an entry is entered when the
  entries below it are still there.
\<close>

fun fits :: "nat \<Rightarrow> 'a tree list \<Rightarrow> bool" where
  "fits M [] = True"
| "fits M (t # s) = (t \<noteq> Leaf \<and> length s < M \<and> height (right t) + length s \<le> M \<and> fits M s)"

definition pending :: "('a tree \<Rightarrow> 'a list) \<Rightarrow> 'a tree list \<Rightarrow> 'a list" where
  "pending walk s = concat (map walk s)"

definition weight :: "'a tree list \<Rightarrow> nat" where
  "weight s = sum_list (map (\<lambda>t. size (right t)) s)"

lemma pending_simps [simp]: "pending walk [] = []" "pending walk (t # s) = walk t @ pending walk s"
  by (simp_all add: pending_def)

lemma weight_simps [simp]: "weight [] = 0" "weight (t # s) = size (right t) + weight s"
  by (simp_all add: weight_def)

lemma leftmost_preorder:
  assumes "Leftmost_Preorder M t s = (out, s')" "height t + length s \<le> M" "fits M s"
  shows "fits M s' \<and> out @ pending (\<lambda>u. preorder (right u)) s' = preorder t @ pending (\<lambda>u. preorder (right u)) s
    \<and> weight s' + length out = size t + weight s \<and> (t \<noteq> Leaf \<longrightarrow> out \<noteq> []) \<and> (s \<noteq> [] \<or> t \<noteq> Leaf \<longrightarrow> s' \<noteq> [])"
  using assms
proof (induction t arbitrary: s out)
  case (Node l a r)
  obtain o' where o': "Leftmost_Preorder M l (Node l a r # s) = (o', s')" "out = a # o'"
    using Node.prems by (auto simp: SPush_def split: prod.splits)
  have "height l + length (Node l a r # s) \<le> M" "fits M (Node l a r # s)" using Node.prems by auto
  from Node.IH(1) [OF o'(1) this] show ?case using o'(2) by auto
qed simp

lemma next_right_pending:
  assumes "next_right c s = (p, s')" "s \<noteq> []" "fits M s"
  shows "fits M s' \<and> height p + length s' \<le> M \<and> pending (\<lambda>u. preorder (right u)) s = preorder p @ pending (\<lambda>u. preorder (right u)) s'
    \<and> weight s = size p + weight s' \<and> (p = Leaf \<longrightarrow> s' = [])"
  using assms
proof (induction s arbitrary: c)
  case (Cons t s)
  show ?case
  proof (cases "right t = Leaf \<and> s \<noteq> []")
    case True
    then have "next_right Leaf s = (p, s')" "fits M s" using Cons.prems by simp_all
    with Cons.IH [of Leaf] True show ?thesis by simp
  qed (use Cons.prems in \<open>auto split: if_splits\<close>)
qed simp

lemma preorder_loop_visits:
  assumes "height t + length s \<le> M" "fits M s" "t = Leaf \<longrightarrow> s = []"
  shows "preorder_loop M t s = Some (preorder t @ pending (\<lambda>u. preorder (right u)) s)"
  using assms
proof (induction "size t + weight s" arbitrary: t s rule: less_induct)
  case less
  show ?case
  proof (cases "t = Leaf")
    case True
    then show ?thesis using less.prems(3) by (subst preorder_loop.simps) simp
  next
    case False
    obtain out s1 where l: "Leftmost_Preorder M t s = (out, s1)" by fastforce
    note lp = leftmost_preorder [OF l less.prems(1,2)]
    obtain p s2 where n: "next_right t s1 = (p, s2)" by fastforce
    have np: "fits M s2" "height p + length s2 \<le> M" "p = Leaf \<longrightarrow> s2 = []"
      "pending (\<lambda>u. preorder (right u)) s1 = preorder p @ pending (\<lambda>u. preorder (right u)) s2" "weight s1 = size p + weight s2"
      using next_right_pending [OF n] lp False by auto
    have "size p + weight s2 < size t + weight s" using lp np(5) False by (cases out) auto
    then have "preorder_loop M p s2 = Some (preorder p @ pending (\<lambda>u. preorder (right u)) s2)"
      using less.hyps np(1-3) by blast
    then show ?thesis using False l n lp np(4) by (subst preorder_loop.simps) simp
  qed
qed

lemma leftmost_inorder:
  assumes "height t + length s \<le> M" "fits M s"
  shows "fits M (Leftmost_Inorder M t s)
    \<and> pending (\<lambda>u. value u # inorder (right u)) (Leftmost_Inorder M t s) = inorder t @ pending (\<lambda>u. value u # inorder (right u)) s"
  using assms
proof (induction t arbitrary: s)
  case (Node l a r)
  have "height l + length (Node l a r # s) \<le> M" "fits M (Node l a r # s)" using Node.prems by auto
  from Node.IH(1) [OF this] Node.prems show ?case by (simp add: SPush_def)
qed simp

lemma inorder_loop_visits:
  "fits M s \<Longrightarrow> inorder_loop M s = pending (\<lambda>u. value u # inorder (right u)) s"
proof (induction M s rule: inorder_loop.induct)
  case (1 M s)
  show ?case
  proof (cases s)
    case (Cons t s1)
    then obtain l a r where t: "t = Node l a r" using "1.prems" by (cases t) auto
    define s2 where "s2 = (if right t \<noteq> Leaf then Leftmost_Inorder M (right t) s1 else s1)"
    have f: "fits M s2" "pending (\<lambda>u. value u # inorder (right u)) s2 = inorder r @ pending (\<lambda>u. value u # inorder (right u)) s1"
      using leftmost_inorder [of r s1 M] "1.prems" Cons t by (auto simp: s2_def)
    have "inorder_loop M s2 = pending (\<lambda>u. value u # inorder (right u)) s2"
      using "1.IH" [of "(t, s1)" t s1] f(1) Cons by (simp add: s2_def)
    moreover have "inorder_loop M s = a # inorder_loop M s2"
      unfolding s2_def using Cons t by (subst inorder_loop.simps) simp
    ultimately show ?thesis using Cons t f(2) by simp
  qed (simp add: inorder_loop.simps)
qed

text \<open>The postorder stacks: an entry that is still to be entered, and one that is not.\<close>

fun post_fits :: "nat \<Rightarrow> 'a tree list \<Rightarrow> bool list \<Rightarrow> bool" where
  "post_fits M [] b = (b = [])"
| "post_fits M (t # p) [] = False"
| "post_fits M (t # p) (f # b) = (t \<noteq> Leaf \<and> length p < M \<and> (f \<longrightarrow> height (right t) + length p + 1 \<le> M) \<and> post_fits M p b)"

fun post_pending :: "'a tree list \<Rightarrow> bool list \<Rightarrow> 'a list" where
  "post_pending (t # p) (f # b) = (if f then postorder (right t) else []) @ value t # post_pending p b"
| "post_pending p b = []"

fun post_weight :: "'a tree list \<Rightarrow> bool list \<Rightarrow> nat" where
  "post_weight (t # p) (f # b) = (if f then 2 + 2 * size (right t) else 1) + post_weight p b"
| "post_weight p b = 0"

lemma post_fits_length: "post_fits M p b \<Longrightarrow> length p = length b"
  by (induction M p b rule: post_fits.induct) auto

lemma leftmost_postorder:
  assumes "Leftmost_Postorder M t p b = (p', b')" "height t + length p \<le> M" "post_fits M p b"
  shows "post_fits M p' b' \<and> post_pending p' b' = postorder t @ post_pending p b
    \<and> post_weight p' b' = 2 * size t + post_weight p b"
  using assms
proof (induction t arbitrary: p b)
  case (Node l a r)
  have s: "SPush M (Node l a r) p = Node l a r # p" "SPush M True b = True # b"
    using Node.prems post_fits_length [OF Node.prems(3)] by (simp_all add: SPush_def)
  have "post_fits M (Node l a r # p) (True # b)" "height l + length (Node l a r # p) \<le> M" using Node.prems by auto
  from Node.IH(1) [OF _ this(2,1)] Node.prems(1) s show ?case by simp
qed simp

lemma postorder_loop_visits:
  "post_fits M p b \<Longrightarrow> postorder_loop M p b = Some (post_pending p b)"
proof (induction "post_weight p b" arbitrary: p b rule: less_induct)
  case less
  show ?case
  proof (cases p)
    case Nil
    then show ?thesis by (subst postorder_loop.simps) simp
  next
    case (Cons t p1)
    then obtain f b1 where b: "b = f # b1" using less.prems by (cases b) auto
    obtain l a r where t: "t = Node l a r" using less.prems Cons b by (cases t) auto
    show ?thesis
    proof (cases f)
      case False
      then have "postorder_loop M p1 b1 = Some (post_pending p1 b1)"
        using less.hyps [of p1 b1] less.prems Cons b by simp
      then show ?thesis using Cons b t False by (subst postorder_loop.simps) simp
    next
      case True
      have s: "SPush M t p1 = t # p1" "SPush M False b1 = False # b1"
        using less.prems Cons b post_fits_length [of M p1 b1] by (simp_all add: SPush_def)
      obtain p2 b2 where l: "Leftmost_Postorder M r (t # p1) (False # b1) = (p2, b2)" by fastforce
      have lm: "post_fits M p2 b2 \<and> post_pending p2 b2 = postorder r @ post_pending (t # p1) (False # b1)
          \<and> post_weight p2 b2 = 2 * size r + post_weight (t # p1) (False # b1)"
        using leftmost_postorder [OF l] less.prems Cons b t True by simp
      then have "postorder_loop M p2 b2 = Some (post_pending p2 b2)"
        using less.hyps [of p2 b2] Cons b t True by simp
      then show ?thesis using Cons b t True s l lm by (subst postorder_loop.simps) simp
    qed
  qed
qed

fun dispose_fits :: "nat \<Rightarrow> 'a tree list \<Rightarrow> bool" where
  "dispose_fits M [] = True"
| "dispose_fits M (t # s) = (t \<noteq> Leaf \<and> height t + length s \<le> M + 1 \<and> dispose_fits M s)"

lemma dispose_loop_frees:
  "height t + length s \<le> M + 1 \<Longrightarrow> dispose_fits M s \<Longrightarrow> t \<noteq> Leaf \<or> s = [] \<Longrightarrow>
    dispose_loop M t s = Some (preorder t @ pending preorder s)"
proof (induction "size t + sum_list (map size s)" arbitrary: t s rule: less_induct)
  case less
  show ?case
  proof (cases t)
    case Leaf
    then show ?thesis using less.prems by (subst dispose_loop.simps) simp
  next
    case (Node l a r)
    consider (both) "l \<noteq> Leaf" "r \<noteq> Leaf" | (left) "l \<noteq> Leaf" "r = Leaf" | (right) "l = Leaf" "r \<noteq> Leaf" | (none) "l = Leaf" "r = Leaf"
      by blast
    then show ?thesis
    proof cases
      case both
      then have "0 < height l" by (cases l) auto
      then have "SPush M r s = r # s" using less.prems(1) Node by (simp add: SPush_def)
      moreover have "dispose_loop M l (r # s) = Some (preorder l @ pending preorder (r # s))"
        using less.hyps [of l "r # s"] less.prems Node both by simp
      ultimately show ?thesis using Node both by (subst dispose_loop.simps) simp
    next
      case left
      then have "dispose_loop M l s = Some (preorder l @ pending preorder s)" using less Node by simp
      then show ?thesis using Node left by (subst dispose_loop.simps) simp
    next
      case right
      then have "dispose_loop M r s = Some (preorder r @ pending preorder s)" using less Node by simp
      then show ?thesis using Node right by (subst dispose_loop.simps) simp
    next
      case none
      show ?thesis
      proof (cases s)
        case Nil
        have "dispose_loop M l [] = Some []" using none by (subst dispose_loop.simps) simp
        then show ?thesis using Node none Nil by (subst dispose_loop.simps) simp
      next
        case (Cons u s1)
        then have "dispose_loop M u s1 = Some (preorder u @ pending preorder s1)"
          using less.hyps [of u s1] less.prems Node none by simp
        then show ?thesis using Node none Cons by (subst dispose_loop.simps) simp
      qed
    qed
  qed
qed

text \<open>
  C16. While the height of the tree is at most the size of the stacks, the three loops end
  and visit exactly what the recursive traversals visit, in their order.
\<close>

theorem walks_are_recursive:
  assumes "height t \<le> M"
  shows "BTPreorder M t = Some (preorder t) \<and> BTInorder M t = inorder t \<and> BTPostorder M t = Some (postorder t)"
proof (cases "t = Leaf")
  case False
  have "preorder_loop M t [] = Some (preorder t)" using preorder_loop_visits [of t "[]" M] assms False by simp
  moreover have "inorder_loop M (Leftmost_Inorder M t []) = inorder t"
    using leftmost_inorder [of t "[]" M] inorder_loop_visits [of M "Leftmost_Inorder M t []"] assms by simp
  moreover obtain p b where l: "Leftmost_Postorder M t [] [] = (p, b)" by fastforce
  then have "postorder_loop M p b = Some (postorder t)"
    using leftmost_postorder [OF l] postorder_loop_visits assms by fastforce
  ultimately show ?thesis using False l by (simp add: BTPreorder_def BTInorder_def BTPostorder_def)
qed (simp add: BTPreorder_def BTInorder_def BTPostorder_def)

text \<open>With one entry for a tree of height two the inner node is lost from the inorder walk.\<close>

theorem walks_are_recursive_witness:
  "BTInorder 2 (Node (Node Leaf 1 Leaf) (2 :: int) Leaf) = [1, 2] \<and> BTInorder 1 (Node (Node Leaf 1 Leaf) (2 :: int) Leaf) = [2]"
proof
  show "BTInorder 2 (Node (Node Leaf 1 Leaf) (2 :: int) Leaf) = [1, 2]"
    using walks_are_recursive [of "Node (Node Leaf 1 Leaf) (2 :: int) Leaf" 2] by simp
  show "BTInorder 1 (Node (Node Leaf 1 Leaf) (2 :: int) Leaf) = [2]"
    by (simp add: BTInorder_def SPush_def inorder_loop.simps)
qed

text \<open>
  Disposing a tree whose height exceeds the size of the stack by at most one ends, leaves
  a null pointer and frees every node exactly once.
\<close>

theorem dispose_walk_frees_all:
  assumes "height t \<le> M + 1"
  shows "\<exists>freed. BTDisposeTree M t = Some (Leaf, freed) \<and> mset freed = mset_tree t"
proof (cases "t = Leaf")
  case False
  have "mset (preorder u) = mset_tree u" for u :: "'a tree" by (induction u) auto
  then show ?thesis using False dispose_loop_frees [of t "[]" M] assms by (simp add: BTDisposeTree_def)
qed (simp add: BTDisposeTree_def)

theorem dispose_walk_frees_all_witness:
  "\<exists>freed. BTDisposeTree 1 (Node (Node Leaf 1 Leaf) (2 :: int) (Node Leaf 3 Leaf)) = Some (Leaf, freed) \<and> mset freed = {#1, 2, 3#}"
  using dispose_walk_frees_all [of "Node (Node Leaf 1 Leaf) (2 :: int) (Node Leaf 3 Leaf)" 1] by (simp add: add_mset_commute)

section \<open>Insertion keeps the order\<close>

lemma insert_set: "set_tree (BTInsert True C t) = insert C (set_tree t)"
  by (induction t) auto

text \<open>
  C34. Insertion adds the value to the set the tree holds and keeps the tree a search tree
  without duplicates.
\<close>

theorem insert_search_tree:
  assumes "bst t"
  shows "bst (BTInsert True C t) \<and> set_tree (BTInsert True C t) = insert C (set_tree t)"
  using assms by (induction t) (auto simp: insert_set)

theorem insert_search_tree_witness: "bst (BTInsert True 3 (Node Leaf 2 Leaf))"
  using insert_search_tree [of "Node Leaf 2 Leaf" 3] by simp

end
