(* ===== verification/Hash_Table.thy ===== *)
theory Hash_Table
  imports Std_Map "HOL-Library.Signed_Division"
begin

text \<open>
  The hash table of \<^verbatim>\<open>IAL/c016.c\<close>: an array of \<open>N\<close> = \<^verbatim>\<open>HTSIZE\<close> chains of items. A
  character is a byte that C sign-extends; a key is a string without its null. A chain is
  the list of its items, and \<open>mem\<close> tells whether \<^verbatim>\<open>malloc\<close> succeeds. A result is \<open>None\<close>
  when the index of a chain is outside the array. The theorems: on keys of ASCII characters
  the table is a map, and a key with another character may be stored outside the array.
\<close>

section \<open>The operations\<close>

type_synonym key = "byte list"
type_synonym 'd chain = "(key \<times> 'd) list"

definition hashCode :: "nat \<Rightarrow> key \<Rightarrow> int" where
  "hashCode N k = sint (fold (\<lambda>c retval. retval + scast c) k (1 :: u32)) smod int N"

definition hash_index :: "nat \<Rightarrow> key \<Rightarrow> nat option" where
  "hash_index N k = (let h = hashCode N k in if 0 \<le> h \<and> h < int N then Some (nat h) else None)"

definition htInit :: "nat \<Rightarrow> 'd chain list" where
  "htInit N = replicate N []"

text \<open>The search gives the item that it finds.\<close>

fun chain_search :: "key \<Rightarrow> 'd chain \<Rightarrow> (key \<times> 'd) option" where
  "chain_search k [] = None"
| "chain_search k (item # items) = (if k = fst item then Some item else chain_search k items)"

definition htSearch :: "nat \<Rightarrow> key \<Rightarrow> 'd chain list \<Rightarrow> (key \<times> 'd) option option" where
  "htSearch N k t = map_option (\<lambda>i. chain_search k (t ! i)) (hash_index N k)"

text \<open>\<^verbatim>\<open>item->data = data\<close>, on the item that was found.\<close>

fun chain_assign :: "key \<Rightarrow> 'd \<Rightarrow> 'd chain \<Rightarrow> 'd chain" where
  "chain_assign k d [] = []"
| "chain_assign k d (item # items) =
     (if k = fst item then (fst item, d) # items else item # chain_assign k d items)"

definition htInsert :: "bool \<Rightarrow> nat \<Rightarrow> key \<Rightarrow> 'd \<Rightarrow> 'd chain list \<Rightarrow> 'd chain list option" where
  "htInsert mem N k d t =
     do {
       i \<leftarrow> hash_index N k;
       Some (if chain_search k (t ! i) \<noteq> None then t[i := chain_assign k d (t ! i)]
             else if mem then t[i := (k, d) # t ! i] else t)
     }"

definition htRead :: "nat \<Rightarrow> key \<Rightarrow> 'd chain list \<Rightarrow> 'd option option" where
  "htRead N k t =
     do {
       item \<leftarrow> htSearch N k t;
       Some (case item of None \<Rightarrow> None | Some it \<Rightarrow> Some (snd it))
     }"

fun chain_delete :: "key \<Rightarrow> 'd chain \<Rightarrow> 'd chain" where
  "chain_delete k [] = []"
| "chain_delete k (item # items) = (if fst item = k then items else item # chain_delete k items)"

definition htDelete :: "nat \<Rightarrow> key \<Rightarrow> 'd chain list \<Rightarrow> 'd chain list option" where
  "htDelete N k t = map_option (\<lambda>i. t[i := chain_delete k (t ! i)]) (hash_index N k)"

text \<open>The emptied table, and the keys of the freed items in order.\<close>

definition htClearAll :: "nat \<Rightarrow> 'd chain list \<Rightarrow> 'd chain list \<times> key list" where
  "htClearAll N t = (replicate N [] @ drop N t, concat (map (map fst) (take N t)))"

section \<open>ASCII keys\<close>

text \<open>Strings of at most \<open>2^24 - 1\<close> characters from 1 to 127.\<close>

definition ascii :: "key \<Rightarrow> bool" where
  "ascii k \<longleftrightarrow> (\<forall>c \<in> set k. 0 < c \<and> c < 128) \<and> length k < 2 ^ 24"

lemma sint_ascii:
  assumes "c < 128"
  shows "(scast (c :: byte) :: u32) = ucast c"
proof -
  have "uint c < 128" using assms by (simp add: word_less_def)
  moreover have "- 128 \<le> uint c" using uint_ge_0 [of c] by linarith
  ultimately have "sint c = uint c" by (simp add: sint_uint signed_take_bit_int_eq_self_iff)
  then show ?thesis by (simp only: scast_eq ucast_eq)
qed

lemma hash_sum:
  fixes k :: key
  assumes "\<forall>c \<in> set k. c < 128"
  shows "fold (\<lambda>c retval. retval + scast c) k (r :: u32) = r + of_nat (sum_list (map unat k))"
  using assms by (induction k arbitrary: r) (simp_all add: sint_ascii)

lemma hash_bound: "\<forall>c \<in> set k. c < 128 \<Longrightarrow> sum_list (map unat k) \<le> 127 * length k" for k :: key
proof (induction k)
  case (Cons c k)
  then have "unat c \<le> 127" by (simp add: word_less_nat_alt)
  with Cons show ?case by simp
qed simp

lemma slot_ascii:
  assumes "ascii k" "0 < N"
  shows "hash_index N k = Some ((1 + sum_list (map unat k)) mod N)"
proof -
  let ?s = "1 + sum_list (map unat k)"
  have "sum_list (map unat k) \<le> 127 * length k" using assms(1) by (intro hash_bound) (auto simp: ascii_def)
  then have s: "?s < 2 ^ 31" using assms(1) by (simp add: ascii_def)
  have "fold (\<lambda>c retval. retval + scast c) k (1 :: u32) = of_nat ?s"
    using hash_sum [of k 1] assms(1) by (simp add: ascii_def)
  moreover have "sint (of_nat ?s :: u32) = int ?s"
    using s by (simp add: signed_of_nat signed_take_bit_int_eq_self_iff del: of_nat_Suc of_nat_add)
  ultimately have h: "hashCode N k = int (?s mod N)"
    by (simp add: hashCode_def signed_modulo_int_def zmod_int sgn_if del: of_nat_Suc of_nat_add) 
  then show ?thesis using assms(2) by (simp add: hash_index_def del: of_nat_Suc of_nat_add)
qed

section \<open>The table as a map\<close>

typedef ascii_key = "{k. ascii k}"
  by (rule exI [of _ "[]"]) (simp add: ascii_def)

setup_lifting type_definition_ascii_key

definition key_slot :: "nat \<Rightarrow> ascii_key \<Rightarrow> nat" where
  "key_slot N k = the (hash_index N (Rep_ascii_key k))"

definition table_lookup :: "nat \<Rightarrow> 'd chain list \<Rightarrow> ascii_key \<Rightarrow> 'd option" where
  "table_lookup N t k = map_option snd (the (htSearch N (Rep_ascii_key k) t))"

definition table_insert :: "nat \<Rightarrow> ascii_key \<Rightarrow> 'd \<Rightarrow> 'd chain list \<Rightarrow> 'd chain list" where
  "table_insert N k d t = the (htInsert True N (Rep_ascii_key k) d t)"

definition table_delete :: "nat \<Rightarrow> ascii_key \<Rightarrow> 'd chain list \<Rightarrow> 'd chain list" where
  "table_delete N k t = the (htDelete N (Rep_ascii_key k) t)"

text \<open>Every key is in its chain, and once.\<close>

definition table_ok :: "nat \<Rightarrow> 'd chain list \<Rightarrow> bool" where
  "table_ok N t \<longleftrightarrow> 0 < N \<and> length t = N
     \<and> (\<forall>i < N. distinct (map fst (t ! i)) \<and> (\<forall>k \<in> fst ` set (t ! i). hash_index N k = Some i))"

lemma key_slot:
  assumes "0 < N"
  shows "hash_index N (Rep_ascii_key k) = Some (key_slot N k)" "key_slot N k < N"
  using slot_ascii [OF Rep_ascii_key [of k, simplified] assms] assms by (simp_all add: key_slot_def)

lemma chain_search_map: "chain_search k ch = map_option (Pair k) (map_of ch k)"
  by (induction ch) auto

lemma chain_assign_keys: "map fst (chain_assign k d ch) = map fst ch"
  by (induction ch) auto

lemma chain_assign_map: "map_of ch k \<noteq> None \<Longrightarrow> map_of (chain_assign k d ch) x = (if x = k then Some d else map_of ch x)"
  by (induction ch) auto

lemma chain_delete_keys:
  "distinct (map fst ch) \<Longrightarrow> distinct (map fst (chain_delete k ch)) \<and> fst ` set (chain_delete k ch) = fst ` set ch - {k}"
proof (induction ch)
  case (Cons item ch)
  then show ?case by (cases item) force
qed simp

lemma chain_delete_map: "distinct (map fst ch) \<Longrightarrow> map_of (chain_delete k ch) x = (if x = k then None else map_of ch x)"
proof (cases "x = k")
  case True
  assume "distinct (map fst ch)"
  then show ?thesis using chain_delete_keys [of ch k] True by (simp add: map_of_eq_None_iff)
next
  case False
  then show ?thesis by (induction ch) auto
qed

lemma table_lookup_chain: "0 < N \<Longrightarrow> table_lookup N t k = map_of (t ! key_slot N k) (Rep_ascii_key k)"
  by (simp add: table_lookup_def htSearch_def key_slot chain_search_map option.map_comp comp_def option.map_ident)

lemma table_insert_chain:
  "0 < N \<Longrightarrow> table_insert N k d t = t[key_slot N k :=
     (let ch = t ! key_slot N k; s = Rep_ascii_key k in if map_of ch s \<noteq> None then chain_assign s d ch else (s, d) # ch)]"
  by (simp add: table_insert_def htInsert_def key_slot chain_search_map Let_def)

lemma table_delete_chain:
  "0 < N \<Longrightarrow> table_delete N k t = t[key_slot N k := chain_delete (Rep_ascii_key k) (t ! key_slot N k)]"
  by (simp add: table_delete_def htDelete_def key_slot)

lemma table_ok_update:
  assumes "table_ok N t" "distinct (map fst ch)" "\<forall>k \<in> fst ` set ch. hash_index N k = Some i"
  shows "table_ok N (t[i := ch])"
  unfolding table_ok_def
proof (intro conjI allI impI)
  fix j assume j: "j < N"
  then have "t[i := ch] ! j = (if j = i then ch else t ! j)" using assms(1) by (simp add: table_ok_def nth_list_update)
  then show "distinct (map fst (t[i := ch] ! j))" "\<forall>k \<in> fst ` set (t[i := ch] ! j). hash_index N k = Some j"
    using assms j by (simp_all add: table_ok_def)
qed (use assms(1) in \<open>simp_all add: table_ok_def\<close>)

lemma table_ok_chain:
  assumes "table_ok N t"
  shows "0 < N" "distinct (map fst (t ! key_slot N k))" "\<forall>x \<in> fst ` set (t ! key_slot N k). hash_index N x = Some (key_slot N k)"
  using assms key_slot(2) [of N k] by (simp_all add: table_ok_def)

lemma table_ok_insert:
  assumes "table_ok N t"
  shows "table_ok N (table_insert N k d t)"
proof -
  let ?s = "Rep_ascii_key k" and ?ch = "t ! key_slot N k"
  note c = table_ok_chain(1) [OF assms] table_ok_chain(2,3) [OF assms, of k]
  have a: "fst ` set (chain_assign ?s d ?ch) = fst ` set ?ch" using chain_assign_keys by (metis set_map)
  show ?thesis
  proof (cases "map_of ?ch ?s = None")
    case True
    then show ?thesis
      unfolding table_insert_chain [OF c(1)] Let_def
      using c key_slot(1) [OF c(1), of k] by (intro table_ok_update [OF assms]) (auto simp: map_of_eq_None_iff)
  next
    case False
    have "table_ok N (t[key_slot N k := chain_assign ?s d ?ch])"
      using c(2,3) by (intro table_ok_update [OF assms]) (simp_all only: a chain_assign_keys)
    with False show ?thesis unfolding table_insert_chain [OF c(1)] Let_def by simp
  qed
qed

lemma table_ok_delete:
  assumes "table_ok N t"
  shows "table_ok N (table_delete N k t)"
proof -
  note c = table_ok_chain(1) [OF assms] table_ok_chain(2,3) [OF assms, of k]
  show ?thesis
    unfolding table_delete_chain [OF c(1)]
    using c chain_delete_keys [OF c(2), of "Rep_ascii_key k"] by (intro table_ok_update [OF assms]) auto
qed

text \<open>What happens in one chain is not seen by the keys of the others.\<close>

lemma lookup_update:
  assumes "table_ok N t"
    and "\<And>x. map_of ch (Rep_ascii_key x) = (if x = k then v else map_of (t ! key_slot N k) (Rep_ascii_key x))"
  shows "table_lookup N (t[key_slot N k := ch]) x = (if x = k then v else table_lookup N t x)"
proof -
  have N: "0 < N" "length t = N" using assms(1) by (simp_all add: table_ok_def)
  show ?thesis using assms(2) [of x] key_slot(2) [OF N(1), of k] N
    by (auto simp: table_lookup_chain nth_list_update)
qed

lemma lookup_table_insert:
  assumes "table_ok N t"
  shows "table_lookup N (table_insert N k d t) x = (if x = k then Some d else table_lookup N t x)"
proof -
  have N: "0 < N" using assms by (simp add: table_ok_def)
  show ?thesis unfolding table_insert_chain [OF N]
    by (rule lookup_update [OF assms]) (auto simp: chain_assign_map Rep_ascii_key_inject Let_def)
qed

lemma lookup_table_delete:
  assumes "table_ok N t"
  shows "table_lookup N (table_delete N k t) x = (if x = k then None else table_lookup N t x)"
proof -
  have N: "0 < N" using assms by (simp add: table_ok_def)
  have d: "distinct (map fst (t ! key_slot N k))" using assms key_slot(2) [OF N] by (simp add: table_ok_def)
  show ?thesis unfolding table_delete_chain [OF N]
    by (rule lookup_update [OF assms]) (simp add: chain_delete_map [OF d] Rep_ascii_key_inject)
qed

interpretation hash_map: deletable_map "table_lookup N" "table_insert N" "table_ok N" "table_delete N" for N
  by unfold_locales (simp_all add: table_ok_insert lookup_table_insert table_ok_delete lookup_table_delete)

lemma table_ok_init: "0 < N \<Longrightarrow> table_ok N (htInit N)"
  by (simp add: table_ok_def htInit_def)

text \<open>
  C12. Under any sequence of insertions and deletions of ASCII keys, for which \<^verbatim>\<open>malloc\<close> succeeds, a table of any size
  answers as a map does, searching and reading, and every key stays in its own chain, once.
\<close>

theorem hash_refines_map:
  fixes cmds :: "(ascii_key, 'd) map_cmd list"
  assumes "0 < N"
  shows "table_ok N (fold (hash_map.perform N) cmds (htInit N))
    \<and> table_lookup N (fold (hash_map.perform N) cmds (htInit N)) = fold cmd_map cmds Map.empty
    \<and> (\<forall>k. htRead N (Rep_ascii_key k) (fold (hash_map.perform N) cmds (htInit N)) = Some (fold cmd_map cmds Map.empty k))"
proof -
  have read: "htRead N (Rep_ascii_key k) t = Some (table_lookup N t k)" for k and t :: "'d chain list"
    using assms by (simp add: htRead_def htSearch_def table_lookup_def key_slot split: option.split)
  have "table_lookup N (htInit N :: 'd chain list) = (\<lambda>k. None)"
    using assms key_slot(2) [OF assms] by (simp add: fun_eq_iff table_lookup_chain htInit_def)
  then show ?thesis using hash_map.perform_all [OF table_ok_init [OF assms], of cmds] by (simp add: read)
qed

theorem hash_refines_map_witness:
  "\<forall>k l x. htRead 3 (Rep_ascii_key x) (fold (hash_map.perform 3) [Put k (1 :: int), Put l 2, Del l] (htInit 3))
    = Some (if x = k \<and> k \<noteq> l then Some 1 else None)"
proof (intro allI)
  fix k l x :: ascii_key
  show "htRead 3 (Rep_ascii_key x) (fold (hash_map.perform 3) [Put k (1 :: int), Put l 2, Del l] (htInit 3))
      = Some (if x = k \<and> k \<noteq> l then Some 1 else None)"
    using hash_refines_map [of 3 "[Put k (1 :: int), Put l 2, Del l]"] by auto
qed

text \<open>
  The character \<open>0xE8\<close> is negative: the hash code of the key of this one character is
  -23 in every table of more than 23 chains, and searching or inserting it reads outside the
  array.
\<close>

theorem non_ascii_outside:
  assumes "23 < N"
  shows "hashCode N [0xE8] = - 23 \<and> htSearch N [0xE8] t = None \<and> htInsert mem N [0xE8] d t = None"
proof -
  have "hashCode N [0xE8] = - 23"
    using assms by (simp add: hashCode_def signed_modulo_int_def)
  then show ?thesis by (simp add: htSearch_def htInsert_def hash_index_def)
qed

theorem non_ascii_outside_witness: "htSearch 101 [0xE8] (htInit 101 :: int chain list) = None"
  using non_ascii_outside [of 101 "htInit 101 :: int chain list" True 0] by simp

end
