(* ===== verification/Array_Queue.thy ===== *)
theory Array_Queue
  imports Prelude
begin

text \<open>
  The queue of \<^verbatim>\<open>IAL/c203.c\<close>: a circular array of \<open>N\<close> = \<^verbatim>\<open>QUEUE_SIZE\<close> characters with the
  index of the first element and of the first free place, and the global error flag. The
  interface of a queue of bounded room is a locale; its lemma on runs of operations holds
  for the array by interpretation. The theorem: every sequence of operations behaves as on a list of
  \<open>N - 1\<close> places, also when the indices go round the array, and a refused operation raises the error flag.
\<close>

section \<open>The interface of a bounded queue\<close>

text \<open>
  A client puts and takes in any order. \<open>ideal_ops\<close> is what it sees of a list of bounded
  room: the elements that it takes (\<open>None\<close>: there is none), whether an operation was refused,
  and the list that is left.
\<close>

datatype 'a queue_op = Put 'a | Take

fun ideal_ops :: "nat \<Rightarrow> 'a queue_op list \<Rightarrow> 'a list \<Rightarrow> 'a option list \<times> bool \<times> 'a list" where
  "ideal_ops n [] xs = ([], False, xs)"
| "ideal_ops n (Put x # ops) xs =
     (if length xs < n then ideal_ops n ops (xs @ [x])
      else let (outs, e, ys) = ideal_ops n ops xs in (outs, True, ys))"
| "ideal_ops n (Take # ops) xs =
     (case xs of
        [] \<Rightarrow> let (outs, e, ys) = ideal_ops n ops [] in (None # outs, True, ys)
      | x # xs' \<Rightarrow> let (outs, e, ys) = ideal_ops n ops xs' in (Some x # outs, e, ys))"

locale bounded_queue =
  fixes items :: "'q \<Rightarrow> 'a list" and room :: "'q \<Rightarrow> nat" and ok :: "'q \<Rightarrow> bool" and failed :: "'q \<Rightarrow> bool"
    and enq :: "'a \<Rightarrow> 'q \<Rightarrow> 'q" and deq :: "'q \<Rightarrow> 'a option \<times> 'q"
  assumes ok_enq: "ok q \<Longrightarrow> ok (enq x q) \<and> room (enq x q) = room q"
    and items_enq: "ok q \<Longrightarrow> items (enq x q) = (if length (items q) < room q then items q @ [x] else items q)"
    and failed_enq: "ok q \<Longrightarrow> failed (enq x q) \<longleftrightarrow> failed q \<or> \<not> length (items q) < room q"
    and ok_deq: "ok q \<Longrightarrow> ok (snd (deq q)) \<and> room (snd (deq q)) = room q"
    and items_deq: "ok q \<Longrightarrow> items (snd (deq q)) = tl (items q)"
    and failed_deq: "ok q \<Longrightarrow> failed (snd (deq q)) \<longleftrightarrow> failed q \<or> items q = []"
    and deq_value: "ok q \<Longrightarrow> fst (deq q) = (case items q of [] \<Rightarrow> None | x # _ \<Rightarrow> Some x)"
begin

fun run_ops :: "'a queue_op list \<Rightarrow> 'q \<Rightarrow> 'a option list \<times> 'q" where
  "run_ops [] q = ([], q)"
| "run_ops (Put x # ops) q = run_ops ops (enq x q)"
| "run_ops (Take # ops) q = (let (y, q1) = deq q; (outs, q2) = run_ops ops q1 in (y # outs, q2))"

lemma run_ops_ideal:
  "ok q \<Longrightarrow> ideal_ops (room q) ops (items q) = (outs, e, ys) \<Longrightarrow>
    fst (run_ops ops q) = outs \<and> items (snd (run_ops ops q)) = ys \<and> ok (snd (run_ops ops q))
      \<and> (failed (snd (run_ops ops q)) \<longleftrightarrow> failed q \<or> e)"
proof (induction ops arbitrary: q outs e ys)
  case (Cons op ops)
  show ?case
  proof (cases op)
    case (Put x)
    then show ?thesis
      using Cons.IH [of "enq x q"] Cons.prems ok_enq [of q x] items_enq [of q x] failed_enq [of q x]
      by (auto split: if_splits prod.splits)
  next
    case Take
    obtain y q1 where d: "deq q = (y, q1)" by fastforce
    then show ?thesis
      using Take Cons.IH [of q1] Cons.prems ok_deq [of q] items_deq [of q] failed_deq [of q] deq_value [of q]
      by (auto split: list.splits prod.splits)
  qed
qed simp

end

section \<open>The circular array\<close>

record tQueue =
  q_arr :: string
  f_index :: nat
  b_index :: nat
  err_flag :: bool

definition queueError :: "tQueue \<Rightarrow> tQueue" where
  "queueError q = q\<lparr>err_flag := True\<rparr>"

text \<open>The field \<open>err_flag\<close> is the global variable of that name, which initialisation keeps.\<close>

definition queueInit :: "nat \<Rightarrow> tQueue \<Rightarrow> tQueue" where
  "queueInit N q = q\<lparr>q_arr := replicate N CHR ''*'' @ drop N (q_arr q), f_index := 0, b_index := 0\<rparr>"

definition nextIndex :: "nat \<Rightarrow> nat \<Rightarrow> nat" where
  "nextIndex N index = (index + 1) mod N"

definition queueEmpty :: "tQueue \<Rightarrow> bool" where
  "queueEmpty q \<longleftrightarrow> f_index q = b_index q"

definition queueFull :: "nat \<Rightarrow> tQueue \<Rightarrow> bool" where
  "queueFull N q \<longleftrightarrow> nextIndex N (b_index q) = f_index q"

text \<open>\<open>None\<close>: the character behind the pointer is not set.\<close>

definition queueFront :: "tQueue \<Rightarrow> char option \<times> tQueue" where
  "queueFront q = (if queueEmpty q then (None, queueError q) else (Some (q_arr q ! f_index q), q))"

definition queueRemove :: "nat \<Rightarrow> tQueue \<Rightarrow> tQueue" where
  "queueRemove N q = (if queueEmpty q then queueError q else q\<lparr>f_index := nextIndex N (f_index q)\<rparr>)"

definition queueGet :: "nat \<Rightarrow> tQueue \<Rightarrow> char option \<times> tQueue" where
  "queueGet N q =
     (if queueEmpty q then (None, queueError q)
      else let (c, q1) = queueFront q in (c, queueRemove N q1))"

definition queueUp :: "nat \<Rightarrow> char \<Rightarrow> tQueue \<Rightarrow> tQueue" where
  "queueUp N c q =
     (if queueFull N q then queueError q
      else q\<lparr>q_arr := (q_arr q)[b_index q := c], b_index := nextIndex N (b_index q)\<rparr>)"

section \<open>The elements\<close>

definition queue_ok :: "nat \<Rightarrow> tQueue \<Rightarrow> bool" where
  "queue_ok N q \<longleftrightarrow> length (q_arr q) = N \<and> f_index q < N \<and> b_index q < N"

definition queue_length :: "nat \<Rightarrow> tQueue \<Rightarrow> nat" where
  "queue_length N q = (if f_index q \<le> b_index q then b_index q - f_index q else N + b_index q - f_index q)"

definition queue_items :: "nat \<Rightarrow> tQueue \<Rightarrow> string" where
  "queue_items N q = map (\<lambda>i. q_arr q ! ((f_index q + i) mod N)) [0..<queue_length N q]"

lemma next_cases: "i < N \<Longrightarrow> nextIndex N i = (if i + 1 = N then 0 else i + 1)"
  by (auto simp: nextIndex_def)

lemma add_mod_cases: "f < N \<Longrightarrow> i < N \<Longrightarrow> (f + i) mod N = (if f + i < N then f + i else f + i - N)" for N :: nat
  by (auto simp: le_mod_geq not_less)

lemma length_less: "queue_ok N q \<Longrightarrow> queue_length N q < N"
  by (auto simp: queue_ok_def queue_length_def)

lemma full_length: "queue_ok N q \<Longrightarrow> queueFull N q \<longleftrightarrow> queue_length N q = N - 1"
  by (auto simp: queue_ok_def queue_length_def queueFull_def next_cases split: if_splits)

lemma empty_length: "queue_ok N q \<Longrightarrow> queueEmpty q \<longleftrightarrow> queue_length N q = 0"
  by (auto simp: queue_ok_def queue_length_def queueEmpty_def split: if_splits)

lemma queue_ok_up: "queue_ok N q \<Longrightarrow> queue_ok N (queueUp N c q)"
  by (auto simp: queue_ok_def queueUp_def queueError_def next_cases)

lemma queue_ok_get: "queue_ok N q \<Longrightarrow> queue_ok N (snd (queueGet N q))"
  by (auto simp: queue_ok_def queueGet_def queueFront_def queueRemove_def queueError_def next_cases)

lemma last_slot: "queue_ok N q \<Longrightarrow> (f_index q + queue_length N q) mod N = b_index q"
  by (auto simp: queue_ok_def queue_length_def)

lemma slot_differs:
  assumes "queue_ok N q" "i < queue_length N q"
  shows "(f_index q + i) mod N \<noteq> b_index q"
  using assms length_less [OF assms(1)]
  by (auto simp: queue_ok_def queue_length_def add_mod_cases split: if_splits)

lemma items_error [simp]: "queue_items N (queueError q) = queue_items N q"
  by (simp add: queue_items_def queue_length_def queueError_def)

lemma length_items: "length (queue_items N q) = queue_length N q"
  by (simp add: queue_items_def)

lemma items_up:
  assumes "queue_ok N q"
  shows "queue_items N (queueUp N c q)
    = (if length (queue_items N q) < N - 1 then queue_items N q @ [c] else queue_items N q)"
proof (cases "queueFull N q")
  case True
  then show ?thesis
    using full_length [OF assms] by (simp add: queueUp_def length_items)
next
  case False
  let ?q = "queueUp N c q"
  have len: "queue_length N q < N - 1"
    using False full_length [OF assms] length_less [OF assms] by simp
  have q: "q_arr ?q = (q_arr q)[b_index q := c]" "f_index ?q = f_index q" "b_index ?q = nextIndex N (b_index q)"
    using False by (simp_all add: queueUp_def)
  have "queue_length N ?q = Suc (queue_length N q)"
    using assms len False q by (auto simp: queue_ok_def queue_length_def queueFull_def next_cases split: if_splits)
  moreover have "q_arr ?q ! ((f_index q + i) mod N) = q_arr q ! ((f_index q + i) mod N)" if "i < queue_length N q" for i
    using slot_differs [OF assms that] q(1) by simp
  moreover have "q_arr ?q ! ((f_index q + queue_length N q) mod N) = c"
    using last_slot [OF assms] assms q(1) by (simp add: queue_ok_def)
  ultimately show ?thesis using len q(2) by (simp add: queue_items_def)
qed

lemma items_get:
  assumes "queue_ok N q"
  shows "queue_items N (snd (queueGet N q)) = tl (queue_items N q)
    \<and> fst (queueGet N q) = (case queue_items N q of [] \<Rightarrow> None | x # _ \<Rightarrow> Some x)"
proof (cases "queueEmpty q")
  case True
  then show ?thesis
    using empty_length [OF assms] length_items [of N q] by (simp add: queueGet_def)
next
  case False
  let ?q = "snd (queueGet N q)"
  have q: "q_arr ?q = q_arr q" "f_index ?q = nextIndex N (f_index q)" "b_index ?q = b_index q"
    using False by (simp_all add: queueGet_def queueFront_def queueRemove_def)
  obtain n where n: "queue_length N q = Suc n" using False empty_length [OF assms] not0_implies_Suc by blast
  have "queue_length N ?q = n"
    using assms n q by (auto simp: queue_ok_def queue_length_def next_cases split: if_splits)
  moreover have "(nextIndex N (f_index q) + i) mod N = (f_index q + Suc i) mod N" for i
    by (simp add: nextIndex_def mod_simps)
  ultimately have "queue_items N ?q = tl (queue_items N q)"
    using n q by (simp add: queue_items_def map_tl [symmetric] upt_rec [of 0] map_Suc_upt [symmetric] comp_def del: upt_Suc)
  moreover have "queue_items N q = q_arr q ! f_index q # tl (queue_items N q)"
    using n assms by (simp add: queue_items_def queue_ok_def upt_rec [of 0] del: upt_Suc)
  ultimately show ?thesis
    using False by (auto simp: queueGet_def queueFront_def split: list.splits)
qed

lemma error_up: "queue_ok N q \<Longrightarrow> err_flag (queueUp N c q) \<longleftrightarrow> err_flag q \<or> \<not> length (queue_items N q) < N - 1"
  using full_length [of N q] length_less [of N q] by (auto simp: queueUp_def queueError_def length_items)

lemma error_get: "queue_ok N q \<Longrightarrow> err_flag (snd (queueGet N q)) \<longleftrightarrow> err_flag q \<or> queue_items N q = []"
  using empty_length [of N q] by (auto simp: queueGet_def queueFront_def queueRemove_def queueError_def queue_items_def)

interpretation cq: bounded_queue "queue_items N" "\<lambda>_. N - 1" "queue_ok N" err_flag "queueUp N" "queueGet N" for N
  by unfold_locales (simp_all add: queue_ok_up items_up queue_ok_get items_get error_up error_get)

lemma queue_ok_init:
  assumes "0 < N" "length (q_arr q) = N"
  shows "queue_ok N (queueInit N q) \<and> queue_items N (queueInit N q) = []"
  using assms by (simp add: queue_ok_def queueInit_def queue_items_def queue_length_def)

text \<open>
  C19. Whatever is put into a well-formed queue and taken from it, in any order and for any
  number of operations, so however often the indices pass the end of the array: the characters come out as from a list of
  \<open>N - 1\<close> places, first in first out, the queue is empty exactly when that list is, and the error flag is raised exactly when an
  operation had to be refused. A fresh queue is one of no characters.
\<close>

theorem queue_fifo:
  assumes "queue_ok N q" "ideal_ops (N - 1) ops (queue_items N q) = (outs, e, ys)"
  shows "fst (cq.run_ops N ops q) = outs
    \<and> queue_items N (snd (cq.run_ops N ops q)) = ys
    \<and> (queueEmpty (snd (cq.run_ops N ops q)) \<longleftrightarrow> ys = [])
    \<and> (err_flag (snd (cq.run_ops N ops q)) \<longleftrightarrow> err_flag q \<or> e)"
proof -
  have "queueEmpty r \<longleftrightarrow> queue_items N r = []" if "queue_ok N r" for r
    using empty_length [OF that] by (simp add: queue_items_def)
  then show ?thesis using cq.run_ops_ideal [OF assms] by simp
qed

text \<open>Four characters go through an array of three places, the fifth operation is refused.\<close>

theorem queue_fifo_witness:
  "fst (cq.run_ops 3 [Put CHR ''a'', Put CHR ''b'', Take, Put CHR ''c'', Put CHR ''d'', Take, Put CHR ''e'', Take, Take]
      (queueInit 3 \<lparr>q_arr = ''xyz'', f_index = 1, b_index = 2, err_flag = False\<rparr>))
    = [Some CHR ''a'', Some CHR ''b'', Some CHR ''c'', Some CHR ''e'']"
proof -
  let ?q = "queueInit 3 \<lparr>q_arr = ''xyz'', f_index = 1, b_index = 2, err_flag = False\<rparr>"
  let ?ops = "[Put CHR ''a'', Put CHR ''b'', Take, Put CHR ''c'', Put CHR ''d'', Take, Put CHR ''e'', Take, Take]"
  have ok: "queue_ok 3 ?q" "queue_items 3 ?q = []" by (simp_all add: queue_ok_init)
  have "ideal_ops (3 - 1) ?ops (queue_items 3 ?q) = ([Some CHR ''a'', Some CHR ''b'', Some CHR ''c'', Some CHR ''e''], True, [])"
    unfolding ok(2) by simp
  from queue_fifo [OF ok(1) this] show ?thesis by blast
qed

text \<open>
  The error flag is raised exactly when a character is put into a queue of \<open>N - 1\<close>
  characters or taken from one of none; the queue keeps its elements then.
\<close>

theorem queue_errors:
  assumes "queue_ok N q" "\<not> err_flag q"
  shows "(err_flag (queueUp N c q) \<longleftrightarrow> length (queue_items N q) = N - 1)
    \<and> (err_flag (snd (queueGet N q)) \<longleftrightarrow> queue_items N q = [])
    \<and> (err_flag (snd (queueFront q)) \<longleftrightarrow> queue_items N q = [])
    \<and> (err_flag (queueRemove N q) \<longleftrightarrow> queue_items N q = [])"
  using assms full_length [OF assms(1)] empty_length [OF assms(1)]
  by (auto simp: queueUp_def queueGet_def queueFront_def queueRemove_def queueError_def queue_items_def)

theorem queue_errors_witness:
  "err_flag (queueUp 3 CHR ''c'' \<lparr>q_arr = ''xyz'', f_index = 1, b_index = 0, err_flag = False\<rparr>)"
proof -
  let ?q = "\<lparr>q_arr = ''xyz'', f_index = 1, b_index = 0, err_flag = False\<rparr>"
  have "queue_ok 3 ?q" "\<not> err_flag ?q" by (simp_all add: queue_ok_def)
  from queue_errors [OF this, of "CHR ''c''"] show ?thesis by (simp add: queue_items_def queue_length_def)
qed

end
