(* ===== verification/Cursor_List.thy ===== *)
theory Cursor_List
  imports Prelude
begin

text \<open>
  What the two linked lists of \<^verbatim>\<open>IAL/c201.c\<close> and \<^verbatim>\<open>IAL/c206.c\<close> promise: a list of integers
  with an active element or none, an error flag and the variable that values are copied to.
  The commands act on it by plain list functions. A locale states the contract of a list
  implementation, one step at a time, and lifts it to runs; the theories of the two lists
  interpret it.
\<close>

datatype place = Off "int list" | At "int list" int "int list"

record cursor =
  cu_place :: place
  cu_err :: bool
  cu_val :: int

datatype cursor_cmd = Dispose_list | Insert_first int | Insert_last int | To_first | To_last | Copy_first | Copy_last
  | Delete_first | Delete_last | Post_delete | Pre_delete | Post_insert int | Pre_insert int | Copy_act | Actualize_act int
  | To_succ | To_pred

fun contents :: "place \<Rightarrow> int list" where
  "contents (Off xs) = xs"
| "contents (At us d vs) = us @ d # vs"

fun place_step :: "cursor_cmd \<Rightarrow> place \<Rightarrow> place" where
  "place_step Dispose_list p = Off []"
| "place_step (Insert_first v) p = (case p of Off xs \<Rightarrow> Off (v # xs) | At us d vs \<Rightarrow> At (v # us) d vs)"
| "place_step (Insert_last v) p = (case p of Off xs \<Rightarrow> Off (xs @ [v]) | At us d vs \<Rightarrow> At us d (vs @ [v]))"
| "place_step To_first p = (case contents p of [] \<Rightarrow> p | x # xs \<Rightarrow> At [] x xs)"
| "place_step To_last p = (if contents p = [] then p else At (butlast (contents p)) (last (contents p)) [])"
| "place_step Delete_first p = (case p of Off xs \<Rightarrow> Off (tl xs) | At [] d vs \<Rightarrow> Off vs | At (u # us) d vs \<Rightarrow> At us d vs)"
| "place_step Delete_last p =
     (case p of Off xs \<Rightarrow> Off (butlast xs) | At us d vs \<Rightarrow> if vs = [] then Off us else At us d (butlast vs))"
| "place_step Post_delete p = (case p of Off xs \<Rightarrow> p | At us d vs \<Rightarrow> At us d (tl vs))"
| "place_step Pre_delete p = (case p of Off xs \<Rightarrow> p | At us d vs \<Rightarrow> At (butlast us) d vs)"
| "place_step (Post_insert v) p = (case p of Off xs \<Rightarrow> p | At us d vs \<Rightarrow> At us d (v # vs))"
| "place_step (Pre_insert v) p = (case p of Off xs \<Rightarrow> p | At us d vs \<Rightarrow> At (us @ [v]) d vs)"
| "place_step (Actualize_act v) p = (case p of Off xs \<Rightarrow> p | At us d vs \<Rightarrow> At us v vs)"
| "place_step To_succ p = (case p of Off xs \<Rightarrow> p | At us d [] \<Rightarrow> Off (us @ [d]) | At us d (v # vs) \<Rightarrow> At (us @ [d]) v vs)"
| "place_step To_pred p = (case p of Off xs \<Rightarrow> p
     | At us d vs \<Rightarrow> if us = [] then Off (d # vs) else At (butlast us) (last us) (d # vs))"
| "place_step cmd p = p"

text \<open>The value a command copies: \<open>None\<close> is the error.\<close>

fun copied :: "cursor_cmd \<Rightarrow> place \<Rightarrow> int option option" where
  "copied Copy_first p = Some (case contents p of [] \<Rightarrow> None | x # _ \<Rightarrow> Some x)"
| "copied Copy_last p = Some (if contents p = [] then None else Some (last (contents p)))"
| "copied Copy_act p = Some (case p of Off xs \<Rightarrow> None | At us d vs \<Rightarrow> Some d)"
| "copied cmd p = None"

definition cursor_step :: "cursor_cmd \<Rightarrow> cursor \<Rightarrow> cursor" where
  "cursor_step cmd z =
     (let z1 = z\<lparr>cu_place := place_step cmd (cu_place z)\<rparr>
      in case copied cmd (cu_place z) of
           None \<Rightarrow> z1
         | Some None \<Rightarrow> z1\<lparr>cu_err := True\<rparr>
         | Some (Some v) \<Rightarrow> z1\<lparr>cu_val := v\<rparr>)"

locale cursor_refinement =
  fixes step :: "cursor_cmd \<Rightarrow> 's \<Rightarrow> 's option" and rel :: "'s \<Rightarrow> cursor \<Rightarrow> bool" and legal :: "cursor_cmd \<Rightarrow> bool"
  assumes step_rel: "rel s z \<Longrightarrow> legal cmd \<Longrightarrow> \<exists>s'. step cmd s = Some s' \<and> rel s' (cursor_step cmd z)"
begin

fun run :: "cursor_cmd list \<Rightarrow> 's \<Rightarrow> 's option" where
  "run [] s = Some s"
| "run (cmd # cmds) s = Option.bind (step cmd s) (run cmds)"

lemma run_rel:
  "rel s z \<Longrightarrow> \<forall>cmd \<in> set cmds. legal cmd \<Longrightarrow> \<exists>s'. run cmds s = Some s' \<and> rel s' (fold cursor_step cmds z)"
proof (induction cmds arbitrary: s z)
  case (Cons cmd cmds)
  obtain s1 where "step cmd s = Some s1" "rel s1 (cursor_step cmd z)" using step_rel [OF Cons.prems(1)] Cons.prems(2) by auto
  then show ?case using Cons.IH [of s1] Cons.prems(2) by simp
qed simp

end

section \<open>Allocation\<close>

text \<open>
  \<^verbatim>\<open>malloc\<close> as a function of the heap: the address it returns is not in use. \<open>good_malloc\<close>
  is a \<^verbatim>\<open>malloc\<close> that never runs out.
\<close>

type_synonym addr = nat

definition good_malloc :: "((addr \<rightharpoonup> 'c) \<Rightarrow> addr option) \<Rightarrow> bool" where
  "good_malloc malloc \<longleftrightarrow> (\<forall>h. finite (dom h) \<longrightarrow> (\<exists>a. malloc h = Some a \<and> h a = None))"

lemma good_mallocD: "good_malloc malloc \<Longrightarrow> finite (dom h) \<Longrightarrow> \<exists>a. malloc h = Some a \<and> a \<notin> dom h"
  by (auto simp: good_malloc_def)

definition next_free :: "(addr \<rightharpoonup> 'c) \<Rightarrow> addr option" where
  "next_free h = Some (Suc (Max (insert 0 (dom h))))"

lemma good_next_free: "good_malloc next_free"
proof (unfold good_malloc_def, intro allI impI)
  fix h :: "addr \<rightharpoonup> 'c" assume "finite (dom h)"
  then have "Suc (Max (insert 0 (dom h))) \<notin> dom h"
    by (metis Max_ge Suc_n_not_le_n finite_insert insertCI)
  then show "\<exists>a. next_free h = Some a \<and> h a = None" by (auto simp: next_free_def domIff)
qed

section \<open>Pointers\<close>

text \<open>\<^verbatim>\<open>a->field = ...\<close> and \<^verbatim>\<open>free(a)\<close>.\<close>

definition modify :: "addr \<Rightarrow> ('c \<Rightarrow> 'c) \<Rightarrow> (addr \<rightharpoonup> 'c) \<Rightarrow> (addr \<rightharpoonup> 'c) option" where
  "modify a f h = (case h a of None \<Rightarrow> None | Some c \<Rightarrow> Some (h(a \<mapsto> f c)))"

definition deref :: "addr option \<Rightarrow> (addr \<rightharpoonup> 'c) \<Rightarrow> 'c option" where
  "deref p h = (case p of None \<Rightarrow> None | Some a \<Rightarrow> h a)"

definition free :: "addr option \<Rightarrow> (addr \<rightharpoonup> 'c) \<Rightarrow> (addr \<rightharpoonup> 'c) option" where
  "free p h = (case p of None \<Rightarrow> Some h | Some a \<Rightarrow> if h a = None then None else Some (h(a := None)))"

lemma deref_simps [simp]: "deref None h = None" "deref (Some a) h = h a"
  by (simp_all add: deref_def)

lemma modify_Some [simp]: "h a = Some c \<Longrightarrow> modify a f h = Some (h(a \<mapsto> f c))"
  by (simp add: modify_def)

lemma free_Some [simp]: "h a = Some c \<Longrightarrow> free (Some a) h = Some (h(a := None))"
  by (simp add: free_def)

lemma drop_only: "dom h = {a} \<Longrightarrow> h(a := None) = (\<lambda>x. None)"
  by (auto simp: fun_eq_iff domIff)

text \<open>A chain of cells is the list of their addresses and values; the pointer to the first of them.\<close>

fun head_ptr :: "(addr \<times> int) list \<Rightarrow> addr option \<Rightarrow> addr option" where
  "head_ptr [] n = n"
| "head_ptr (x # xs) n = Some (fst x)"

lemma head_ptr_append [simp]: "head_ptr (xs @ ys) n = head_ptr xs (head_ptr ys n)"
  by (cases xs) auto

lemma fst_mem [dest]: "(a, b) \<in> set xs \<Longrightarrow> a \<in> fst ` set xs"
  by force


end
