(* ===== verification/Double_List.thy ===== *)
theory Double_List
  imports Cursor_List
begin

text \<open>
  The doubly linked list of \<^verbatim>\<open>IAL/c206.c\<close> on an explicit heap. \<open>None\<close> is a null pointer; an
  operation yields \<open>None\<close> when it follows a null or freed pointer. The list that the code
  passes by address is a record, with the global error flag and the variable that values
  are copied to. The theorem: under any sequence of operations no pointer is followed that
  is not valid, no element leaks, and the list is what \<open>Cursor_List\<close> promises.
\<close>

section \<open>The operations\<close>

record cell =
  lptr :: "addr option"
  rptr :: "addr option"
  el_data :: int

record tDLList =
  dl_heap :: "addr \<rightharpoonup> cell"
  First :: "addr option"
  Act :: "addr option"
  Last :: "addr option"
  errflg :: bool
  dl_val :: int

definition DLError :: "tDLList \<Rightarrow> tDLList" where
  "DLError L = L\<lparr>errflg := True\<rparr>"

definition DLInitList :: "tDLList \<Rightarrow> tDLList" where
  "DLInitList L = L\<lparr>First := None, Act := None, Last := None\<rparr>"

partial_function (option) dispose_items :: "addr option \<Rightarrow> (addr \<rightharpoonup> cell) \<Rightarrow> (addr \<rightharpoonup> cell) option" where
  "dispose_items item h =
     (if item = None then Some h
      else do { c \<leftarrow> deref item h; h1 \<leftarrow> free item h; dispose_items (rptr c) h1 })"

definition DLDisposeList :: "tDLList \<Rightarrow> tDLList option" where
  "DLDisposeList L = do {
     h \<leftarrow> dispose_items (First L) (dl_heap L);
     Some (L\<lparr>dl_heap := h, Act := None, First := None, Last := None\<rparr>) }"

definition DLInsertFirst :: "((addr \<rightharpoonup> cell) \<Rightarrow> addr option) \<Rightarrow> int \<Rightarrow> tDLList \<Rightarrow> tDLList option" where
  "DLInsertFirst malloc val L =
     (case malloc (dl_heap L) of
        None \<Rightarrow> Some (DLError L)
      | Some item \<Rightarrow>
          (let h = (dl_heap L)(item \<mapsto> \<lparr>lptr = None, rptr = First L, el_data = val\<rparr>) in
           case First L of
             Some f \<Rightarrow> do { h1 \<leftarrow> modify f (\<lambda>c. c\<lparr>lptr := Some item\<rparr>) h; Some (L\<lparr>dl_heap := h1, First := Some item\<rparr>) }
           | None \<Rightarrow> Some (L\<lparr>dl_heap := h, Last := Some item, First := Some item\<rparr>)))"

definition DLInsertLast :: "((addr \<rightharpoonup> cell) \<Rightarrow> addr option) \<Rightarrow> int \<Rightarrow> tDLList \<Rightarrow> tDLList option" where
  "DLInsertLast malloc val L =
     (case malloc (dl_heap L) of
        None \<Rightarrow> Some (DLError L)
      | Some item \<Rightarrow>
          (let h = (dl_heap L)(item \<mapsto> \<lparr>lptr = Last L, rptr = None, el_data = val\<rparr>) in
           case Last L of
             Some l \<Rightarrow> do { h1 \<leftarrow> modify l (\<lambda>c. c\<lparr>rptr := Some item\<rparr>) h; Some (L\<lparr>dl_heap := h1, Last := Some item\<rparr>) }
           | None \<Rightarrow> Some (L\<lparr>dl_heap := h, First := Some item, Last := Some item\<rparr>)))"

definition DLFirst :: "tDLList \<Rightarrow> tDLList" where
  "DLFirst L = L\<lparr>Act := First L\<rparr>"

definition DLLast :: "tDLList \<Rightarrow> tDLList" where
  "DLLast L = L\<lparr>Act := Last L\<rparr>"

definition DLCopyFirst :: "tDLList \<Rightarrow> tDLList option" where
  "DLCopyFirst L =
     (if First L = None then Some (DLError L)
      else do { c \<leftarrow> deref (First L) (dl_heap L); Some (L\<lparr>dl_val := el_data c\<rparr>) })"

definition DLCopyLast :: "tDLList \<Rightarrow> tDLList option" where
  "DLCopyLast L =
     (if Last L = None then Some (DLError L)
      else do { c \<leftarrow> deref (Last L) (dl_heap L); Some (L\<lparr>dl_val := el_data c\<rparr>) })"

definition DLDeleteFirst :: "tDLList \<Rightarrow> tDLList option" where
  "DLDeleteFirst L =
     (if First L = None then Some L
      else do {
        let L1 = (if First L = Act L then L\<lparr>Act := None\<rparr> else L);
        let freed = First L;
        let L2 = (if First L1 = Last L1 then L1\<lparr>Last := None\<rparr> else L1);
        c \<leftarrow> deref (First L2) (dl_heap L2);
        let L3 = L2\<lparr>First := rptr c\<rparr>;
        h \<leftarrow> (case First L3 of None \<Rightarrow> Some (dl_heap L3) | Some f \<Rightarrow> modify f (\<lambda>c. c\<lparr>lptr := None\<rparr>) (dl_heap L3));
        h1 \<leftarrow> free freed h;
        Some (L3\<lparr>dl_heap := h1\<rparr>)
      })"

definition DLDeleteLast :: "tDLList \<Rightarrow> tDLList option" where
  "DLDeleteLast L =
     (if Last L = None then Some L
      else do {
        let L1 = (if Last L = Act L then L\<lparr>Act := None\<rparr> else L);
        let freed = Last L;
        c \<leftarrow> deref (Last L1) (dl_heap L1);
        let L2 = L1\<lparr>Last := lptr c\<rparr>;
        h \<leftarrow> (case Last L2 of None \<Rightarrow> Some (dl_heap L2) | Some l \<Rightarrow> modify l (\<lambda>c. c\<lparr>rptr := None\<rparr>) (dl_heap L2));
        let L3 = (if Last L2 = None then L2\<lparr>First := None\<rparr> else L2);
        h1 \<leftarrow> free freed h;
        Some (L3\<lparr>dl_heap := h1\<rparr>)
      })"

definition DLPostDelete :: "tDLList \<Rightarrow> tDLList option" where
  "DLPostDelete L =
     (if Act L = None \<or> Act L = Last L then Some L
      else do {
        act \<leftarrow> deref (Act L) (dl_heap L);
        let item = rptr act;
        it \<leftarrow> deref item (dl_heap L);
        case rptr it of
          Some r \<Rightarrow> do {
            h1 \<leftarrow> modify (the (Act L)) (\<lambda>c. c\<lparr>rptr := Some r\<rparr>) (dl_heap L);
            h2 \<leftarrow> modify r (\<lambda>c. c\<lparr>lptr := Act L\<rparr>) h1;
            h3 \<leftarrow> free item h2;
            Some (L\<lparr>dl_heap := h3\<rparr>)
          }
        | None \<Rightarrow> do {
            last \<leftarrow> lptr it;
            h1 \<leftarrow> modify last (\<lambda>c. c\<lparr>rptr := None\<rparr>) (dl_heap L);
            h2 \<leftarrow> free item h1;
            Some (L\<lparr>Last := Some last, dl_heap := h2\<rparr>)
          }
      })"

definition DLPreDelete :: "tDLList \<Rightarrow> tDLList option" where
  "DLPreDelete L =
     (if Act L = None \<or> Act L = First L then Some L
      else do {
        act \<leftarrow> deref (Act L) (dl_heap L);
        let item = lptr act;
        case (case item of None \<Rightarrow> None | Some i \<Rightarrow> Option.bind (dl_heap L i) lptr) of
          Some l \<Rightarrow> do {
            h1 \<leftarrow> modify (the (Act L)) (\<lambda>c. c\<lparr>lptr := Some l\<rparr>) (dl_heap L);
            h2 \<leftarrow> modify l (\<lambda>c. c\<lparr>rptr := Act L\<rparr>) h1;
            h3 \<leftarrow> free item h2;
            Some (L\<lparr>dl_heap := h3\<rparr>)
          }
        | None \<Rightarrow> do {
            h1 \<leftarrow> modify (the (Act L)) (\<lambda>c. c\<lparr>lptr := None\<rparr>) (dl_heap L);
            h2 \<leftarrow> free item h1;
            Some (L\<lparr>First := Act L, dl_heap := h2\<rparr>)
          }
      })"

definition DLPostInsert :: "((addr \<rightharpoonup> cell) \<Rightarrow> addr option) \<Rightarrow> int \<Rightarrow> tDLList \<Rightarrow> tDLList option" where
  "DLPostInsert malloc val L =
     (if Act L = None then Some L
      else case malloc (dl_heap L) of
        None \<Rightarrow> Some (DLError L)
      | Some item \<Rightarrow> do {
          act \<leftarrow> deref (Act L) (dl_heap L);
          let h = (dl_heap L)(item \<mapsto> \<lparr>lptr = Act L, rptr = rptr act, el_data = val\<rparr>);
          h1 \<leftarrow> modify (the (Act L)) (\<lambda>c. c\<lparr>rptr := Some item\<rparr>) h;
          case rptr act of
            Some r \<Rightarrow> do { h2 \<leftarrow> modify r (\<lambda>c. c\<lparr>lptr := Some item\<rparr>) h1; Some (L\<lparr>dl_heap := h2\<rparr>) }
          | None \<Rightarrow> Some (L\<lparr>Last := Some item, dl_heap := h1\<rparr>)
        })"

definition DLPreInsert :: "((addr \<rightharpoonup> cell) \<Rightarrow> addr option) \<Rightarrow> int \<Rightarrow> tDLList \<Rightarrow> tDLList option" where
  "DLPreInsert malloc val L =
     (if Act L = None then Some L
      else case malloc (dl_heap L) of
        None \<Rightarrow> Some (DLError L)
      | Some item \<Rightarrow> do {
          act \<leftarrow> deref (Act L) (dl_heap L);
          let h = (dl_heap L)(item \<mapsto> \<lparr>lptr = lptr act, rptr = Act L, el_data = val\<rparr>);
          h1 \<leftarrow> modify (the (Act L)) (\<lambda>c. c\<lparr>lptr := Some item\<rparr>) h;
          case lptr act of
            Some l \<Rightarrow> do { h2 \<leftarrow> modify l (\<lambda>c. c\<lparr>rptr := Some item\<rparr>) h1; Some (L\<lparr>dl_heap := h2\<rparr>) }
          | None \<Rightarrow> Some (L\<lparr>First := Some item, dl_heap := h1\<rparr>)
        })"

definition DLCopy :: "tDLList \<Rightarrow> tDLList option" where
  "DLCopy L =
     (if Act L = None then Some (DLError L)
      else do { c \<leftarrow> deref (Act L) (dl_heap L); Some (L\<lparr>dl_val := el_data c\<rparr>) })"

definition DLActualize :: "int \<Rightarrow> tDLList \<Rightarrow> tDLList option" where
  "DLActualize val L =
     (case Act L of
        None \<Rightarrow> Some L
      | Some a \<Rightarrow> do { h \<leftarrow> modify a (\<lambda>c. c\<lparr>el_data := val\<rparr>) (dl_heap L); Some (L\<lparr>dl_heap := h\<rparr>) })"

definition DLSucc :: "tDLList \<Rightarrow> tDLList option" where
  "DLSucc L =
     (if Act L = None then Some L
      else do { c \<leftarrow> deref (Act L) (dl_heap L); Some (L\<lparr>Act := rptr c\<rparr>) })"

definition DLPred :: "tDLList \<Rightarrow> tDLList option" where
  "DLPred L =
     (if Act L = None then Some L
      else do { c \<leftarrow> deref (Act L) (dl_heap L); Some (L\<lparr>Act := lptr c\<rparr>) })"

definition DLActive :: "tDLList \<Rightarrow> bool" where
  "DLActive L \<longleftrightarrow> Act L \<noteq> None"

fun dl_step :: "((addr \<rightharpoonup> cell) \<Rightarrow> addr option) \<Rightarrow> cursor_cmd \<Rightarrow> tDLList \<Rightarrow> tDLList option" where
  "dl_step m Dispose_list L = DLDisposeList L"
| "dl_step m (Insert_first v) L = DLInsertFirst m v L"
| "dl_step m (Insert_last v) L = DLInsertLast m v L"
| "dl_step m To_first L = Some (DLFirst L)"
| "dl_step m To_last L = Some (DLLast L)"
| "dl_step m Copy_first L = DLCopyFirst L"
| "dl_step m Copy_last L = DLCopyLast L"
| "dl_step m Delete_first L = DLDeleteFirst L"
| "dl_step m Delete_last L = DLDeleteLast L"
| "dl_step m Post_delete L = DLPostDelete L"
| "dl_step m Pre_delete L = DLPreDelete L"
| "dl_step m (Post_insert v) L = DLPostInsert m v L"
| "dl_step m (Pre_insert v) L = DLPreInsert m v L"
| "dl_step m Copy_act L = DLCopy L"
| "dl_step m (Actualize_act v) L = DLActualize v L"
| "dl_step m To_succ L = DLSucc L"
| "dl_step m To_pred L = DLPred L"

section \<open>Segments of linked cells\<close>

definition last_ptr :: "addr option \<Rightarrow> (addr \<times> int) list \<Rightarrow> addr option" where
  "last_ptr p xs = (if xs = [] then p else Some (fst (last xs)))"

fun seg :: "(addr \<rightharpoonup> cell) \<Rightarrow> addr option \<Rightarrow> (addr \<times> int) list \<Rightarrow> addr option \<Rightarrow> bool" where
  "seg h p [] n = True"
| "seg h p (x # xs) n = (h (fst x) = Some \<lparr>lptr = p, rptr = head_ptr xs n, el_data = snd x\<rparr> \<and> seg h (Some (fst x)) xs n)"

lemma last_ptr_simps [simp]:
  "last_ptr p [] = p" "last_ptr p (x # xs) = last_ptr (Some (fst x)) xs" "last_ptr p (xs @ ys) = last_ptr (last_ptr p xs) ys"
  by (auto simp: last_ptr_def)

lemma seg_append [simp]: "seg h p (xs @ ys) n \<longleftrightarrow> seg h p xs (head_ptr ys n) \<and> seg h (last_ptr p xs) ys n"
  by (induction xs arbitrary: p) auto

lemma seg_agree: "\<forall>a \<in> fst ` set xs. h' a = h a \<Longrightarrow> seg h' p xs n = seg h p xs n"
  by (induction xs arbitrary: p) auto

lemma seg_upd [simp]: "a \<notin> fst ` set xs \<Longrightarrow> seg (h(a := c)) p xs n = seg h p xs n"
  by (rule seg_agree) auto

text \<open>The links at the two ends of a segment.\<close>

lemma seg_set_prev:
  assumes "seg h p (x # xs) n" "fst x \<notin> fst ` set xs"
  shows "modify (fst x) (\<lambda>c. c\<lparr>lptr := q\<rparr>) h = Some (h(fst x \<mapsto> \<lparr>lptr = q, rptr = head_ptr xs n, el_data = snd x\<rparr>))"
    "seg (h(fst x \<mapsto> \<lparr>lptr = q, rptr = head_ptr xs n, el_data = snd x\<rparr>)) q (x # xs) n"
  using assms by (auto simp: modify_def)

lemma seg_set_next:
  assumes "seg h p (xs @ [x]) n" "fst x \<notin> fst ` set xs"
  shows "modify (fst x) (\<lambda>c. c\<lparr>rptr := m\<rparr>) h = Some (h(fst x \<mapsto> \<lparr>lptr = last_ptr p xs, rptr = m, el_data = snd x\<rparr>))"
    "seg (h(fst x \<mapsto> \<lparr>lptr = last_ptr p xs, rptr = m, el_data = snd x\<rparr>)) p (xs @ [x]) m"
  using assms by (auto simp: modify_def)

text \<open>The list on the heap is \<open>xs\<close>, and there is nothing else.\<close>

definition shape :: "tDLList \<Rightarrow> (addr \<times> int) list \<Rightarrow> bool" where
  "shape L xs \<longleftrightarrow> seg (dl_heap L) None xs None \<and> distinct (map fst xs) \<and> dom (dl_heap L) = fst ` set xs
     \<and> First L = head_ptr xs None \<and> Last L = last_ptr None xs"

fun placed :: "tDLList \<Rightarrow> place \<Rightarrow> bool" where
  "placed L (Off vals) = (\<exists>xs. shape L xs \<and> Act L = None \<and> map snd xs = vals)"
| "placed L (At us d vs) = (\<exists>xs a ys. shape L (xs @ (a, d) # ys) \<and> Act L = Some a \<and> map snd xs = us \<and> map snd ys = vs)"

definition dl_rel :: "((addr \<rightharpoonup> cell) \<Rightarrow> addr option) \<Rightarrow> tDLList \<Rightarrow> cursor \<Rightarrow> bool" where
  "dl_rel m L z \<longleftrightarrow> good_malloc m \<and> placed L (cu_place z) \<and> errflg L = cu_err z \<and> dl_val L = cu_val z"

section \<open>The operations on a list of this shape\<close>

definition kept :: "tDLList \<Rightarrow> tDLList \<Rightarrow> bool" where
  "kept L L' \<longleftrightarrow> errflg L' = errflg L \<and> dl_val L' = dl_val L"

lemma last_ptr_neq: "a \<noteq> b \<Longrightarrow> a \<notin> fst ` set xs \<Longrightarrow> last_ptr (Some b) xs \<noteq> Some a"
  by (auto simp: last_ptr_def)

lemma insert_first_shape:
  assumes "shape L xs" "m (dl_heap L) = Some i" "i \<notin> dom (dl_heap L)"
  shows "\<exists>L'. DLInsertFirst m v L = Some L' \<and> shape L' ((i, v) # xs) \<and> Act L' = Act L \<and> kept L L'"
proof (cases xs)
  case Nil
  then show ?thesis using assms by (auto simp: DLInsertFirst_def shape_def kept_def)
next
  case (Cons x xs')
  then have "i \<noteq> fst x" "i \<notin> fst ` set xs'" "fst x \<notin> fst ` set xs'" using assms by (auto simp: shape_def)
  with Cons assms show ?thesis by (auto simp: DLInsertFirst_def shape_def kept_def Let_def)
qed

lemma insert_last_shape:
  assumes "shape L xs" "m (dl_heap L) = Some i" "i \<notin> dom (dl_heap L)"
  shows "\<exists>L'. DLInsertLast m v L = Some L' \<and> shape L' (xs @ [(i, v)]) \<and> Act L' = Act L \<and> kept L L'"
proof (cases xs rule: rev_cases)
  case Nil
  then show ?thesis using assms by (auto simp: DLInsertLast_def shape_def kept_def)
next
  case (snoc xs' x)
  then have "i \<noteq> fst x" "i \<notin> fst ` set xs'" "fst x \<notin> fst ` set xs'" using assms by (auto simp: shape_def)
  with snoc assms show ?thesis by (auto simp: DLInsertLast_def shape_def kept_def Let_def)
qed

lemma delete_first_shape:
  assumes "shape L (x # xs)"
  shows "\<exists>L'. DLDeleteFirst L = Some L' \<and> shape L' xs \<and> Act L' = (if Act L = Some (fst x) then None else Act L) \<and> kept L L'"
proof -
  have h: "First L = Some (fst x)" "dl_heap L (fst x) = Some \<lparr>lptr = None, rptr = head_ptr xs None, el_data = snd x\<rparr>"
    "Last L = last_ptr (Some (fst x)) xs" "fst x \<notin> fst ` set xs"
    using assms by (auto simp: shape_def)
  show ?thesis
  proof (cases xs)
    case Nil
    then have "(dl_heap L)(fst x := None) = (\<lambda>x. None)" using assms by (intro drop_only) (simp add: shape_def)
    then show ?thesis using h Nil by (cases "Act L = Some (fst x)") (simp_all add: DLDeleteFirst_def shape_def kept_def Let_def)
  next
    case (Cons y xs')
    have "fst y \<notin> fst ` set xs'" "last_ptr (Some (fst y)) xs' \<noteq> Some (fst x)" "dom (dl_heap L) = insert (fst x) (fst ` set xs)"
      "seg (dl_heap L) (Some (fst x)) (y # xs') None" "distinct (map fst xs)"
      using assms Cons h(4) last_ptr_neq [of "fst x" "fst y" xs'] by (auto simp: shape_def)
    with Cons h show ?thesis by (cases "Act L = Some (fst x)") (auto simp: DLDeleteFirst_def shape_def kept_def Let_def)
  qed
qed

lemma delete_last_shape:
  assumes "shape L (xs @ [x])"
  shows "\<exists>L'. DLDeleteLast L = Some L' \<and> shape L' xs \<and> Act L' = (if Act L = Some (fst x) then None else Act L) \<and> kept L L'"
proof -
  have h: "Last L = Some (fst x)" "dl_heap L (fst x) = Some \<lparr>lptr = last_ptr None xs, rptr = None, el_data = snd x\<rparr>"
    "First L = head_ptr xs (Some (fst x))" "fst x \<notin> fst ` set xs"
    using assms by (auto simp: shape_def)
  show ?thesis
  proof (cases xs rule: rev_cases)
    case Nil
    then have "(dl_heap L)(fst x := None) = (\<lambda>x. None)" using assms by (intro drop_only) (simp add: shape_def)
    then show ?thesis using h Nil by (cases "Act L = Some (fst x)") (simp_all add: DLDeleteLast_def shape_def kept_def Let_def)
  next
    case (snoc xs' y)
    have "fst y \<notin> fst ` set xs'" "dom (dl_heap L) = insert (fst x) (fst ` set xs)"
      "seg (dl_heap L) None (xs' @ [y]) (Some (fst x))" "distinct (map fst xs)"
      using assms snoc by (auto simp: shape_def)
    with snoc h show ?thesis by (cases "Act L = Some (fst x)") (auto simp: DLDeleteLast_def shape_def kept_def Let_def)
  qed
qed

text \<open>An element in the middle, and its neighbours.\<close>

lemma shape_at:
  assumes "shape L (xs @ x # ys)"
  shows "dl_heap L (fst x) = Some \<lparr>lptr = last_ptr None xs, rptr = head_ptr ys None, el_data = snd x\<rparr>"
    "Last L = last_ptr (Some (fst x)) ys" "First L = head_ptr xs (Some (fst x))"
    "fst x \<notin> fst ` set xs" "fst x \<notin> fst ` set ys"
  using assms by (auto simp: shape_def)

lemma post_delete_shape:
  assumes s: "shape L (xs @ x # y # ys)" and a: "Act L = Some (fst x)"
  shows "\<exists>L'. DLPostDelete L = Some L' \<and> shape L' (xs @ x # ys) \<and> Act L' = Act L \<and> kept L L'"
proof -
  note x = shape_at [OF s]
  note y = shape_at [of L "xs @ [x]" y ys, simplified, OF s]
  have n: "last_ptr (Some (fst y)) ys \<noteq> Some (fst x)" using x(5) by (intro last_ptr_neq) auto
  show ?thesis
  proof (cases ys)
    case Nil
    then show ?thesis using s x y a n by (auto simp: DLPostDelete_def shape_def kept_def Let_def)
  next
    case (Cons z zs)
    note z = shape_at [of L "xs @ [x, y]" z zs, simplified, OF s [unfolded Cons]]
    show ?thesis using s x y z a n Cons by (auto simp: DLPostDelete_def shape_def kept_def Let_def)
  qed
qed

lemma pre_delete_shape:
  assumes s: "shape L (xs @ y # x # ys)" and a: "Act L = Some (fst x)"
  shows "\<exists>L'. DLPreDelete L = Some L' \<and> shape L' (xs @ x # ys) \<and> Act L' = Act L \<and> kept L L'"
proof -
  note y = shape_at [OF s]
  note x = shape_at [of L "xs @ [y]" x ys, simplified, OF s]
  have n: "head_ptr xs (Some (fst y)) \<noteq> Some (fst x)" using x(4) by (cases xs) auto
  show ?thesis
  proof (cases xs rule: rev_cases)
    case Nil
    then show ?thesis using s x y a n by (auto simp: DLPreDelete_def shape_def kept_def Let_def)
  next
    case (snoc zs z)
    note z = shape_at [of L zs z "y # x # ys", OF s [unfolded snoc, simplified]]
    show ?thesis using s x y z a n snoc by (auto simp: DLPreDelete_def shape_def kept_def Let_def)
  qed
qed

lemma post_insert_shape:
  assumes s: "shape L (xs @ x # ys)" and a: "Act L = Some (fst x)" and i: "m (dl_heap L) = Some i" "i \<notin> dom (dl_heap L)"
  shows "\<exists>L'. DLPostInsert m v L = Some L' \<and> shape L' (xs @ x # (i, v) # ys) \<and> Act L' = Act L \<and> kept L L'"
proof -
  note x = shape_at [OF s]
  have i': "i \<noteq> fst x" "fst x \<noteq> i" "i \<notin> fst ` set xs" "i \<notin> fst ` set ys" using i s by (auto simp: shape_def)
  show ?thesis
  proof (cases ys)
    case Nil
    then show ?thesis using s x a i i' by (auto simp: DLPostInsert_def shape_def kept_def Let_def)
  next
    case (Cons z zs)
    note z = shape_at [of L "xs @ [x]" z zs, simplified, OF s [unfolded Cons]]
    show ?thesis using s x z a i i' Cons by (auto simp: DLPostInsert_def shape_def kept_def Let_def)
  qed
qed

lemma pre_insert_shape:
  assumes s: "shape L (xs @ x # ys)" and a: "Act L = Some (fst x)" and i: "m (dl_heap L) = Some i" "i \<notin> dom (dl_heap L)"
  shows "\<exists>L'. DLPreInsert m v L = Some L' \<and> shape L' (xs @ (i, v) # x # ys) \<and> Act L' = Act L \<and> kept L L'"
proof -
  note x = shape_at [OF s]
  have i': "i \<noteq> fst x" "fst x \<noteq> i" "i \<notin> fst ` set xs" "i \<notin> fst ` set ys" using i s by (auto simp: shape_def)
  show ?thesis
  proof (cases xs rule: rev_cases)
    case Nil
    then show ?thesis using s x a i i' by (auto simp: DLPreInsert_def shape_def kept_def Let_def)
  next
    case (snoc zs z)
    note z = shape_at [of L zs z "x # ys", OF s [unfolded snoc, simplified]]
    show ?thesis using s x z a i i' snoc by (auto simp: DLPreInsert_def shape_def kept_def Let_def)
  qed
qed

lemma actualize_shape:
  assumes s: "shape L (xs @ (a, d) # ys)" and a: "Act L = Some a"
  shows "\<exists>L'. DLActualize v L = Some L' \<and> shape L' (xs @ (a, v) # ys) \<and> Act L' = Act L \<and> kept L L'"
  using s shape_at [OF s] a by (auto simp: DLActualize_def shape_def kept_def)

lemma dispose_items_seg:
  "seg h p xs None \<Longrightarrow> distinct (map fst xs) \<Longrightarrow> dispose_items (head_ptr xs None) h = Some (\<lambda>a. if a \<in> fst ` set xs then None else h a)"
proof (induction xs arbitrary: h p)
  case Nil
  show ?case by (subst dispose_items.simps) simp
next
  case (Cons x xs)
  define h1 where "h1 = h(fst x := None)"
  have "seg h1 (Some (fst x)) xs None"
    using Cons.prems by (subst seg_agree [of _ _ h]) (auto simp: h1_def)
  from Cons.IH [OF this] Cons.prems(2)
  have "dispose_items (head_ptr xs None) h1 = Some (\<lambda>a. if a \<in> fst ` set xs then None else h1 a)"
    by simp
  moreover have "(\<lambda>a. if a \<in> fst ` set xs then None else h1 a) = (\<lambda>a. if a \<in> fst ` set (x # xs) then None else h a)"
    by (auto simp: fun_eq_iff h1_def)
  ultimately show ?case using Cons.prems(1) by (subst dispose_items.simps) (simp add: h1_def [symmetric])
qed

lemma dispose_shape:
  assumes "shape L xs"
  shows "\<exists>L'. DLDisposeList L = Some L' \<and> shape L' [] \<and> Act L' = None \<and> kept L L'"
proof -
  have "(\<lambda>a. if a \<in> fst ` set xs then None else dl_heap L a) = Map.empty"
    using assms by (auto simp: shape_def fun_eq_iff domIff)
  then show ?thesis using assms dispose_items_seg [of "dl_heap L" None xs] by (simp add: DLDisposeList_def shape_def kept_def)
qed

section \<open>Refinement of the cursor list\<close>

lemma copy_first_shape:
  "shape L (x # xs) \<Longrightarrow> DLCopyFirst L = Some (L\<lparr>dl_val := snd x\<rparr>)"
  by (simp add: DLCopyFirst_def shape_def)

lemma copy_last_shape:
  "shape L (xs @ [x]) \<Longrightarrow> DLCopyLast L = Some (L\<lparr>dl_val := snd x\<rparr>)"
  by (simp add: DLCopyLast_def shape_def)

lemma copy_act_shape:
  "shape L (xs @ x # ys) \<Longrightarrow> Act L = Some (fst x) \<Longrightarrow> DLCopy L = Some (L\<lparr>dl_val := snd x\<rparr>)"
  by (simp add: DLCopy_def shape_def)

lemma succ_shape:
  "shape L (xs @ x # ys) \<Longrightarrow> Act L = Some (fst x) \<Longrightarrow> DLSucc L = Some (L\<lparr>Act := head_ptr ys None\<rparr>)"
  by (simp add: DLSucc_def shape_def)

lemma pred_shape:
  "shape L (xs @ x # ys) \<Longrightarrow> Act L = Some (fst x) \<Longrightarrow> DLPred L = Some (L\<lparr>Act := last_ptr None xs\<rparr>)"
  by (simp add: DLPred_def shape_def)

lemma shape_keep [simp]:
  "shape (L\<lparr>Act := a\<rparr>) xs = shape L xs" "shape (L\<lparr>dl_val := v\<rparr>) xs = shape L xs" "shape (L\<lparr>errflg := e\<rparr>) xs = shape L xs"
  by (simp_all add: shape_def)

text \<open>The element that is active, in a list of this shape.\<close>

lemma placedE:
  assumes "placed L p"
  obtains xs where "shape L xs" "Act L = None" "p = Off (map snd xs)"
  | xs a d ys where "shape L (xs @ (a, d) # ys)" "Act L = Some a" "p = At (map snd xs) d (map snd ys)"
  using assms by (cases p) auto

lemma placed_off: "shape L xs \<Longrightarrow> Act L = None \<Longrightarrow> placed L (Off (map snd xs))"
  by auto

lemma placed_at: "shape L (xs @ x # ys) \<Longrightarrow> Act L = Some (fst x) \<Longrightarrow> placed L (At (map snd xs) (snd x) (map snd ys))"
  by (cases x) auto

lemma not_active_elsewhere: "shape L (xs @ x # ys) \<Longrightarrow> y \<in> set xs \<union> set ys \<Longrightarrow> fst x \<noteq> fst y"
  by (auto simp: shape_def)


text \<open>One command does to the place, the error flag and the copied value what is promised.\<close>

definition implements :: "((addr \<rightharpoonup> cell) \<Rightarrow> addr option) \<Rightarrow> cursor_cmd \<Rightarrow> tDLList \<Rightarrow> place \<Rightarrow> bool" where
  "implements m cmd L p \<longleftrightarrow> (\<exists>L'. dl_step m cmd L = Some L' \<and> placed L' (place_step cmd p)
     \<and> (case copied cmd p of None \<Rightarrow> kept L L' | Some None \<Rightarrow> errflg L' \<and> dl_val L' = dl_val L
        | Some (Some v) \<Rightarrow> errflg L' = errflg L \<and> dl_val L' = v))"

lemma did_off:
  "dl_step m cmd L = Some L' \<Longrightarrow> shape L' xs \<Longrightarrow> Act L' = None \<Longrightarrow> kept L L' \<Longrightarrow> copied cmd p = None
    \<Longrightarrow> place_step cmd p = Off (map snd xs) \<Longrightarrow> implements m cmd L p"
  by (auto simp: implements_def)

lemma did_at:
  "dl_step m cmd L = Some L' \<Longrightarrow> shape L' (xs @ (a, d) # ys) \<Longrightarrow> Act L' = Some a \<Longrightarrow> kept L L' \<Longrightarrow> copied cmd p = None
    \<Longrightarrow> place_step cmd p = At (map snd xs) d (map snd ys) \<Longrightarrow> implements m cmd L p"
  by (auto simp: implements_def)

lemma fresh_cell:
  assumes "good_malloc m" "placed L p"
  obtains i where "m (dl_heap L) = Some i" "i \<notin> dom (dl_heap L)"
proof -
  have "finite (dom (dl_heap L))" using assms(2) by (rule placedE) (auto simp: shape_def)
  then show ?thesis using good_mallocD [OF assms(1)] that by blast
qed

lemma kept_refl [simp]: "kept L L" "kept L (L\<lparr>Act := a\<rparr>)"
  by (simp_all add: kept_def)

lemma step_dispose: "placed L p \<Longrightarrow> implements m Dispose_list L p"
  by (erule placedE) (use dispose_shape in \<open>force intro: did_off [of _ _ _ _ "[]"]\<close>)+

lemma step_insert_first:
  assumes "good_malloc m" "placed L p"
  shows "implements m (Insert_first v) L p"
proof -
  obtain i where i: "m (dl_heap L) = Some i" "i \<notin> dom (dl_heap L)" using fresh_cell assms by metis
  note ins = insert_first_shape [where m = m and i = i and v = v, OF _ i]
  from assms(2) show ?thesis
  proof (cases rule: placedE)
    case (1 xs)
    then show ?thesis using ins [OF 1(1)] by (auto intro!: did_off [of _ _ _ _ "(i, v) # xs"])
  next
    case (2 xs a d ys)
    then show ?thesis using ins [OF 2(1)] by (auto intro!: did_at [of _ _ _ _ "(i, v) # xs" a d ys])
  qed
qed

lemma step_insert_last:
  assumes "good_malloc m" "placed L p"
  shows "implements m (Insert_last v) L p"
proof -
  obtain i where i: "m (dl_heap L) = Some i" "i \<notin> dom (dl_heap L)" using fresh_cell assms by metis
  note ins = insert_last_shape [where m = m and i = i and v = v, OF _ i]
  from assms(2) show ?thesis
  proof (cases rule: placedE)
    case (1 xs)
    then show ?thesis using ins [OF 1(1)] by (auto intro!: did_off [of _ _ _ _ "xs @ [(i, v)]"])
  next
    case (2 xs a d ys)
    then show ?thesis using ins [OF 2(1)] by (auto intro!: did_at [of _ _ _ _ xs a d "ys @ [(i, v)]"])
  qed
qed

lemma step_post_insert:
  assumes "good_malloc m" "placed L p"
  shows "implements m (Post_insert v) L p"
proof -
  obtain i where i: "m (dl_heap L) = Some i" "i \<notin> dom (dl_heap L)" using fresh_cell assms by metis
  from assms(2) show ?thesis
  proof (cases rule: placedE)
    case (1 xs)
    then show ?thesis by (intro did_off [of _ _ _ L xs]) (auto simp: DLPostInsert_def)
  next
    case (2 xs a d ys)
    then show ?thesis using post_insert_shape [where m = m and i = i and v = v, OF 2(1) _ i]
      by (auto intro!: did_at [of _ _ _ _ xs a d "(i, v) # ys"])
  qed
qed

lemma step_pre_insert:
  assumes "good_malloc m" "placed L p"
  shows "implements m (Pre_insert v) L p"
proof -
  obtain i where i: "m (dl_heap L) = Some i" "i \<notin> dom (dl_heap L)" using fresh_cell assms by metis
  from assms(2) show ?thesis
  proof (cases rule: placedE)
    case (1 xs)
    then show ?thesis by (intro did_off [of _ _ _ L xs]) (auto simp: DLPreInsert_def)
  next
    case (2 xs a d ys)
    then show ?thesis using pre_insert_shape [where m = m and i = i and v = v, OF 2(1) _ i]
      by (auto intro!: did_at [of _ _ _ _ "xs @ [(i, v)]" a d ys])
  qed
qed

text \<open>The commands that do not look at the active element.\<close>

lemma placed_contents:
  assumes "placed L p"
  obtains zs where "shape L zs" "contents p = map snd zs" "zs = [] \<longrightarrow> p = Off [] \<and> Act L = None"
  using assms
proof (cases rule: placedE)
  case (1 xs)
  then show ?thesis using that by auto
next
  case (2 xs a d ys)
  then show ?thesis using that [of "xs @ (a, d) # ys"] by auto
qed

lemma step_to_first:
  assumes "placed L p"
  shows "implements m To_first L p"
proof -
  obtain zs where zs: "shape L zs" "contents p = map snd zs" "zs = [] \<longrightarrow> p = Off [] \<and> Act L = None" by (rule placed_contents [OF assms])
  show ?thesis
  proof (cases zs)
    case Nil
    then show ?thesis using zs by (intro did_off [of _ _ _ "DLFirst L" "[]"]) (auto simp: DLFirst_def shape_def)
  next
    case (Cons x xs)
    then show ?thesis using zs
      by (intro did_at [of _ _ _ "DLFirst L" "[]" "fst x" "snd x" xs]) (auto simp: DLFirst_def shape_def)
  qed
qed

lemma step_to_last:
  assumes "placed L p"
  shows "implements m To_last L p"
proof -
  obtain zs where zs: "shape L zs" "contents p = map snd zs" "zs = [] \<longrightarrow> p = Off [] \<and> Act L = None" by (rule placed_contents [OF assms])
  show ?thesis
  proof (cases zs rule: rev_cases)
    case Nil
    then show ?thesis using zs by (intro did_off [of _ _ _ "DLLast L" "[]"]) (auto simp: DLLast_def shape_def)
  next
    case (snoc xs x)
    then show ?thesis using zs
      by (intro did_at [of _ _ _ "DLLast L" xs "fst x" "snd x" "[]"]) (auto simp: DLLast_def shape_def)
  qed
qed

lemma step_copy_first:
  assumes "placed L p"
  shows "implements m Copy_first L p"
proof -
  obtain zs where zs: "shape L zs" "contents p = map snd zs" "zs = [] \<longrightarrow> p = Off [] \<and> Act L = None" by (rule placed_contents [OF assms])
  show ?thesis
  proof (cases zs)
    case Nil
    then show ?thesis using zs assms by (auto simp: implements_def DLCopyFirst_def DLError_def shape_def)
  next
    case (Cons x xs)
    then show ?thesis using zs assms copy_first_shape [of L x xs] by (cases p) (auto simp: implements_def kept_def)
  qed
qed

lemma step_copy_last:
  assumes "placed L p"
  shows "implements m Copy_last L p"
proof -
  obtain zs where zs: "shape L zs" "contents p = map snd zs" "zs = [] \<longrightarrow> p = Off [] \<and> Act L = None" by (rule placed_contents [OF assms])
  show ?thesis
  proof (cases zs rule: rev_cases)
    case Nil
    then show ?thesis using zs assms by (auto simp: implements_def DLCopyLast_def DLError_def shape_def)
  next
    case (snoc xs x)
    then show ?thesis using zs assms copy_last_shape [of L xs x] by (cases p) (auto simp: implements_def kept_def)
  qed
qed

lemma step_delete_first:
  assumes "placed L p"
  shows "implements m Delete_first L p"
  using assms
proof (cases rule: placedE)
  case (1 xs)
  show ?thesis
  proof (cases xs)
    case Nil
    then show ?thesis using 1 by (intro did_off [of _ _ _ L "[]"]) (auto simp: DLDeleteFirst_def shape_def)
  next
    case (Cons x xs')
    then show ?thesis using 1 delete_first_shape [of L x xs'] by (auto intro!: did_off [of _ _ _ _ xs'])
  qed
next
  case (2 xs a d ys)
  show ?thesis
  proof (cases xs)
    case Nil
    then show ?thesis using 2 delete_first_shape [of L "(a, d)" ys] by (auto intro!: did_off [of _ _ _ _ ys])
  next
    case (Cons x xs')
    then have "a \<noteq> fst x" using 2(1) by (auto simp: shape_def)
    then show ?thesis using 2 Cons delete_first_shape [of L x "xs' @ (a, d) # ys"] by (auto intro!: did_at [of _ _ _ _ xs' a d ys])
  qed
qed

lemma step_delete_last:
  assumes "placed L p"
  shows "implements m Delete_last L p"
  using assms
proof (cases rule: placedE)
  case (1 xs)
  show ?thesis
  proof (cases xs rule: rev_cases)
    case Nil
    then show ?thesis using 1 by (intro did_off [of _ _ _ L "[]"]) (auto simp: DLDeleteLast_def shape_def)
  next
    case (snoc xs' x)
    then show ?thesis using 1 delete_last_shape [of L xs' x] by (auto intro!: did_off [of _ _ _ _ xs'])
  qed
next
  case (2 xs a d ys)
  show ?thesis
  proof (cases ys rule: rev_cases)
    case Nil
    then show ?thesis using 2 delete_last_shape [of L xs "(a, d)"] by (auto intro!: did_off [of _ _ _ _ xs])
  next
    case (snoc ys' y)
    then have "a \<noteq> fst y" using 2(1) by (auto simp: shape_def)
    then show ?thesis using 2 snoc delete_last_shape [of L "xs @ (a, d) # ys'" y] by (auto intro!: did_at [of _ _ _ _ xs a d ys'])
  qed
qed

text \<open>The commands at the active element.\<close>

lemma step_post_delete:
  assumes "placed L p"
  shows "implements m Post_delete L p"
  using assms
proof (cases rule: placedE)
  case (1 xs)
  then show ?thesis by (intro did_off [of _ _ _ L xs]) (auto simp: DLPostDelete_def)
next
  case (2 xs a d ys)
  show ?thesis
  proof (cases ys)
    case Nil
    then show ?thesis using 2 by (intro did_at [of _ _ _ L xs a d "[]"]) (auto simp: DLPostDelete_def shape_def)
  next
    case (Cons y ys')
    then show ?thesis using 2 post_delete_shape [of L xs "(a, d)" y ys'] by (auto intro!: did_at [of _ _ _ _ xs a d ys'])
  qed
qed

lemma step_pre_delete:
  assumes "placed L p"
  shows "implements m Pre_delete L p"
  using assms
proof (cases rule: placedE)
  case (1 xs)
  then show ?thesis by (intro did_off [of _ _ _ L xs]) (auto simp: DLPreDelete_def)
next
  case (2 xs a d ys)
  show ?thesis
  proof (cases xs rule: rev_cases)
    case Nil
    then show ?thesis using 2 by (intro did_at [of _ _ _ L "[]" a d ys]) (auto simp: DLPreDelete_def shape_def)
  next
    case (snoc xs' x)
    then show ?thesis using 2 pre_delete_shape [of L xs' x "(a, d)" ys] by (auto intro!: did_at [of _ _ _ _ xs' a d ys])
  qed
qed

lemma step_succ:
  assumes "placed L p"
  shows "implements m To_succ L p"
  using assms
proof (cases rule: placedE)
  case (1 xs)
  then show ?thesis by (intro did_off [of _ _ _ L xs]) (auto simp: DLSucc_def)
next
  case (2 xs a d ys)
  note e = succ_shape [OF 2(1), simplified, OF 2(2)]
  show ?thesis
  proof (cases ys)
    case Nil
    then show ?thesis using 2 e by (intro did_off [of _ _ _ "L\<lparr>Act := None\<rparr>" "xs @ [(a, d)]"]) auto
  next
    case (Cons y ys')
    then show ?thesis using 2 e by (intro did_at [of _ _ _ "L\<lparr>Act := Some (fst y)\<rparr>" "xs @ [(a, d)]" "fst y" "snd y" ys']) auto
  qed
qed

lemma step_pred:
  assumes "placed L p"
  shows "implements m To_pred L p"
  using assms
proof (cases rule: placedE)
  case (1 xs)
  then show ?thesis by (intro did_off [of _ _ _ L xs]) (auto simp: DLPred_def)
next
  case (2 xs a d ys)
  note e = pred_shape [OF 2(1), simplified, OF 2(2)]
  show ?thesis
  proof (cases xs rule: rev_cases)
    case Nil
    then show ?thesis using 2 e by (intro did_off [of _ _ _ "L\<lparr>Act := None\<rparr>" "(a, d) # ys"]) auto
  next
    case (snoc xs' x)
    then show ?thesis using 2 e by (intro did_at [of _ _ _ "L\<lparr>Act := Some (fst x)\<rparr>" xs' "fst x" "snd x" "(a, d) # ys"]) auto
  qed
qed

lemma step_actualize:
  assumes "placed L p"
  shows "implements m (Actualize_act v) L p"
  using assms
proof (cases rule: placedE)
  case (1 xs)
  then show ?thesis by (intro did_off [of _ _ _ L xs]) (auto simp: DLActualize_def)
next
  case (2 xs a d ys)
  then show ?thesis using actualize_shape [OF 2(1,2), of v] by (auto intro!: did_at [of _ _ _ _ xs a v ys])
qed

lemma step_copy_act:
  assumes "placed L p"
  shows "implements m Copy_act L p"
  using assms
proof (cases rule: placedE)
  case (1 xs)
  then show ?thesis by (auto simp: implements_def DLCopy_def DLError_def)
next
  case (2 xs a d ys)
  then show ?thesis using copy_act_shape [OF 2(1)] by (auto simp: implements_def)
qed

lemmas steps_placed = step_dispose step_insert_first step_insert_last step_to_first step_to_last step_copy_first step_copy_last
  step_delete_first step_delete_last step_post_delete step_pre_delete step_post_insert step_pre_insert step_copy_act step_actualize
  step_succ step_pred

lemma every_step: "good_malloc m \<Longrightarrow> placed L p \<Longrightarrow> implements m cmd L p"
  by (cases cmd) (simp_all only: steps_placed)

interpretation dll: cursor_refinement "dl_step m" "dl_rel m" "\<lambda>_. True" for m
proof
  fix L z cmd
  assume r: "dl_rel m L z"
  then have "implements m cmd L (cu_place z)" by (simp add: dl_rel_def every_step)
  then show "\<exists>L'. dl_step m cmd L = Some L' \<and> dl_rel m L' (cursor_step cmd z)"
    using r by (auto simp: implements_def dl_rel_def cursor_step_def kept_def Let_def split: option.splits)
qed

text \<open>
  C5. Doubly linked list: whatever sequence of the operations of \<^verbatim>\<open>c206.c\<close> runs on a list that
  has just been initialised, none of them follows a null or freed pointer (the run does not
  fail), as long as \<^verbatim>\<open>malloc\<close> succeeds, and afterwards forward links, backward links, first, active and last element, the
  error flag and the copied value are those of the abstract list; every cell on the heap
  belongs to the list, so every removed element has been freed.
\<close>

theorem dl_refines_cursor:
  assumes "good_malloc m" "dl_heap L = Map.empty"
  shows "\<exists>L'. dll.run m cmds (DLInitList L) = Some L'
    \<and> dl_rel m L' (fold cursor_step cmds \<lparr>cu_place = Off [], cu_err = errflg L, cu_val = dl_val L\<rparr>)"
proof (rule dll.run_rel)
  show "dl_rel m (DLInitList L) \<lparr>cu_place = Off [], cu_err = errflg L, cu_val = dl_val L\<rparr>"
    using assms by (simp add: dl_rel_def DLInitList_def shape_def)
qed simp

definition some_list :: tDLList where
  "some_list = \<lparr>dl_heap = Map.empty, First = Some 3, Act = None, Last = Some 7, errflg = False, dl_val = 5\<rparr>"

theorem dl_refines_cursor_witness:
  "\<exists>L'. dll.run next_free [Insert_first 1, Insert_last 2, To_first, Post_insert 9, Delete_first, Copy_act, Copy_last] (DLInitList some_list) = Some L'
     \<and> placed L' (Off [9, 2]) \<and> errflg L' \<and> dl_val L' = 2"
  using dl_refines_cursor [OF good_next_free, of some_list
      "[Insert_first 1, Insert_last 2, To_first, Post_insert 9, Delete_first, Copy_act, Copy_last]"]
  by (auto simp: some_list_def dl_rel_def cursor_step_def Let_def simp del: placed.simps dll.run.simps)

lemma failed_malloc:
  "m (dl_heap L) = None \<Longrightarrow>
    DLInsertFirst m v L = Some (DLError L) \<and> DLInsertLast m v L = Some (DLError L)
    \<and> (Act L \<noteq> None \<longrightarrow> DLPostInsert m v L = Some (DLError L) \<and> DLPreInsert m v L = Some (DLError L))"
  by (simp add: DLInsertFirst_def DLInsertLast_def DLPostInsert_def DLPreInsert_def)

end
