(* ===== verification/Single_List.thy ===== *)
theory Single_List
  imports Cursor_List
begin

text \<open>
  The singly linked list of \<^verbatim>\<open>IAL/c201.c\<close> on an explicit heap, with the conventions of
  \<open>Double_List\<close>; here the operations also test the address of the list itself, which is
  the field \<open>sl_list\<close>. The theorem: under any sequence of the operations no invalid pointer
  is followed, no element leaks, and the list is what \<open>Cursor_List\<close> promises.
\<close>

section \<open>The operations\<close>

record elem =
  ptr :: "addr option"
  elem_data :: int

record tList =
  sAct :: "addr option"
  sFirst :: "addr option"

record sl_state =
  sl_heap :: "addr \<rightharpoonup> elem"
  sl_list :: "tList option"
  sl_err :: bool
  sl_val :: int

definition Error :: "sl_state \<Rightarrow> sl_state" where
  "Error s = s\<lparr>sl_err := True\<rparr>"

definition InitList :: "sl_state \<Rightarrow> sl_state" where
  "InitList s = (case sl_list s of None \<Rightarrow> s | Some L \<Rightarrow> s\<lparr>sl_list := Some (L\<lparr>sAct := None, sFirst := None\<rparr>)\<rparr>)"

partial_function (option) dispose_elems :: "addr option \<Rightarrow> (addr \<rightharpoonup> elem) \<Rightarrow> (addr \<rightharpoonup> elem) option" where
  "dispose_elems item h =
     (if item = None then Some h
      else do { c \<leftarrow> deref item h; h1 \<leftarrow> free item h; dispose_elems (ptr c) h1 })"

definition DisposeList :: "sl_state \<Rightarrow> sl_state option" where
  "DisposeList s =
     (case sl_list s of
        None \<Rightarrow> Some s
      | Some L \<Rightarrow> do {
          h \<leftarrow> dispose_elems (sFirst L) (sl_heap s);
          Some (s\<lparr>sl_heap := h, sl_list := Some (L\<lparr>sAct := None, sFirst := None\<rparr>)\<rparr>) })"

definition InsertFirst :: "((addr \<rightharpoonup> elem) \<Rightarrow> addr option) \<Rightarrow> int \<Rightarrow> sl_state \<Rightarrow> sl_state option" where
  "InsertFirst malloc val s =
     (case sl_list s of
        None \<Rightarrow> Some s
      | Some L \<Rightarrow>
          (case malloc (sl_heap s) of
             None \<Rightarrow> Some (Error s)
           | Some item \<Rightarrow>
               (let e = \<lparr>ptr = None, elem_data = val\<rparr>;
                    e1 = (if sFirst L \<noteq> None then e\<lparr>ptr := sFirst L\<rparr> else e)
                in Some (s\<lparr>sl_heap := (sl_heap s)(item \<mapsto> e1), sl_list := Some (L\<lparr>sFirst := Some item\<rparr>)\<rparr>))))"

definition First_active :: "sl_state \<Rightarrow> sl_state option" where
  "First_active s = (case sl_list s of None \<Rightarrow> None | Some L \<Rightarrow> Some (s\<lparr>sl_list := Some (L\<lparr>sAct := sFirst L\<rparr>)\<rparr>))"

definition CopyFirst :: "sl_state \<Rightarrow> sl_state option" where
  "CopyFirst s =
     (case sl_list s of
        None \<Rightarrow> Some s
      | Some L \<Rightarrow>
          if sFirst L = None then Some (Error s)
          else do { c \<leftarrow> deref (sFirst L) (sl_heap s); Some (s\<lparr>sl_val := elem_data c\<rparr>) })"

definition DeleteFirst :: "sl_state \<Rightarrow> sl_state option" where
  "DeleteFirst s =
     (case sl_list s of
        None \<Rightarrow> Some s
      | Some L \<Rightarrow>
          if sFirst L = None then Some s
          else do {
            let L1 = (if sAct L = sFirst L then L\<lparr>sAct := None\<rparr> else L);
            c \<leftarrow> deref (sFirst L1) (sl_heap s);
            h \<leftarrow> free (sFirst L1) (sl_heap s);
            Some (s\<lparr>sl_heap := h, sl_list := Some (L1\<lparr>sFirst := ptr c\<rparr>)\<rparr>)
          })"

definition PostDelete :: "sl_state \<Rightarrow> sl_state option" where
  "PostDelete s =
     (case sl_list s of
        None \<Rightarrow> Some s
      | Some L \<Rightarrow>
          (case sAct L of
             None \<Rightarrow> Some s
           | Some a \<Rightarrow> do {
               act \<leftarrow> sl_heap s a;
               if ptr act = None then Some s
               else do {
                 item \<leftarrow> deref (ptr act) (sl_heap s);
                 h1 \<leftarrow> (if ptr item \<noteq> None then modify a (\<lambda>c. c\<lparr>ptr := ptr item\<rparr>) (sl_heap s)
                       else modify a (\<lambda>c. c\<lparr>ptr := None\<rparr>) (sl_heap s));
                 h2 \<leftarrow> free (ptr act) h1;
                 Some (s\<lparr>sl_heap := h2\<rparr>)
               }
             }))"

definition PostInsert :: "((addr \<rightharpoonup> elem) \<Rightarrow> addr option) \<Rightarrow> int \<Rightarrow> sl_state \<Rightarrow> sl_state option" where
  "PostInsert malloc val s =
     (case sl_list s of
        None \<Rightarrow> Some s
      | Some L \<Rightarrow>
          (case sAct L of
             None \<Rightarrow> Some s
           | Some a \<Rightarrow>
               (case malloc (sl_heap s) of
                  None \<Rightarrow> Some (Error s)
                | Some item \<Rightarrow> do {
                    act \<leftarrow> sl_heap s a;
                    let h = (sl_heap s)(item \<mapsto> \<lparr>ptr = (if ptr act = None then None else ptr act), elem_data = val\<rparr>);
                    h1 \<leftarrow> modify a (\<lambda>c. c\<lparr>ptr := Some item\<rparr>) h;
                    Some (s\<lparr>sl_heap := h1\<rparr>)
                  })))"

definition Copy_active :: "sl_state \<Rightarrow> sl_state option" where
  "Copy_active s =
     (case Option.bind (sl_list s) sAct of
        None \<Rightarrow> Some (Error s)
      | Some a \<Rightarrow> do { c \<leftarrow> sl_heap s a; Some (s\<lparr>sl_val := elem_data c\<rparr>) })"

definition Actualize :: "int \<Rightarrow> sl_state \<Rightarrow> sl_state option" where
  "Actualize val s =
     (case Option.bind (sl_list s) sAct of
        None \<Rightarrow> Some s
      | Some a \<Rightarrow> do { h \<leftarrow> modify a (\<lambda>c. c\<lparr>elem_data := val\<rparr>) (sl_heap s); Some (s\<lparr>sl_heap := h\<rparr>) })"

definition Succ :: "sl_state \<Rightarrow> sl_state option" where
  "Succ s =
     (case sl_list s of
        None \<Rightarrow> Some s
      | Some L \<Rightarrow>
          (case sAct L of
             None \<Rightarrow> Some s
           | Some a \<Rightarrow> do { c \<leftarrow> sl_heap s a; Some (s\<lparr>sl_list := Some (L\<lparr>sAct := ptr c\<rparr>)\<rparr>) }))"

definition Active :: "sl_state \<Rightarrow> bool option" where
  "Active s = map_option (\<lambda>L. sAct L \<noteq> None) (sl_list s)"

fun sl_step :: "((addr \<rightharpoonup> elem) \<Rightarrow> addr option) \<Rightarrow> cursor_cmd \<Rightarrow> sl_state \<Rightarrow> sl_state option" where
  "sl_step m Dispose_list s = DisposeList s"
| "sl_step m (Insert_first v) s = InsertFirst m v s"
| "sl_step m To_first s = First_active s"
| "sl_step m Copy_first s = CopyFirst s"
| "sl_step m Delete_first s = DeleteFirst s"
| "sl_step m Post_delete s = PostDelete s"
| "sl_step m (Post_insert v) s = PostInsert m v s"
| "sl_step m Copy_act s = Copy_active s"
| "sl_step m (Actualize_act v) s = Actualize v s"
| "sl_step m To_succ s = Succ s"
| "sl_step m cmd s = None"

definition sl_legal :: "cursor_cmd \<Rightarrow> bool" where
  "sl_legal cmd \<longleftrightarrow> (case cmd of Insert_last v \<Rightarrow> False | To_last \<Rightarrow> False | Copy_last \<Rightarrow> False | Delete_last \<Rightarrow> False
     | Pre_delete \<Rightarrow> False | Pre_insert v \<Rightarrow> False | To_pred \<Rightarrow> False | _ \<Rightarrow> True)"

section \<open>Chains of linked cells\<close>

fun chain :: "(addr \<rightharpoonup> elem) \<Rightarrow> (addr \<times> int) list \<Rightarrow> addr option \<Rightarrow> bool" where
  "chain h [] n = True"
| "chain h (x # xs) n = (h (fst x) = Some \<lparr>ptr = head_ptr xs n, elem_data = snd x\<rparr> \<and> chain h xs n)"

lemma chain_append [simp]: "chain h (xs @ ys) n \<longleftrightarrow> chain h xs (head_ptr ys n) \<and> chain h ys n"
  by (induction xs) auto

lemma chain_agree: "\<forall>a \<in> fst ` set xs. h' a = h a \<Longrightarrow> chain h' xs n = chain h xs n"
  by (induction xs) auto

lemma chain_upd [simp]: "a \<notin> fst ` set xs \<Longrightarrow> chain (h(a := c)) xs n = chain h xs n"
  by (rule chain_agree) auto

definition list_at :: "sl_state \<Rightarrow> (addr \<times> int) list \<Rightarrow> addr option \<Rightarrow> bool" where
  "list_at s xs act \<longleftrightarrow> chain (sl_heap s) xs None \<and> distinct (map fst xs) \<and> dom (sl_heap s) = fst ` set xs
     \<and> sl_list s = Some \<lparr>sAct = act, sFirst = head_ptr xs None\<rparr>"

definition same_flags :: "sl_state \<Rightarrow> sl_state \<Rightarrow> bool" where
  "same_flags s s' \<longleftrightarrow> sl_err s' = sl_err s \<and> sl_val s' = sl_val s"

lemma same_flags_refl [simp]: "same_flags s s"
  by (simp add: same_flags_def)

fun standing :: "sl_state \<Rightarrow> place \<Rightarrow> bool" where
  "standing s (Off vals) = (\<exists>xs. list_at s xs None \<and> map snd xs = vals)"
| "standing s (At us d vs) = (\<exists>xs a ys. list_at s (xs @ (a, d) # ys) (Some a) \<and> map snd xs = us \<and> map snd ys = vs)"

definition sl_rel :: "((addr \<rightharpoonup> elem) \<Rightarrow> addr option) \<Rightarrow> sl_state \<Rightarrow> cursor \<Rightarrow> bool" where
  "sl_rel m s z \<longleftrightarrow> good_malloc m \<and> standing s (cu_place z) \<and> sl_err s = cu_err z \<and> sl_val s = cu_val z"

lemma standingE:
  assumes "standing s p"
  obtains xs where "list_at s xs None" "p = Off (map snd xs)"
  | xs a d ys where "list_at s (xs @ (a, d) # ys) (Some a)" "p = At (map snd xs) d (map snd ys)"
  using assms by (cases p) auto

lemma standing_contents:
  assumes "standing s p"
  obtains zs act where "list_at s zs act" "contents p = map snd zs" "zs = [] \<longrightarrow> p = Off [] \<and> act = None"
  using assms
proof (cases rule: standingE)
  case (1 xs)
  then show ?thesis using that by auto
next
  case (2 xs a d ys)
  then show ?thesis using that [of "xs @ (a, d) # ys"] by auto
qed

lemma active_standing: "standing s p \<Longrightarrow> Active s = Some (case p of Off xs \<Rightarrow> False | At us d vs \<Rightarrow> True)"
  by (erule standingE) (auto simp: Active_def list_at_def)

lemma fresh_elem:
  assumes "good_malloc m" "standing s p"
  obtains i where "m (sl_heap s) = Some i" "i \<notin> dom (sl_heap s)"
proof -
  have "finite (dom (sl_heap s))" using assms(2) by (rule standingE) (auto simp: list_at_def)
  then show ?thesis using good_mallocD [OF assms(1)] that by blast
qed

section \<open>The operations on a list\<close>

lemma insert_first_at:
  assumes "list_at s xs act" "m (sl_heap s) = Some i" "i \<notin> dom (sl_heap s)"
  shows "\<exists>s'. InsertFirst m v s = Some s' \<and> list_at s' ((i, v) # xs) act \<and> same_flags s s'"
proof -
  have "i \<notin> fst ` set xs" using assms by (auto simp: list_at_def)
  then show ?thesis using assms by (cases xs) (auto simp: InsertFirst_def list_at_def same_flags_def Let_def)
qed

lemma delete_first_at:
  assumes "list_at s (x # xs) act"
  shows "\<exists>s'. DeleteFirst s = Some s' \<and> list_at s' xs (if act = Some (fst x) then None else act) \<and> same_flags s s'"
  using assms by (auto simp: DeleteFirst_def list_at_def same_flags_def Let_def)

lemma post_delete_at:
  assumes "list_at s (xs @ x # y # ys) (Some (fst x))"
  shows "\<exists>s'. PostDelete s = Some s' \<and> list_at s' (xs @ x # ys) (Some (fst x)) \<and> same_flags s s'"
proof -
  have "fst y \<notin> fst ` set xs" "fst x \<notin> fst ` set xs" "fst x \<notin> fst ` set ys" "fst y \<notin> fst ` set ys" "fst x \<noteq> fst y"
    using assms by (auto simp: list_at_def)
  then show ?thesis using assms by (auto simp: PostDelete_def list_at_def same_flags_def Let_def)
qed

lemma post_insert_at:
  assumes "list_at s (xs @ x # ys) (Some (fst x))" "m (sl_heap s) = Some i" "i \<notin> dom (sl_heap s)"
  shows "\<exists>s'. PostInsert m v s = Some s' \<and> list_at s' (xs @ x # (i, v) # ys) (Some (fst x)) \<and> same_flags s s'"
proof -
  have "i \<noteq> fst x" "fst x \<noteq> i" "i \<notin> fst ` set xs" "i \<notin> fst ` set ys" "fst x \<notin> fst ` set xs" "fst x \<notin> fst ` set ys"
    using assms by (auto simp: list_at_def)
  then show ?thesis using assms by (auto simp: PostInsert_def list_at_def same_flags_def Let_def)
qed

lemma actualize_at:
  assumes "list_at s (xs @ (a, d) # ys) (Some a)"
  shows "\<exists>s'. Actualize v s = Some s' \<and> list_at s' (xs @ (a, v) # ys) (Some a) \<and> same_flags s s'"
proof -
  have "a \<notin> fst ` set xs" "a \<notin> fst ` set ys" using assms by (auto simp: list_at_def)
  then show ?thesis using assms by (cases xs) (auto simp: Actualize_def list_at_def same_flags_def)
qed

lemma succ_at:
  assumes "list_at s (xs @ x # ys) (Some (fst x))"
  shows "\<exists>s'. Succ s = Some s' \<and> list_at s' (xs @ x # ys) (head_ptr ys None) \<and> same_flags s s'"
  using assms by (auto simp: Succ_def list_at_def same_flags_def)

lemma first_at:
  assumes "list_at s xs act"
  shows "\<exists>s'. First_active s = Some s' \<and> list_at s' xs (head_ptr xs None) \<and> same_flags s s'"
  using assms by (auto simp: First_active_def list_at_def same_flags_def)

lemma dispose_elems_chain:
  "chain h xs None \<Longrightarrow> distinct (map fst xs) \<Longrightarrow> dispose_elems (head_ptr xs None) h = Some (\<lambda>a. if a \<in> fst ` set xs then None else h a)"
proof (induction xs arbitrary: h)
  case Nil
  show ?case by (subst dispose_elems.simps) simp
next
  case (Cons x xs)
  define h1 where "h1 = h(fst x := None)"
  have "chain h1 xs None"
    using Cons.prems by (subst chain_agree [of _ _ h]) (auto simp: h1_def)
  from Cons.IH [OF this] Cons.prems(2)
  have "dispose_elems (head_ptr xs None) h1 = Some (\<lambda>a. if a \<in> fst ` set xs then None else h1 a)"
    by simp
  moreover have "(\<lambda>a. if a \<in> fst ` set xs then None else h1 a) = (\<lambda>a. if a \<in> fst ` set (x # xs) then None else h a)"
    by (auto simp: fun_eq_iff h1_def)
  ultimately show ?case using Cons.prems(1) by (subst dispose_elems.simps) (simp add: h1_def [symmetric])
qed

lemma dispose_at:
  assumes "list_at s xs act"
  shows "\<exists>s'. DisposeList s = Some s' \<and> list_at s' [] None \<and> same_flags s s'"
proof -
  have "(\<lambda>a. if a \<in> fst ` set xs then None else sl_heap s a) = Map.empty"
    using assms by (auto simp: list_at_def fun_eq_iff domIff)
  then show ?thesis using assms dispose_elems_chain [of "sl_heap s" xs] by (simp add: DisposeList_def list_at_def same_flags_def)
qed

section \<open>Refinement of the cursor list\<close>

definition sl_implements :: "((addr \<rightharpoonup> elem) \<Rightarrow> addr option) \<Rightarrow> cursor_cmd \<Rightarrow> sl_state \<Rightarrow> place \<Rightarrow> bool" where
  "sl_implements m cmd s p \<longleftrightarrow> (\<exists>s'. sl_step m cmd s = Some s' \<and> standing s' (place_step cmd p)
     \<and> (case copied cmd p of None \<Rightarrow> same_flags s s' | Some None \<Rightarrow> sl_err s' \<and> sl_val s' = sl_val s
        | Some (Some v) \<Rightarrow> sl_err s' = sl_err s \<and> sl_val s' = v))"

lemma goes_off:
  "sl_step m cmd s = Some s' \<Longrightarrow> list_at s' xs None \<Longrightarrow> same_flags s s' \<Longrightarrow> copied cmd p = None
    \<Longrightarrow> place_step cmd p = Off (map snd xs) \<Longrightarrow> sl_implements m cmd s p"
  by (auto simp: sl_implements_def)

lemma goes_to:
  "sl_step m cmd s = Some s' \<Longrightarrow> list_at s' (xs @ (a, d) # ys) (Some a) \<Longrightarrow> same_flags s s' \<Longrightarrow> copied cmd p = None
    \<Longrightarrow> place_step cmd p = At (map snd xs) d (map snd ys) \<Longrightarrow> sl_implements m cmd s p"
  by (auto simp: sl_implements_def)

lemma off_unchanged:
  "list_at s xs None \<Longrightarrow> sl_step m cmd s = Some s \<Longrightarrow> copied cmd (Off (map snd xs)) = None
    \<Longrightarrow> place_step cmd (Off (map snd xs)) = Off (map snd xs) \<Longrightarrow> sl_implements m cmd s (Off (map snd xs))"
  by (rule goes_off [of _ _ _ s xs]) auto

lemma sl_dispose: "standing s p \<Longrightarrow> sl_implements m Dispose_list s p"
  by (erule standingE) (use dispose_at in \<open>force intro: goes_off [of _ _ _ _ "[]"]\<close>)+

lemma sl_insert_first:
  assumes "good_malloc m" "standing s p"
  shows "sl_implements m (Insert_first v) s p"
proof -
  obtain i where i: "m (sl_heap s) = Some i" "i \<notin> dom (sl_heap s)" using fresh_elem assms by metis
  note ins = insert_first_at [where m = m and i = i and v = v, OF _ i]
  from assms(2) show ?thesis
  proof (cases rule: standingE)
    case (1 xs)
    then show ?thesis using ins [OF 1(1)] by (auto intro!: goes_off [of _ _ _ _ "(i, v) # xs"])
  next
    case (2 xs a d ys)
    then show ?thesis using ins [OF 2(1)] by (auto intro!: goes_to [of _ _ _ _ "(i, v) # xs" a d ys])
  qed
qed

lemma sl_post_insert:
  assumes "good_malloc m" "standing s p"
  shows "sl_implements m (Post_insert v) s p"
proof -
  obtain i where i: "m (sl_heap s) = Some i" "i \<notin> dom (sl_heap s)" using fresh_elem assms by metis
  from assms(2) show ?thesis
  proof (cases rule: standingE)
    case (1 xs)
    then show ?thesis by (auto intro!: off_unchanged simp: PostInsert_def list_at_def)
  next
    case (2 xs a d ys)
    then show ?thesis using post_insert_at [where m = m and i = i and v = v, of s xs "(a, d)" ys] i
      by (auto intro!: goes_to [of _ _ _ _ xs a d "(i, v) # ys"])
  qed
qed

lemma sl_to_first:
  assumes "standing s p"
  shows "sl_implements m To_first s p"
proof -
  obtain zs act where zs: "list_at s zs act" "contents p = map snd zs" "zs = [] \<longrightarrow> p = Off [] \<and> act = None"
    by (rule standing_contents [OF assms])
  obtain s' where s': "First_active s = Some s'" "list_at s' zs (head_ptr zs None)" "same_flags s s'" using first_at [OF zs(1)] by auto
  show ?thesis
  proof (cases zs)
    case Nil
    then show ?thesis using zs s' by (intro goes_off [of _ _ _ s' "[]"]) auto
  next
    case (Cons x xs)
    then show ?thesis using zs s' by (intro goes_to [of _ _ _ s' "[]" "fst x" "snd x" xs]) auto
  qed
qed

lemma sl_copy_first:
  assumes "standing s p"
  shows "sl_implements m Copy_first s p"
proof -
  obtain zs act where zs: "list_at s zs act" "contents p = map snd zs" "zs = [] \<longrightarrow> p = Off [] \<and> act = None"
    by (rule standing_contents [OF assms])
  have k: "standing (s\<lparr>sl_err := e\<rparr>) p" "standing (s\<lparr>sl_val := w\<rparr>) p" for e w
    using assms by (cases p; simp add: list_at_def)+
  show ?thesis
    using zs k by (cases zs) (auto simp: sl_implements_def CopyFirst_def Error_def list_at_def)
qed

lemma sl_delete_first:
  assumes "standing s p"
  shows "sl_implements m Delete_first s p"
  using assms
proof (cases rule: standingE)
  case (1 xs)
  show ?thesis
  proof (cases xs)
    case Nil
    then show ?thesis using 1 by (intro goes_off [of _ _ _ s "[]"]) (auto simp: DeleteFirst_def list_at_def)
  next
    case (Cons x xs')
    then show ?thesis using 1 delete_first_at [of s x xs' None] by (auto intro!: goes_off [of _ _ _ _ xs'])
  qed
next
  case (2 xs a d ys)
  show ?thesis
  proof (cases xs)
    case Nil
    then show ?thesis using 2 delete_first_at [of s "(a, d)" ys "Some a"] by (auto intro!: goes_off [of _ _ _ _ ys])
  next
    case (Cons x xs')
    then have "a \<noteq> fst x" using 2(1) by (auto simp: list_at_def)
    then show ?thesis using 2 Cons delete_first_at [of s x "xs' @ (a, d) # ys" "Some a"] by (auto intro!: goes_to [of _ _ _ _ xs' a d ys])
  qed
qed

lemma sl_post_delete:
  assumes "standing s p"
  shows "sl_implements m Post_delete s p"
  using assms
proof (cases rule: standingE)
  case (1 xs)
  then show ?thesis by (auto intro!: off_unchanged simp: PostDelete_def list_at_def)
next
  case (2 xs a d ys)
  show ?thesis
  proof (cases ys)
    case Nil
    then show ?thesis using 2 by (intro goes_to [of _ _ _ s xs a d "[]"]) (auto simp: PostDelete_def list_at_def)
  next
    case (Cons y ys')
    then show ?thesis using 2 post_delete_at [of s xs "(a, d)" y ys'] by (auto intro!: goes_to [of _ _ _ _ xs a d ys'])
  qed
qed

lemma sl_succ:
  assumes "standing s p"
  shows "sl_implements m To_succ s p"
  using assms
proof (cases rule: standingE)
  case (1 xs)
  then show ?thesis by (auto intro!: off_unchanged simp: Succ_def list_at_def)
next
  case (2 xs a d ys)
  obtain s' where s': "Succ s = Some s'" "list_at s' (xs @ (a, d) # ys) (head_ptr ys None)" "same_flags s s'"
    using succ_at [of s xs "(a, d)" ys] 2 by auto
  show ?thesis
  proof (cases ys)
    case Nil
    then show ?thesis using 2 s' by (intro goes_off [of _ _ _ s' "xs @ [(a, d)]"]) auto
  next
    case (Cons y ys')
    then show ?thesis using 2 s' by (intro goes_to [of _ _ _ s' "xs @ [(a, d)]" "fst y" "snd y" ys']) auto
  qed
qed

lemma sl_actualize:
  assumes "standing s p"
  shows "sl_implements m (Actualize_act v) s p"
  using assms
proof (cases rule: standingE)
  case (1 xs)
  then show ?thesis by (auto intro!: off_unchanged simp: Actualize_def list_at_def)
next
  case (2 xs a d ys)
  then show ?thesis using actualize_at [OF 2(1), of v] by (auto intro!: goes_to [of _ _ _ _ xs a v ys])
qed

lemma sl_copy_act:
  assumes "standing s p"
  shows "sl_implements m Copy_act s p"
proof -
  have k: "standing (s\<lparr>sl_err := e\<rparr>) p" "standing (s\<lparr>sl_val := w\<rparr>) p" for e w
    using assms by (cases p; simp add: list_at_def)+
  from assms show ?thesis
    by (cases rule: standingE) (use k in \<open>auto simp: sl_implements_def Copy_active_def Error_def list_at_def\<close>)
qed

lemmas sl_steps = sl_dispose sl_insert_first sl_to_first sl_copy_first sl_delete_first sl_post_delete sl_post_insert
  sl_copy_act sl_actualize sl_succ

lemma sl_every_step: "good_malloc m \<Longrightarrow> standing s p \<Longrightarrow> sl_legal cmd \<Longrightarrow> sl_implements m cmd s p"
  by (cases cmd) (simp_all add: sl_steps sl_legal_def)

interpretation sll: cursor_refinement "sl_step m" "sl_rel m" sl_legal for m
proof
  fix s z cmd
  assume r: "sl_rel m s z" and l: "sl_legal cmd"
  then have "sl_implements m cmd s (cu_place z)" by (simp add: sl_rel_def sl_every_step)
  then show "\<exists>s'. sl_step m cmd s = Some s' \<and> sl_rel m s' (cursor_step cmd z)"
    using r by (auto simp: sl_implements_def sl_rel_def cursor_step_def same_flags_def Let_def split: option.splits)
qed

text \<open>
  C18. Singly linked list: whatever sequence of its operations runs on a list that \<^verbatim>\<open>c201.c\<close>
  has just initialised, as long as \<^verbatim>\<open>malloc\<close> succeeds, none of them follows a null or freed pointer, and afterwards the
  links, the first and the active element, the error flag and the copied value are those of
  the abstract list, with no cell on the heap outside it.
\<close>

theorem sl_refines_cursor:
  assumes "good_malloc m" "sl_heap s = Map.empty" "sl_list s \<noteq> None" "\<forall>cmd \<in> set cmds. sl_legal cmd"
  shows "\<exists>s'. sll.run m cmds (InitList s) = Some s'
    \<and> sl_rel m s' (fold cursor_step cmds \<lparr>cu_place = Off [], cu_err = sl_err s, cu_val = sl_val s\<rparr>)"
proof (rule sll.run_rel)
  show "sl_rel m (InitList s) \<lparr>cu_place = Off [], cu_err = sl_err s, cu_val = sl_val s\<rparr>"
    using assms by (auto simp: sl_rel_def InitList_def list_at_def)
qed (rule assms(4))

definition some_sl :: sl_state where
  "some_sl = \<lparr>sl_heap = Map.empty, sl_list = Some \<lparr>sAct = Some 4, sFirst = Some 9\<rparr>, sl_err = False, sl_val = 5\<rparr>"

theorem sl_refines_cursor_witness:
  "\<exists>s'. sll.run next_free [Insert_first 1, Insert_first 2, To_first, Post_insert 9, To_succ, Post_delete, Copy_act, Delete_first, Copy_first] (InitList some_sl)
     = Some s' \<and> standing s' (At [] 9 []) \<and> \<not> sl_err s' \<and> sl_val s' = 9"
  using sl_refines_cursor [OF good_next_free, of some_sl
      "[Insert_first 1, Insert_first 2, To_first, Post_insert 9, To_succ, Post_delete, Copy_act, Delete_first, Copy_first]"]
  by (auto simp: some_sl_def sl_rel_def cursor_step_def sl_legal_def Let_def simp del: standing.simps sll.run.simps)

end
