(* ===== verification/Message_Passing.thy ===== *)
theory Message_Passing
  imports "HOL-Library.Multiset" Prelude
begin

text \<open>
  Programs that communicate by MPI, as the two programs under \<^verbatim>\<open>PRL\<close> do. The code of one
  process is a tree of its calls of \<^verbatim>\<open>MPI_Send\<close>, \<^verbatim>\<open>MPI_Recv\<close> and \<^verbatim>\<open>MPI_Abort\<close> with the rest of
  the program as the continuation; what a process sends and returns is a function of what it
  receives. MPI itself is not part of the repository: \<open>mpi_run\<close> states what the programs
  rely on, about the messages received by all processes in a complete run. Messages are
  buffered, delivered once, and between two processes and with the same tag in order.
\<close>

section \<open>Processes\<close>

datatype ('t, 'v, 'r) proc =
    Done 'r
  | Abort
  | Send nat 't 'v "('t, 'v, 'r) proc"
  | Recv nat 't "'v \<Rightarrow> ('t, 'v, 'r) proc"
  | Recv_any 't "'v \<Rightarrow> ('t, 'v, 'r) proc"

text \<open>
  The messages for a process by source and tag. The source \<open>None\<close> is \<^verbatim>\<open>MPI_ANY_SOURCE\<close>: the
  messages of all sources, in the order in which they arrive. A process receives the
  messages of one tag either by source or from any.
\<close>

type_synonym ('t, 'v) inbox = "nat option \<times> 't \<Rightarrow> 'v list"

text \<open>What is sent, and the result: \<open>None\<close> when the process waits for ever or aborts.\<close>

primrec outcome :: "('t, 'v, 'r) proc \<Rightarrow> ('t, 'v) inbox \<Rightarrow> (nat \<times> 't \<times> 'v) list \<times> 'r option" where
  "outcome (Done r) = (\<lambda>inb. ([], Some r))"
| "outcome Abort = (\<lambda>inb. ([], None))"
| "outcome (Send dest tag v p) = (\<lambda>inb. let (out, r) = outcome p inb in ((dest, tag, v) # out, r))"
| "outcome (Recv source tag f) =
     (\<lambda>inb. case inb (Some source, tag) of
        [] \<Rightarrow> ([], None)
      | v # vs \<Rightarrow> outcome (f v) (inb((Some source, tag) := vs)))"
| "outcome (Recv_any tag f) =
     (\<lambda>inb. case inb (None, tag) of
        [] \<Rightarrow> ([], None)
      | v # vs \<Rightarrow> outcome (f v) (inb((None, tag) := vs)))"

abbreviation sends :: "('t, 'v, 'r) proc \<Rightarrow> ('t, 'v) inbox \<Rightarrow> (nat \<times> 't \<times> 'v) list" where
  "sends p inb \<equiv> fst (outcome p inb)"

abbreviation result :: "('t, 'v, 'r) proc \<Rightarrow> ('t, 'v) inbox \<Rightarrow> 'r option" where
  "result p inb \<equiv> snd (outcome p inb)"

definition to_dest :: "nat \<Rightarrow> 't \<Rightarrow> (nat \<times> 't \<times> 'v) list \<Rightarrow> 'v list" where
  "to_dest dest tag out = map (snd \<circ> snd) (filter (\<lambda>m. fst m = dest \<and> fst (snd m) = tag) out)"

definition mpi_run :: "nat \<Rightarrow> (nat \<Rightarrow> ('t, 'v, 'r) proc) \<Rightarrow> (nat \<Rightarrow> ('t, 'v) inbox) \<Rightarrow> bool" where
  "mpi_run np prog inb \<longleftrightarrow>
     (\<forall>p < np. \<forall>q < np. \<forall>t. inb p (Some q, t) = to_dest p t (sends (prog q) (inb q)))
     \<and> (\<forall>p < np. \<forall>t. mset (inb p (None, t)) = (\<Sum>q < np. mset (to_dest p t (sends (prog q) (inb q)))))"

lemma delivered: "mpi_run np prog inb \<Longrightarrow> p < np \<Longrightarrow> q < np \<Longrightarrow> inb p (Some q, t) = to_dest p t (sends (prog q) (inb q))"
  by (simp add: mpi_run_def)

lemma delivered_any: "mpi_run np prog inb \<Longrightarrow> p < np \<Longrightarrow> mset (inb p (None, t)) = (\<Sum>q < np. mset (to_dest p t (sends (prog q) (inb q))))"
  by (simp add: mpi_run_def)

section \<open>Loops of sends and receives\<close>

lemma to_dest_simps [simp]:
  "to_dest d t [] = []"
  "to_dest d t (m # out) = (if fst m = d \<and> fst (snd m) = t then snd (snd m) # to_dest d t out else to_dest d t out)"
  "to_dest d t (out @ out') = to_dest d t out @ to_dest d t out'"
  by (simp_all add: to_dest_def)

lemma outcome_Send: "outcome (Send d t v p) inb = ((d, t, v) # sends p inb, result p inb)"
  by (simp add: case_prod_beta)

fun send_all :: "(nat \<times> 't \<times> 'v) list \<Rightarrow> ('t, 'v, 'r) proc \<Rightarrow> ('t, 'v, 'r) proc" where
  "send_all [] p = p"
| "send_all ((d, t, v) # ms) p = Send d t v (send_all ms p)"

lemma outcome_send_all: "outcome (send_all ms p) inb = (ms @ sends p inb, result p inb)"
  by (induction ms p rule: send_all.induct) (simp_all add: case_prod_beta)

fun recv_many :: "nat \<Rightarrow> nat \<Rightarrow> 't \<Rightarrow> ('v list \<Rightarrow> ('t, 'v, 'r) proc) \<Rightarrow> ('t, 'v, 'r) proc" where
  "recv_many 0 s t f = f []"
| "recv_many (Suc n) s t f = Recv s t (\<lambda>v. recv_many n s t (\<lambda>vs. f (v # vs)))"

lemma outcome_recv_many:
  "inb (Some s, t) = vs @ ws \<Longrightarrow> length vs = n \<Longrightarrow> outcome (recv_many n s t f) inb = outcome (f vs) (inb((Some s, t) := ws))"
proof (induction n arbitrary: inb vs f)
  case (Suc n)
  then obtain v vs' where vs: "vs = v # vs'" by (cases vs) auto
  show ?case
    using Suc.IH [of "inb((Some s, t) := vs' @ ws)" vs' "\<lambda>vs. f (v # vs)"] Suc.prems vs by (simp add: fun_upd_same del: fun_upd_apply)
qed (simp add: fun_upd_idem)

end
