(* ===== verification/Enumeration_Sort.thy ===== *)
theory Enumeration_Sort
  imports Message_Passing
begin

text \<open>
  The parallel enumeration sort of \<^verbatim>\<open>PRL/proj1/es.cpp\<close>: the process 0 reads the file and feeds
  the others, which count the rank of their number while all numbers are shifted past them,
  exchange the numbers by rank and shift the sorted sequence back. The theorem: in every
  run on as many processes as there are numbers, and one more, all processes end and the
  numbers come out sorted.
\<close>

section \<open>The program\<close>

definition EMPTY :: u16 where
  "EMPTY = 65535"

datatype Tags = tag_x | tag_y | tag_z | tag_o

type_synonym es_proc = "(Tags, u16, u16 list \<times> u16 list) proc"

text \<open>The result of the master is what it prints: the numbers read and the numbers gathered.\<close>

fun es_read :: "nat \<Rightarrow> byte list \<Rightarrow> (nat \<times> Tags \<times> u16) list" where
  "es_read i [] = []"
| "es_read i (b # bs) = (let number = ucast b in (i, tag_x, number) # (1, tag_y, number) # es_read (i + 1) bs)"

fun es_gather :: "nat \<Rightarrow> nat list \<Rightarrow> u16 list \<Rightarrow> (u16 list \<Rightarrow> es_proc) \<Rightarrow> es_proc" where
  "es_gather numProcs [] numbers k = k numbers"
| "es_gather numProcs (i # is) numbers k =
     Recv (numProcs - 1) tag_o (\<lambda>recv. es_gather numProcs is (numbers[numProcs - i - 1 := recv]) k)"

definition es_master :: "nat \<Rightarrow> byte list option \<Rightarrow> es_proc" where
  "es_master numProcs file =
     (case file of
        None \<Rightarrow> Done ([], [])
      | Some bs \<Rightarrow>
          send_all (es_read 1 bs)
            (es_gather numProcs [1..<numProcs] (replicate (numProcs - 1) 0) (\<lambda>numbers. Done (map ucast bs, numbers))))"

text \<open>One number passes: whether it counts.\<close>

definition es_counts :: "nat \<Rightarrow> u16 \<Rightarrow> nat \<Rightarrow> u16 \<Rightarrow> bool" where
  "es_counts me x i y \<longleftrightarrow> x \<noteq> EMPTY \<and> y \<noteq> EMPTY \<and> (i < me \<and> x \<ge> y \<or> x > y)"

fun es_compare :: "nat \<Rightarrow> nat \<Rightarrow> u16 \<Rightarrow> nat list \<Rightarrow> u16 \<Rightarrow> (u16 \<Rightarrow> es_proc) \<Rightarrow> es_proc" where
  "es_compare numProcs me x [] c k = k c"
| "es_compare numProcs me x (i # is) c k =
     Recv (me - 1) tag_y (\<lambda>y.
       let rest = es_compare numProcs me x is (if es_counts me x i y then c + 1 else c) k
       in if me \<noteq> numProcs - 1 then Send (me + 1) tag_y y rest else rest)"

fun es_shift :: "nat \<Rightarrow> nat \<Rightarrow> nat list \<Rightarrow> u16 \<Rightarrow> (u16 \<Rightarrow> es_proc) \<Rightarrow> es_proc" where
  "es_shift recv me [] z k = k z"
| "es_shift recv me (i # is) z k = Send recv tag_o z (Recv (me - 1) tag_o (\<lambda>z'. es_shift recv me is z' k))"

definition es_slave :: "nat \<Rightarrow> nat \<Rightarrow> es_proc" where
  "es_slave numProcs me =
     Recv 0 tag_x (\<lambda>x.
       es_compare numProcs me x [1..<numProcs] 1 (\<lambda>c.
         Send (unat c) tag_z x (Recv_any tag_z (\<lambda>z.
           let recv = (if me \<noteq> numProcs - 1 then me + 1 else 0)
           in es_shift recv me [1..<me] z (\<lambda>z'. Send recv tag_o z' (Done ([], [])))))))"

definition es_main :: "nat \<Rightarrow> byte list option \<Rightarrow> nat \<Rightarrow> es_proc" where
  "es_main numProcs file me = (if me = 0 then es_master numProcs file else es_slave numProcs me)"

section \<open>The loops\<close>

lemma es_read_sends:
  "to_dest d tag_x (es_read i bs) = (if i \<le> d \<and> d < i + length bs then [ucast (bs ! (d - i))] else [])"
  "to_dest d tag_y (es_read i bs) = (if d = 1 then map ucast bs else [])"
  "to_dest d tag_z (es_read i bs) = []" "to_dest d tag_o (es_read i bs) = []"
  by (induction i bs rule: es_read.induct) (auto simp: Let_def nth_Cons' not_le less_Suc_eq_le)

lemma outcome_compare:
  "inb (Some (me - 1), tag_y) = ys @ ws \<Longrightarrow> length ys = length is \<Longrightarrow>
    outcome (es_compare np me x is c k) inb =
      (let r = outcome (k (c + of_nat (length (filter (\<lambda>(i, y). es_counts me x i y) (zip is ys))))) (inb((Some (me - 1), tag_y) := ws))
       in ((if me \<noteq> np - 1 then map (\<lambda>y. (me + 1, tag_y, y)) ys else []) @ fst r, snd r))"
proof (induction "is" arbitrary: inb ys c)
  case (Cons i "is")
  then obtain y ys' where ys: "ys = y # ys'" by (cases ys) auto
  show ?case
    using Cons.IH [of "inb((Some (me - 1), tag_y) := ys' @ ws)" ys' "if es_counts me x i y then c + 1 else c"] Cons.prems ys
    by (cases "es_counts me x i y"; cases "me = np - 1") (simp_all add: Let_def case_prod_beta ac_simps fun_upd_same del: fun_upd_apply)
qed (simp add: fun_upd_idem)

lemma outcome_shift:
  "inb (Some (me - 1), tag_o) = zs @ ws \<Longrightarrow> length zs = length is \<Longrightarrow>
    outcome (es_shift recv me is z k) inb =
      (let r = outcome (k (last (z # zs))) (inb((Some (me - 1), tag_o) := ws))
       in (map (\<lambda>z. (recv, tag_o, z)) (butlast (z # zs)) @ fst r, snd r))"
proof (induction "is" arbitrary: inb zs z)
  case (Cons i "is")
  then obtain y ys' where ys: "zs = y # ys'" by (cases zs) auto
  show ?case
    using Cons.IH [of "inb((Some (me - 1), tag_o) := ys' @ ws)" ys' y] Cons.prems ys
    by (simp add: Let_def case_prod_beta fun_upd_same del: fun_upd_apply)
qed (simp add: fun_upd_idem)

section \<open>Ranks\<close>

definition procs :: "u16 list \<Rightarrow> nat set" where
  "procs xs = {1..length xs}"

lemma procs_simps [simp]:
  "finite (procs xs)" "card (procs xs) = length xs" "set [1..<length xs + 1] = procs xs" "set [Suc 0..<Suc (length xs)] = procs xs"
  by (auto simp: procs_def simp del: upt_Suc)

lemma procs_iff: "i \<in> procs xs \<longleftrightarrow> 1 \<le> i \<and> i \<le> length xs"
  by (auto simp: procs_def)

definition es_less :: "u16 list \<Rightarrow> nat \<Rightarrow> nat \<Rightarrow> bool" where
  "es_less xs i j \<longleftrightarrow> xs ! (i - 1) < xs ! (j - 1) \<or> xs ! (i - 1) = xs ! (j - 1) \<and> i < j"

definition rank :: "u16 list \<Rightarrow> nat \<Rightarrow> nat" where
  "rank xs j = 1 + card {i \<in> procs xs. es_less xs i j}"

lemma es_less_trans: "es_less xs i j \<Longrightarrow> es_less xs j k \<Longrightarrow> es_less xs i k"
  by (auto simp: es_less_def)

lemma es_less_linear: "es_less xs i j \<or> i = j \<or> es_less xs j i"
  by (auto simp: es_less_def)

lemma es_less_irrefl: "\<not> es_less xs i i"
  by (auto simp: es_less_def)

lemma rank_less:
  assumes "es_less xs i j" "i \<in> procs xs"
  shows "rank xs i < rank xs j"
proof -
  have "{k \<in> procs xs. es_less xs k i} \<subset> {k \<in> procs xs. es_less xs k j}"
    using assms es_less_trans [of xs _ i j] es_less_irrefl [of xs i] by auto
  then show ?thesis unfolding rank_def by (simp add: psubset_card_mono)
qed

lemma rank_inj: "inj_on (rank xs) (procs xs)"
  by (rule inj_onI) (metis es_less_linear rank_less less_irrefl)

lemma rank_in: "j \<in> procs xs \<Longrightarrow> rank xs j \<in> procs xs"
proof -
  assume j: "j \<in> procs xs"
  then have "{i \<in> procs xs. es_less xs i j} \<subset> procs xs" using es_less_irrefl by auto
  then have "card {i \<in> procs xs. es_less xs i j} < length xs" using psubset_card_mono [of "procs xs"] by auto
  then show ?thesis by (simp add: rank_def procs_iff)
qed

lemma rank_bij: "bij_betw (rank xs) (procs xs) (procs xs)"
  unfolding bij_betw_def using rank_inj rank_in endo_inj_surj [of "procs xs" "rank xs"] by auto

definition with_rank :: "u16 list \<Rightarrow> nat \<Rightarrow> u16" where
  "with_rank xs p = xs ! (inv_into (procs xs) (rank xs) p - 1)"

lemma with_rank_of: "j \<in> procs xs \<Longrightarrow> with_rank xs (rank xs j) = xs ! (j - 1)"
  by (simp add: with_rank_def rank_inj)

lemma mset_places: "mset [Suc 0..<Suc (length xs)] = mset_set (procs xs)"
  using mset_set_set [of "[Suc 0..<Suc (length xs)]"] by (simp add: procs_def atLeastLessThanSuc_atLeastAtMost del: upt_Suc)

lemma with_rank_sorted: "map (with_rank xs) [1..<length xs + 1] = sort xs"
proof (rule properties_for_sort [symmetric])
  let ?A = "procs xs" and ?f = "inv_into (procs xs) (rank xs)"
  have f: "bij_betw ?f ?A ?A" by (rule bij_betw_inv_into [OF rank_bij])
  have e: "with_rank xs = (\<lambda>p. xs ! (?f p - 1))" by (simp add: with_rank_def fun_eq_iff)
  have "mset (map (with_rank xs) [1..<length xs + 1]) = image_mset (\<lambda>i. xs ! (i - 1)) (image_mset ?f (mset_set ?A))"
    by (simp add: multiset.map_comp comp_def e mset_map mset_places [unfolded mset_upt] del: upt_Suc)
  also have "image_mset ?f (mset_set ?A) = mset_set ?A"
    using f image_mset_mset_set [of ?f ?A] by (simp add: bij_betw_def)
  also have "image_mset (\<lambda>i. xs ! (i - 1)) (mset_set ?A) = mset (map (\<lambda>i. xs ! (i - 1)) [1..<length xs + 1])"
    by (simp add: mset_map mset_places [unfolded mset_upt] del: upt_Suc)
  also have "map (\<lambda>i. xs ! (i - 1)) [1..<length xs + 1] = xs"
    by (rule nth_equalityI) (auto simp del: upt_Suc)
  finally show "mset (map (with_rank xs) [1..<length xs + 1]) = mset xs" .
  show "sorted (map (with_rank xs) [1..<length xs + 1])"
  proof (rule sorted_map_mono)
    show "mono_on (set [1..<length xs + 1]) (with_rank xs)"
    proof (rule mono_onI)
      fix p q assume pq: "p \<in> set [1..<length xs + 1]" "q \<in> set [1..<length xs + 1]" "p \<le> q"
      then have "p \<in> ?A" "q \<in> ?A" by (simp_all add: procs_iff del: upt_Suc)
      then have r: "rank xs (?f p) = p" "rank xs (?f q) = q" "?f q \<in> ?A"
        using rank_bij [of xs] by (auto simp: bij_betw_def f_inv_into_f intro: inv_into_into)
      then have "\<not> es_less xs (?f q) (?f p)" using rank_less [of xs "?f q" "?f p"] pq(3) by auto
      then show "with_rank xs p \<le> with_rank xs q" by (auto simp: es_less_def with_rank_def not_less)
    qed
  qed (simp del: upt_Suc)
qed

text \<open>The count of a process is its rank: no byte is \<open>EMPTY\<close>.\<close>

lemma not_empty: "(ucast (b :: byte) :: u16) \<noteq> EMPTY"
proof
  assume "(ucast b :: u16) = EMPTY"
  then have "unat (ucast b :: u16) = unat EMPTY" by simp
  moreover have "unat b < 256" using unsigned_less [of b, where 'a = nat] by simp
  ultimately show False by (simp add: EMPTY_def unsigned_ucast_eq take_bit_eq_mod)
qed

lemma counted_rank:
  assumes "xs = map ucast (bs :: byte list)" "me \<in> procs xs"
  shows "1 + length (filter (\<lambda>(i, y). es_counts me (xs ! (me - 1)) i y) (zip [1..<length xs + 1] xs)) = rank xs me"
proof -
  have z: "zip [1..<length xs + 1] xs = map (\<lambda>i. (i, xs ! (i - 1))) [1..<length xs + 1]"
    by (rule nth_equalityI) (auto simp del: upt_Suc)
  have c: "es_counts me (xs ! (me - 1)) i (xs ! (i - 1)) \<longleftrightarrow> es_less xs i me" if "i \<in> procs xs" for i
    using that assms not_empty by (auto simp: es_counts_def es_less_def procs_iff)
  have "length (filter (\<lambda>(i, y). es_counts me (xs ! (me - 1)) i y) (zip [1..<length xs + 1] xs))
      = length (filter (\<lambda>i. es_less xs i me) [1..<length xs + 1])"
    unfolding z filter_map length_map comp_def case_prod_conv
    by (rule arg_cong [where f = length], rule filter_cong) (use c in \<open>auto simp: procs_iff simp del: upt_Suc\<close>)
  also have "\<dots> = card (set (filter (\<lambda>i. es_less xs i me) [1..<length xs + 1]))"
    by (rule distinct_card [symmetric]) simp
  also have "set (filter (\<lambda>i. es_less xs i me) [1..<length xs + 1]) = {i \<in> procs xs. es_less xs i me}"
    by (auto simp: procs_iff simp del: upt_Suc)
  finally show ?thesis by (simp add: rank_def)
qed

section \<open>A run\<close>

definition es_after :: "nat \<Rightarrow> nat \<Rightarrow> es_proc" where
  "es_after numProcs me =
     Recv_any tag_z (\<lambda>z.
       let recv = (if me \<noteq> numProcs - 1 then me + 1 else 0)
       in es_shift recv me [1..<me] z (\<lambda>z'. Send recv tag_o z' (Done ([], []))))"

lemma es_slave_eq:
  "es_slave np me = Recv 0 tag_x (\<lambda>x. es_compare np me x [1..<np] 1 (\<lambda>c. Send (unat c) tag_z x (es_after np me)))"
  by (simp add: es_slave_def es_after_def)

lemma to_dest_values: "to_dest d t (map (\<lambda>v. (d', t', v)) vs) = (if d = d' \<and> t = t' then vs else [])"
  by (induction vs) auto

lemma to_dest_cong: "\<forall>m \<in> set out. fst (snd m) \<noteq> t \<Longrightarrow> to_dest d t out = []"
  by (auto simp: to_dest_def)

lemma shift_tags: "m \<in> set (sends (es_shift recv me is z (\<lambda>z'. Send recv tag_o z' (Done r))) inb) \<Longrightarrow> fst (snd m) = tag_o"
  by (induction "is" arbitrary: z inb) (auto simp: case_prod_beta split: list.splits)

lemma after_tags: "t \<noteq> tag_o \<Longrightarrow> to_dest d t (sends (es_after np me) inb) = []"
  by (rule to_dest_cong) (auto simp: es_after_def Let_def dest: shift_tags split: list.splits)

text \<open>The slave up to the exchange.\<close>

lemma slave_compares:
  assumes x: "inb (Some 0, tag_x) = [x]" and y: "inb (Some (me - 1), tag_y) = ys" and n: "length ys = np - 1"
  shows "\<exists>inb'. outcome (es_slave np me) inb =
      ((if me \<noteq> np - 1 then map (\<lambda>y. (me + 1, tag_y, y)) ys else []) @
       (unat (1 + of_nat (length (filter (\<lambda>(i, y). es_counts me x i y) (zip [1..<np] ys))) :: u16), tag_z, x) # sends (es_after np me) inb',
       result (es_after np me) inb')
     \<and> inb' (None, tag_z) = inb (None, tag_z) \<and> inb' (Some (me - 1), tag_o) = inb (Some (me - 1), tag_o)"
proof -
  let ?inb1 = "inb((Some 0, tag_x) := [])"
  let ?inb2 = "?inb1((Some (me - 1), tag_y) := [])"
  have "outcome (es_slave np me) inb = outcome (es_compare np me x [1..<np] 1 (\<lambda>c. Send (unat c) tag_z x (es_after np me))) ?inb1"
    using x by (simp add: es_slave_eq del: fun_upd_apply)
  also have "\<dots> = ((if me \<noteq> np - 1 then map (\<lambda>y. (me + 1, tag_y, y)) ys else []) @
       (unat (1 + of_nat (length (filter (\<lambda>(i, y). es_counts me x i y) (zip [1..<np] ys))) :: u16), tag_z, x) # sends (es_after np me) ?inb2,
       result (es_after np me) ?inb2)"
    using y n by (subst outcome_compare [where ys = ys and ws = "[]"]) (simp_all add: Let_def outcome_Send del: outcome.simps)
  finally show ?thesis by (intro exI [of _ ?inb2]) simp
qed

text \<open>The slave after it.\<close>

lemma slave_shifts:
  assumes z: "inb (None, tag_z) = [z]" and o: "inb (Some (me - 1), tag_o) = zs" and n: "length zs = me - 1"
  shows "outcome (es_after np me) inb =
      (map (\<lambda>z. (if me \<noteq> np - 1 then me + 1 else 0, tag_o, z)) (z # zs), Some ([], []))"
proof -
  let ?recv = "if me \<noteq> np - 1 then me + 1 else 0" and ?inb1 = "inb((None, tag_z) := [])"
  have "outcome (es_after np me) inb = outcome (es_shift ?recv me [1..<me] z (\<lambda>z'. Send ?recv tag_o z' (Done ([], [])))) ?inb1"
    using z by (simp add: es_after_def Let_def del: fun_upd_apply)
  also have "\<dots> = (map (\<lambda>z. (?recv, tag_o, z)) (butlast (z # zs)) @ [(?recv, tag_o, last (z # zs))], Some ([], []))"
    using o n by (subst outcome_shift [where zs = zs and ws = "[]"]) (simp_all add: Let_def)
  also have "map (\<lambda>z. (?recv, tag_o, z)) (butlast (z # zs)) @ [(?recv, tag_o, last (z # zs))] = map (\<lambda>z. (?recv, tag_o, z)) (z # zs)"
    by (subst append_butlast_last_id [symmetric, of "z # zs"]) (simp_all del: append_butlast_last_id)
  finally show ?thesis .
qed

lemma gathered:
  "inb (Some (np - 1), tag_o) = vs \<Longrightarrow> length vs = np - i \<Longrightarrow> length numbers = np - 1 \<Longrightarrow> 1 \<le> i \<Longrightarrow> i \<le> np \<Longrightarrow>
    outcome (es_gather np [i..<np] numbers (\<lambda>ns. Done (k ns))) inb = ([], Some (k (rev vs @ drop (np - i) numbers)))"
proof (induction "np - i" arbitrary: i inb vs numbers)
  case 0
  then show ?case by simp
next
  case (Suc n)
  then obtain v vs' where vs: "vs = v # vs'" by (cases vs) auto
  have u: "[i..<np] = i # [Suc i..<np]" using Suc by (simp add: upt_rec)
  have d: "rev vs' @ drop (np - Suc i) (numbers[np - i - 1 := v]) = rev vs @ drop (np - i) numbers"
    using Suc vs by (simp add: Cons_nth_drop_Suc [symmetric] drop_update_cancel Suc_diff_Suc)
  show ?case
    using Suc.hyps(1) [of "Suc i" "inb((Some (np - 1), tag_o) := vs')" vs' "numbers[np - i - 1 := v]"] Suc.hyps(2) Suc.prems vs d
    by (simp add: u fun_upd_same del: fun_upd_apply upt_Suc)
qed

lemma master_reads:
  "outcome (es_master np (Some bs)) inb =
    (let r = outcome (es_gather np [1..<np] (replicate (np - 1) 0) (\<lambda>numbers. Done (map ucast bs, numbers))) inb
     in (es_read 1 bs @ fst r, snd r))"
  by (simp add: es_master_def outcome_send_all Let_def)

lemma gather_sends: "sends (es_gather np is numbers (\<lambda>ns. Done (k ns))) inb = []"
  by (induction "is" arbitrary: numbers inb) (auto split: list.splits)

lemma master_sends: "sends (es_master np (Some bs)) inb = es_read 1 bs"
  by (simp add: master_reads Let_def gather_sends)

text \<open>What is received, process by process.\<close>

lemma run_x:
  assumes r: "mpi_run np (es_main np (Some bs)) inb" and np: "np = length bs + 1" and me: "1 \<le> me" "me < np"
  shows "inb me (Some 0, tag_x) = [map ucast bs ! (me - 1)]"
  using delivered [OF r, of me 0 tag_x] me np by (simp add: es_main_def master_sends es_read_sends)

lemma run_y_Suc:
  assumes r: "mpi_run np (es_main np (Some bs)) inb" and np: "np = length bs + 1" and xs: "xs = map ucast bs"
  shows "Suc k < np \<Longrightarrow> inb (Suc k) (Some k, tag_y) = xs"
proof (induction k)
  case 0
  then show ?case using delivered [OF r, of 1 0 tag_y] np xs by (simp add: es_main_def master_sends es_read_sends)
next
  case (Suc k)
  have "length xs = np - 1" by (simp add: np xs)
  moreover have "inb (Suc k) (Some 0, tag_x) = [xs ! k]" using run_x [OF r np, of "Suc k"] Suc.prems xs by simp
  moreover have "inb (Suc k) (Some k, tag_y) = xs" using Suc by simp
  ultimately show ?case
    using delivered [OF r, of "Suc (Suc k)" "Suc k" tag_y] Suc.prems slave_compares [of "inb (Suc k)" "xs ! k" "Suc k" xs np]
    by (auto simp: es_main_def to_dest_values after_tags)
qed

lemma run_y:
  assumes r: "mpi_run np (es_main np (Some bs)) inb" and np: "np = length bs + 1" and me: "1 \<le> me" "me < np"
  shows "inb me (Some (me - 1), tag_y) = map ucast bs"
  using run_y_Suc [OF r np refl, of "me - 1"] me by simp

lemma run_c:
  fixes bs :: "byte list" and xs :: "u16 list"
  assumes np: "np = length bs + 1" "np \<le> 65536" and me: "1 \<le> me" "me < np" and xs: "xs = map ucast bs"
  shows "unat (1 + of_nat (length (filter (\<lambda>(i, y). es_counts me (xs ! (me - 1)) i y) (zip [1..<np] xs))) :: u16) = rank xs me"
proof -
  have m: "me \<in> procs xs" using me np xs by (simp add: procs_iff)
  have r: "rank xs me < 2 ^ 16" using rank_in [OF m] np xs by (simp add: procs_iff)
  have e: "rank xs me = 1 + length (filter (\<lambda>(i, y). es_counts me (xs ! (me - 1)) i y) (zip [1..<np] xs))"
    using counted_rank [OF xs m] np(1) xs by (simp del: upt_Suc)
  have "(1 + of_nat (length (filter (\<lambda>(i, y). es_counts me (xs ! (me - 1)) i y) (zip [1..<np] xs))) :: u16) = of_nat (rank xs me)"
    unfolding e by simp
  then show ?thesis using r by (simp add: unat_of_nat take_bit_eq_mod)
qed

lemma run_slave:
  assumes r: "mpi_run np (es_main np (Some bs)) inb" and np: "np = length bs + 1" "np \<le> 65536"
    and me: "1 \<le> me" "me < np" and xs: "xs = map ucast bs"
  shows "\<exists>inb'. outcome (es_main np (Some bs) me) (inb me) =
      ((if me \<noteq> np - 1 then map (\<lambda>y. (me + 1, tag_y, y)) xs else []) @ (rank xs me, tag_z, xs ! (me - 1)) # sends (es_after np me) inb',
       result (es_after np me) inb')
     \<and> inb' (None, tag_z) = inb me (None, tag_z) \<and> inb' (Some (me - 1), tag_o) = inb me (Some (me - 1), tag_o)"
  using slave_compares [of "inb me" "xs ! (me - 1)" me xs np] run_x [OF r np(1) me] run_y [OF r np(1) me] run_c [OF np me xs] me np xs
  by (simp add: es_main_def)

lemma run_z:
  assumes r: "mpi_run np (es_main np (Some bs)) inb" and np: "np = length bs + 1" "np \<le> 65536"
    and me: "1 \<le> me" "me < np" and xs: "xs = map ucast bs"
  shows "inb me (None, tag_z) = [with_rank xs me]"
proof -
  have sent: "to_dest me tag_z (sends (es_main np (Some bs) q) (inb q)) = (if q \<in> procs xs \<and> rank xs q = me then [xs ! (q - 1)] else [])"
    if "q < np" for q
  proof (cases "q = 0")
    case True
    then show ?thesis by (simp add: es_main_def master_sends es_read_sends procs_iff)
  next
    case False
    moreover have "length xs = length bs" by (simp add: xs)
    ultimately show ?thesis using run_slave [OF r np _ that xs] that np
      by (auto simp: to_dest_values after_tags procs_iff)
  qed
  have "me \<in> procs xs" using me np xs by (simp add: procs_iff)
  then obtain j where j: "j \<in> procs xs" "rank xs j = me" by (metis bij_betw_def imageE rank_bij)
  have "(\<Sum>q < np. mset (to_dest me tag_z (sends (es_main np (Some bs) q) (inb q)))) = (\<Sum>q < np. if q = j then {#xs ! (j - 1)#} else {#})"
    by (rule sum.cong) (use sent j rank_inj [of xs] in \<open>auto simp: inj_on_def\<close>)
  also have "\<dots> = {#xs ! (j - 1)#}" using j(1) np xs by (simp add: procs_iff)
  finally have "mset (inb me (None, tag_z)) = {#xs ! (j - 1)#}" using delivered_any [OF r me(2)] by simp
  then show ?thesis using with_rank_of [OF j(1)] j(2) by simp
qed

lemma run_o:
  assumes r: "mpi_run np (es_main np (Some bs)) inb" and np: "np = length bs + 1" "np \<le> 65536"
    and me: "1 \<le> me" "me < np" and xs: "xs = map ucast bs"
  shows "sends (es_main np (Some bs) me) (inb me) =
      (if me \<noteq> np - 1 then map (\<lambda>y. (me + 1, tag_y, y)) xs else []) @ (rank xs me, tag_z, xs ! (me - 1)) #
        map (\<lambda>p. (if me \<noteq> np - 1 then me + 1 else 0, tag_o, with_rank xs p)) (rev [1..<me + 1])
    \<and> result (es_main np (Some bs) me) (inb me) = Some ([], [])"
  using me
proof (induction me rule: less_induct)
  case (less me)
  obtain inb' where i: "outcome (es_main np (Some bs) me) (inb me) =
      ((if me \<noteq> np - 1 then map (\<lambda>y. (me + 1, tag_y, y)) xs else []) @ (rank xs me, tag_z, xs ! (me - 1)) # sends (es_after np me) inb',
       result (es_after np me) inb')" "inb' (None, tag_z) = inb me (None, tag_z)" "inb' (Some (me - 1), tag_o) = inb me (Some (me - 1), tag_o)"
    using run_slave [OF r np less.prems xs] by blast
  have o: "inb me (Some (me - 1), tag_o) = map (with_rank xs) (rev [1..<me])" if "me \<noteq> 1"
    using less.IH [of "me - 1"] delivered [OF r, of me "me - 1" tag_o] less.prems that
      to_dest_values [of me tag_o "me" tag_o "map (with_rank xs) (rev [1..<me])"]
    by (auto simp: to_dest_values comp_def)
  have "outcome (es_after np me) inb' =
      (map (\<lambda>z. (if me \<noteq> np - 1 then me + 1 else 0, tag_o, z)) (map (with_rank xs) (rev [1..<me + 1])), Some ([], []))"
  proof (cases "me = 1")
    case True
    then show ?thesis using run_z [OF r np less.prems xs] i(2) by (simp add: es_after_def outcome_Send)
  next
    case False
    then show ?thesis
      using slave_shifts [OF i(2) [unfolded run_z [OF r np less.prems xs]] i(3) [unfolded o [OF False]]] less.prems
      by simp
  qed
  then show ?case using i(1) by (simp add: comp_def)
qed

text \<open>
  C10. Enumeration sort: in every complete run of \<^verbatim>\<open>es.cpp\<close> on a file of bytes and one process
  more than bytes (at most 65536), with sends that are buffered, whatever the order in which the exchanged numbers arrive,
  no process waits for ever; the master prints the numbers of the file, and then the same
  numbers sorted.
\<close>

theorem enumeration_sorts:
  assumes "mpi_run np (es_main np (Some bs)) inb" "np = length bs + 1" "np \<le> 65536" "me < np"
  shows "result (es_main np (Some bs) me) (inb me)
    = Some (if me = 0 then (map ucast bs, sort (map ucast bs)) else ([], []))"
proof (cases "me = 0")
  case False
  then show ?thesis using run_o [OF assms(1-3) _ assms(4) refl] by simp
next
  case True
  let ?xs = "map ucast bs :: u16 list"
  have "es_main np (Some bs) 0 = es_master np (Some bs)" by (simp add: es_main_def)
  moreover have "result (es_master np (Some bs)) (inb 0) = Some (map ucast bs, map (with_rank ?xs) [1..<np])"
  proof (cases "bs = []")
    case False
    then have "to_dest 0 tag_o (sends (es_main np (Some bs) (np - 1)) (inb (np - 1))) = map (with_rank ?xs) (rev [1..<np])"
      using run_o [OF assms(1-3), of "np - 1" ?xs] assms(2)
        to_dest_values [of 0 tag_o 0 tag_o "map (with_rank ?xs) (rev [1..<np])"] False
      by (auto simp: comp_def to_dest_values Suc_le_eq simp del: upt_Suc)
    then have "inb 0 (Some (np - 1), tag_o) = map (with_rank ?xs) (rev [1..<np])"
      using delivered [OF assms(1), of 0 "np - 1" tag_o] assms(2) by simp
    from gathered [where inb = "inb 0" and np = np, OF this, of 1 "replicate (np - 1) 0" "\<lambda>ns. (map ucast bs, ns)"] show ?thesis
      using assms(2) by (simp add: master_reads Let_def rev_map del: upt_Suc)
  qed (use assms(2) in \<open>simp add: es_master_def\<close>)
  ultimately show ?thesis using True assms(2) with_rank_sorted [of ?xs] by simp
qed

text \<open>What is received when the bytes 5 and 3 are sorted.\<close>

definition es_sample :: "nat \<Rightarrow> (Tags, u16) inbox" where
  "es_sample p = (\<lambda>_. [])((Some 0, tag_x) := (if p = 1 then [5] else if p = 2 then [3] else []),
     (Some (p - 1), tag_y) := (if p = 1 \<or> p = 2 then [5, 3] else []),
     (None, tag_z) := (if p = 1 then [3] else if p = 2 then [5] else []),
     (Some 2, tag_z) := (if p = 1 then [3] else []), (Some 1, tag_z) := (if p = 2 then [5] else []),
     (None, tag_x) := (if p = 1 then [5] else if p = 2 then [3] else []),
     (None, tag_y) := (if p = 1 \<or> p = 2 then [5, 3] else []),
     (None, tag_o) := (if p = 2 then [3] else if p = 0 then [5, 3] else []),
     (Some (p - 1), tag_o) := (if p = 2 then [3] else []), (Some 2, tag_o) := (if p = 0 then [5, 3] else []))"

lemma es_sample_run: "mpi_run 3 (es_main 3 (Some [5, 3])) es_sample"
proof -
  have a: "(\<forall>p < 3. P p) \<longleftrightarrow> P 0 \<and> P 1 \<and> P 2" for P :: "nat \<Rightarrow> bool"
    by (auto simp: numeral_3_eq_3 less_Suc_eq numeral_2_eq_2)
  have u: "[Suc 0..<3] = [1, 2]" "[Suc 0..<2] = [1]" "replicate 2 w = [w, w]" for w :: u16 by (simp_all add: upt_rec numeral_2_eq_2)
  note ev = es_main_def es_master_def es_slave_def es_sample_def es_counts_def EMPTY_def u Let_def
  have t: "(\<forall>t. P t) \<longleftrightarrow> P tag_x \<and> P tag_y \<and> P tag_z \<and> P tag_o" for P by (metis Tags.exhaust)
  have s3: "(\<Sum>q < 3. f q) = f 0 + f 1 + f 2" for f :: "nat \<Rightarrow> u16 multiset" by (simp add: numeral_3_eq_3 numeral_2_eq_2)
  have o0: "outcome (es_main 3 (Some [5, 3]) 0) (es_sample 0) =
      ([(1, tag_x, 5), (1, tag_y, 5), (2, tag_x, 3), (1, tag_y, 3)], Some ([5, 3], [3, 5]))"
    by (simp add: ev)
  have o1: "outcome (es_main 3 (Some [5, 3]) 1) (es_sample 1) =
      ([(2, tag_y, 5), (2, tag_y, 3), (2, tag_z, 5), (2, tag_o, 3)], Some ([], []))"
    by (simp add: ev)
  have o2: "outcome (es_main 3 (Some [5, 3]) 2) (es_sample 2) = ([(1, tag_z, 3), (0, tag_o, 5), (0, tag_o, 3)], Some ([], []))"
    by (simp add: ev)
  show ?thesis unfolding mpi_run_def a t s3 o0 o1 o2 fst_conv
    by (simp add: es_sample_def)
qed

theorem enumeration_sorts_witness:
  "result (es_main 3 (Some [5, 3]) 0) (es_sample 0) = Some ([5, 3], [3, 5])"
  using enumeration_sorts [OF es_sample_run, of 0] by simp

end
