(* ===== verification/Mesh_Multiplication.thy ===== *)
theory Mesh_Multiplication
  imports Message_Passing
begin

text \<open>
  The matrix multiplication on a mesh of processes of \<^verbatim>\<open>PRL/proj2/mm.cpp\<close>. The process 0
  distributes the dimensions, the rows of the first matrix to the left border and the
  columns of the second one to the top; every process multiplies and adds what passes it
  and hands it on to the right and to the bottom. The theorem: in every run on as many
  processes as the product has entries, all processes end and the product is gathered.

  A value of type \<open>int\<close> is a 32-bit word; process numbers and indices, which are below
  \<open>2^31\<close>, are natural numbers. A file is the number in its first line and the numbers after it.
\<close>

section \<open>The program\<close>

type_synonym s32 = "32 word"

datatype Tags = tag_a | tag_b | tag_c | tag_p

text \<open>The result: what the process 0 prints, dimensions and entries; of the others nothing.\<close>

type_synonym mm_result = "(s32 \<times> s32 \<times> s32 list) option"
type_synonym mm_proc = "(Tags, s32, mm_result) proc"

definition getIndex :: "nat \<Rightarrow> nat \<Rightarrow> nat \<Rightarrow> nat" where
  "getIndex i j cols = cols * i + j"

definition leftBorder :: "nat \<Rightarrow> nat \<Rightarrow> bool" where
  "leftBorder cols me \<longleftrightarrow> me mod cols = 0"

definition topBorder :: "nat \<Rightarrow> nat \<Rightarrow> bool" where
  "topBorder cols me \<longleftrightarrow> me < cols"

definition rightBorder :: "nat \<Rightarrow> nat \<Rightarrow> bool" where
  "rightBorder cols me \<longleftrightarrow> (me + 1) mod cols = 0"

definition bottomBorder :: "nat \<Rightarrow> nat \<Rightarrow> nat \<Rightarrow> bool" where
  "bottomBorder rows cols me \<longleftrightarrow> me \<ge> cols * (rows - 1)"

definition int_of :: "s32 \<Rightarrow> nat" where
  "int_of w = nat (sint w)"

definition mm_params :: "s32 \<Rightarrow> s32 \<Rightarrow> s32 \<Rightarrow> (nat \<times> Tags \<times> s32) list" where
  "mm_params n rows cols =
     concat (map (\<lambda>i. [(i, tag_p, n), (i, tag_p, rows), (i, tag_p, cols)]) [0..<int_of rows * int_of cols])"

definition mm_send_a :: "nat \<Rightarrow> nat \<Rightarrow> nat \<Rightarrow> s32 list \<Rightarrow> (nat \<times> Tags \<times> s32) list" where
  "mm_send_a n rows cols mat1 =
     concat (map (\<lambda>i. map (\<lambda>j. (i * cols, tag_a, mat1 ! getIndex i j n)) [0..<n]) [0..<rows])"

definition mm_send_b :: "nat \<Rightarrow> nat \<Rightarrow> s32 list \<Rightarrow> (nat \<times> Tags \<times> s32) list" where
  "mm_send_b n cols mat2 =
     concat (map (\<lambda>i. map (\<lambda>j. (j, tag_b, mat2 ! getIndex i j cols)) [0..<cols]) [0..<n])"

definition mm_control :: "s32 \<times> s32 list \<Rightarrow> s32 \<times> s32 list \<Rightarrow> mm_proc \<Rightarrow> mm_proc" where
  "mm_control file1 file2 k =
     (let (rows, mat1) = file1; (cols, mat2) = file2 in
      if sint rows \<le> 0 then Abort
      else if sint cols \<le> 0 then Abort
      else
        let n = of_nat (length mat1 div int_of rows) :: s32
        in if sint n \<noteq> int (length mat2 div int_of cols) then Abort
           else send_all (mm_params n rows cols)
                  (send_all (mm_send_a (int_of n) (int_of rows) (int_of cols) mat1)
                    (send_all (mm_send_b (int_of n) (int_of cols) mat2) k)))"

fun mm_loop :: "nat \<Rightarrow> nat \<Rightarrow> nat \<Rightarrow> s32 list \<Rightarrow> s32 list \<Rightarrow> nat list \<Rightarrow> s32 \<Rightarrow> (s32 \<Rightarrow> mm_proc) \<Rightarrow> mm_proc" where
  "mm_loop me rows cols vecA vecB [] c k = k c"
| "mm_loop me rows cols vecA vecB (i # is) c k =
     (let with_b = (\<lambda>a b.
            let rest = mm_loop me rows cols vecA vecB is (c + a * b) k;
                down = (if \<not> bottomBorder rows cols me then Send (me + cols) tag_b b rest else rest)
            in if \<not> rightBorder cols me then Send (me + 1) tag_a a down else down);
          with_a = (\<lambda>a. if topBorder cols me then with_b a (vecB ! i) else Recv (me - cols) tag_b (with_b a))
      in if leftBorder cols me then with_a (vecA ! i) else Recv (me - 1) tag_a with_a)"

fun mm_gather :: "nat list \<Rightarrow> s32 list \<Rightarrow> (s32 list \<Rightarrow> mm_proc) \<Rightarrow> mm_proc" where
  "mm_gather [] res k = k res"
| "mm_gather (i # is) res k = Recv i tag_c (\<lambda>number. mm_gather is (res @ [number]) k)"

definition mm_node :: "nat \<Rightarrow> nat \<Rightarrow> mm_proc" where
  "mm_node numProcs me =
     Recv 0 tag_p (\<lambda>n. Recv 0 tag_p (\<lambda>rows. Recv 0 tag_p (\<lambda>cols.
       recv_many (if leftBorder (int_of cols) me then int_of n else 0) 0 tag_a (\<lambda>vecA.
         recv_many (if topBorder (int_of cols) me then int_of n else 0) 0 tag_b (\<lambda>vecB.
           mm_loop me (int_of rows) (int_of cols) vecA vecB [0..<int_of n] 0 (\<lambda>c.
             Send 0 tag_c c
               (if me = 0 then mm_gather [0..<numProcs] [] (\<lambda>res. Done (Some (rows, cols, res)))
                else Done None)))))))"

definition mm_main :: "nat \<Rightarrow> s32 \<times> s32 list \<Rightarrow> s32 \<times> s32 list \<Rightarrow> nat \<Rightarrow> mm_proc" where
  "mm_main numProcs file1 file2 me = (if me = 0 then mm_control file1 file2 (mm_node numProcs me) else mm_node numProcs me)"

section \<open>The loops\<close>

definition mm_passed :: "nat \<Rightarrow> nat \<Rightarrow> nat \<Rightarrow> (nat \<Rightarrow> s32) \<Rightarrow> (nat \<Rightarrow> s32) \<Rightarrow> nat list \<Rightarrow> (nat \<times> Tags \<times> s32) list" where
  "mm_passed me rows cols A B is =
     concat (map (\<lambda>i. (if rightBorder cols me then [] else [(me + 1, tag_a, A i)])
       @ (if bottomBorder rows cols me then [] else [(me + cols, tag_b, B i)])) is)"

lemma mm_passed_Cons:
  "mm_passed me rows cols A B (i # is) = (if rightBorder cols me then [] else [(me + 1, tag_a, A i)])
     @ (if bottomBorder rows cols me then [] else [(me + cols, tag_b, B i)]) @ mm_passed me rows cols A B is"
  by (simp add: mm_passed_def)

lemma outcome_loop:
  assumes "if leftBorder cols me then \<forall>i \<in> set is. vecA ! i = A i else inb (Some (me - 1), tag_a) = map A is"
    and "if topBorder cols me then \<forall>i \<in> set is. vecB ! i = B i else inb (Some (me - cols), tag_b) = map B is"
  shows "\<exists>inb'. outcome (mm_loop me rows cols vecA vecB is c k) inb =
      (mm_passed me rows cols A B is @ sends (k (c + (\<Sum>i\<leftarrow>is. A i * B i))) inb', result (k (c + (\<Sum>i\<leftarrow>is. A i * B i))) inb')
    \<and> (\<forall>s. inb' (s, tag_c) = inb (s, tag_c))"
  using assms
proof (induction "is" arbitrary: inb c)
  case Nil
  then show ?case by (intro exI [of _ inb]) (simp add: mm_passed_def)
next
  case (Cons i "is")
  define inb1 where "inb1 = (if leftBorder cols me then inb else inb((Some (me - 1), tag_a) := map A is))"
  define inb2 where "inb2 = (if topBorder cols me then inb1 else inb1((Some (me - cols), tag_b) := map B is))"
  have keep: "inb2 (s, tag_c) = inb (s, tag_c)" for s by (simp add: inb1_def inb2_def)
  have "if leftBorder cols me then \<forall>i \<in> set is. vecA ! i = A i else inb2 (Some (me - 1), tag_a) = map A is"
    "if topBorder cols me then \<forall>i \<in> set is. vecB ! i = B i else inb2 (Some (me - cols), tag_b) = map B is"
    using Cons.prems by (auto simp: inb1_def inb2_def)
  from Cons.IH [OF this, of "c + A i * B i"] obtain inb' where
    i: "outcome (mm_loop me rows cols vecA vecB is (c + A i * B i) k) inb2 =
      (mm_passed me rows cols A B is @ sends (k (c + A i * B i + (\<Sum>i\<leftarrow>is. A i * B i))) inb',
       result (k (c + A i * B i + (\<Sum>i\<leftarrow>is. A i * B i))) inb')"
    and t: "\<forall>s. inb' (s, tag_c) = inb2 (s, tag_c)" by blast
  have "outcome (mm_loop me rows cols vecA vecB (i # is) c k) inb =
      (let r = outcome (mm_loop me rows cols vecA vecB is (c + A i * B i) k) inb2
       in ((if rightBorder cols me then [] else [(me + 1, tag_a, A i)])
         @ (if bottomBorder rows cols me then [] else [(me + cols, tag_b, B i)]) @ fst r, snd r))"
    using Cons.prems by (auto simp: Let_def case_prod_beta inb1_def inb2_def fun_upd_same fun_upd_other simp del: fun_upd_apply split: if_splits)
  then show ?case using i t keep by (intro exI [of _ inb']) (simp add: mm_passed_Cons add.assoc)
qed

lemma to_dest_concat: "to_dest d t (concat mss) = concat (map (to_dest d t) mss)"
  by (induction mss) auto

lemma to_dest_map: "to_dest d t (map (\<lambda>j. (d', t', f j)) js) = (if d = d' \<and> t = t' then map f js else [])"
  by (induction js) auto

lemma to_dest_each: "to_dest d t (map (\<lambda>j. (j, t', f j)) [0..<n]) = (if d < n \<and> t = t' then [f d] else [])"
  by (induction n) (auto simp: less_Suc_eq)

lemma concat_only: "concat (map (\<lambda>i. if i = i0 then xs else []) [0..<n]) = (if i0 < n then xs else [])"
  by (induction n) (auto simp: less_Suc_eq)

lemma passed_to:
  "to_dest d tag_a (mm_passed me rows cols A B is) = (if \<not> rightBorder cols me \<and> d = me + 1 then map A is else [])"
  "to_dest d tag_b (mm_passed me rows cols A B is) = (if \<not> bottomBorder rows cols me \<and> d = me + cols then map B is else [])"
  "to_dest d tag_c (mm_passed me rows cols A B is) = []" "to_dest d tag_p (mm_passed me rows cols A B is) = []"
  by (induction "is") (auto simp: mm_passed_def)

lemma params_to:
  "to_dest d tag_p (mm_params n rows cols) = (if d < int_of rows * int_of cols then [n, rows, cols] else [])"
  "t \<noteq> tag_p \<Longrightarrow> to_dest d t (mm_params n rows cols) = []"
proof -
  have "map (to_dest d tag_p) (map (\<lambda>i. [(i, tag_p, n), (i, tag_p, rows), (i, tag_p, cols)]) is)
      = map (\<lambda>i. if i = d then [n, rows, cols] else []) is" for "is"
    by simp
  then show "to_dest d tag_p (mm_params n rows cols) = (if d < int_of rows * int_of cols then [n, rows, cols] else [])"
    by (simp only: mm_params_def to_dest_concat concat_only)
  assume "t \<noteq> tag_p"
  then show "to_dest d t (mm_params n rows cols) = []" by (auto simp: mm_params_def to_dest_concat)
qed

lemma send_a_to:
  assumes "0 < cols"
  shows "to_dest (i * cols) tag_a (mm_send_a n rows cols mat1) = (if i < rows then map (\<lambda>k. mat1 ! (n * i + k)) [0..<n] else [])"
    and "d mod cols \<noteq> 0 \<Longrightarrow> to_dest d tag_a (mm_send_a n rows cols mat1) = []"
    and "t \<noteq> tag_a \<Longrightarrow> to_dest d t (mm_send_a n rows cols mat1) = []"
proof -
  have "to_dest (i * cols) tag_a (mm_send_a n rows cols mat1)
      = concat (map (\<lambda>i'. if i' = i then map (\<lambda>k. mat1 ! (n * i + k)) [0..<n] else []) [0..<rows])"
    using assms by (simp add: mm_send_a_def to_dest_concat to_dest_map getIndex_def comp_def)
      (rule arg_cong [where f = concat], rule map_cong, auto)
  then show "to_dest (i * cols) tag_a (mm_send_a n rows cols mat1) = (if i < rows then map (\<lambda>k. mat1 ! (n * i + k)) [0..<n] else [])"
    by (simp only: concat_only)
qed (auto simp: mm_send_a_def to_dest_concat to_dest_map)

lemma send_b_to:
  "to_dest j tag_b (mm_send_b n cols mat2) = (if j < cols then map (\<lambda>i. mat2 ! (cols * i + j)) [0..<n] else [])"
  "t \<noteq> tag_b \<Longrightarrow> to_dest j t (mm_send_b n cols mat2) = []"
  by (auto simp: mm_send_b_def to_dest_concat to_dest_each getIndex_def comp_def)

lemma gather_results:
  "\<forall>i \<in> set is. inb (Some i, tag_c) = [c i] \<Longrightarrow> distinct is \<Longrightarrow>
    outcome (mm_gather is res (\<lambda>r. Done (f r))) inb = ([], Some (f (res @ map c is)))"
proof (induction "is" arbitrary: res inb)
  case (Cons i "is")
  have "\<forall>j \<in> set is. (inb((Some i, tag_c) := [])) (Some j, tag_c) = [c j]" using Cons.prems by auto
  from Cons.IH [OF this, of "res @ [c i]"] Cons.prems show ?case by (simp del: fun_upd_apply)
qed simp

lemma gather_silent: "sends (mm_gather is res (\<lambda>r. Done (f r))) inb = []"
  by (induction "is" arbitrary: res inb) (auto split: list.splits)

section \<open>A run\<close>

text \<open>The process at a row and a column of the mesh, given what it is sent.\<close>

definition mm_finish :: "nat \<Rightarrow> nat \<Rightarrow> s32 \<Rightarrow> s32 \<Rightarrow> mm_proc" where
  "mm_finish np me rows cols =
     (if me = 0 then mm_gather [0..<np] [] (\<lambda>res. Done (Some (rows, cols, res))) else Done None)"

lemma finish_silent: "sends (mm_finish np me rows cols) inb = []"
  by (simp add: mm_finish_def gather_silent [where f = "\<lambda>res. Some (rows, cols, res)"])

lemma node_outcome:
  assumes p: "inb (Some 0, tag_p) = [n, rows, cols]"
    and a: "inb (Some (if leftBorder (int_of cols) me then 0 else me - 1), tag_a) = map A [0..<int_of n]"
    and b: "inb (Some (if topBorder (int_of cols) me then 0 else me - int_of cols), tag_b) = map B [0..<int_of n]"
  shows "\<exists>inb'. outcome (mm_node np me) inb =
      (mm_passed me (int_of rows) (int_of cols) A B [0..<int_of n] @ [(0, tag_c, \<Sum>i\<leftarrow>[0..<int_of n]. A i * B i)],
       result (mm_finish np me rows cols) inb')
    \<and> (\<forall>s. inb' (s, tag_c) = inb (s, tag_c))"
proof -
  define C where "C = int_of cols"
  define N where "N = int_of n"
  define inb1 where "inb1 = inb((Some 0, tag_p) := [])"
  define inb2 where "inb2 = (if leftBorder C me then inb1((Some 0, tag_a) := []) else inb1)"
  define inb3 where "inb3 = (if topBorder C me then inb2((Some 0, tag_b) := []) else inb2)"
  define vecA where "vecA = (if leftBorder C me then map A [0..<N] else [])"
  define vecB where "vecB = (if topBorder C me then map B [0..<N] else [])"
  let ?k = "\<lambda>c. Send 0 tag_c c (mm_finish np me rows cols)"
  let ?loop = "\<lambda>vecA vecB. mm_loop me (int_of rows) C vecA vecB [0..<N] 0 ?k"
  have "outcome (mm_node np me) inb =
      outcome (recv_many (if leftBorder C me then N else 0) 0 tag_a
        (\<lambda>vecA. recv_many (if topBorder C me then N else 0) 0 tag_b (?loop vecA))) inb1"
    using p by (simp add: mm_node_def mm_finish_def inb1_def C_def N_def fun_upd_same del: fun_upd_apply)
  also have "\<dots> = outcome (recv_many (if topBorder C me then N else 0) 0 tag_b (?loop vecA)) inb2"
    using a by (cases "leftBorder C me")
      (simp_all add: outcome_recv_many [where vs = "map A [0..<N]" and ws = "[]"] vecA_def inb2_def inb1_def C_def N_def fun_upd_other
        del: fun_upd_apply)
  also have "\<dots> = outcome (?loop vecA vecB) inb3"
    using b by (cases "topBorder C me")
      (simp_all add: outcome_recv_many [where vs = "map B [0..<N]" and ws = "[]"] vecB_def inb3_def inb2_def inb1_def C_def N_def fun_upd_other
        del: fun_upd_apply)
  finally have e: "outcome (mm_node np me) inb = outcome (?loop vecA vecB) inb3" .
  have "if leftBorder C me then \<forall>i \<in> set [0..<N]. vecA ! i = A i else inb3 (Some (me - 1), tag_a) = map A [0..<N]"
    "if topBorder C me then \<forall>i \<in> set [0..<N]. vecB ! i = B i else inb3 (Some (me - C), tag_b) = map B [0..<N]"
    using a b by (auto simp: vecA_def vecB_def inb3_def inb2_def inb1_def C_def N_def)
  from outcome_loop [OF this, of "int_of rows" 0 ?k] obtain inb' where
    "outcome (?loop vecA vecB) inb3 = (mm_passed me (int_of rows) C A B [0..<N] @ sends (?k (\<Sum>i\<leftarrow>[0..<N]. A i * B i)) inb',
       result (?k (\<Sum>i\<leftarrow>[0..<N]. A i * B i)) inb')" "\<forall>s. inb' (s, tag_c) = inb3 (s, tag_c)"
    by auto
  then show ?thesis
    by (intro exI [of _ inb']) (auto simp: e case_prod_beta finish_silent C_def N_def inb3_def inb2_def inb1_def)
qed

text \<open>Whatever it is sent, a process sends only to its neighbours and its result to the process 0.\<close>

lemma recv_many_sends: "m \<in> set (sends (recv_many n s t f) inb) \<Longrightarrow> \<exists>vs inb'. m \<in> set (sends (f vs) inb')"
proof (induction n arbitrary: f inb)
  case (Suc n)
  then show ?case by (fastforce split: list.splits)
qed auto

definition to_neighbour :: "nat \<Rightarrow> nat \<Rightarrow> nat \<Rightarrow> nat \<times> Tags \<times> s32 \<Rightarrow> bool" where
  "to_neighbour me rows cols m \<longleftrightarrow> fst (snd m) = tag_a \<and> fst m = me + 1 \<and> \<not> rightBorder cols me
     \<or> fst (snd m) = tag_b \<and> fst m = me + cols \<and> \<not> bottomBorder rows cols me"

lemma loop_sends:
  "m \<in> set (sends (mm_loop me rows cols vecA vecB is c k) inb) \<Longrightarrow>
    to_neighbour me rows cols m \<or> (\<exists>c inb'. m \<in> set (sends (k c) inb'))"
proof (induction "is" arbitrary: c inb)
  case (Cons i "is")
  then show ?case
    by (fastforce simp: Let_def case_prod_beta to_neighbour_def split: if_splits list.splits)
qed auto

lemma node_sends:
  assumes "m \<in> set (sends (mm_node np me) inb)"
  shows "\<exists>rows cols. (to_neighbour me rows cols m \<or> fst (snd m) = tag_c) \<and> (\<forall>n r c. inb (Some 0, tag_p) = [n, r, c] \<longrightarrow> rows = int_of r \<and> cols = int_of c)"
proof -
  obtain n rows cols ws where p: "inb (Some 0, tag_p) = n # rows # cols # ws"
    using assms by (auto simp: mm_node_def split: list.splits)
  have "\<exists>vecA vecB inb'. m \<in> set (sends (mm_loop me (int_of rows) (int_of cols) vecA vecB [0..<int_of n] 0
      (\<lambda>c. Send 0 tag_c c (mm_finish np me rows cols))) inb')"
    using assms p by (simp add: mm_node_def mm_finish_def [symmetric] fun_upd_same del: fun_upd_apply)
      (blast dest: recv_many_sends)
  then have "to_neighbour me (int_of rows) (int_of cols) m \<or> fst (snd m) = tag_c"
    using loop_sends [of m] by (fastforce simp: case_prod_beta finish_silent)
  then show ?thesis using p by (intro exI [of _ "int_of rows"] exI [of _ "int_of cols"]) auto
qed

lemma to_dest_none: "\<forall>m \<in> set out. \<not> (fst m = d \<and> fst (snd m) = t) \<Longrightarrow> to_dest d t out = []"
  by (auto simp: to_dest_def filter_empty_conv)

lemma node_tag_p: "to_dest d tag_p (sends (mm_node np me) inb) = []"
  by (rule to_dest_none) (use node_sends in \<open>fastforce simp: to_neighbour_def\<close>)

lemma node_targets:
  assumes "inb (Some 0, tag_p) = [n, rows, cols]"
  shows "\<not> (d = me + 1 \<and> \<not> rightBorder (int_of cols) me) \<Longrightarrow> to_dest d tag_a (sends (mm_node np me) inb) = []"
    and "d \<noteq> me + int_of cols \<Longrightarrow> to_dest d tag_b (sends (mm_node np me) inb) = []"
  by (rule to_dest_none, use assms node_sends in \<open>fastforce simp: to_neighbour_def\<close>)+


lemma main_node: "me \<noteq> 0 \<Longrightarrow> outcome (mm_main np f1 f2 me) inb = outcome (mm_node np me) inb"
  by (simp add: mm_main_def)

lemma control_outcome:
  assumes "0 < sint rows" "0 < sint cols" "length mat1 = int_of rows * N" "length mat2 = N * int_of cols" "N < 2 ^ 31"
  shows "outcome (mm_control (rows, mat1) (cols, mat2) k) inb =
      (mm_params (of_nat N) rows cols @ mm_send_a N (int_of rows) (int_of cols) mat1 @ mm_send_b N (int_of cols) mat2 @ sends k inb, result k inb)"
proof -
  have "sint (of_nat N :: s32) = int N"
    using assms(5) by (simp add: signed_of_nat signed_take_bit_int_eq_self)
  then have n: "int_of (of_nat N) = N" "sint (of_nat N :: s32) = int N" by (simp_all add: int_of_def)
  have "0 < int_of rows" "0 < int_of cols" using assms by (simp_all add: int_of_def)
  then have "length mat1 div int_of rows = N" "length mat2 div int_of cols = N" using assms by simp_all
  then show ?thesis using assms(1,2) n by (simp add: mm_control_def outcome_send_all)
qed

definition mm_row :: "nat \<Rightarrow> s32 list \<Rightarrow> nat \<Rightarrow> nat \<Rightarrow> s32" where
  "mm_row N mat1 i k = mat1 ! (N * i + k)"

definition mm_col :: "nat \<Rightarrow> s32 list \<Rightarrow> nat \<Rightarrow> nat \<Rightarrow> s32" where
  "mm_col C mat2 j k = mat2 ! (C * k + j)"

text \<open>The dimensions agree, and there is a process for every entry of the product.\<close>

definition mm_fits :: "nat \<Rightarrow> s32 \<times> s32 list \<Rightarrow> s32 \<times> s32 list \<Rightarrow> nat \<Rightarrow> bool" where
  "mm_fits np file1 file2 N \<longleftrightarrow> 0 < sint (fst file1) \<and> 0 < sint (fst file2) \<and> N < 2 ^ 31
     \<and> length (snd file1) = int_of (fst file1) * N \<and> length (snd file2) = N * int_of (fst file2)
     \<and> np = int_of (fst file1) * int_of (fst file2)"

lemma mm_fitsD:
  assumes "mm_fits np (rows, mat1) (cols, mat2) N"
  shows "0 < int_of rows" "0 < int_of cols" "int_of (of_nat N :: s32) = N" "np = int_of rows * int_of cols"
    "outcome (mm_main np (rows, mat1) (cols, mat2) 0) inb =
      (mm_params (of_nat N) rows cols @ mm_send_a N (int_of rows) (int_of cols) mat1 @ mm_send_b N (int_of cols) mat2
         @ sends (mm_node np 0) inb, result (mm_node np 0) inb)"
  using assms control_outcome [of rows cols mat1 N mat2 "mm_node np 0" inb]
  by (auto simp: mm_fits_def mm_main_def int_of_def signed_of_nat signed_take_bit_int_eq_self)

lemma run_params:
  assumes r: "mpi_run np (mm_main np (rows, mat1) (cols, mat2)) inb" and f: "mm_fits np (rows, mat1) (cols, mat2) N" and me: "me < np"
  shows "inb me (Some 0, tag_p) = [of_nat N, rows, cols]"
  using delivered [OF r me, of 0 tag_p] me mm_fitsD [OF f]
  by (simp add: params_to send_a_to send_b_to node_tag_p)

text \<open>What the process 0 sends to the borders.\<close>

lemma run_border:
  assumes r: "mpi_run np (mm_main np (rows, mat1) (cols, mat2)) inb" and f: "mm_fits np (rows, mat1) (cols, mat2) N" and me: "me < np"
  shows "leftBorder (int_of cols) me \<Longrightarrow> inb me (Some 0, tag_a) = map (mm_row N mat1 (me div int_of cols)) [0..<N]"
    and "topBorder (int_of cols) me \<Longrightarrow> inb me (Some 0, tag_b) = map (mm_col (int_of cols) mat2 (me mod int_of cols)) [0..<N]"
proof -
  define C where "C = int_of cols"
  note d = mm_fitsD [OF f, folded C_def]
  have 0: "0 < np" using me by simp
  have p: "inb 0 (Some 0, tag_p) = [of_nat N, rows, cols]" by (rule run_params [OF r f 0])
  note t = node_targets [where inb = "inb 0", OF p, folded C_def]
  {
    assume l: "leftBorder (int_of cols) me"
    then have e: "me = me div C * C" by (auto simp: leftBorder_def C_def)
    have "me div C < int_of rows" using me d by (simp add: less_mult_imp_div_less)
    then have "to_dest me tag_a (mm_send_a N (int_of rows) C mat1) = map (mm_row N mat1 (me div C)) [0..<N]"
      using send_a_to(1) [OF d(2), of "me div C" N "int_of rows" mat1] e by (simp add: mm_row_def)
    moreover have "to_dest me tag_a (sends (mm_node np 0) (inb 0)) = []"
      using l by (intro t) (auto simp: leftBorder_def rightBorder_def C_def)
    ultimately show "inb me (Some 0, tag_a) = map (mm_row N mat1 (me div int_of cols)) [0..<N]"
      using delivered [OF r me 0, of tag_a] d by (simp add: params_to send_b_to C_def)
  }
  assume b: "topBorder (int_of cols) me"
  then have "to_dest me tag_b (mm_send_b N C mat2) = map (mm_col C mat2 (me mod C)) [0..<N]"
    by (simp add: send_b_to topBorder_def mm_col_def C_def)
  moreover have "to_dest me tag_b (sends (mm_node np 0) (inb 0)) = []"
    using b by (intro t) (auto simp: topBorder_def C_def)
  ultimately show "inb me (Some 0, tag_b) = map (mm_col (int_of cols) mat2 (me mod int_of cols)) [0..<N]"
    using delivered [OF r me 0, of tag_b] d by (simp add: params_to send_a_to C_def)
qed

text \<open>What a neighbour sends, once it has its own input.\<close>

definition mm_inputs :: "nat \<Rightarrow> s32 list \<Rightarrow> s32 list \<Rightarrow> nat \<Rightarrow> nat \<Rightarrow> (Tags, s32) inbox \<Rightarrow> bool" where
  "mm_inputs N mat1 mat2 C me inbox \<longleftrightarrow>
     inbox (Some (if leftBorder C me then 0 else me - 1), tag_a) = map (mm_row N mat1 (me div C)) [0..<N]
     \<and> inbox (Some (if topBorder C me then 0 else me - C), tag_b) = map (mm_col C mat2 (me mod C)) [0..<N]"

definition mm_entry :: "nat \<Rightarrow> s32 list \<Rightarrow> s32 list \<Rightarrow> nat \<Rightarrow> nat \<Rightarrow> s32" where
  "mm_entry N mat1 mat2 C me = (\<Sum>k\<leftarrow>[0..<N]. mm_row N mat1 (me div C) k * mm_col C mat2 (me mod C) k)"

lemma run_node:
  assumes r: "mpi_run np (mm_main np (rows, mat1) (cols, mat2)) inb" and f: "mm_fits np (rows, mat1) (cols, mat2) N" and me: "me < np"
    and i: "mm_inputs N mat1 mat2 (int_of cols) me (inb me)"
  shows "\<exists>inb'. outcome (mm_node np me) (inb me) =
      (mm_passed me (int_of rows) (int_of cols) (mm_row N mat1 (me div int_of cols)) (mm_col (int_of cols) mat2 (me mod int_of cols)) [0..<N]
         @ [(0, tag_c, mm_entry N mat1 mat2 (int_of cols) me)],
       result (mm_finish np me rows cols) inb')
    \<and> (\<forall>s. inb' (s, tag_c) = inb me (s, tag_c))"
  using node_outcome [where inb = "inb me", OF run_params [OF r f me], of me "mm_row N mat1 (me div int_of cols)" "mm_col (int_of cols) mat2 (me mod int_of cols)" np]
    i mm_fitsD(3) [OF f]
  by (simp add: mm_inputs_def mm_entry_def)

lemma div_mod_left: "me mod C \<noteq> 0 \<Longrightarrow> (me - 1) div C = me div C \<and> me \<noteq> 0" for me C :: nat
  using div_mult_mod_eq [of me C] by (cases me) (auto simp: div_Suc split: if_splits)

lemma not_right: "me mod C \<noteq> 0 \<Longrightarrow> \<not> rightBorder C (me - 1)"
  by (cases me) (auto simp: rightBorder_def)

lemma not_bottom: "C \<le> me \<Longrightarrow> me < R * C \<Longrightarrow> \<not> bottomBorder R C (me - C)"
  by (cases R) (auto simp: bottomBorder_def algebra_simps)

lemma run_inputs:
  assumes r: "mpi_run np (mm_main np (rows, mat1) (cols, mat2)) inb" and f: "mm_fits np (rows, mat1) (cols, mat2) N"
  shows "me < np \<Longrightarrow> mm_inputs N mat1 mat2 (int_of cols) me (inb me)"
proof (induction me rule: less_induct)
  case (less me)
  define C where "C = int_of cols"
  note d = mm_fitsD [OF f, folded C_def]
  have sent: "to_dest me t (sends (mm_main np (rows, mat1) (cols, mat2) q) (inb q))
      = (if q = 0 then to_dest me t (mm_send_a N (int_of rows) C mat1) @ to_dest me t (mm_send_b N C mat2) else [])
        @ to_dest me t (mm_passed q (int_of rows) C (mm_row N mat1 (q div C)) (mm_col C mat2 (q mod C)) [0..<N])"
    if "q < me" "t \<noteq> tag_p" "t \<noteq> tag_c" for q t
    using run_node [OF r f _ less.IH [OF that(1)], folded C_def] that less.prems d main_node [of q]
    by (cases "q = 0") (auto simp: params_to)
  have a: "inb me (Some (me - 1), tag_a) = map (mm_row N mat1 (me div C)) [0..<N]" if l: "\<not> leftBorder C me"
  proof -
    have m: "me mod C \<noteq> 0" using l by (simp add: leftBorder_def)
    note e = div_mod_left [OF m]
    have "to_dest me tag_a (mm_send_a N (int_of rows) C mat1) = []" by (rule send_a_to(2) [OF d(2) m])
    then show ?thesis
      using delivered [OF r less.prems, of "me - 1" tag_a] sent [of "me - 1" tag_a] e not_right [OF m] less.prems
      by (simp add: send_b_to passed_to)
  qed
  have b: "inb me (Some (me - C), tag_b) = map (mm_col C mat2 (me mod C)) [0..<N]" if t: "\<not> topBorder C me"
  proof -
    have m: "C \<le> me" "me - C < me" using t d(2) by (auto simp: topBorder_def)
    have "(me - C) mod C = me mod C" using m by (simp add: le_mod_geq)
    then show ?thesis
      using delivered [OF r less.prems, of "me - C" tag_b] sent [of "me - C" tag_b] m not_bottom [OF m(1), of "int_of rows"] less.prems d(4)
      by (simp add: send_a_to [OF d(2)] send_b_to passed_to)
  qed
  show ?case
    using a b run_border [OF r f less.prems, folded C_def] by (simp add: mm_inputs_def C_def)
qed

text \<open>
  C11. Mesh multiplication: if the files hold a matrix with the given number of rows and one
  with the given number of columns, and there is a process for every entry of the product,
  then in every complete run of \<^verbatim>\<open>mm.cpp\<close> with sends that are buffered no process waits for ever, and the process 0
  gathers the product of the matrices, in the arithmetic of 32-bit words, row by row.
\<close>

theorem mesh_multiplies:
  assumes "mpi_run np (mm_main np (rows, mat1) (cols, mat2)) inb" "mm_fits np (rows, mat1) (cols, mat2) N"
  shows "(\<forall>me < np. me \<noteq> 0 \<longrightarrow> result (mm_main np (rows, mat1) (cols, mat2) me) (inb me) = Some None)
    \<and> (\<exists>res. result (mm_main np (rows, mat1) (cols, mat2) 0) (inb 0) = Some (Some (rows, cols, res)) \<and> length res = np
        \<and> (\<forall>i < int_of rows. \<forall>j < int_of cols.
             res ! (int_of cols * i + j) = (\<Sum>k\<leftarrow>[0..<N]. mat1 ! (N * i + k) * mat2 ! (int_of cols * k + j))))"
proof -
  define C where "C = int_of cols"
  note d = mm_fitsD [OF assms(2), folded C_def]
  note n = run_node [OF assms _ run_inputs [OF assms], folded C_def]
  have others: "result (mm_node np me) (inb me) = Some None" if "me < np" "me \<noteq> 0" for me
    using n [OF that(1) that(1)] that by (auto simp: mm_finish_def)
  have c: "inb 0 (Some me, tag_c) = [mm_entry N mat1 mat2 C me]" if "me < np" for me
    using delivered [OF assms(1), of 0 me tag_c] n [OF that that] that d main_node [of me]
    by (cases "me = 0") (auto simp: params_to send_a_to [OF d(2)] send_b_to passed_to)
  have 0: "0 < np" using d by simp
  obtain inb' where inb': "result (mm_node np 0) (inb 0) = result (mm_finish np 0 rows cols) inb'" "\<forall>s. inb' (s, tag_c) = inb 0 (s, tag_c)"
    using n [OF 0 0] by auto
  then have "\<forall>me \<in> set [0..<np]. inb' (Some me, tag_c) = [mm_entry N mat1 mat2 C me]" using c by simp
  then have "result (mm_node np 0) (inb 0) = Some (Some (rows, cols, map (mm_entry N mat1 mat2 C) [0..<np]))"
    using inb'(1) gather_results [of "[0..<np]" inb' "mm_entry N mat1 mat2 C" "[]" "\<lambda>res. Some (rows, cols, res)"]
    by (simp add: mm_finish_def)
  moreover have "map (mm_entry N mat1 mat2 C) [0..<np] ! (C * i + j) = (\<Sum>k\<leftarrow>[0..<N]. mat1 ! (N * i + k) * mat2 ! (C * k + j))"
    if "i < int_of rows" "j < C" for i j
  proof -
    have "C * (Suc i) \<le> C * int_of rows" using that by (intro mult_le_mono2) simp
    then have "C * i + j < np" using that d(4) by (simp add: mult.commute)
    then show ?thesis using that by (simp add: mm_entry_def mm_row_def mm_col_def)
  qed
  ultimately show ?thesis using others d(5) by (auto simp: mm_main_def C_def [symmetric])
qed

text \<open>What is received when the row (1, 2) is multiplied by the matrix ((3, 4), (5, 6)).\<close>

definition mm_sample :: "nat \<Rightarrow> (Tags, s32) inbox" where
  "mm_sample p = (\<lambda>_. [])((Some 0, tag_p) := [2, 1, 2], (Some 0, tag_a) := [1, 2], (Some 0, tag_b) := [3 + of_nat p, 5 + of_nat p],
     (Some 0, tag_c) := (if p = 0 then [13] else []), (Some 1, tag_c) := (if p = 0 then [16] else []),
     (None, tag_p) := [2, 1, 2], (None, tag_a) := [1, 2], (None, tag_b) := [3 + of_nat p, 5 + of_nat p],
     (None, tag_c) := (if p = 0 then [13, 16] else []))"

lemma mm_sample_run: "mpi_run 2 (mm_main 2 (1, [1, 2]) (2, [3, 4, 5, 6])) mm_sample"
proof -
  have a: "(\<forall>p < 2. P p) \<longleftrightarrow> P 0 \<and> P 1" for P :: "nat \<Rightarrow> bool"
    by (auto simp: numeral_2_eq_2 less_Suc_eq)
  have t: "(\<forall>t. P t) \<longleftrightarrow> P tag_a \<and> P tag_b \<and> P tag_c \<and> P tag_p" for P by (metis Tags.exhaust)
  have s2: "(\<Sum>q < 2. f q) = f 0 + f 1" for f :: "nat \<Rightarrow> s32 multiset" by (simp add: numeral_2_eq_2)
  have u: "[0..<2] = [0, 1]" by (simp add: upt_rec)
  have w: "int_of 2 = 2" "int_of 1 = 1" "sint (2 :: s32) = 2" by (simp_all add: int_of_def)
  have m: "recv_many 2 s t f = Recv s t (\<lambda>v. Recv s t (\<lambda>v'. f [v, v']))" for s t and f :: "s32 list \<Rightarrow> mm_proc"
    by (simp add: numeral_2_eq_2)
  note ev = mm_main_def mm_control_def mm_node_def mm_sample_def mm_params_def mm_send_a_def mm_send_b_def getIndex_def
    leftBorder_def topBorder_def rightBorder_def bottomBorder_def u w m Let_def
  have o0: "outcome (mm_main 2 (1, [1, 2]) (2, [3, 4, 5, 6]) 0) (mm_sample 0) =
      ([(0, tag_p, 2), (0, tag_p, 1), (0, tag_p, 2), (1, tag_p, 2), (1, tag_p, 1), (1, tag_p, 2), (0, tag_a, 1), (0, tag_a, 2),
        (0, tag_b, 3), (1, tag_b, 4), (0, tag_b, 5), (1, tag_b, 6), (1, tag_a, 1), (1, tag_a, 2), (0, tag_c, 13)],
       Some (Some (1, 2, [13, 16])))"
    by (simp add: ev)
  have o1: "outcome (mm_main 2 (1, [1, 2]) (2, [3, 4, 5, 6]) 1) (mm_sample 1) = ([(0, tag_c, 16)], Some None)"
    by (simp add: ev)
  show ?thesis unfolding mpi_run_def a t s2 o0 o1 fst_conv
    by (simp add: mm_sample_def)
qed

theorem mesh_multiplies_witness:
  "result (mm_main 2 (1, [1, 2]) (2, [3, 4, 5, 6]) 1) (mm_sample 1) = Some None
    \<and> (\<exists>res. result (mm_main 2 (1, [1, 2]) (2, [3, 4, 5, 6]) 0) (mm_sample 0) = Some (Some (1, 2, res))
        \<and> length res = 2 \<and> res ! 0 = 13 \<and> res ! 1 = 16)"
proof -
  have u: "[0..<2] = [0, 1]" by (simp add: upt_rec)
  have w: "int_of 2 = 2" "int_of 1 = 1" by (simp_all add: int_of_def)
  have "mm_fits 2 (1, [1, 2]) (2, [3, 4, 5, 6]) 2" by (simp add: mm_fits_def w)
  note h = mesh_multiplies [OF mm_sample_run this]
  then obtain res where res: "result (mm_main 2 (1, [1, 2]) (2, [3, 4, 5, 6]) 0) (mm_sample 0) = Some (Some (1, 2, res))" "length res = 2"
    "\<forall>i < 1. \<forall>j < 2. res ! (2 * i + j) = (\<Sum>k\<leftarrow>[0..<2]. [1, 2] ! (2 * i + k) * [3, 4, 5, 6] ! (2 * k + j))" by (auto simp: w)
  from res(3) [rule_format, of 0 0] res(3) [rule_format, of 0 1] have "res ! 0 = 13 \<and> res ! 1 = 16" by (simp add: u)
  with res h show ?thesis by simp
qed

end
