(* ===== verification/River_Invariant.thy ===== *)
theory River_Invariant
  imports River_Crossing
begin

text \<open>
  The invariant of the river crossing, over the numbers of persons in each region of the
  code of \<^verbatim>\<open>member\<close>. A region ends where a person moves on from a semaphore or where the
  body of a section has run. Between two voyages the pier is open; then four persons board,
  say their role, sail and land, and each of these is a phase of the invariant.
\<close>

section \<open>Counting persons\<close>

definition region :: "nat \<Rightarrow> nat" where
  "region q = (if q \<le> 3 then 0 else if q \<le> 5 then 1 else if q \<le> 8 then 2 else if q \<le> 10 then 3 else if q \<le> 12 then 4
     else if q \<le> 14 then 5 else if q \<le> 16 then 6 else if q \<le> 18 then 7 else if q \<le> 19 then 8 else if q \<le> 20 then 9
     else if q \<le> 21 then 10 else if q \<le> 22 then 11 else if q \<le> 23 then 12 else if q \<le> 25 then 13 else if q \<le> 28 then 14
     else if q \<le> 30 then 15 else 16)"

type_synonym census = "nat \<Rightarrow> bool \<Rightarrow> bool \<Rightarrow> nat"

definition add :: "census \<Rightarrow> nat \<Rightarrow> bool \<Rightarrow> bool \<Rightarrow> census" where
  "add m r h c = (\<lambda>r' h' c'. m r' h' c' + (if r' = r \<and> h' = h \<and> c' = c then 1 else 0))"

definition census_of :: "person list \<Rightarrow> census" where
  "census_of xs = (\<lambda>r h c. length (filter (\<lambda>x. region (pc x) = r \<and> isHacker x = h \<and> isCaptain x = c) xs))"

lemma census_split:
  assumes "i < length xs"
  shows "\<exists>m. census_of xs = add m (region (pc (xs ! i))) (isHacker (xs ! i)) (isCaptain (xs ! i))
    \<and> (\<forall>y. census_of (xs[i := y]) = add m (region (pc y)) (isHacker y) (isCaptain y))"
  using assms
  by (intro exI [of _ "census_of (take i xs @ drop (Suc i) xs)"])
    (subst id_take_nth_drop [OF assms], auto simp: census_of_def add_def fun_eq_iff upd_conv_take_nth_drop)

lemma census_snoc: "census_of (xs @ [y]) = add (census_of xs) (region (pc y)) (isHacker y) (isCaptain y)"
  by (auto simp: census_of_def add_def fun_eq_iff)

definition kind :: "census \<Rightarrow> bool \<Rightarrow> nat \<Rightarrow> nat" where
  "kind n h r = n r h False + n r h True"

definition total :: "census \<Rightarrow> nat \<Rightarrow> nat" where
  "total n r = kind n True r + kind n False r"

definition captains :: "census \<Rightarrow> nat \<Rightarrow> nat" where
  "captains n r = n r True True + n r False True"

definition gone :: "census \<Rightarrow> bool \<Rightarrow> nat" where
  "gone n h = (\<Sum>r \<in> {4..16}. kind n h r)"

definition everyone :: "census \<Rightarrow> bool \<Rightarrow> nat" where
  "everyone n h = (\<Sum>r \<in> {0..16}. kind n h r)"

lemma add_counts [simp]:
  "kind (add m r h c) h' r' = kind m h' r' + (if r' = r \<and> h' = h then 1 else 0)"
  "total (add m r h c) r' = total m r' + (if r' = r then 1 else 0)"
  "captains (add m r h c) r' = captains m r' + (if r' = r \<and> c then 1 else 0)"
  by (cases c; cases h; auto simp: kind_def total_def captains_def add_def)+

lemma add_at [simp]: "add m r h c r' h' c' = m r' h' c' + (if r' = r \<and> h' = h \<and> c' = c then 1 else 0)"
  by (simp add: add_def)

lemma add_gone [simp]: "gone (add m r h c) h' = gone m h' + (if h' = h \<and> 4 \<le> r \<and> r \<le> 16 then 1 else 0)"
  by (auto simp: gone_def sum.distrib)

lemma add_everyone [simp]: "everyone (add m r h c) h' = everyone m h' + (if h' = h \<and> r \<le> 16 then 1 else 0)"
  by (auto simp: everyone_def sum.distrib)

section \<open>What the output says\<close>

definition boardings :: "shared \<Rightarrow> bool list" where
  "boardings s = map (\<lambda>(k, h, i, a). h) (filter (\<lambda>(k, h, i, a). case a of Boards _ _ \<Rightarrow> True | _ \<Rightarrow> False) (out_lines s))"

definition roles :: "shared \<Rightarrow> bool list" where
  "roles s = concat (map (\<lambda>(k, h, i, a). case a of Role c \<Rightarrow> [c] | _ \<Rightarrow> []) (out_lines s))"

text \<open>Groups of four, then the beginning of one.\<close>

definition in_fours :: "(bool list \<Rightarrow> bool) \<Rightarrow> bool list \<Rightarrow> bool list \<Rightarrow> bool" where
  "in_fours P xs part \<longleftrightarrow> (\<exists>gs. xs = concat gs @ part \<and> (\<forall>g \<in> set gs. length g = 4 \<and> P g))"

definition allowed :: "bool list \<Rightarrow> bool" where
  "allowed g \<longleftrightarrow> length (filter id g) \<in> {0, 2, 4}"

definition one_captain :: "bool list \<Rightarrow> bool" where
  "one_captain g \<longleftrightarrow> length (filter id g) = 1"

lemma in_fours_empty [simp]: "in_fours P [] []"
  unfolding in_fours_def by (rule exI [of _ "[]"]) simp

lemma in_fours_snoc: "in_fours P xs part \<Longrightarrow> in_fours P (xs @ [x]) (part @ [x])"
  unfolding in_fours_def by (metis append.assoc)

lemma in_fours_full: "in_fours P xs part \<Longrightarrow> length part = 4 \<Longrightarrow> P part \<Longrightarrow> in_fours P xs []"
  unfolding in_fours_def by (elim exE, rule_tac x = "gs @ [part]" in exI) auto

section \<open>The invariant\<close>

definition no_group :: "nat \<Rightarrow> nat \<Rightarrow> bool" where
  "no_group h k \<longleftrightarrow> h \<le> 3 \<and> k \<le> 3 \<and> \<not> (2 \<le> h \<and> 2 \<le> k)"

definition pier_ok :: "shared \<Rightarrow> census \<Rightarrow> bool" where
  "pier_ok s n \<longleftrightarrow>
     kind n True 2 + kind n True 3 = hackers_count s + sem s HACKER
     \<and> kind n False 2 + kind n False 3 = serfs_count s + sem s SERF
     \<and> (\<exists>h k. kind n True 3 = h + sem s HACKER \<and> kind n False 3 = k + sem s SERF \<and> no_group h k)"

definition parity_ok :: "shared \<Rightarrow> census \<Rightarrow> bool" where
  "parity_ok s n \<longleftrightarrow> even (sem s HACKER + gone n True) \<and> even (sem s SERF + gone n False)
     \<and> 4 dvd (sem s HACKER + gone n True + (sem s SERF + gone n False))"

definition crowd_ok :: "nat \<Rightarrow> census \<Rightarrow> bool" where
  "crowd_ok p n \<longleftrightarrow> everyone n True \<le> p \<and> everyone n False \<le> p \<and> captains n 0 = 0 \<and> captains n 1 = 0 \<and> captains n 2 = 0"

definition finish_ok :: "nat \<Rightarrow> shared \<Rightarrow> census \<Rightarrow> bool" where
  "finish_ok p s n \<longleftrightarrow> total n 15 + total n 16 = waiting_to_finish s
     \<and> sem s FINISH + total n 16 = (if waiting_to_finish s = 2 * p then 2 * p else 0)"

definition base :: "nat \<Rightarrow> shared \<Rightarrow> census \<Rightarrow> bool" where
  "base p s n \<longleftrightarrow> pier_ok s n \<and> parity_ok s n \<and> crowd_ok p n \<and> finish_ok p s n"

definition idle :: "census \<Rightarrow> nat list \<Rightarrow> bool" where
  "idle n rs \<longleftrightarrow> (\<forall>r \<in> set rs. total n r = 0)"

definition open_pier :: "shared \<Rightarrow> census \<Rightarrow> bool" where
  "open_pier s n \<longleftrightarrow> sem s MOLO + total n 1 + total n 2 = 1 \<and> sem s HACKER = 0 \<and> sem s SERF = 0 \<and> sem s BOARDING = 0
     \<and> sem s LANDING = 0 \<and> sem s CAPTAIN = 0 \<and> idle n [4, 5, 6, 7, 8, 9, 10, 11, 12, 13] \<and> captains n 3 = 0 \<and> waiting_members s = 0
     \<and> in_fours allowed (boardings s) [] \<and> in_fours one_captain (roles s) []"

definition boarding :: "shared \<Rightarrow> census \<Rightarrow> bool" where
  "boarding s n \<longleftrightarrow> sem s MOLO = 0 \<and> sem s BOARDING = 0 \<and> sem s LANDING = 0 \<and> sem s CAPTAIN = 0
     \<and> idle n [1, 2, 6, 7, 8, 9, 10, 11, 12, 13]
     \<and> sem s HACKER + sem s SERF + total n 4 + total n 5 = 4 \<and> waiting_members s = total n 5 \<and> waiting_members s < 4
     \<and> captains n 3 + captains n 4 + captains n 5 = 1
     \<and> (n 3 True True \<noteq> 0 \<longrightarrow> hackers_count s = 0) \<and> (n 3 False True \<noteq> 0 \<longrightarrow> serfs_count s = 0)
     \<and> (\<exists>part. in_fours allowed (boardings s) part \<and> length part = waiting_members s
          \<and> sem s HACKER + kind n True 4 + length (filter id part) \<in> {0, 2, 4})
     \<and> in_fours one_captain (roles s) []"

definition naming :: "shared \<Rightarrow> census \<Rightarrow> bool" where
  "naming s n \<longleftrightarrow> sem s MOLO = 0 \<and> sem s HACKER = 0 \<and> sem s SERF = 0 \<and> sem s LANDING = 0 \<and> sem s CAPTAIN = 0
     \<and> idle n [1, 2, 4, 8, 9, 10, 11, 12, 13]
     \<and> total n 5 = sem s BOARDING \<and> total n 5 + total n 6 + total n 7 = 4 \<and> waiting_members s = total n 7 \<and> waiting_members s < 4
     \<and> captains n 5 + captains n 6 + captains n 7 = 1 \<and> captains n 3 = 0
     \<and> in_fours allowed (boardings s) []
     \<and> (\<exists>part. in_fours one_captain (roles s) part \<and> length part = waiting_members s \<and> length (filter id part) = captains n 7)"

text \<open>The posts of \<open>CAPTAIN\<close> that are still to come.\<close>

definition to_post :: "census \<Rightarrow> nat" where
  "to_post n = 4 * (captains n 7 + captains n 8) + 3 * captains n 9 + 2 * captains n 10 + captains n 11"

definition sailing :: "shared \<Rightarrow> census \<Rightarrow> bool" where
  "sailing s n \<longleftrightarrow> sem s MOLO = 0 \<and> sem s HACKER = 0 \<and> sem s SERF = 0 \<and> sem s BOARDING = 0
     \<and> idle n [1, 2, 4, 5, 6] \<and> total n 7 = sem s LANDING
     \<and> total n 7 + total n 8 + total n 9 + total n 10 + total n 11 + total n 12 = sem s CAPTAIN + to_post n
     \<and> total n 13 + sem s CAPTAIN + to_post n + waiting_members s = 4 \<and> waiting_members s < 4
     \<and> captains n 7 + captains n 8 + captains n 9 + captains n 10 + captains n 11 \<le> 1 \<and> captains n 3 = 0
     \<and> in_fours allowed (boardings s) [] \<and> in_fours one_captain (roles s) []"

definition good :: "nat \<Rightarrow> shared \<Rightarrow> census \<Rightarrow> bool" where
  "good p s n \<longleftrightarrow> base p s n \<and> (open_pier s n \<or> boarding s n \<or> naming s n \<or> sailing s n)"

section \<open>The sections of the code preserve it\<close>

lemma out_simps [simp]:
  "boardings (s\<lparr>sem := f\<rparr>) = boardings s" "boardings (s\<lparr>counter := k\<rparr>) = boardings s" "boardings (s\<lparr>hackers_count := k\<rparr>) = boardings s"
  "boardings (s\<lparr>serfs_count := k\<rparr>) = boardings s" "boardings (s\<lparr>waiting_members := k\<rparr>) = boardings s"
  "boardings (s\<lparr>waiting_to_finish := k\<rparr>) = boardings s" "roles (s\<lparr>sem := f\<rparr>) = roles s" "roles (s\<lparr>counter := k\<rparr>) = roles s"
  "roles (s\<lparr>hackers_count := k\<rparr>) = roles s" "roles (s\<lparr>serfs_count := k\<rparr>) = roles s" "roles (s\<lparr>waiting_members := k\<rparr>) = roles s"
  "roles (s\<lparr>waiting_to_finish := k\<rparr>) = roles s"
  by (simp_all add: boardings_def roles_def)

lemma out_print [simp]:
  "boardings (print_line x a s) = boardings s @ (case a s of Boards _ _ \<Rightarrow> [isHacker x] | _ \<Rightarrow> [])"
  "roles (print_line x a s) = roles s @ (case a s of Role c \<Rightarrow> [c] | _ \<Rightarrow> [])"
  by (simp_all add: boardings_def roles_def print_line_def split: action.splits)

lemma print_simps [simp]:
  "sem (print_line x a s) = sem s" "hackers_count (print_line x a s) = hackers_count s" "serfs_count (print_line x a s) = serfs_count s"
  "waiting_members (print_line x a s) = waiting_members s" "waiting_to_finish (print_line x a s) = waiting_to_finish s"
  by (simp_all add: print_line_def)

lemmas phase_defs = open_pier_def boarding_def naming_def sailing_def idle_def to_post_def


text \<open>The part of the invariant that holds in every phase, when nothing of it changes.\<close>

lemma pier_keep:
  "pier_ok s n \<Longrightarrow> sem s' HACKER = sem s HACKER \<Longrightarrow> sem s' SERF = sem s SERF \<Longrightarrow> hackers_count s' = hackers_count s
    \<Longrightarrow> serfs_count s' = serfs_count s \<Longrightarrow> kind n' True 2 = kind n True 2 \<Longrightarrow> kind n' False 2 = kind n False 2
    \<Longrightarrow> kind n' True 3 = kind n True 3 \<Longrightarrow> kind n' False 3 = kind n False 3 \<Longrightarrow> pier_ok s' n'"
  by (simp only: pier_ok_def)

lemma parity_keep:
  "parity_ok s n \<Longrightarrow> sem s' HACKER + gone n' True = sem s HACKER + gone n True
    \<Longrightarrow> sem s' SERF + gone n' False = sem s SERF + gone n False \<Longrightarrow> parity_ok s' n'"
  by (simp only: parity_ok_def)

lemma crowd_keep:
  "crowd_ok p n \<Longrightarrow> everyone n' True = everyone n True \<Longrightarrow> everyone n' False = everyone n False
    \<Longrightarrow> captains n' 0 = 0 \<Longrightarrow> captains n' 1 = 0 \<Longrightarrow> captains n' 2 = 0 \<Longrightarrow> crowd_ok p n'"
  by (simp only: crowd_ok_def simp_thms)

lemma finish_keep:
  "finish_ok p s n \<Longrightarrow> sem s' FINISH = sem s FINISH \<Longrightarrow> waiting_to_finish s' = waiting_to_finish s \<Longrightarrow> total n' 15 = total n 15
    \<Longrightarrow> total n' 16 = total n 16 \<Longrightarrow> finish_ok p s' n'"
  by (simp only: finish_ok_def)

lemma goodI: "pier_ok s n \<Longrightarrow> parity_ok s n \<Longrightarrow> crowd_ok p n \<Longrightarrow> finish_ok p s n \<Longrightarrow>
    open_pier s n \<or> boarding s n \<or> naming s n \<or> sailing s n \<Longrightarrow> good p s n"
  by (simp add: good_def base_def)

lemma goodD:
  assumes "good p s n"
  shows "pier_ok s n" "parity_ok s n" "crowd_ok p n" "finish_ok p s n" "captains n 0 = 0" "captains n 1 = 0" "captains n 2 = 0"
    "open_pier s n \<or> boarding s n \<or> naming s n \<or> sailing s n"
  using assms by (auto simp: good_def base_def crowd_ok_def)

lemma one_of_four_simps [simp]:
  "hackers_count (one_of_four k n s) = hackers_count s" "serfs_count (one_of_four k n s) = serfs_count s"
  "waiting_to_finish (one_of_four k n s) = waiting_to_finish s"
  "waiting_members (one_of_four k n s) = (if waiting_members s = 3 then 0 else waiting_members s + 1)"
  "sem (one_of_four k n s) = (if waiting_members s = 3 then (sem s)(k := sem s k + n) else sem s)"
  "boardings (one_of_four k n s) = boardings s" "roles (one_of_four k n s) = roles s"
  by (auto simp: one_of_four_def sem_add_def Let_def)

lemma sem_add_simps [simp]:
  "hackers_count (sem_add k n s) = hackers_count s" "serfs_count (sem_add k n s) = serfs_count s"
  "waiting_to_finish (sem_add k n s) = waiting_to_finish s" "waiting_members (sem_add k n s) = waiting_members s"
  "sem (sem_add k n s) = (sem s)(k := sem s k + n)" "boardings (sem_add k n s) = boardings s" "roles (sem_add k n s) = roles s"
  by (auto simp: sem_add_def)

lemma good_molo:
  assumes "good p s (add m 0 h c)" "sem s MOLO \<noteq> 0"
  shows "good p (s\<lparr>sem := (sem s)(MOLO := sem s MOLO - 1)\<rparr>) (add m 1 h c)" (is "good p ?s ?n")
proof (rule goodI)
  note g = goodD [OF assms(1)]
  have o: "open_pier s (add m 0 h c)" using assms by (auto simp: good_def phase_defs)
  show "pier_ok ?s ?n" "parity_ok ?s ?n" "crowd_ok p ?n" "finish_ok p ?s ?n"
    by (rule pier_keep [OF g(1)] parity_keep [OF g(2)] crowd_keep [OF g(3)] finish_keep [OF g(4)]; use g in \<open>simp split: if_splits\<close>)+
  show "open_pier ?s ?n \<or> boarding ?s ?n \<or> naming ?s ?n \<or> sailing ?s ?n" using o assms(2) by (intro disjI1) (auto simp: phase_defs)
qed

lemma good_enter:
  assumes "good p s (add m 1 h c)" "isHacker x = h"
  shows "good p (print_line x (\<lambda>s. Waiting (hackers_count s) (serfs_count s))
    (if h then s\<lparr>hackers_count := hackers_count s + 1\<rparr> else s\<lparr>serfs_count := serfs_count s + 1\<rparr>)) (add m 2 h c)" (is "good p ?s ?n")
proof (rule goodI)
  note g = goodD [OF assms(1)]
  have o: "open_pier s (add m 1 h c)" using assms by (auto simp: good_def phase_defs)
  show "pier_ok ?s ?n" using g(1) by (cases h) (auto simp: pier_ok_def)
  show "parity_ok ?s ?n" "crowd_ok p ?n" "finish_ok p ?s ?n"
    by (rule parity_keep [OF g(2)] crowd_keep [OF g(3)] finish_keep [OF g(4)]; use g in \<open>simp split: if_splits\<close>)+
  show "open_pier ?s ?n \<or> boarding ?s ?n \<or> naming ?s ?n \<or> sailing ?s ?n" using o by (intro disjI1) (cases h; auto simp: phase_defs)
qed

lemma idle_simps: "idle n [] = True" "idle n (r # rs) = (total n r = 0 \<and> idle n rs)"
  by (simp_all add: idle_def)

lemma boardingD:
  assumes "boarding s n"
  shows "sem s MOLO = 0" "sem s BOARDING = 0" "sem s LANDING = 0" "sem s CAPTAIN = 0"
    "total n 1 = 0" "total n 2 = 0" "total n 6 = 0" "total n 7 = 0" "total n 8 = 0" "total n 9 = 0" "total n 10 = 0" "total n 11 = 0"
    "total n 12 = 0" "total n 13 = 0"
    "sem s HACKER + sem s SERF + total n 4 + total n 5 = 4" "waiting_members s = total n 5" "waiting_members s < 4"
    "captains n 3 + captains n 4 + captains n 5 = 1"
    "n 3 True True \<noteq> 0 \<Longrightarrow> hackers_count s = 0" "n 3 False True \<noteq> 0 \<Longrightarrow> serfs_count s = 0"
    "\<exists>part. in_fours allowed (boardings s) part \<and> length part = waiting_members s
          \<and> sem s HACKER + kind n True 4 + length (filter id part) \<in> {0, 2, 4}"
    "in_fours one_captain (roles s) []"
  using assms unfolding boarding_def idle_simps by blast+

lemma boardingI:
  assumes "sem s MOLO = 0" "sem s BOARDING = 0" "sem s LANDING = 0" "sem s CAPTAIN = 0"
    "total n 1 = 0" "total n 2 = 0" "total n 6 = 0" "total n 7 = 0" "total n 8 = 0" "total n 9 = 0" "total n 10 = 0" "total n 11 = 0"
    "total n 12 = 0" "total n 13 = 0"
    "sem s HACKER + sem s SERF + total n 4 + total n 5 = 4" "waiting_members s = total n 5" "waiting_members s < 4"
    "captains n 3 + captains n 4 + captains n 5 = 1"
    "n 3 True True \<noteq> 0 \<Longrightarrow> hackers_count s = 0" "n 3 False True \<noteq> 0 \<Longrightarrow> serfs_count s = 0"
    "\<exists>part. in_fours allowed (boardings s) part \<and> length part = waiting_members s
          \<and> sem s HACKER + kind n True 4 + length (filter id part) \<in> {0, 2, 4}"
    "in_fours one_captain (roles s) []"
  shows "boarding s n"
  unfolding boarding_def idle_simps using assms by (intro conjI impI TrueI)

lemma total_0: "total n r = 0 \<Longrightarrow> captains n r = 0"
  by (auto simp: total_def kind_def captains_def)

lemma pierD:
  assumes "pier_ok s n"
  shows "kind n True 2 + kind n True 3 = hackers_count s + sem s HACKER" "kind n False 2 + kind n False 3 = serfs_count s + sem s SERF"
    "\<exists>h k. kind n True 3 = h + sem s HACKER \<and> kind n False 3 = k + sem s SERF \<and> no_group h k"
  using assms by (auto simp: pier_ok_def)

lemma pierI:
  "kind n True 2 + kind n True 3 = hackers_count s + sem s HACKER \<Longrightarrow> kind n False 2 + kind n False 3 = serfs_count s + sem s SERF
    \<Longrightarrow> kind n True 3 = h + sem s HACKER \<Longrightarrow> kind n False 3 = k + sem s SERF \<Longrightarrow> no_group h k \<Longrightarrow> pier_ok s n"
  by (auto simp: pier_ok_def)

lemma good_wait_for_group:
  assumes "good p s (add m 3 h c)" "sem s (if h then HACKER else SERF) \<noteq> 0"
  shows "good p (s\<lparr>sem := (sem s)(if h then HACKER else SERF := sem s (if h then HACKER else SERF) - 1)\<rparr>) (add m 4 h c)" (is "good p ?s ?n")
proof (rule goodI)
  note g = goodD [OF assms(1)]
  have o: "boarding s (add m 3 h c)" using assms(2) g(8) by (cases h) (auto simp: phase_defs)
  note k = pierD(1,2) [OF g(1), simplified]
  obtain a b where ab: "kind (add m 3 h c) True 3 = a + sem s HACKER" "kind (add m 3 h c) False 3 = b + sem s SERF" "no_group a b"
    using pierD(3) [OF g(1)] by blast
  show "pier_ok ?s ?n"
    by (rule pierI [of _ _ a b]) (use k ab assms(2) in \<open>cases h; simp\<close>)+
  show "parity_ok ?s ?n" by (rule parity_keep [OF g(2)]; use assms(2) in \<open>cases h; simp\<close>)
  show "crowd_ok p ?n" by (rule crowd_keep [OF g(3)]; use g(5,6,7) in simp)
  show "finish_ok p ?s ?n" by (rule finish_keep [OF g(4)]; cases h; simp)
  show "open_pier ?s ?n \<or> boarding ?s ?n \<or> naming ?s ?n \<or> sailing ?s ?n"
  proof (rule disjI2, rule disjI1)
    note b = boardingD [OF o, simplified]
    obtain part where "in_fours allowed (boardings s) part" "length part = waiting_members s"
        "sem s HACKER + kind (add m 3 h c) True 4 + length (filter id part) \<in> {0, 2, 4}"
      using boardingD(21) [OF o] by blast
    then have q: "\<exists>part. in_fours allowed (boardings ?s) part \<and> length part = waiting_members ?s
          \<and> sem ?s HACKER + kind ?n True 4 + length (filter id part) \<in> {0, 2, 4}"
      by (intro exI [of _ part]) (use assms(2) in \<open>cases h; simp\<close>)
    show "boarding ?s ?n"
    proof (rule boardingI, goal_cases)
      case 15
      then show ?case using b(15) assms(2) by (cases h) simp_all
    next
      case 19
      then show ?case using b(19) by simp
    next
      case 20
      then show ?case using b(20) by simp
    next
      case 21
      then show ?case by (rule q)
    qed (use b(1-14,16-18,22) in \<open>cases h; cases c; simp\<close>)+
  qed
qed

lemma good_board:
  assumes "good p s (add m 4 h c)" "isHacker x = h"
  shows "good p (one_of_four BOARDING 4 (print_line x (\<lambda>s. Boards (hackers_count s) (serfs_count s)) s)) (add m 5 h c)" (is "good p ?s ?n")
proof (rule goodI)
  note g = goodD [OF assms(1)]
  have o: "boarding s (add m 4 h c)" using assms by (auto simp: good_def phase_defs)
  note b = boardingD [OF o, simplified]
  show "pier_ok ?s ?n" "parity_ok ?s ?n" "crowd_ok p ?n" "finish_ok p ?s ?n"
    by (rule pier_keep [OF g(1)] parity_keep [OF g(2)] crowd_keep [OF g(3)] finish_keep [OF g(4)]; use g in \<open>simp split: if_splits\<close>)+
  obtain part where part: "in_fours allowed (boardings s) part" "length part = waiting_members s"
      "sem s HACKER + kind (add m 4 h c) True 4 + length (filter id part) \<in> {0, 2, 4}"
    using boardingD(21) [OF o] by blast
  note part' = in_fours_snoc [OF part(1), of h]
  show "open_pier ?s ?n \<or> boarding ?s ?n \<or> naming ?s ?n \<or> sailing ?s ?n"
  proof (cases "waiting_members s = 3")
    case False
    have q: "\<exists>part. in_fours allowed (boardings ?s) part \<and> length part = waiting_members ?s
          \<and> sem ?s HACKER + kind ?n True 4 + length (filter id part) \<in> {0, 2, 4}"
      by (rule exI [of _ "part @ [h]"]) (use False part part' assms(2) in \<open>auto split: if_splits\<close>)
    have "boarding ?s ?n" unfolding boarding_def idle_simps
      using q by (intro conjI) (use b False in \<open>simp_all split: if_splits\<close>)
    then show ?thesis by simp
  next
    case True
    have "sem s HACKER = 0" "sem s SERF = 0" "total m 4 = 0" using b True by simp_all
    moreover have "allowed (part @ [h])" using part(3) calculation by (auto simp: allowed_def total_def)
    then have "in_fours allowed (boardings s @ [h]) []" using in_fours_full [OF part'] part(2) True by simp
    moreover have "captains m 6 = 0" "captains m 7 = 0" using b total_0 by blast+
    moreover have "captains m 4 = 0" using calculation(3) total_0 by blast
    moreover have "captains m 3 = 0"
      using b(19,20) pierD(1,2) [OF g(1), simplified] calculation(1,2) by (auto simp: captains_def kind_def)
    ultimately have "naming ?s ?n" unfolding naming_def idle_simps
      by (intro conjI exI [of _ "[]"]) (use b True assms(2) in simp_all)
    then show ?thesis by simp
  qed
qed

lemma namingD:
  assumes "naming s n"
  shows "sem s MOLO = 0" "sem s HACKER = 0" "sem s SERF = 0" "sem s LANDING = 0" "sem s CAPTAIN = 0"
    "total n 1 = 0" "total n 2 = 0" "total n 4 = 0" "total n 8 = 0" "total n 9 = 0" "total n 10 = 0" "total n 11 = 0" "total n 12 = 0" "total n 13 = 0"
    "total n 5 = sem s BOARDING" "total n 5 + total n 6 + total n 7 = 4" "waiting_members s = total n 7" "waiting_members s < 4"
    "captains n 5 + captains n 6 + captains n 7 = 1" "captains n 3 = 0" "in_fours allowed (boardings s) []"
    "\<exists>part. in_fours one_captain (roles s) part \<and> length part = waiting_members s \<and> length (filter id part) = captains n 7"
  using assms unfolding naming_def idle_simps by blast+

lemma namingI:
  assumes "sem s MOLO = 0" "sem s HACKER = 0" "sem s SERF = 0" "sem s LANDING = 0" "sem s CAPTAIN = 0"
    "total n 1 = 0" "total n 2 = 0" "total n 4 = 0" "total n 8 = 0" "total n 9 = 0" "total n 10 = 0" "total n 11 = 0" "total n 12 = 0" "total n 13 = 0"
    "total n 5 = sem s BOARDING" "total n 5 + total n 6 + total n 7 = 4" "waiting_members s = total n 7" "waiting_members s < 4"
    "captains n 5 + captains n 6 + captains n 7 = 1" "captains n 3 = 0" "in_fours allowed (boardings s) []"
    "\<exists>part. in_fours one_captain (roles s) part \<and> length part = waiting_members s \<and> length (filter id part) = captains n 7"
  shows "naming s n"
  unfolding naming_def idle_simps using assms by (intro conjI TrueI)

lemma sailingD:
  assumes "sailing s n"
  shows "sem s MOLO = 0" "sem s HACKER = 0" "sem s SERF = 0" "sem s BOARDING = 0"
    "total n 1 = 0" "total n 2 = 0" "total n 4 = 0" "total n 5 = 0" "total n 6 = 0" "total n 7 = sem s LANDING"
    "total n 7 + total n 8 + total n 9 + total n 10 + total n 11 + total n 12 = sem s CAPTAIN + to_post n"
    "total n 13 + sem s CAPTAIN + to_post n + waiting_members s = 4" "waiting_members s < 4"
    "captains n 7 + captains n 8 + captains n 9 + captains n 10 + captains n 11 \<le> 1" "captains n 3 = 0"
    "in_fours allowed (boardings s) []" "in_fours one_captain (roles s) []"
  using assms unfolding sailing_def idle_simps by blast+

lemma sailingI:
  assumes "sem s MOLO = 0" "sem s HACKER = 0" "sem s SERF = 0" "sem s BOARDING = 0"
    "total n 1 = 0" "total n 2 = 0" "total n 4 = 0" "total n 5 = 0" "total n 6 = 0" "total n 7 = sem s LANDING"
    "total n 7 + total n 8 + total n 9 + total n 10 + total n 11 + total n 12 = sem s CAPTAIN + to_post n"
    "total n 13 + sem s CAPTAIN + to_post n + waiting_members s = 4" "waiting_members s < 4"
    "captains n 7 + captains n 8 + captains n 9 + captains n 10 + captains n 11 \<le> 1" "captains n 3 = 0"
    "in_fours allowed (boardings s) []" "in_fours one_captain (roles s) []"
  shows "sailing s n"
  unfolding sailing_def idle_simps using assms by (intro conjI TrueI)

lemma openD:
  assumes "open_pier s n"
  shows "sem s MOLO + total n 1 + total n 2 = 1" "sem s HACKER = 0" "sem s SERF = 0" "sem s BOARDING = 0" "sem s LANDING = 0" "sem s CAPTAIN = 0"
    "total n 4 = 0" "total n 5 = 0" "total n 6 = 0" "total n 7 = 0" "total n 8 = 0" "total n 9 = 0" "total n 10 = 0" "total n 11 = 0"
    "total n 12 = 0" "total n 13 = 0" "captains n 3 = 0" "waiting_members s = 0"
    "in_fours allowed (boardings s) []" "in_fours one_captain (roles s) []"
  using assms unfolding open_pier_def idle_simps by blast+

lemma openI:
  assumes "sem s MOLO + total n 1 + total n 2 = 1" "sem s HACKER = 0" "sem s SERF = 0" "sem s BOARDING = 0" "sem s LANDING = 0" "sem s CAPTAIN = 0"
    "total n 4 = 0" "total n 5 = 0" "total n 6 = 0" "total n 7 = 0" "total n 8 = 0" "total n 9 = 0" "total n 10 = 0" "total n 11 = 0"
    "total n 12 = 0" "total n 13 = 0" "captains n 3 = 0" "waiting_members s = 0"
    "in_fours allowed (boardings s) []" "in_fours one_captain (roles s) []"
  shows "open_pier s n"
  unfolding open_pier_def idle_simps using assms by (intro conjI TrueI)

text \<open>Which phase it is, from one fact.\<close>

lemma phase_zero:
  "open_pier s n \<Longrightarrow> sem s LANDING = 0 \<and> (\<forall>r \<in> {5, 6, 8, 9, 10, 11, 12, 13}. total n r = 0)"
  "boarding s n \<Longrightarrow> sem s BOARDING = 0 \<and> sem s LANDING = 0 \<and> (\<forall>r \<in> {2, 6, 8, 9, 10, 11, 12, 13}. total n r = 0)"
  "naming s n \<Longrightarrow> sem s LANDING = 0 \<and> (\<forall>r \<in> {2, 8, 9, 10, 11, 12, 13}. total n r = 0)"
  "sailing s n \<Longrightarrow> \<forall>r \<in> {2, 5, 6}. total n r = 0"
  using openD [of s n] boardingD [of s n] namingD [of s n] sailingD [of s n] by simp_all

lemma phase_of:
  assumes "good p s n"
  shows "total n 5 \<noteq> 0 \<Longrightarrow> sem s BOARDING \<noteq> 0 \<Longrightarrow> naming s n" "total n 6 \<noteq> 0 \<Longrightarrow> naming s n" "sem s LANDING \<noteq> 0 \<Longrightarrow> sailing s n"
    "total n 8 \<noteq> 0 \<Longrightarrow> sailing s n" "total n 9 \<noteq> 0 \<Longrightarrow> sailing s n" "total n 10 \<noteq> 0 \<Longrightarrow> sailing s n" "total n 11 \<noteq> 0 \<Longrightarrow> sailing s n"
    "total n 12 \<noteq> 0 \<Longrightarrow> sailing s n" "total n 13 \<noteq> 0 \<Longrightarrow> sailing s n"
    "total n 2 \<noteq> 0 \<Longrightarrow> open_pier s n"
  using goodD(8) [OF assms] by (auto dest: phase_zero)

text \<open>Steps that leave pier, groups and numbers of persons alone.\<close>

lemma base_keep:
  assumes "good p s n" "sem s' HACKER = sem s HACKER" "sem s' SERF = sem s SERF" "hackers_count s' = hackers_count s"
    "serfs_count s' = serfs_count s" "kind n' True 2 = kind n True 2" "kind n' False 2 = kind n False 2"
    "kind n' True 3 = kind n True 3" "kind n' False 3 = kind n False 3" "gone n' True = gone n True" "gone n' False = gone n False"
    "everyone n' True = everyone n True" "everyone n' False = everyone n False" "captains n' 0 = captains n 0" "captains n' 1 = captains n 1"
    "captains n' 2 = captains n 2" "sem s' FINISH = sem s FINISH" "waiting_to_finish s' = waiting_to_finish s" "total n' 15 = total n 15"
    "total n' 16 = total n 16" "open_pier s' n' \<or> boarding s' n' \<or> naming s' n' \<or> sailing s' n'"
  shows "good p s' n'"
proof (rule goodI)
  note g = goodD [OF assms(1)]
  show "pier_ok s' n'" by (rule pier_keep [OF g(1)]) (use assms in simp_all)
  show "parity_ok s' n'" by (rule parity_keep [OF g(2)]) (use assms in simp_all)
  show "crowd_ok p n'" by (rule crowd_keep [OF g(3)]) (use assms g in simp_all)
  show "finish_ok p s' n'" by (rule finish_keep [OF g(4)]) (use assms in simp_all)
qed (rule assms)

lemma good_boarding_wait:
  assumes "good p s (add m 5 h c)" "sem s BOARDING \<noteq> 0"
  shows "good p (s\<lparr>sem := (sem s)(BOARDING := sem s BOARDING - 1)\<rparr>) (add m 6 h c)" (is "good p ?s ?n")
proof -
  have o: "naming s (add m 5 h c)" by (rule phase_of(1) [OF assms(1)]) (use assms(2) in simp_all)
  note b = namingD [OF o, simplified]
  have "naming ?s ?n"
  proof (rule namingI, goal_cases)
    case 22
    then show ?case using b(22) by simp
  qed (use b(1-21) assms(2) in \<open>simp_all split: if_splits\<close>)
  then show ?thesis by (intro base_keep [OF assms(1)]) simp_all
qed

lemma good_role:
  assumes "good p s (add m 6 h c)" "isHacker x = h" "isCaptain x = c"
  shows "good p (one_of_four LANDING 4 (print_line x (\<lambda>_. Role c) s)) (add m 7 h c)" (is "good p ?s ?n")
proof -
  have o: "naming s (add m 6 h c)" by (rule phase_of(2) [OF assms(1)]) simp
  note b = namingD [OF o, simplified]
  obtain part where part: "in_fours one_captain (roles s) part" "length part = waiting_members s" "length (filter id part) = captains m 7"
    using b(22) by auto
  note part' = in_fours_snoc [OF part(1), of c]
  have "naming ?s ?n \<or> sailing ?s ?n"
  proof (cases "waiting_members s = 3")
    case False
    have q: "\<exists>part. in_fours one_captain (roles ?s) part \<and> length part = waiting_members ?s \<and> length (filter id part) = captains ?n 7"
      by (rule exI [of _ "part @ [c]"]) (use False part part' in simp)
    have "naming ?s ?n"
    proof (rule namingI, goal_cases)
      case 22
      then show ?case by (rule q)
    qed (use b(1-21) False in \<open>simp_all split: if_splits\<close>)
    then show ?thesis by simp
  next
    case True
    have z: "total m 5 = 0" "total m 6 = 0" "total m 7 = 3" using b True by simp_all
    have c: "captains m 7 + (if c then 1 else 0) = 1" using b(19) total_0 [OF z(1)] total_0 [OF z(2)] by (simp split: if_splits)
    have "one_captain (part @ [c])" using part(3) c by (simp add: one_captain_def split: if_splits)
    then have f: "in_fours one_captain (roles s @ [c]) []" using in_fours_full [OF part'] part(2) True by simp
    have "sailing ?s ?n"
      by (rule sailingI) (use b(1-21) True z c f total_0 [of m] in \<open>simp_all add: to_post_def split: if_splits\<close>)
    then show ?thesis by simp
  qed
  then show ?thesis by (intro base_keep [OF assms(1)]) auto
qed

lemma to_post_add [simp]:
  "to_post (add m r h c) = to_post m + (if c \<and> (r = 7 \<or> r = 8) then 4 else if c \<and> r = 9 then 3 else if c \<and> r = 10 then 2
     else if c \<and> r = 11 then 1 else 0)"
proof -
  consider "\<not> c" | "c" "r = 7" | "c" "r = 8" | "c" "r = 9" | "c" "r = 10" | "c" "r = 11" | "c" "r \<noteq> 7" "r \<noteq> 8" "r \<noteq> 9" "r \<noteq> 10" "r \<noteq> 11"
    by blast
  then show ?thesis by cases (simp_all add: to_post_def)
qed

lemma good_landing_wait:
  assumes "good p s (add m 7 h c)" "sem s LANDING \<noteq> 0"
  shows "good p (s\<lparr>sem := (sem s)(LANDING := sem s LANDING - 1)\<rparr>) (add m 8 h c)" (is "good p ?s ?n")
proof -
  have o: "sailing s (add m 7 h c)" by (rule phase_of(3) [OF assms(1)]) (use assms(2) in simp_all)
  note b = sailingD [OF o, simplified]
  have "sailing ?s ?n" by (rule sailingI) (use b assms(2) in \<open>simp_all split: if_splits\<close>)
  then show ?thesis by (intro base_keep [OF assms(1)]) simp_all
qed

lemma good_sail:
  assumes "good p s (add m r h c)" "r \<in> {8, 9, 10, 11}"
  shows "good p (if c then sem_add CAPTAIN 1 s else s) (add m (r + 1) h c)" (is "good p ?s ?n")
proof -
  have o: "sailing s (add m r h c)" using phase_of(4-7) [OF assms(1)] assms(2) by auto
  from assms(2) have "r = 8 \<or> r = 9 \<or> r = 10 \<or> r = 11" by simp
  then have "sailing ?s ?n"
  proof (elim disjE)
    assume r: "r = 8"
    note b = sailingD [OF o [unfolded r], simplified]
    show ?thesis by (rule sailingI) (use b in \<open>cases c; simp add: r\<close>)+
  next
    assume r: "r = 9"
    note b = sailingD [OF o [unfolded r], simplified]
    show ?thesis by (rule sailingI) (use b in \<open>cases c; simp add: r\<close>)+
  next
    assume r: "r = 10"
    note b = sailingD [OF o [unfolded r], simplified]
    show ?thesis by (rule sailingI) (use b in \<open>cases c; simp add: r\<close>)+
  next
    assume r: "r = 11"
    note b = sailingD [OF o [unfolded r], simplified]
    show ?thesis by (rule sailingI) (use b in \<open>cases c; simp add: r\<close>)+
  qed
  then show ?thesis using assms(2) by (intro base_keep [OF assms(1)]) auto
qed

lemma good_captain_wait:
  assumes "good p s (add m 12 h c)" "sem s CAPTAIN \<noteq> 0"
  shows "good p (s\<lparr>sem := (sem s)(CAPTAIN := sem s CAPTAIN - 1)\<rparr>) (add m 13 h c)" (is "good p ?s ?n")
proof -
  have o: "sailing s (add m 12 h c)" by (rule phase_of(8) [OF assms(1)]) simp
  note b = sailingD [OF o, simplified]
  have "sailing ?s ?n" by (rule sailingI) (use b assms(2) in simp_all)
  then show ?thesis by (intro base_keep [OF assms(1)]) simp_all
qed

lemma good_land:
  assumes "good p s (add m 13 h c)"
  shows "good p (one_of_four MOLO 1 (print_line x (\<lambda>s. Lands (hackers_count s) (serfs_count s)) s)) (add m 14 h c)" (is "good p ?s ?n")
proof -
  have o: "sailing s (add m 13 h c)" by (rule phase_of(9) [OF assms(1)]) simp
  note b = sailingD [OF o, simplified]
  have "open_pier ?s ?n \<or> sailing ?s ?n"
  proof (cases "waiting_members s = 3")
    case False
    have "sailing ?s ?n" by (rule sailingI) (use b False in simp_all)
    then show ?thesis by simp
  next
    case True
    have "total m 13 = 0" "sem s CAPTAIN = 0" "to_post m = 0" using b(12) True by simp_all
    then have "open_pier ?s ?n" by (intro openI) (use b True in simp_all)
    then show ?thesis by simp
  qed
  then show ?thesis by (intro base_keep [OF assms(1)]) auto
qed

lemma phase_keep:
  assumes "open_pier s n \<or> boarding s n \<or> naming s n \<or> sailing s n"
    and "\<And>k. k \<noteq> EXCLUSIVE \<and> k \<noteq> FINISH \<Longrightarrow> sem s' k = sem s k" "hackers_count s' = hackers_count s" "serfs_count s' = serfs_count s"
    "waiting_members s' = waiting_members s" "boardings s' = boardings s" "roles s' = roles s"
    "\<And>r h c. 1 \<le> r \<and> r \<le> 13 \<Longrightarrow> n' r h c = n r h c"
  shows "open_pier s' n' \<or> boarding s' n' \<or> naming s' n' \<or> sailing s' n'"
proof -
  have "total n' r = total n r" "captains n' r = captains n r" "kind n' h r = kind n h r" if "1 \<le> r" "r \<le> 13" for r h
    using assms(8) that by (simp_all add: total_def captains_def kind_def)
  then have "open_pier s' n' = open_pier s n" "boarding s' n' = boarding s n" "naming s' n' = naming s n" "sailing s' n' = sailing s n"
    unfolding open_pier_def boarding_def naming_def sailing_def idle_simps to_post_def using assms(2-8) by simp_all
  with assms(1) show ?thesis by simp
qed

lemma waiting_bound:
  assumes "crowd_ok p n" "finish_ok p s n" "total n 14 \<noteq> 0"
  shows "waiting_to_finish s < 2 * p"
proof -
  have e: "{0..16::nat} = insert 14 (insert 15 (insert 16 {0..13}))" by auto
  have "kind n True 14 + kind n True 15 + kind n True 16 \<le> everyone n True" "kind n False 14 + kind n False 15 + kind n False 16 \<le> everyone n False"
    unfolding everyone_def by (subst e, simp)+
  moreover have "total n 15 + total n 16 = waiting_to_finish s" "everyone n True \<le> p" "everyone n False \<le> p"
    using assms(1,2) by (simp_all add: crowd_ok_def finish_ok_def)
  ultimately show ?thesis using assms(3) unfolding total_def by linarith
qed

lemma good_count_finish:
  assumes "good p s (add m 14 h c)"
  shows "good p (if waiting_to_finish s + 1 = 2 * p then sem_add FINISH (2 * p) (s\<lparr>waiting_to_finish := waiting_to_finish s + 1\<rparr>)
    else s\<lparr>waiting_to_finish := waiting_to_finish s + 1\<rparr>) (add m 15 h c)" (is "good p ?s ?n")
proof (rule goodI)
  note g = goodD [OF assms(1)]
  have w: "waiting_to_finish s < 2 * p" by (rule waiting_bound [OF g(3,4)]) simp
  show "pier_ok ?s ?n" by (rule pier_keep [OF g(1)]) simp_all
  show "parity_ok ?s ?n" by (rule parity_keep [OF g(2)]) simp_all
  show "crowd_ok p ?n" by (rule crowd_keep [OF g(3)]) (use g in simp_all)
  show "finish_ok p ?s ?n" using g(4) w by (auto simp: finish_ok_def)
  show "open_pier ?s ?n \<or> boarding ?s ?n \<or> naming ?s ?n \<or> sailing ?s ?n" by (rule phase_keep [OF g(8)]) auto
qed

lemma good_finish_wait:
  assumes "good p s (add m 15 h c)" "sem s FINISH \<noteq> 0"
  shows "good p (s\<lparr>sem := (sem s)(FINISH := sem s FINISH - 1)\<rparr>) (add m 16 h c)" (is "good p ?s ?n")
proof (rule goodI)
  note g = goodD [OF assms(1)]
  show "pier_ok ?s ?n" by (rule pier_keep [OF g(1)]) simp_all
  show "parity_ok ?s ?n" by (rule parity_keep [OF g(2)]) simp_all
  show "crowd_ok p ?n" by (rule crowd_keep [OF g(3)]) (use g in simp_all)
  show "finish_ok p ?s ?n" using g(4) assms(2) by (auto simp: finish_ok_def split: if_splits)
  show "open_pier ?s ?n \<or> boarding ?s ?n \<or> naming ?s ?n \<or> sailing ?s ?n" by (rule phase_keep [OF g(8)]) auto
qed

lemma good_same:
  assumes "good p s n" "\<And>k. k \<noteq> EXCLUSIVE \<Longrightarrow> sem s' k = sem s k" "hackers_count s' = hackers_count s" "serfs_count s' = serfs_count s"
    "waiting_members s' = waiting_members s" "waiting_to_finish s' = waiting_to_finish s" "boardings s' = boardings s" "roles s' = roles s"
  shows "good p s' n"
  by (rule base_keep [OF assms(1)]) (use assms phase_keep [OF goodD(8) [OF assms(1)], of s' n] in simp_all)

lemma good_fork:
  assumes "good p s n" "everyone n h < p"
  shows "good p s (add n 0 h False)"
proof (rule goodI)
  note g = goodD [OF assms(1)]
  show "pier_ok s (add n 0 h False)" by (rule pier_keep [OF g(1)]) simp_all
  show "parity_ok s (add n 0 h False)" by (rule parity_keep [OF g(2)]) simp_all
  show "crowd_ok p (add n 0 h False)" using g(3) assms(2) by (cases h) (simp_all add: crowd_ok_def)
  show "finish_ok p s (add n 0 h False)" by (rule finish_keep [OF g(4)]) simp_all
  show "open_pier s (add n 0 h False) \<or> boarding s (add n 0 h False) \<or> naming s (add n 0 h False) \<or> sailing s (add n 0 h False)"
    by (rule phase_keep [OF g(8)]) auto
qed

text \<open>A group is formed: the tickets for a boat are posted, and the pier closes.\<close>

lemma boarding_begins:
  assumes o: "open_pier s (add m 2 h False)" and g: "good p s (add m 2 h False)"
    and t: "sem s' HACKER + sem s' SERF = 4" "sem s' HACKER \<in> {0, 2, 4}"
    and same: "\<And>k. k \<noteq> HACKER \<and> k \<noteq> SERF \<Longrightarrow> sem s' k = sem s k" "waiting_members s' = waiting_members s"
      "waiting_to_finish s' = waiting_to_finish s" "boardings s' = boardings s" "roles s' = roles s"
    and cnt: "kind m True 3 + (if h then 1 else 0) = hackers_count s' + sem s' HACKER"
      "kind m False 3 + (if h then 0 else 1) = serfs_count s' + sem s' SERF"
    and ng: "no_group (hackers_count s') (serfs_count s')" and cap: "if h then hackers_count s' = 0 else serfs_count s' = 0"
  shows "good p s' (add m 3 h True)" (is "good p s' ?n")
proof (rule goodI)
  note g = goodD [OF g]
  note b = openD [OF o, simplified]
  have z: "total m 1 = 0" "total m 2 = 0" "sem s MOLO = 0" using b(1) by simp_all
  have k: "kind m True 2 = 0" "kind m False 2 = 0" using z(2) by (simp_all add: total_def)
  have c: "m 3 True True = 0" "m 3 False True = 0" using b(17) by (simp_all add: captains_def)
  show "pier_ok s' ?n"
    by (rule pierI [of _ _ "hackers_count s'" "serfs_count s'"]) (use k cnt ng in \<open>cases h; simp\<close>)+
  have e: "sem s' HACKER + gone ?n True + (sem s' SERF + gone ?n False) = 4 + (gone m True + gone m False)" using t(1) by simp
  have q: "even (gone m True)" "even (gone m False)" "4 dvd gone m True + gone m False" using g(2) b(2,3) by (simp_all add: parity_ok_def)
  have "even (sem s' HACKER)" "even (sem s' SERF)" using t by auto
  then show "parity_ok s' ?n" unfolding parity_ok_def e using q by simp
  show "crowd_ok p ?n" by (rule crowd_keep [OF g(3)]) (use g in simp_all)
  show "finish_ok p s' ?n" by (rule finish_keep [OF g(4)]) (use same in simp_all)
  have "boarding s' ?n"
  proof (rule boardingI, goal_cases)
    case 19
    then show ?case using cap c by (cases h) simp_all
  next
    case 20
    then show ?case using cap c by (cases h) simp_all
  next
    case 21
    have "kind m True 4 = 0" using b(7) by (simp add: total_def)
    then show ?case by (intro exI [of _ "[]"]) (use t b same in simp)
  qed (use b z t same total_0 [of m] in simp_all)
  then show "open_pier s' ?n \<or> boarding s' ?n \<or> naming s' ?n \<or> sailing s' ?n" by simp
qed

lemma pier_opens:
  assumes o: "open_pier s (add m 2 h False)" and g: "good p s (add m 2 h False)" and ng: "no_group (hackers_count s) (serfs_count s)"
  shows "good p (sem_add MOLO 1 s) (add m 3 h False)" (is "good p ?s ?n")
proof (rule goodI)
  note g = goodD [OF g]
  note b = openD [OF o, simplified]
  have z: "total m 1 = 0" "total m 2 = 0" "sem s MOLO = 0" using b(1) by simp_all
  have k: "kind m True 2 = 0" "kind m False 2 = 0" using z(2) by (simp_all add: total_def)
  note p = pierD(1,2) [OF g(1), simplified]
  show "pier_ok ?s ?n"
    by (rule pierI [of _ _ "hackers_count s" "serfs_count s"]) (use k p ng b in \<open>cases h; simp\<close>)+
  show "parity_ok ?s ?n" by (rule parity_keep [OF g(2)]) simp_all
  show "crowd_ok p ?n" by (rule crowd_keep [OF g(3)]) (use g in simp_all)
  show "finish_ok p ?s ?n" by (rule finish_keep [OF g(4)]) simp_all
  have "open_pier ?s ?n" by (rule openI) (use b z in simp_all)
  then show "open_pier ?s ?n \<or> boarding ?s ?n \<or> naming ?s ?n \<or> sailing ?s ?n" by simp
qed

lemma good_form:
  assumes g: "good p s (add m 2 h (isCaptain x))" and f: "form_group x s = Some (c', s')"
  shows "good p s' (add m 3 h c')"
proof -
  have x: "\<not> isCaptain x" using goodD(7) [OF g] by (simp split: if_splits)
  then have g': "good p s (add m 2 h False)" using g by simp
  have o: "open_pier s (add m 2 h False)" by (rule phase_of(10) [OF g']) simp
  note b = openD [OF o, simplified]
  have k: "kind m True 2 = 0" "kind m False 2 = 0" using b(1) by (simp_all add: total_def)
  note p = pierD(1,2) [OF goodD(1) [OF g'], simplified]
  have h3: "hackers_count s = kind m True 3 + (if h then 1 else 0)" "serfs_count s = kind m False 3 + (if h then 0 else 1)"
    using p k b(2,3) by (cases h; simp)+
  have ng: "no_group (kind m True 3) (kind m False 3)" using pierD(3) [OF goodD(1) [OF g']] b(2,3) by simp
  consider (hackers) "hackers_count s = 4" | (serfs) "hackers_count s \<noteq> 4" "serfs_count s = 4"
    | (both) "hackers_count s \<noteq> 4" "serfs_count s \<noteq> 4" "2 \<le> hackers_count s" "2 \<le> serfs_count s"
    | (none) "hackers_count s \<noteq> 4" "serfs_count s \<noteq> 4" "\<not> (2 \<le> hackers_count s \<and> 2 \<le> serfs_count s)"
    by blast
  then show ?thesis
  proof cases
    case hackers
    then have e: "c' = True" "s' = (sem_add HACKER 4 s)\<lparr>hackers_count := 0\<rparr>" using f by (auto simp: form_group_def)
    show ?thesis unfolding e
      by (rule boarding_begins [OF o g']) (use hackers h3 ng b in \<open>auto simp: no_group_def split: if_splits\<close>)
  next
    case serfs
    then have e: "c' = True" "s' = (sem_add SERF 4 s)\<lparr>serfs_count := 0\<rparr>" using f by (auto simp: form_group_def)
    show ?thesis unfolding e
      by (rule boarding_begins [OF o g']) (use serfs h3 ng b in \<open>auto simp: no_group_def split: if_splits\<close>)
  next
    case both
    then have e: "c' = True" "s' = (sem_add SERF 2 (sem_add HACKER 2 s))\<lparr>hackers_count := hackers_count s - 2, serfs_count := serfs_count s - 2\<rparr>"
      using f by (auto simp: form_group_def)
    show ?thesis unfolding e
      by (rule boarding_begins [OF o g']) (use both h3 ng b in \<open>auto simp: no_group_def split: if_splits\<close>)
  next
    case none
    then have e: "c' = False" "s' = sem_add MOLO 1 s" using f x by (auto simp: form_group_def)
    show ?thesis unfolding e by (rule pier_opens [OF o g']) (use none h3 ng in \<open>auto simp: no_group_def split: if_splits\<close>)
  qed
qed

end
