(* ===== verification/River_Safety.thy ===== *)
theory River_Safety
  imports River_Invariant
begin

text \<open>
  The invariant holds in every reachable state of the river crossing; from it follow the
  safety of the voyages and, because no state is stuck before all persons are across, that
  every run ends with all of them across.
\<close>

section \<open>Steps of a person\<close>

lemma code_at:
  "member_code M ! 0 = sem_wait EXCLUSIVE" "member_code M ! 1 = started" "member_code M ! 2 = sem_post EXCLUSIVE"
  "member_code M ! 3 = sem_wait MOLO" "member_code M ! 4 = sem_wait EXCLUSIVE" "member_code M ! 5 = enter_pier"
  "member_code M ! 6 = sem_post EXCLUSIVE" "member_code M ! 7 = sem_wait EXCLUSIVE" "member_code M ! 8 = form_group"
  "member_code M ! 9 = sem_post EXCLUSIVE" "member_code M ! 10 = wait_for_group" "member_code M ! 11 = sem_wait EXCLUSIVE"
  "member_code M ! 12 = board" "member_code M ! 13 = sem_post EXCLUSIVE" "member_code M ! 14 = sem_wait BOARDING"
  "member_code M ! 15 = sem_wait EXCLUSIVE" "member_code M ! 16 = role" "member_code M ! 17 = sem_post EXCLUSIVE"
  "member_code M ! 18 = sem_wait LANDING" "member_code M ! 19 = sail" "member_code M ! 20 = sail" "member_code M ! 21 = sail"
  "member_code M ! 22 = sail" "member_code M ! 23 = sem_wait CAPTAIN" "member_code M ! 24 = sem_wait EXCLUSIVE"
  "member_code M ! 25 = land" "member_code M ! 26 = sem_post EXCLUSIVE" "member_code M ! 27 = sem_wait EXCLUSIVE"
  "member_code M ! 28 = count_finish M" "member_code M ! 29 = sem_post EXCLUSIVE" "member_code M ! 30 = sem_wait FINISH"
  "member_code M ! 31 = sem_wait EXCLUSIVE" "member_code M ! 32 = finished" "member_code M ! 33 = sem_post EXCLUSIVE" "member_code M ! Suc 0 = started"
  by (simp_all add: member_code_def)

lemma pc_cases:
  fixes q :: nat
  assumes "q < 34"
  obtains (neutral) "q \<in> {0, 1, 2, 4, 6, 7, 9, 11, 13, 15, 17, 24, 26, 27, 29, 31, 32, 33}"
  | (molo) "q = 3" | (enter) "q = 5" | (form) "q = 8" | (ticket) "q = 10" | (board) "q = 12" | (boarding) "q = 14" | (role) "q = 16"
  | (landing) "q = 18" | (sail) "q \<in> {19, 20, 21, 22}" | (captain) "q = 23" | (land) "q = 25" | (count) "q = 28" | (finish) "q = 30"
proof -
  have "q \<in> {0, 1, 2, 4, 6, 7, 9, 11, 13, 15, 17, 24, 26, 27, 29, 31, 32, 33} \<or> q = 3 \<or> q = 5 \<or> q = 8 \<or> q = 10 \<or> q = 12 \<or> q = 14
    \<or> q = 16 \<or> q = 18 \<or> q \<in> {19, 20, 21, 22} \<or> q = 23 \<or> q = 25 \<or> q = 28 \<or> q = 30"
    using assms unfolding insert_iff empty_iff by presburger
  then show ?thesis using that by blast
qed

lemma neutral_instr:
  assumes "q \<in> {0, 1, 2, 4, 6, 7, 9, 11, 13, 15, 17, 24, 26, 27, 29, 31, 32, 33}" "(member_code M ! q) x s = Some (c', s')"
  shows "c' = isCaptain x" "\<And>k. k \<noteq> EXCLUSIVE \<Longrightarrow> sem s' k = sem s k" "hackers_count s' = hackers_count s" "serfs_count s' = serfs_count s"
    "waiting_members s' = waiting_members s" "waiting_to_finish s' = waiting_to_finish s" "boardings s' = boardings s" "roles s' = roles s"
    "region (q + 1) = region q"
  using assms by (auto simp: code_at sem_wait_def sem_post_def started_def finished_def region_def split: if_splits)

lemma member_good:
  assumes g: "good p s (add m (region (pc x)) (isHacker x) (isCaptain x))" and st: "member_step (2 * p) x s = Some (x', s')"
  shows "good p s' (add m (region (pc x')) (isHacker x') (isCaptain x'))"
proof -
  obtain c' where i: "pc x < 34" "(member_code (2 * p) ! pc x) x s = Some (c', s')" "x' = x\<lparr>isCaptain := c', pc := pc x + 1\<rparr>"
    using st by (auto simp: member_step_def exit_pc_def split: if_splits)
  have e: "region (pc x') = region (pc x + 1)" "isHacker x' = isHacker x" "isCaptain x' = c'" using i(3) by simp_all
  from i(1) show ?thesis
  proof (cases "pc x" rule: pc_cases)
    case neutral
    note n = neutral_instr [OF neutral i(2)]
    show ?thesis unfolding e n(1,9) by (rule good_same [OF g]) (use n in simp_all)
  next
    case molo
    then show ?thesis using i(2) good_molo [of p s m "isHacker x" "isCaptain x"] g unfolding e
      by (auto simp: code_at sem_wait_def region_def split: if_splits)
  next
    case enter
    then show ?thesis using i(2) good_enter [of p s m "isHacker x" "isCaptain x" x] g unfolding e
      by (auto simp: code_at enter_pier_def region_def Let_def)
  next
    case form
    then show ?thesis using i(2) good_form [of p s m "isHacker x" x c' s'] g unfolding e
      by (simp add: code_at region_def)
  next
    case ticket
    then show ?thesis using i(2) good_wait_for_group [of p s m "isHacker x" "isCaptain x"] g unfolding e
      by (cases "isHacker x") (auto simp: code_at wait_for_group_def sem_wait_def region_def split: if_splits)
  next
    case board
    then show ?thesis using i(2) good_board [of p s m "isHacker x" "isCaptain x" x] g unfolding e
      by (auto simp: code_at board_def region_def)
  next
    case boarding
    then show ?thesis using i(2) good_boarding_wait [of p s m "isHacker x" "isCaptain x"] g unfolding e
      by (auto simp: code_at sem_wait_def region_def split: if_splits)
  next
    case role
    then show ?thesis using i(2) good_role [of p s m "isHacker x" "isCaptain x" x] g unfolding e
      by (auto simp: code_at role_def region_def)
  next
    case landing
    then show ?thesis using i(2) good_landing_wait [of p s m "isHacker x" "isCaptain x"] g unfolding e
      by (auto simp: code_at sem_wait_def region_def split: if_splits)
  next
    case sail
    have j: "c' = isCaptain x" "s' = (if isCaptain x then sem_add CAPTAIN 1 s else s)"
      using sail i(2) by (auto simp: code_at sail_def sem_post_def split: if_splits)
    have r: "region (pc x + 1) = region (pc x) + 1" "region (pc x) \<in> {8, 9, 10, 11}" using sail by (auto simp: region_def)
    show ?thesis unfolding e r(1) j by (rule good_sail [OF g r(2)])
  next
    case captain
    then show ?thesis using i(2) good_captain_wait [of p s m "isHacker x" "isCaptain x"] g unfolding e
      by (auto simp: code_at sem_wait_def region_def split: if_splits)
  next
    case land
    then show ?thesis using i(2) good_land [of p s m "isHacker x" "isCaptain x" x] g unfolding e
      by (auto simp: code_at land_def region_def)
  next
    case count
    then show ?thesis using i(2) good_count_finish [of p s m "isHacker x" "isCaptain x"] g unfolding e
      by (auto simp: code_at count_finish_def region_def Let_def split: if_splits)
  next
    case finish
    then show ?thesis using i(2) good_finish_wait [of p s m "isHacker x" "isCaptain x"] g unfolding e
      by (auto simp: code_at sem_wait_def region_def split: if_splits)
  qed
qed

section \<open>Reachable states\<close>

text \<open>Inside a section, and the numbers of the lines.\<close>

definition inside :: "person \<Rightarrow> bool" where
  "inside x \<longleftrightarrow> pc x \<in> {1, 2, 5, 6, 8, 9, 12, 13, 16, 17, 25, 26, 28, 29, 32, 33}"

definition numbered :: "shared \<Rightarrow> bool" where
  "numbered s \<longleftrightarrow> map fst (out_lines s) = [1..<counter s + 1]"

lemma numbered_simps [simp]:
  "numbered (s\<lparr>sem := f\<rparr>) = numbered s" "numbered (s\<lparr>hackers_count := k\<rparr>) = numbered s" "numbered (s\<lparr>serfs_count := k\<rparr>) = numbered s"
  "numbered (s\<lparr>waiting_members := k\<rparr>) = numbered s" "numbered (s\<lparr>waiting_to_finish := k\<rparr>) = numbered s"
  "numbered (sem_add e n s) = numbered s" "numbered (one_of_four e n s) = numbered s" "numbered s \<Longrightarrow> numbered (print_line x a s)"
  by (auto simp: numbered_def sem_add_def one_of_four_def print_line_def Let_def)

lemmas instr_defs = sem_wait_def sem_post_def started_def enter_pier_def form_group_def wait_for_group_def board_def role_def sail_def
  land_def count_finish_def finished_def

lemma instr_numbered: "q < 34 \<Longrightarrow> (member_code M ! q) x s = Some (c', s') \<Longrightarrow> numbered s \<Longrightarrow> numbered s'"
  by (rule pc_cases [of q]) (auto simp: code_at instr_defs Let_def split: if_splits)

lemma instr_lock:
  assumes "q < 34" "(member_code M ! q) x s = Some (c', s')"
  shows "sem s' EXCLUSIVE + (if q + 1 \<in> {1, 2, 5, 6, 8, 9, 12, 13, 16, 17, 25, 26, 28, 29, 32, 33} then 1 else 0)
    = sem s EXCLUSIVE + (if q \<in> {1, 2, 5, 6, 8, 9, 12, 13, 16, 17, 25, 26, 28, 29, 32, 33} then 1 else 0)"
  using assms(1)
proof (cases q rule: pc_cases)
  case neutral
  then show ?thesis
    by (elim insertE emptyE) (use assms(2) in \<open>auto simp: code_at sem_wait_def sem_post_def started_def finished_def split: if_splits\<close>)
next
  case form
  with assms(2) show ?thesis by (auto simp: code_at form_group_def split: if_splits)
qed (use assms(2) in \<open>auto simp: code_at sem_wait_def sem_post_def enter_pier_def wait_for_group_def board_def role_def sail_def
  land_def count_finish_def Let_def split: if_splits\<close>)

definition river_ok :: "nat \<Rightarrow> river \<Rightarrow> bool" where
  "river_ok p w \<longleftrightarrow> good p (memory w) (census_of (persons w))
     \<and> sem (memory w) EXCLUSIVE + length (filter inside (persons w)) = 1
     \<and> (\<forall>x \<in> set (persons w). pc x \<le> 34) \<and> forked True w \<le> p \<and> forked False w \<le> p \<and> numbered (memory w)"

lemma everyone_census: "everyone (census_of xs) h = length (filter (\<lambda>x. isHacker x = h) xs)"
proof (induction xs rule: rev_induct)
  case Nil
  show ?case by (simp add: everyone_def kind_def census_of_def)
next
  case (snoc x xs)
  have "region (pc x) \<le> 16" by (simp add: region_def)
  then show ?case unfolding census_snoc add_everyone snoc by auto
qed

lemma filter_update:
  "i < length xs \<Longrightarrow> length (filter P (xs[i := y])) + (if P (xs ! i) then 1 else 0) = length (filter P xs) + (if P y then 1 else 0)"
proof -
  assume i: "i < length xs"
  have "length (filter P xs) = length (filter P (take i xs @ xs ! i # drop (Suc i) xs))" using id_take_nth_drop [OF i] by simp
  then show ?thesis using i by (simp add: upd_conv_take_nth_drop)
qed

lemma init_ok: "river_ok p \<lparr>memory = init, persons = []\<rparr>"
proof -
  have z: "total (census_of []) r = 0" "captains (census_of []) r = 0" "kind (census_of []) h r = 0" "gone (census_of []) h = 0"
    "everyone (census_of []) h = 0" for r h
    by (simp_all add: total_def kind_def captains_def gone_def everyone_def census_of_def)
  have "open_pier init (census_of [])" by (rule openI) (simp_all add: z init_def boardings_def roles_def)
  then have "good p init (census_of [])"
    by (intro goodI disjI1) (simp_all add: pier_ok_def parity_ok_def crowd_ok_def finish_ok_def z init_def no_group_def)
  then show ?thesis by (simp add: river_ok_def forked_def numbered_def init_def)
qed

lemma fork_ok:
  assumes "river_ok p w" "generate_step p h w = Some w'"
  shows "river_ok p w'"
proof -
  have w: "forked h w < p" "w' = w\<lparr>persons := persons w @ [newcomer h (forked h w)]\<rparr>"
    using assms(2) by (auto simp: generate_step_def split: if_splits)
  have "good p (memory w) (add (census_of (persons w)) 0 h False)"
    using assms(1) w(1) by (intro good_fork) (auto simp: river_ok_def everyone_census forked_def)
  then show ?thesis using assms(1) w
    by (cases h) (auto simp: river_ok_def census_snoc newcomer_def region_def inside_def forked_def)
qed

lemma move_ok:
  assumes ok: "river_ok p w" and st: "person_step p i w = Some w'"
  shows "river_ok p w'"
proof -
  obtain x' s' where i: "i < length (persons w)" "member_step (2 * p) (persons w ! i) (memory w) = Some (x', s')"
    "w' = \<lparr>memory = s', persons = (persons w)[i := x']\<rparr>"
    using st by (auto simp: person_step_def split: if_splits)
  define x where "x = persons w ! i"
  obtain c' where j: "pc x < 34" "(member_code (2 * p) ! pc x) x (memory w) = Some (c', s')" "x' = x\<lparr>isCaptain := c', pc := pc x + 1\<rparr>"
    using i(2) by (auto simp: member_step_def exit_pc_def x_def split: if_splits)
  obtain m where m: "census_of (persons w) = add m (region (pc x)) (isHacker x) (isCaptain x)"
    "census_of ((persons w)[i := x']) = add m (region (pc x')) (isHacker x') (isCaptain x')"
    using census_split [OF i(1)] unfolding x_def by blast
  have "good p s' (census_of ((persons w)[i := x']))"
    unfolding m(2) by (rule member_good [OF _ i(2) [folded x_def]]) (use ok m(1) in \<open>simp add: river_ok_def\<close>)
  moreover have "sem s' EXCLUSIVE + length (filter inside ((persons w)[i := x'])) = 1"
  proof -
    have "sem s' EXCLUSIVE + (if inside x' then 1 else 0) = sem (memory w) EXCLUSIVE + (if inside x then 1 else 0)"
      using instr_lock [OF j(1,2)] j(3) by (simp add: inside_def)
    then show ?thesis using filter_update [OF i(1), of inside x'] ok unfolding river_ok_def x_def by linarith
  qed
  moreover have kept: "length (filter (\<lambda>x. isHacker x = h) ((persons w)[i := x'])) = forked h w" for h
    using filter_update [OF i(1), of "\<lambda>x. isHacker x = h" x'] j(3) by (simp add: forked_def x_def)
  moreover have "\<forall>y \<in> set ((persons w)[i := x']). pc y \<le> 34"
    using ok j(1,3) set_update_subset_insert [of "persons w" i x'] by (auto simp: river_ok_def)
  moreover have "length (filter (\<lambda>x. isHacker x = True) ((persons w)[i := x'])) \<le> p"
    "length (filter (\<lambda>x. isHacker x = False) ((persons w)[i := x'])) \<le> p"
    using kept [of True] kept [of False] ok by (simp_all add: river_ok_def)
  moreover have "numbered s'" using instr_numbered [OF j(1,2)] ok by (simp add: river_ok_def)
  ultimately show ?thesis using ok unfolding i(3) river_ok_def forked_def river.simps by blast
qed

lemma run_ok: "river_run p n w \<Longrightarrow> river_ok p w"
proof (induction rule: river_run.induct)
  case start
  show ?case by (rule init_ok)
next
  case (step n w w')
  then show ?case using fork_ok move_ok unfolding river_step_simps by blast
qed

section \<open>Safety\<close>

lemma census_nil [simp]: "kind (census_of []) h r = 0" "total (census_of []) r = 0"
  by (simp_all add: kind_def total_def census_of_def)

lemma total_census: "total (census_of xs) r = length (filter (\<lambda>x. region (pc x) = r) xs)"
  by (induction xs rule: rev_induct) (simp_all only: census_snoc add_counts, simp_all add: eq_commute)

lemma kind_census: "kind (census_of xs) h r = length (filter (\<lambda>x. region (pc x) = r \<and> isHacker x = h) xs)"
  by (induction xs rule: rev_induct) (simp_all only: census_snoc add_counts, auto)

definition aboard :: "census \<Rightarrow> nat" where
  "aboard n = (\<Sum>r \<in> {5..13}. total n r)"

lemma aboard_census: "aboard (census_of xs) = length (filter (\<lambda>x. 13 \<le> pc x \<and> pc x \<le> 25) xs)"
proof (induction xs rule: rev_induct)
  case Nil
  show ?case by (simp add: aboard_def)
next
  case (snoc x xs)
  have "aboard (add m r h c) = aboard m + (if 5 \<le> r \<and> r \<le> 13 then 1 else 0)" for m r h c
    by (auto simp: aboard_def sum.distrib)
  moreover have "5 \<le> region (pc x) \<and> region (pc x) \<le> 13 \<longleftrightarrow> 13 \<le> pc x \<and> pc x \<le> 25" by (auto simp: region_def)
  ultimately show ?case unfolding census_snoc using snoc by (simp del: add_at)
qed

lemma aboard_sum: "aboard n = total n 5 + total n 6 + total n 7 + total n 8 + total n 9 + total n 10 + total n 11 + total n 12 + total n 13"
proof -
  have "{5..13} = {5, 6, 7, 8, 9, 10, 11, 12, 13::nat}" by auto
  then show ?thesis by (simp add: aboard_def)
qed

lemma phases_safe:
  assumes "open_pier s n \<or> boarding s n \<or> naming s n \<or> sailing s n"
  shows "(\<exists>part. in_fours allowed (boardings s) part \<and> length part < 4)
    \<and> (\<exists>part. in_fours one_captain (roles s) part \<and> length part < 4) \<and> aboard n \<le> 4"
  using assms
proof (elim disjE)
  assume "open_pier s n"
  note o = openD [OF this]
  show ?thesis using o unfolding aboard_sum idle_simps by (intro conjI exI [of _ "[]"]) auto
next
  assume "boarding s n"
  note b = boardingD [OF this]
  obtain part where "in_fours allowed (boardings s) part" "length part < 4" using b(17,21) by auto
  moreover have "length ([] :: bool list) < 4" by simp
  moreover have "aboard n \<le> 4" using b unfolding aboard_sum by linarith
  ultimately show ?thesis using b(22) by blast
next
  assume "naming s n"
  note b = namingD [OF this]
  obtain part where "in_fours one_captain (roles s) part" "length part < 4" using b(18,22) by auto
  moreover have "length ([] :: bool list) < 4" by simp
  moreover have "aboard n \<le> 4" using b unfolding aboard_sum by linarith
  ultimately show ?thesis using b(21) by blast
next
  assume "sailing s n"
  note b = sailingD [OF this]
  have "length ([] :: bool list) < 4" by simp
  moreover have "aboard n \<le> 4" using b unfolding aboard_sum by linarith
  ultimately show ?thesis using b(16,17) by blast
qed

lemma numbered_lines: "numbered s \<Longrightarrow> map fst (out_lines s) = [1..<length (out_lines s) + 1]"
  unfolding numbered_def by (metis add_diff_cancel_right' length_map length_upt)

text \<open>
  C4. In every reachable state: the lines of the output are numbered from 1 in order, the
  persons who have boarded form groups of four with 0, 2 or 4 hackers each and then less than
  a group, of each four who say their role one is the captain, at most four persons are
  aboard, and at most one is inside a section that \<open>EXCLUSIVE\<close> protects.
\<close>

theorem river_safe:
  assumes "river_run p n w"
  shows "map fst (out_lines (memory w)) = [1..<length (out_lines (memory w)) + 1]
    \<and> (\<exists>part. in_fours allowed (boardings (memory w)) part \<and> length part < 4)
    \<and> (\<exists>part. in_fours one_captain (roles (memory w)) part \<and> length part < 4)
    \<and> length (filter (\<lambda>x. 13 \<le> pc x \<and> pc x \<le> 25) (persons w)) \<le> 4
    \<and> length (filter inside (persons w)) \<le> 1"
proof -
  have ok: "river_ok p w" using run_ok [OF assms] .
  then have "good p (memory w) (census_of (persons w))" by (simp add: river_ok_def)
  then have "open_pier (memory w) (census_of (persons w)) \<or> boarding (memory w) (census_of (persons w))
      \<or> naming (memory w) (census_of (persons w)) \<or> sailing (memory w) (census_of (persons w))"
    by (simp add: good_def)
  from phases_safe [OF this] show ?thesis using ok numbered_lines unfolding aboard_census river_ok_def by auto
qed

section \<open>Progress\<close>

lemma blocked:
  assumes "q < 34" "(member_code M ! q) x s = None"
  shows "q \<in> {0, 4, 7, 11, 15, 24, 27, 31} \<and> sem s EXCLUSIVE = 0 \<or> q = 3 \<and> sem s MOLO = 0
    \<or> q = 10 \<and> sem s (if isHacker x then HACKER else SERF) = 0 \<or> q = 14 \<and> sem s BOARDING = 0 \<or> q = 18 \<and> sem s LANDING = 0
    \<or> q = 23 \<and> sem s CAPTAIN = 0 \<or> q = 30 \<and> sem s FINISH = 0"
  using assms(1)
proof (cases q rule: pc_cases)
  case neutral
  then show ?thesis
    by (elim insertE emptyE) (use assms(2) in \<open>simp_all add: code_at sem_wait_def sem_post_def started_def finished_def split: if_splits\<close>)
next
  case form
  with assms(2) show ?thesis by (simp add: code_at form_group_def split: if_splits)
next
  case sail
  then show ?thesis by (elim insertE emptyE) (use assms(2) in \<open>simp_all add: code_at sail_def sem_post_def split: if_splits\<close>)
qed (use assms(2) in \<open>simp_all add: code_at sem_wait_def enter_pier_def wait_for_group_def board_def role_def land_def count_finish_def
  Let_def split: if_splits\<close>)

text \<open>Where everyone waits when nobody can move.\<close>

definition waits :: "shared \<Rightarrow> person \<Rightarrow> bool" where
  "waits s x \<longleftrightarrow> pc x = 34 \<or> pc x = 3 \<and> sem s MOLO = 0 \<or> pc x = 10 \<and> sem s (if isHacker x then HACKER else SERF) = 0
    \<or> pc x = 14 \<and> sem s BOARDING = 0 \<or> pc x = 18 \<and> sem s LANDING = 0 \<or> pc x = 23 \<and> sem s CAPTAIN = 0 \<or> pc x = 30 \<and> sem s FINISH = 0"

lemma stuck_waits:
  assumes ok: "river_ok p w" and st: "\<And>w'. \<not> river_step p w w'"
  shows "forked True w = p" "forked False w = p"
    "\<forall>x \<in> set (persons w). waits (memory w) x"
proof -
  have "\<not> forked h w < p" for h
  proof
    assume "forked h w < p"
    then have "river_step p w (w\<lparr>persons := persons w @ [newcomer h (forked h w)]\<rparr>)"
      by (intro river_step.generates [of p h]) (simp add: generate_step_def)
    with st show False by blast
  qed
  then show "forked True w = p" "forked False w = p" using ok unfolding river_ok_def by (meson le_neq_implies_less)+
  have b: "pc x = 34 \<or> (member_code (2 * p) ! pc x) x (memory w) = None" if x: "x \<in> set (persons w)" for x
  proof (rule ccontr)
    assume c: "\<not> (pc x = 34 \<or> (member_code (2 * p) ! pc x) x (memory w) = None)"
    obtain i where i: "i < length (persons w)" "persons w ! i = x" using x by (auto simp: in_set_conv_nth)
    have "pc x < 34" using ok c x by (force simp: river_ok_def)
    with c i have "\<exists>w'. person_step p i w = Some w'" by (auto simp: person_step_def member_step_def exit_pc_def)
    then show False using st river_step.moves by blast
  qed
  have "filter inside (persons w) = []"
  proof -
    have "\<not> inside x" if "x \<in> set (persons w)" for x
    proof (cases "pc x = 34")
      case True
      then show ?thesis by (simp add: inside_def)
    next
      case False
      then have "pc x < 34" using ok that by (force simp: river_ok_def)
      from blocked [OF this] b [OF that] False show ?thesis by (auto simp: inside_def)
    qed
    then show ?thesis by (simp add: filter_empty_conv)
  qed
  then have e: "sem (memory w) EXCLUSIVE = 1" using ok by (simp add: river_ok_def)
  show "\<forall>x \<in> set (persons w). waits (memory w) x"
  proof
    fix x assume x: "x \<in> set (persons w)"
    show "waits (memory w) x"
    proof (cases "pc x = 34")
      case False
      then have "pc x < 34" using ok x by (force simp: river_ok_def)
      have "\<not> (pc x \<in> {0, 4, 7, 11, 15, 24, 27, 31} \<and> sem (memory w) EXCLUSIVE = 0)" using e by simp
      then show ?thesis using blocked [OF \<open>pc x < 34\<close>] b [OF x] False unfolding waits_def by blast
    qed (simp add: waits_def)
  qed
qed


text \<open>A region is empty when nobody is in it; those who wait are counted in the region of their semaphore.\<close>

lemma region_empty:
  assumes "\<And>x. x \<in> set xs \<Longrightarrow> region (pc x) \<noteq> r"
  shows "total (census_of xs) r = 0"
  using assms by (auto simp: total_census filter_empty_conv)

lemma region_waits:
  assumes w: "\<forall>x \<in> set xs. waits s x"
  shows "r \<in> {1, 2, 4, 6, 8, 9, 10, 11, 13, 14} \<Longrightarrow> total (census_of xs) r = 0"
    "total (census_of xs) 0 \<noteq> 0 \<Longrightarrow> sem s MOLO = 0" "kind (census_of xs) True 3 \<noteq> 0 \<Longrightarrow> sem s HACKER = 0"
    "kind (census_of xs) False 3 \<noteq> 0 \<Longrightarrow> sem s SERF = 0" "total (census_of xs) 5 \<noteq> 0 \<Longrightarrow> sem s BOARDING = 0"
    "total (census_of xs) 7 \<noteq> 0 \<Longrightarrow> sem s LANDING = 0" "total (census_of xs) 12 \<noteq> 0 \<Longrightarrow> sem s CAPTAIN = 0"
    "total (census_of xs) 15 \<noteq> 0 \<Longrightarrow> sem s FINISH = 0"
proof -
  show "total (census_of xs) r = 0" if "r \<in> {1, 2, 4, 6, 8, 9, 10, 11, 13, 14}"
    by (rule region_empty) (use w that in \<open>auto simp: waits_def region_def\<close>)
  have some: "\<exists>x \<in> set xs. region (pc x) = r \<and> waits s x" if "total (census_of xs) r \<noteq> 0" for r
    using that w by (auto simp: total_census filter_empty_conv)
  show "sem s MOLO = 0" if "total (census_of xs) 0 \<noteq> 0" using some [OF that] by (auto simp: waits_def region_def)
  show "sem s BOARDING = 0" if "total (census_of xs) 5 \<noteq> 0" using some [OF that] by (auto simp: waits_def region_def)
  show "sem s LANDING = 0" if "total (census_of xs) 7 \<noteq> 0" using some [OF that] by (auto simp: waits_def region_def)
  show "sem s CAPTAIN = 0" if "total (census_of xs) 12 \<noteq> 0" using some [OF that] by (auto simp: waits_def region_def)
  show "sem s FINISH = 0" if "total (census_of xs) 15 \<noteq> 0" using some [OF that] by (auto simp: waits_def region_def)
  have kinds: "\<exists>x \<in> set xs. isHacker x = h \<and> region (pc x) = 3 \<and> waits s x" if "kind (census_of xs) h 3 \<noteq> 0" for h
    using that w by (auto simp: kind_census filter_empty_conv)
  show "sem s HACKER = 0" if "kind (census_of xs) True 3 \<noteq> 0" using kinds [OF that] by (auto simp: waits_def region_def)
  show "sem s SERF = 0" if "kind (census_of xs) False 3 \<noteq> 0" using kinds [OF that] by (auto simp: waits_def region_def)
qed

text \<open>At an open pier fewer than four persons are left, and of an even number of each kind none is.\<close>

lemma open_pier_empty:
  assumes "open_pier s n" "base p s n" "even p" "everyone n True = p" "everyone n False = p"
    "total n 0 = 0" "total n 1 = 0" "total n 2 = 0"
  shows "total n 3 = 0"
proof -
  have split: "everyone n h = kind n h 3 + gone n h" for h
  proof -
    have "{0..16::nat} = {0, 1, 2, 3} \<union> {4..16}" by auto
    then have "everyone n h = kind n h 0 + kind n h 1 + kind n h 2 + kind n h 3 + gone n h"
      unfolding everyone_def gone_def by (subst (1) \<open>{0..16::nat} = _\<close>) (simp add: sum.union_disjoint)
    with assms(6-8) show ?thesis by (cases h) (simp_all add: total_def)
  qed
  note o = openD [OF assms(1)]
  obtain h k where hk: "kind n True 3 = h" "kind n False 3 = k" "no_group h k"
    using pierD(3) [of s n] assms(2) o(2,3) by (auto simp: base_def)
  have g: "even (gone n True)" "even (gone n False)" "4 dvd gone n True + gone n False"
    using assms(2) o(2,3) by (simp_all add: base_def parity_ok_def)
  have "even h" "even k" "4 dvd h + k + (gone n True + gone n False)"
  proof -
    have "h + gone n True = p" "k + gone n False = p" using split [of True] split [of False] hk assms(4,5) by simp_all
    moreover have "4 dvd 2 * p" using assms(3) by (auto elim!: evenE)
    moreover have "even h" if "h + g = p" "even g" for h g :: nat using that assms(3) by presburger
    ultimately show "even h" "even k" "4 dvd h + k + (gone n True + gone n False)"
      using g(1,2) by (blast, blast, metis add.assoc add.commute add.left_commute mult_2)
  qed
  then have "4 dvd h + k" using g(3) by (simp add: dvd_add_left_iff)
  with \<open>even h\<close> \<open>even k\<close> hk(3) have "h = 0" "k = 0" unfolding no_group_def by presburger+
  with hk show ?thesis by (simp add: total_def)
qed

lemma stuck_across:
  assumes ok: "river_ok p w" and st: "\<And>w'. \<not> river_step p w w'" and ev: "even p"
  shows "\<forall>x \<in> set (persons w). pc x = 34"
proof -
  define s n where "s = memory w" and "n = census_of (persons w)"
  note w = stuck_waits [OF ok st]
  note r = region_waits [OF w(3)]
  note z = r(1) [folded n_def] and q = r(2-8) [folded n_def s_def]
  have g: "base p s n" "open_pier s n \<or> boarding s n \<or> naming s n \<or> sailing s n"
    using ok by (simp_all add: river_ok_def good_def s_def n_def)
  have pier: "kind n True 3 \<ge> sem s HACKER" "kind n False 3 \<ge> sem s SERF"
    using g(1) pierD(3) [of s n] by (auto simp: base_def)
  have all: "everyone n True = p" "everyone n False = p" using w(1,2) by (simp_all add: everyone_census forked_def n_def)
  have "\<not> boarding s n"
  proof
    assume "boarding s n"
    note b = boardingD(15-17) [OF this]
    have "sem s HACKER = 0" "sem s SERF = 0" using pier q(2,3) by fastforce+
    with b z [of 4] show False by simp
  qed
  moreover have "\<not> naming s n"
  proof
    assume "naming s n"
    note b = namingD(15-18) [OF this]
    show False using b z [of 6] q(4) by simp
  qed
  moreover have "\<not> sailing s n"
  proof
    assume "sailing s n"
    note b = sailingD(10-13) [OF this]
    have "total n 7 = 0" using b(1) q(5) by fastforce
    then have "to_post n = 0" using z total_0 [of n] by (simp add: to_post_def)
    then have "sem s CAPTAIN = 0" using b(2) z q(6) \<open>total n 7 = 0\<close> by fastforce
    with b(3,4) z [of 13] \<open>to_post n = 0\<close> show False by simp
  qed
  ultimately have o: "open_pier s n" using g(2) by blast
  have "sem s MOLO = 1" using openD(1) [OF o] z by simp
  then have e0: "total n 0 = 0" using q(1) by fastforce
  have e3: "total n 3 = 0" by (rule open_pier_empty [OF o g(1) ev all e0]) (use z in simp_all)
  have "total n 15 + total n 16 = 2 * p"
  proof -
    have "{0..16::nat} = {0, 1, 2, 3, 4, 5, 6, 7, 8, 9, 10, 11, 12, 13, 14, 15, 16}"
      by (intro set_eqI) (unfold atLeastAtMost_iff insert_iff empty_iff, presburger)
    then have "everyone n True + everyone n False = total n 15 + total n 16 +
        (total n 0 + total n 1 + total n 2 + total n 3 + total n 4 + total n 5 + total n 6 + total n 7 + total n 8 + total n 9
          + total n 10 + total n 11 + total n 12 + total n 13 + total n 14)"
      unfolding everyone_def total_def by simp
    then show ?thesis using all e0 e3 openD [OF o] z by simp
  qed
  then have f: "total n 15 = 0"
    using g(1) q(7) unfolding base_def finish_ok_def by (cases "total n 15 = 0") simp_all
  have "region (pc x) = 16" if x: "x \<in> set (persons w)" for x
  proof (rule ccontr)
    assume "region (pc x) \<noteq> 16"
    moreover have "total n (region (pc x)) \<noteq> 0" using x by (auto simp: n_def total_census filter_empty_conv)
    moreover have "region (pc x) \<in> {0, 3, 5, 7, 12, 15, 16}" using w(3) x by (auto simp: waits_def region_def)
    ultimately show False using e0 e3 f openD [OF o] by auto
  qed
  then show ?thesis using w(3) by (force simp: waits_def region_def)
qed


section \<open>The length of a run and of its output\<close>

definition printed :: "nat \<Rightarrow> nat" where
  "printed q = length (filter (\<lambda>k. k < q) [1, 5, 12, 16, 25, 32])"

lemma out_lines_simps [simp]:
  "out_lines (sem_add e n s) = out_lines s" "out_lines (one_of_four e n s) = out_lines s"
  "length (out_lines (print_line x a s)) = length (out_lines s) + 1"
  by (simp_all add: sem_add_def one_of_four_def print_line_def Let_def)

lemma instr_prints:
  assumes "q < 34" "(member_code M ! q) x s = Some (c', s')"
  shows "length (out_lines s') + printed q = length (out_lines s) + printed (q + 1)
    \<and> length (boardings s') + (if 12 < q then 1 else 0) = length (boardings s) + (if 12 < q + 1 then 1 else 0)"
  using assms(1)
proof (cases q rule: pc_cases)
  case neutral
  then show ?thesis
    by (elim insertE emptyE) (use assms(2) in \<open>auto simp: code_at sem_wait_def sem_post_def started_def finished_def printed_def split: if_splits\<close>)
next
  case form
  with assms(2) show ?thesis by (auto simp: code_at form_group_def printed_def split: if_splits)
next
  case sail
  then show ?thesis
    by (elim insertE emptyE) (use assms(2) in \<open>auto simp: code_at sail_def sem_post_def printed_def split: if_splits\<close>)
qed (use assms(2) in \<open>auto simp: code_at sem_wait_def enter_pier_def wait_for_group_def board_def role_def
  land_def count_finish_def Let_def printed_def split: if_splits\<close>)

lemma sum_list_put: "i < length xs \<Longrightarrow> (\<Sum>x\<leftarrow>xs[i := y]. f x) + f (xs ! i) = (\<Sum>x\<leftarrow>xs. f x) + (f y :: nat)"
  by (induction xs arbitrary: i) (auto split: nat.splits)

lemma run_counts:
  "river_run p n w \<Longrightarrow> (\<Sum>x\<leftarrow>persons w. pc x + 1) = n \<and> length (out_lines (memory w)) = (\<Sum>x\<leftarrow>persons w. printed (pc x))
    \<and> length (boardings (memory w)) = (\<Sum>x\<leftarrow>persons w. if 12 < pc x then 1 else 0)"
proof (induction rule: river_run.induct)
  case start
  show ?case by (simp add: init_def boardings_def)
next
  case (step n w w')
  from step(2) show ?case unfolding river_step_simps
  proof (elim disjE exE)
    fix h assume "generate_step p h w = Some w'"
    then show ?case using step.IH by (auto simp: generate_step_def newcomer_def printed_def split: if_splits)
  next
    fix i assume st: "person_step p i w = Some w'"
    obtain x' s' where i: "i < length (persons w)" "member_step (2 * p) (persons w ! i) (memory w) = Some (x', s')"
      "w' = \<lparr>memory = s', persons = (persons w)[i := x']\<rparr>"
      using st by (auto simp: person_step_def split: if_splits)
    obtain c' where j: "pc (persons w ! i) < 34" "(member_code (2 * p) ! pc (persons w ! i)) (persons w ! i) (memory w) = Some (c', s')"
      "pc x' = pc (persons w ! i) + 1"
      using i(2) by (auto simp: member_step_def exit_pc_def split: if_splits)
    note put = sum_list_put [OF i(1), where y = x']
    show ?case using step.IH instr_prints [OF j(1,2)] put [of "\<lambda>x. pc x + 1"] put [of "\<lambda>x. printed (pc x)"]
        put [of "\<lambda>x. if 12 < pc x then 1 else 0"] i(3) unfolding j(3) by simp
  qed
qed

lemma persons_split: "length (persons w) = forked True w + forked False w"
  unfolding forked_def using sum_length_filter_compl [of "\<lambda>x. isHacker x" "persons w"] by simp

lemma sum_list_same: "\<forall>x \<in> set xs. f x = k \<Longrightarrow> (\<Sum>x\<leftarrow>xs. f x) = length xs * (k :: nat)"
  by (induction xs) simp_all

lemma sum_list_below: "\<forall>x \<in> set xs. f x \<le> k \<Longrightarrow> (\<Sum>x\<leftarrow>xs. f x) \<le> length xs * (k :: nat)"
  by (induction xs) force+

lemma sum_list_at_most:
  "\<forall>x \<in> set xs. f x \<le> k \<Longrightarrow> (\<Sum>x\<leftarrow>xs. f x) = length xs * k \<Longrightarrow> x \<in> set xs \<Longrightarrow> f x = (k :: nat)"
proof (induction xs)
  case (Cons y ys)
  have "(\<Sum>x\<leftarrow>ys. f x) \<le> length ys * k" using Cons.prems(1) by (intro sum_list_below) simp
  moreover have "f y \<le> k" using Cons.prems(1) by simp
  ultimately have "f y = k \<and> (\<Sum>x\<leftarrow>ys. f x) = length ys * k" using Cons.prems(2) by simp
  then show ?case using Cons by auto
qed simp

lemma run_ends:
  assumes run: "river_run p n w" and ev: "even p"
  shows "n \<le> 70 * p" "n < 70 * p \<Longrightarrow> \<exists>w'. river_step p w w'"
    "n = 70 * p \<Longrightarrow> forked True w = p \<and> forked False w = p \<and> (\<forall>x \<in> set (persons w). pc x = exit_pc)
       \<and> length (out_lines (memory w)) = 12 * p \<and> length (boardings (memory w)) = 2 * p"
proof -
  have ok: "river_ok p w" by (rule run_ok [OF run])
  note c = run_counts [OF run]
  have l: "forked True w \<le> p" "forked False w \<le> p" "length (persons w) \<le> 2 * p" using ok by (simp_all add: persons_split river_ok_def)
  have b: "\<forall>x \<in> set (persons w). pc x + 1 \<le> 35" using ok by (force simp: river_ok_def)
  from sum_list_below [OF b] c have n: "n \<le> length (persons w) * 35" by simp
  with l(3) show "n \<le> 70 * p" by simp
  show "\<exists>w'. river_step p w w'" if "n < 70 * p"
  proof (rule ccontr)
    assume "\<nexists>w'. river_step p w w'"
    then have st: "\<And>w'. \<not> river_step p w w'" by blast
    have "\<forall>x \<in> set (persons w). pc x + 1 = 35" using stuck_across [OF ok st ev] by simp
    from sum_list_same [OF this] c persons_split [of w] stuck_waits(1,2) [OF ok st] have "n = 70 * p" by simp
    with that show False by simp
  qed
  assume e: "n = 70 * p"
  then have f: "length (persons w) = 2 * p" using n l(3) by simp
  then have "\<forall>x \<in> set (persons w). pc x + 1 = 35" using sum_list_at_most [OF b] c e by simp
  then have a: "\<forall>x \<in> set (persons w). pc x = 34" by simp
  have "(\<Sum>x\<leftarrow>persons w. printed (pc x)) = length (persons w) * 6"
    by (rule sum_list_same) (use a in \<open>simp add: printed_def\<close>)
  moreover have "(\<Sum>x\<leftarrow>persons w. if 12 < pc x then 1 else 0) = length (persons w) * 1"
    by (rule sum_list_same) (use a in simp)
  ultimately show "forked True w = p \<and> forked False w = p \<and> (\<forall>x \<in> set (persons w). pc x = exit_pc)
       \<and> length (out_lines (memory w)) = 12 * p \<and> length (boardings (memory w)) = 2 * p"
    using a c f l persons_split [of w] by (simp add: exit_pc_def)
qed

lemma arguments_even:
  assumes "statusOk (processArguments argv t)"
  shows "0 < par_p (processArguments argv t)" "even (par_p (processArguments argv t))"
proof -
  have p: "par_p (read_param argv i u) = par_p u" "statusOk (read_param argv i u) \<Longrightarrow> statusOk u" if "i \<noteq> 0" for i u
    using that by (auto simp: read_param_def set_param_def Let_def split: prod.splits if_splits)
  have z: "0 < par_p (read_param argv 0 u) \<and> even (par_p (read_param argv 0 u))" if "statusOk (read_param argv 0 u)" for u
  proof -
    have "\<not> (par_p (read_param argv 0 u) \<le> 0 \<or> par_p (read_param argv 0 u) mod 2 \<noteq> 0)"
      using that by (cases "strtol (argv ! 1)") (simp add: read_param_def set_param_def Let_def split: if_splits)
    then show ?thesis by presburger
  qed
  have l: "length argv = 5" using assms by (auto simp: processArguments_def split: if_splits)
  have "[0..<4] = [0, 1, 2, 3::nat]" by (simp add: upt_rec)
  then have e: "processArguments argv t = read_param argv 3 (read_param argv 2 (read_param argv 1 (read_param argv 0 t)))"
    using l by (simp add: processArguments_def)
  have "statusOk (read_param argv 0 t)" using assms unfolding e by (metis p(2) one_neq_zero zero_neq_numeral)
  from z [OF this] show "0 < par_p (processArguments argv t)" "even (par_p (processArguments argv t))"
    unfolding e by (simp_all add: p(1))
qed

text \<open>
  C3. When the arguments are accepted, every run of the \<open>2 * p\<close> persons and the generators ends:
  no state before the step \<open>70 * p\<close> is stuck, there are no more steps, and then all persons
  are forked, have come to the end of their code, have boarded, and have printed six lines
  each.
\<close>

theorem river_crossing_ends:
  assumes "statusOk (processArguments argv t)" "p = nat (par_p (processArguments argv t))" "river_run p n w"
  shows "n \<le> 70 * p \<and> (n < 70 * p \<longrightarrow> (\<exists>w'. river_step p w w'))
    \<and> (n = 70 * p \<longrightarrow> forked True w = p \<and> forked False w = p \<and> (\<forall>x \<in> set (persons w). pc x = exit_pc)
         \<and> length (out_lines (memory w)) = 12 * p \<and> length (boardings (memory w)) = 2 * p)"
proof -
  have "even p" using arguments_even [OF assms(1)] unfolding assms(2) by (simp add: even_nat_iff)
  from run_ends [OF assms(3) this] show ?thesis by blast
qed

section \<open>A run\<close>

text \<open>Turns of the generators and of persons in a given order; a turn of one who is blocked is lost.\<close>

fun play :: "nat \<Rightarrow> (bool + nat) list \<Rightarrow> nat \<times> river \<Rightarrow> nat \<times> river" where
  "play p [] (n, w) = (n, w)"
| "play p (t # ts) (n, w) =
     (case (case t of Inl h \<Rightarrow> generate_step p h w | Inr i \<Rightarrow> person_step p i w) of
        None \<Rightarrow> play p ts (n, w) | Some w' \<Rightarrow> play p ts (Suc n, w'))"

lemma play_run: "river_run p n w \<Longrightarrow> case play p ts (n, w) of (n', w') \<Rightarrow> river_run p n' w'"
proof (induction p ts "(n, w)" arbitrary: n w rule: play.induct)
  case (2 p t ts n w)
  then show ?case
    by (cases t) (auto split: option.splits dest: river_run.step [OF _ river_step.generates] river_run.step [OF _ river_step.moves])
qed simp

definition full_run :: "nat \<times> river" where
  "full_run = play 2 ([Inl True, Inl False, Inl True, Inl False] @ concat (replicate 140 (map Inr [0..<4]))) (0, \<lparr>memory = init, persons = []\<rparr>)"

lemma full_run: "river_run 2 (fst full_run) (snd full_run)"
  using play_run [OF river_run.start, of 2 "[Inl True, Inl False, Inl True, Inl False] @ concat (replicate 140 (map Inr [0..<4]))"]
  by (simp add: full_run_def split: prod.splits)

lemma full_run_steps: "fst full_run = 140"
  by code_simp

definition two_each :: "byte list list" where
  "two_each = [[], [50], [48], [48], [48]]"

lemma two_each_ok: "statusOk (processArguments two_each \<lparr>par_p = 0, par_h = 0, par_s = 0, par_r = 0, statusOk = True\<rparr>)"
  "par_p (processArguments two_each \<lparr>par_p = 0, par_h = 0, par_s = 0, par_r = 0, statusOk = True\<rparr>) = 2"
  by code_simp+

theorem river_safe_witness:
  "\<exists>n w. river_run 2 n w \<and> length (boardings (memory w)) = 4 \<and> map fst (out_lines (memory w)) = [1..<25]
    \<and> (\<exists>part. in_fours allowed (boardings (memory w)) part \<and> length part < 4)"
proof -
  have "length (boardings (memory (snd full_run))) = 4" "length (out_lines (memory (snd full_run))) = 24" by code_simp+
  with river_safe [OF full_run] full_run show ?thesis by auto
qed

theorem river_crossing_ends_witness:
  "\<exists>w. river_run 2 140 w \<and> (\<forall>x \<in> set (persons w). pc x = exit_pc) \<and> length (boardings (memory w)) = 4"
  using river_crossing_ends [OF two_each_ok(1), of 2, OF _ full_run] two_each_ok(2) full_run full_run_steps by auto

end
