(* ===== verification/Bit_Array.thy ===== *)
theory Bit_Array
  imports Prelude
begin

text \<open>
  The bit arrays of \<^verbatim>\<open>IJC/proj1/bit-array.h\<close>: an array of words whose element 0 is the number
  of bits. The macros work on any unsigned word type (the steganography uses them on
  \<^verbatim>\<open>char\<close>), the checked ones on \<^verbatim>\<open>unsigned long\<close>; \<open>None\<close> is the exit of \<^verbatim>\<open>FatalError\<close>. A locale states
  what a store of bits promises to a program that marks numbers in it.
\<close>

section \<open>The macros\<close>

definition UL_BITS :: nat where
  "UL_BITS = 64"

definition UL_ELEMENTS :: "nat \<Rightarrow> nat" where
  "UL_ELEMENTS n = (if n mod UL_BITS = 0 then n div UL_BITS else n div UL_BITS + 1)"

definition BitArray :: "nat \<Rightarrow> u64 list" where
  "BitArray velikost = of_nat velikost # replicate (UL_ELEMENTS velikost) 0"

definition TYPE_BITS :: "'a::len word list \<Rightarrow> nat" where
  "TYPE_BITS p = LENGTH('a)"

definition TYPE_ELEMENTS :: "'a::len word list \<Rightarrow> nat \<Rightarrow> nat" where
  "TYPE_ELEMENTS p i = i div TYPE_BITS p"

definition BitArraySize :: "u64 list \<Rightarrow> nat" where
  "BitArraySize p = unat (p ! 0)"

definition GET_BIT :: "'a::len word list \<Rightarrow> nat \<Rightarrow> nat" where
  "GET_BIT p i = (if p ! (TYPE_ELEMENTS p i + 1) AND push_bit (i mod TYPE_BITS p) 1 > 0 then 1 else 0)"

definition SET_BIT :: "'a::len word list \<Rightarrow> nat \<Rightarrow> nat \<Rightarrow> 'a word list" where
  "SET_BIT p i b =
     (if b = 0 then p[TYPE_ELEMENTS p i + 1 := p ! (TYPE_ELEMENTS p i + 1) AND NOT (push_bit (i mod TYPE_BITS p) 1)]
      else p[TYPE_ELEMENTS p i + 1 := p ! (TYPE_ELEMENTS p i + 1) OR push_bit (i mod TYPE_BITS p) 1])"

definition GetBit :: "u64 list \<Rightarrow> nat \<Rightarrow> nat option" where
  "GetBit p index = (if index \<ge> BitArraySize p then None else Some (GET_BIT p index))"

definition SetBit :: "u64 list \<Rightarrow> nat \<Rightarrow> nat \<Rightarrow> u64 list option" where
  "SetBit p index vyraz = (if index \<ge> BitArraySize p then None else Some (SET_BIT p index vyraz))"

section \<open>A store of bits\<close>

locale bit_store =
  fixes get :: "'s \<Rightarrow> nat \<Rightarrow> nat option" and put :: "'s \<Rightarrow> nat \<Rightarrow> nat \<Rightarrow> 's option"
    and bits :: "'s \<Rightarrow> nat" and ok :: "'s \<Rightarrow> bool"
  assumes put_inside: "ok s \<Longrightarrow> i < bits s \<Longrightarrow> \<exists>s'. put s i b = Some s' \<and> ok s' \<and> bits s' = bits s
      \<and> (\<forall>j < bits s. get s' j = (if j = i then Some (if b = 0 then 0 else 1) else get s j))"
    and get_outside: "ok s \<Longrightarrow> bits s \<le> i \<Longrightarrow> get s i = None"
    and put_outside: "ok s \<Longrightarrow> bits s \<le> i \<Longrightarrow> put s i b = None"
begin

text \<open>The store holds \<open>n\<close> bits, and those of \<open>P\<close> are set.\<close>

definition holds :: "'s \<Rightarrow> nat \<Rightarrow> (nat \<Rightarrow> bool) \<Rightarrow> bool" where
  "holds s n P \<longleftrightarrow> ok s \<and> bits s = n \<and> (\<forall>j < n. get s j = Some (if P j then 1 else 0))"

lemma holds_get: "holds s n P \<Longrightarrow> get s j = (if j < n then Some (if P j then 1 else 0) else None)"
  using get_outside [of s j] by (auto simp: holds_def)

lemma holds_put:
  assumes "holds s n P" "i < n"
  obtains s' where "put s i 1 = Some s'" "holds s' n (\<lambda>j. P j \<or> j = i)"
  using put_inside [of s i 1] assms by (auto simp: holds_def)

lemma holds_same: "holds s n P \<Longrightarrow> (\<And>j. j < n \<Longrightarrow> P j = Q j) \<Longrightarrow> holds s n Q"
  by (auto simp: holds_def)

end

section \<open>The bit array is a store of bits\<close>

definition array_ok :: "u64 list \<Rightarrow> bool" where
  "array_ok p \<longleftrightarrow> length p = UL_ELEMENTS (BitArraySize p) + 1"

lemma mask_bit: "k < LENGTH('a) \<Longrightarrow> (w AND push_bit k 1 > 0) = bit w k" for w :: "'a::len word"
proof -
  have "w AND push_bit k 1 = (if bit w k then push_bit k 1 else 0)"
    by (rule bit_eqI) (auto simp: bit_and_iff bit_push_bit_iff bit_1_iff simp del: push_bit_of_1)
  then show "k < LENGTH('a) \<Longrightarrow> ?thesis" by (simp add: word_gt_0)
qed

lemma bit_or_mask: "k < LENGTH('a) \<Longrightarrow> bit (w OR push_bit k 1) j = (bit w j \<or> j = k)" for w :: "'a::len word"
  by (auto simp: bit_or_iff bit_push_bit_iff bit_1_iff simp del: push_bit_of_1)

lemma bit_and_not_mask: "j < LENGTH('a) \<Longrightarrow> bit (w AND NOT (push_bit k 1)) j = (bit w j \<and> j \<noteq> k)" for w :: "'a::len word"
  by (auto simp: bit_and_iff bit_not_iff bit_push_bit_iff bit_1_iff simp del: push_bit_of_1)

lemma GET_BIT_bit: "GET_BIT p i = (if bit (p ! (i div LENGTH('a) + 1)) (i mod LENGTH('a)) then 1 else 0)"
  for p :: "'a::len word list"
  by (simp only: GET_BIT_def TYPE_ELEMENTS_def TYPE_BITS_def mask_bit [OF mod_less_divisor [OF len_gt_0]])

lemma GET_SET_BIT:
  fixes p :: "'a::len word list"
  assumes "i div LENGTH('a) + 1 < length p"
  shows "GET_BIT (SET_BIT p i b) j = (if j = i then (if b = 0 then 0 else 1) else GET_BIT p j)"
proof (cases "i div LENGTH('a) = j div LENGTH('a)")
  case True
  then have "j = i \<longleftrightarrow> j mod LENGTH('a) = i mod LENGTH('a)" by (metis div_mult_mod_eq)
  then show ?thesis
    using assms True unfolding GET_BIT_bit SET_BIT_def TYPE_ELEMENTS_def TYPE_BITS_def
    by (simp add: bit_or_mask bit_and_not_mask del: push_bit_of_1)
next
  case False
  then have "j \<noteq> i" by blast
  with False show ?thesis by (simp add: GET_BIT_bit SET_BIT_def TYPE_ELEMENTS_def TYPE_BITS_def)
qed

lemma SET_BIT_simps [simp]: "length (SET_BIT p i b) = length p" "SET_BIT p i b ! 0 = p ! 0"
  by (simp_all add: SET_BIT_def)

lemma BitArraySize_SET_BIT [simp]: "BitArraySize (SET_BIT p i b) = BitArraySize p"
  by (simp add: BitArraySize_def)

lemma array_index:
  assumes "array_ok p" "i < BitArraySize p"
  shows "i div 64 + 1 < length p"
proof -
  have "i div 64 < UL_ELEMENTS n" if "i < n" for n
  proof (cases "n mod 64 = 0")
    case True
    then have "n = n div 64 * 64" by (metis add.right_neutral div_mult_mod_eq)
    then have "i div 64 < n div 64" using that by (metis less_mult_imp_div_less)
    with True show ?thesis by (simp add: UL_ELEMENTS_def UL_BITS_def)
  next
    case False
    then show ?thesis using div_le_mono [of i n 64] that by (simp add: UL_ELEMENTS_def UL_BITS_def)
  qed
  then show ?thesis using assms by (simp add: array_ok_def)
qed

interpretation ba: bit_store GetBit SetBit BitArraySize array_ok
proof
  fix s i b assume s: "array_ok s" "i < BitArraySize s"
  have "array_ok (SET_BIT s i b)" using s(1) by (simp add: array_ok_def)
  moreover have l: "i div LENGTH(64) + 1 < length s" using array_index [OF s] by simp
  have "GetBit (SET_BIT s i b) j = (if j = i then Some (if b = 0 then 0 else 1) else GetBit s j)" if "j < BitArraySize s" for j
    unfolding GetBit_def BitArraySize_SET_BIT GET_SET_BIT [OF l] using that by simp
  ultimately show "\<exists>s'. SetBit s i b = Some s' \<and> array_ok s' \<and> BitArraySize s' = BitArraySize s
      \<and> (\<forall>j < BitArraySize s. GetBit s' j = (if j = i then Some (if b = 0 then 0 else 1) else GetBit s j))"
    using s(2) by (simp add: SetBit_def)
next
  fix s i assume "array_ok s" "BitArraySize s \<le> i"
  then show "GetBit s i = None" by (simp add: GetBit_def)
next
  fix s i b assume "array_ok s" "BitArraySize s \<le> i"
  then show "SetBit s i b = None" by (simp add: SetBit_def)
qed

lemma BitArray_holds:
  assumes "n < 2 ^ 64"
  shows "ba.holds (BitArray n) n (\<lambda>_. False)"
proof -
  have s: "BitArraySize (BitArray n) = n" using assms by (simp add: BitArraySize_def BitArray_def unsigned_of_nat take_bit_nat_eq_self)
  have ok: "array_ok (BitArray n)" unfolding array_ok_def s by (simp add: BitArray_def)
  have "GetBit (BitArray n) j = Some 0" if "j < n" for j
    using array_index [OF ok, of j] that unfolding s by (simp add: GetBit_def s GET_BIT_bit) (simp add: BitArray_def)
  then show ?thesis using ok s by (simp add: ba.holds_def)
qed

end
