(* ===== verification/Sieve.thy ===== *)
theory Sieve
  imports Bit_Array
begin

text \<open>
  The sieve of Eratosthenes of \<^verbatim>\<open>IJC/proj1/eratosthenes.c\<close> on a bit array, and the program
  \<^verbatim>\<open>prvocisla.c\<close> that prints the last primes below a limit with it. A bit of the result is 0
  exactly for the primes. The square root is the integer one: for the sizes of the programs
  the truncated root in double precision is the same number.
\<close>

section \<open>The sieve\<close>

function isqrt_from :: "nat \<Rightarrow> nat \<Rightarrow> nat" where
  "isqrt_from n k = (if (k + 1) * (k + 1) \<le> n then isqrt_from n (k + 1) else k)"
  by pat_completeness auto

termination
proof (relation "measure (\<lambda>(n, k). n - k)")
  fix n k :: nat assume "(k + 1) * (k + 1) \<le> n"
  moreover have "k < (k + 1) * (k + 1)" by simp
  ultimately show "((n, k + 1), n, k) \<in> measure (\<lambda>(n, k). n - k)" by simp
qed simp

definition isqrt :: "nat \<Rightarrow> nat" where
  "isqrt n = isqrt_from n 0"

text \<open>The inner loop, from the multiple \<open>i * n\<close> on.\<close>

partial_function (option) mark_multiples :: "nat \<Rightarrow> nat \<Rightarrow> u64 list \<Rightarrow> u64 list option" where
  "mark_multiples i n pole =
     (if i * n < BitArraySize pole
      then do { pole' \<leftarrow> SetBit pole (i * n) 1; mark_multiples i (n + 1) pole' }
      else Some pole)"

function sieve_loop :: "nat \<Rightarrow> nat \<Rightarrow> u64 list \<Rightarrow> u64 list option" where
  "sieve_loop i mx pole =
     (if i \<le> mx
      then do {
        b \<leftarrow> GetBit pole i;
        pole' \<leftarrow> (if b = 0 then mark_multiples i 2 pole else Some pole);
        sieve_loop (i + 1) mx pole' }
      else Some pole)"
  by pat_completeness auto

termination
  by (relation "measure (\<lambda>(i, mx, pole). mx + 1 - i)") auto

definition Eratosthenes :: "u64 list \<Rightarrow> u64 list option" where
  "Eratosthenes pole =
     do {
       p0 \<leftarrow> SetBit pole 0 1;
       p1 \<leftarrow> SetBit p0 1 1;
       sieve_loop 2 (isqrt (BitArraySize p1)) p1 }"

declare isqrt_from.simps [simp del] sieve_loop.simps [simp del]

section \<open>The last primes\<close>

definition NUMBERS_TO_PRINT :: nat where
  "NUMBERS_TO_PRINT = 10"

definition LIMIT :: nat where
  "LIMIT = 101000000"

text \<open>The index goes down until \<open>NUMBERS_TO_PRINT\<close> primes were met; a negative one is outside the array.\<close>

function find_start :: "u64 list \<Rightarrow> int \<Rightarrow> nat \<Rightarrow> int option" where
  "find_start primes i cnt =
     (if cnt < NUMBERS_TO_PRINT
      then if i < 0 then None
           else do { b \<leftarrow> GetBit primes (nat i); find_start primes (i - 1) (if b = 0 then cnt + 1 else cnt) }
      else Some i)"
  by pat_completeness auto

termination
  by (relation "measure (\<lambda>(primes, i, cnt). nat (i + 1))") auto

function print_from :: "u64 list \<Rightarrow> int \<Rightarrow> int \<Rightarrow> int list option" where
  "print_from primes j limit =
     (if j \<le> limit
      then if j < 0 then None
           else do {
             b \<leftarrow> GetBit primes (nat j);
             out \<leftarrow> print_from primes (j + 1) limit;
             Some (if b = 0 then j # out else out) }
      else Some [])"
  by pat_completeness auto

termination
  by (relation "measure (\<lambda>(primes, j, limit). nat (limit + 1 - j))") auto

declare find_start.simps [simp del] print_from.simps [simp del]

definition prvocisla :: "nat \<Rightarrow> int list option" where
  "prvocisla limit =
     do {
       primes \<leftarrow> Eratosthenes (BitArray (limit + 1));
       i \<leftarrow> find_start primes (int limit - 1) 0;
       print_from primes i (int limit) }"

section \<open>Primes and the square root\<close>

definition is_prime :: "nat \<Rightarrow> bool" where
  "is_prime p \<longleftrightarrow> 2 \<le> p \<and> (\<forall>d \<in> {2..<p}. \<not> d dvd p)"

lemma isqrt_from: "k * k \<le> n \<Longrightarrow> isqrt_from n k * isqrt_from n k \<le> n \<and> n < (isqrt_from n k + 1) * (isqrt_from n k + 1)"
proof (induction n k rule: isqrt_from.induct)
  case (1 n k)
  then show ?case by (cases "(k + 1) * (k + 1) \<le> n") (simp_all add: isqrt_from.simps [of n k])
qed

lemma isqrt: "isqrt n * isqrt n \<le> n" "n < (isqrt n + 1) * (isqrt n + 1)"
  using isqrt_from [of 0 n] by (simp_all add: isqrt_def)

lemma composite:
  assumes "2 \<le> j"
  shows "\<not> is_prime j \<longleftrightarrow> (\<exists>d m. 2 \<le> d \<and> d \<le> isqrt j \<and> 2 \<le> m \<and> j = d * m)"
proof
  assume "\<not> is_prime j"
  then obtain d where "d \<in> {2..<j}" "d dvd j" using assms by (auto simp: is_prime_def)
  then obtain m where m: "j = d * m" "2 \<le> d" "d < j" by auto
  then have "2 \<le> m" by (cases m rule: nat.exhaust) (auto simp: Suc_le_eq)
  have small: "a \<le> isqrt j" if "a \<le> b" "j = a * b" for a b
  proof (rule ccontr)
    assume "\<not> a \<le> isqrt j"
    then have "(isqrt j + 1) * (isqrt j + 1) \<le> a * b" using that(1) by (intro mult_le_mono) simp_all
    with isqrt(2) [of j] that(2) show False by simp
  qed
  show "\<exists>d m. 2 \<le> d \<and> d \<le> isqrt j \<and> 2 \<le> m \<and> j = d * m"
  proof (cases "d \<le> m")
    case True
    with small [of d m] m \<open>2 \<le> m\<close> show ?thesis by blast
  next
    case False
    then have "m \<le> isqrt j" using small [of m d] m by (simp add: mult.commute)
    then show ?thesis using m \<open>2 \<le> m\<close> mult.commute by metis
  qed
next
  assume "\<exists>d m. 2 \<le> d \<and> d \<le> isqrt j \<and> 2 \<le> m \<and> j = d * m"
  then obtain d m where "2 \<le> d" "2 \<le> m" "j = d * m" by blast
  then have "d \<in> {2..<j}" "d dvd j" by simp_all
  then show "\<not> is_prime j" by (auto simp: is_prime_def)
qed

section \<open>The sieve finds the primes\<close>

text \<open>What is marked when the multiples of the numbers below \<open>k\<close> are.\<close>

definition sieved :: "nat \<Rightarrow> nat \<Rightarrow> bool" where
  "sieved k j \<longleftrightarrow> j < 2 \<or> (\<exists>d m. 2 \<le> d \<and> d < k \<and> 2 \<le> m \<and> j = d * m)"

lemma mark_multiples:
  assumes "ba.holds p N P" "0 < i"
  shows "\<exists>p'. mark_multiples i n p = Some p' \<and> ba.holds p' N (\<lambda>j. P j \<or> (\<exists>m. n \<le> m \<and> j = i * m))"
  using assms(1)
proof (induction "N - i * n" arbitrary: n p P rule: less_induct)
  case less
  have s: "BitArraySize p = N" using less.prems by (simp add: ba.holds_def)
  show ?case
  proof (cases "i * n < N")
    case True
    obtain p' where p': "SetBit p (i * n) 1 = Some p'" "ba.holds p' N (\<lambda>j. P j \<or> j = i * n)"
      using ba.holds_put [OF less.prems True] .
    have "N - i * (n + 1) < N - i * n" using True assms(2) by (simp add: algebra_simps)
    from less.hyps [OF this p'(2)] obtain p'' where p'': "mark_multiples i (n + 1) p' = Some p''"
      "ba.holds p'' N (\<lambda>j. (P j \<or> j = i * n) \<or> (\<exists>m. n + 1 \<le> m \<and> j = i * m))"
      by blast
    have "ba.holds p'' N (\<lambda>j. P j \<or> (\<exists>m. n \<le> m \<and> j = i * m))"
    proof (rule ba.holds_same [OF p''(2)])
      have "n \<le> m \<longleftrightarrow> m = n \<or> n + 1 \<le> m" for m by auto
      then show "((P j \<or> j = i * n) \<or> (\<exists>m. n + 1 \<le> m \<and> j = i * m)) = (P j \<or> (\<exists>m. n \<le> m \<and> j = i * m))" for j by auto
    qed
    with p' p''(1) True s show ?thesis by (subst mark_multiples.simps) simp
  next
    case False
    have "i * m \<noteq> j" if "n \<le> m" "j < N" for m j
      using that False mult_le_mono2 [OF that(1), of i] by linarith
    then have "ba.holds p N (\<lambda>j. P j \<or> (\<exists>m. n \<le> m \<and> j = i * m))"
      by (intro ba.holds_same [OF less.prems]) auto
    with False s show ?thesis by (subst mark_multiples.simps) simp
  qed
qed

lemma sieved_next: "sieved (Suc i) j \<longleftrightarrow> sieved i j \<or> (2 \<le> i \<and> (\<exists>m. 2 \<le> m \<and> j = i * m))"
  unfolding sieved_def less_Suc_eq by blast

lemma sieved_composite:
  assumes "sieved i i" "2 \<le> i"
  shows "sieved (Suc i) j = sieved i j"
proof -
  obtain d m where dm: "2 \<le> d" "d < i" "2 \<le> m" "i = d * m" using assms by (auto simp: sieved_def)
  have "sieved i (i * n)" if "2 \<le> n" for n
    unfolding sieved_def using dm that by (intro disjI2 exI [of _ d] exI [of _ "m * n"]) (auto simp: mult.assoc intro: order_trans)
  then show ?thesis unfolding sieved_next by blast
qed

lemma sieve_loop:
  assumes "ba.holds p N (sieved i)" "2 \<le> i" "i \<le> mx + 1" "mx < N"
  shows "\<exists>p'. sieve_loop i mx p = Some p' \<and> ba.holds p' N (sieved (mx + 1))"
  using assms
proof (induction i mx p rule: sieve_loop.induct)
  case (1 i mx p)
  show ?case
  proof (cases "i \<le> mx")
    case True
    have g: "GetBit p i = Some (if sieved i i then 1 else 0)" using ba.holds_get [OF "1.prems"(1)] True "1.prems"(4) by simp
    obtain p' where p': "(if sieved i i then Some p else mark_multiples i 2 p) = Some p'" "ba.holds p' N (sieved (i + 1))"
    proof (cases "sieved i i")
      case True
      then show ?thesis using that [of p] "1.prems"(1) ba.holds_same [OF "1.prems"(1)] sieved_composite [OF True "1.prems"(2)] by simp
    next
      case False
      obtain p' where m: "mark_multiples i 2 p = Some p'" "ba.holds p' N (\<lambda>j. sieved i j \<or> (\<exists>m. 2 \<le> m \<and> j = i * m))"
        using mark_multiples [OF "1.prems"(1), of i 2] "1.prems"(2) by auto
      have "ba.holds p' N (sieved (i + 1))"
        by (rule ba.holds_same [OF m(2)]) (use "1.prems"(2) sieved_next [of i] in simp)
      with that m(1) False show ?thesis by simp
    qed
    have "\<exists>p''. sieve_loop (i + 1) mx p' = Some p'' \<and> ba.holds p'' N (sieved (mx + 1))"
      by (rule "1.IH" [OF True g, of p']) (use p' "1.prems" True in \<open>auto split: if_splits\<close>)
    then show ?thesis using True g p'(1) by (subst sieve_loop.simps) (auto split: if_splits)
  next
    case False
    then have "i = mx + 1" using "1.prems"(3) by simp
    with False "1.prems"(1) show ?thesis by (subst sieve_loop.simps) simp
  qed
qed

lemma Eratosthenes_holds:
  assumes "2 \<le> n" "n < 2 ^ 64"
  shows "\<exists>p. Eratosthenes (BitArray n) = Some p \<and> ba.holds p n (\<lambda>j. \<not> is_prime j)"
proof -
  obtain p0 where p0: "SetBit (BitArray n) 0 1 = Some p0" "ba.holds p0 n (\<lambda>j. False \<or> j = 0)"
    using ba.holds_put [OF BitArray_holds [OF assms(2)], of 0] assms(1) by auto
  obtain p1 where p1: "SetBit p0 1 1 = Some p1" "ba.holds p1 n (\<lambda>j. (False \<or> j = 0) \<or> j = 1)"
    using ba.holds_put [OF p0(2), of 1] assms(1) by auto
  have "ba.holds p1 n (sieved 2)" by (rule ba.holds_same [OF p1(2)]) (auto simp: sieved_def)
  moreover have "isqrt n < n" using isqrt(1) [of n] assms(1) by (cases "isqrt n < 2") (auto simp: not_less intro: less_le_trans [of _ "isqrt n * isqrt n"])
  moreover have "1 \<le> isqrt n" using isqrt(2) [of n] assms(1) by (cases "isqrt n") auto
  ultimately obtain p where p: "sieve_loop 2 (isqrt n) p1 = Some p" "ba.holds p n (sieved (isqrt n + 1))"
    using sieve_loop [of p1 n 2 "isqrt n"] by auto
  have "sieved (isqrt n + 1) j = (\<not> is_prime j)" if "j < n" for j
  proof (cases "j < 2")
    case True
    then show ?thesis by (simp add: sieved_def is_prime_def)
  next
    case False
    have "isqrt j \<le> isqrt n"
    proof (rule ccontr)
      assume "\<not> isqrt j \<le> isqrt n"
      then have "(isqrt n + 1) * (isqrt n + 1) \<le> isqrt j * isqrt j" by (intro mult_le_mono) simp_all
      with isqrt(1) [of j] isqrt(2) [of n] that show False by linarith
    qed
    then have "sieved (isqrt j + 1) j \<Longrightarrow> sieved (isqrt n + 1) j" by (fastforce simp: sieved_def)
    moreover have "\<not> is_prime j" if si: "sieved (isqrt n + 1) j"
    proof -
      obtain d m where "2 \<le> d" "2 \<le> m" "j = d * m" using si False by (auto simp: sieved_def)
      then have "d \<in> {2..<j}" "d dvd j" by simp_all
      then show ?thesis by (auto simp: is_prime_def)
    qed
    moreover have "sieved (isqrt j + 1) j" if np: "\<not> is_prime j"
    proof -
      have "2 \<le> j" using False by simp
      then obtain d m where "2 \<le> d" "d \<le> isqrt j" "2 \<le> m" "j = d * m" using composite [of j] np by blast
      then show ?thesis unfolding sieved_def by - (rule disjI2, rule exI [of _ d], rule exI [of _ m], intro conjI, simp_all)
    qed
    ultimately show ?thesis by argo
  qed
  then have "ba.holds p n (\<lambda>j. \<not> is_prime j)" by (rule ba.holds_same [OF p(2)])
  moreover have "BitArraySize p1 = n" using p1(2) by (simp add: ba.holds_def)
  ultimately show ?thesis using p0(1) p1(1) p(1) by (simp add: Eratosthenes_def)
qed

text \<open>
  C35. The sieve on an array of at least two bits never goes outside it, and leaves
  the bit of a number 0 exactly when the number is prime.
\<close>

theorem sieve_finds_primes:
  assumes "2 \<le> n" "n < 2 ^ 64"
  shows "\<exists>p. Eratosthenes (BitArray n) = Some p
    \<and> (\<forall>j. GetBit p j = (if j < n then Some (if is_prime j then 0 else 1) else None))"
proof -
  obtain p where "Eratosthenes (BitArray n) = Some p" "ba.holds p n (\<lambda>j. \<not> is_prime j)" using Eratosthenes_holds [OF assms] by blast
  then show ?thesis using ba.holds_get by auto
qed

theorem sieve_finds_primes_witness:
  "\<exists>p. Eratosthenes (BitArray 130) = Some p \<and> GetBit p 127 = Some 0 \<and> GetBit p 119 = Some 1 \<and> GetBit p 130 = None"
proof -
  have "is_prime 127" "\<not> is_prime 119" by code_simp+
  then show ?thesis using sieve_finds_primes [of 130] by auto
qed

section \<open>The primes that are printed\<close>

lemma find_start:
  assumes "ba.holds p n (\<lambda>j. \<not> is_prime j)" "i < int n" "- 1 \<le> i" "cnt \<le> 10" "10 \<le> cnt + length (filter is_prime [0..<nat (i + 1)])"
  shows "\<exists>r. find_start p i cnt = Some (int r - 1) \<and> r \<le> nat (i + 1) \<and> cnt + length (filter is_prime [r..<nat (i + 1)]) = 10
    \<and> (if cnt < 10 then is_prime r else r = nat (i + 1))"
  using assms
proof (induction p i cnt rule: find_start.induct)
  case (1 p i cnt)
  show ?case
  proof (cases "cnt < 10")
    case True
    have i: "0 \<le> i"
    proof (rule ccontr)
      assume "\<not> 0 \<le> i"
      with "1.prems"(5) True show False by simp
    qed
    define b where "b = (if is_prime (nat i) then 0 else 1 :: nat)"
    have g: "GetBit p (nat i) = Some b" using ba.holds_get [OF "1.prems"(1), of "nat i"] "1.prems"(2) i by (simp add: b_def)
    have e: "nat (i - 1 + 1) = nat i" "nat (i + 1) = Suc (nat i)" using i by simp_all
    define c where "c = (if b = 0 then cnt + 1 else cnt)"
    have snoc: "filter is_prime [r..<nat (i + 1)] = filter is_prime [r..<nat i] @ (if is_prime (nat i) then [nat i] else [])" if "r \<le> nat i" for r
      using that unfolding e by simp
    have "\<exists>r. find_start p (i - 1) c = Some (int r - 1) \<and> r \<le> nat (i - 1 + 1)
        \<and> c + length (filter is_prime [r..<nat (i - 1 + 1)]) = 10 \<and> (if c < 10 then is_prime r else r = nat (i - 1 + 1))"
      unfolding c_def
      by (rule "1.IH") (use True i g "1.prems" snoc [of 0] in \<open>auto simp: NUMBERS_TO_PRINT_def b_def e(1)\<close>)
    then obtain r where r: "find_start p (i - 1) c = Some (int r - 1)" "r \<le> nat i" "c + length (filter is_prime [r..<nat i]) = 10"
      "if c < 10 then is_prime r else r = nat i"
      unfolding e(1) by blast
    have "is_prime r" using r(4) True by (auto simp: c_def b_def split: if_splits)
    moreover have "cnt + length (filter is_prime [r..<nat (i + 1)]) = 10" using r(3) snoc [OF r(2)] by (simp add: c_def b_def split: if_splits)
    moreover have "find_start p i cnt = Some (int r - 1)"
      using True i g r(1) by (subst find_start.simps) (simp add: NUMBERS_TO_PRINT_def c_def)
    ultimately show ?thesis using True r(2) i by (intro exI [of _ r]) simp
  next
    case False
    then show ?thesis using "1.prems"(3,4) by (subst find_start.simps) (intro exI [of _ "nat (i + 1)"], simp add: NUMBERS_TO_PRINT_def)
  qed
qed

lemma print_from:
  assumes "ba.holds p n (\<lambda>j. \<not> is_prime j)" "limit < int n" "0 \<le> j"
  shows "print_from p j limit = Some (map int (filter is_prime [nat j..<nat (limit + 1)]))"
  using assms
proof (induction p j limit rule: print_from.induct)
  case (1 p j limit)
  show ?case
  proof (cases "j \<le> limit")
    case True
    have g: "GetBit p (nat j) = Some (if is_prime (nat j) then 0 else 1)"
      using ba.holds_get [OF "1.prems"(1), of "nat j"] "1.prems"(2,3) True by simp
    have "print_from p (j + 1) limit = Some (map int (filter is_prime [nat (j + 1)..<nat (limit + 1)]))"
      by (rule "1.IH" [OF True _ g]) (use "1.prems" in simp_all)
    moreover have "[nat j..<nat (limit + 1)] = nat j # [nat (j + 1)..<nat (limit + 1)]"
      using upt_conv_Cons [of "nat j" "nat (limit + 1)"] True "1.prems"(3) by (simp add: nat_add_distrib del: upt_Suc)
    ultimately show ?thesis using True "1.prems"(3) g by (subst print_from.simps) simp
  next
    case False
    then show ?thesis by (subst print_from.simps) simp
  qed
qed

lemma filter_upt_split: "a \<le> b \<Longrightarrow> b \<le> c \<Longrightarrow> filter P [a..<c] = filter P [a..<b] @ filter P [b..<c]"
  by (metis filter_append le_Suc_ex upt_add_eq_append)

lemma even_not_prime: "even k \<Longrightarrow> 2 < k \<Longrightarrow> \<not> is_prime k"
  by (auto simp: is_prime_def)

lemma last_primes:
  assumes "even limit" "38 \<le> limit" "limit < 2 ^ 31"
  shows "\<exists>ps qs. prvocisla limit = Some (map int ps) \<and> length ps = 10 \<and> filter is_prime [0..<limit + 1] = qs @ ps"
proof -
  obtain p where p: "Eratosthenes (BitArray (limit + 1)) = Some p" "ba.holds p (limit + 1) (\<lambda>j. \<not> is_prime j)"
    using Eratosthenes_holds [of "limit + 1"] assms by auto
  have small: "length (filter is_prime [0..<38]) = 12" "length (filter is_prime [3..<38]) = 11" by code_simp+
  have "10 \<le> length (filter is_prime [0..<limit])"
    using small(1) filter_upt_split [of 0 38 limit is_prime] assms(2) by simp
  then obtain r where r: "find_start p (int limit - 1) 0 = Some (int r - 1)" "r \<le> limit" "length (filter is_prime [r..<limit]) = 10" "is_prime r"
    using find_start [OF p(2), of "int limit - 1" 0] assms(2) by auto
  have "3 < r"
  proof (rule ccontr)
    assume "\<not> 3 < r"
    then have "filter is_prime [r..<limit] = filter is_prime [r..<3] @ filter is_prime [3..<38] @ filter is_prime [38..<limit]"
      using filter_upt_split [of r 3 limit is_prime] filter_upt_split [of 3 38 limit is_prime] assms(2) by simp
    with r(3) small(2) show False by simp
  qed
  moreover have "odd r" using even_not_prime [of r] r(4) \<open>3 < r\<close> by auto
  ultimately have "\<not> is_prime (r - 1)" using even_not_prime [of "r - 1"] by simp
  moreover have "\<not> is_prime limit" using even_not_prime [of limit] assms by simp
  moreover have "[r - 1..<limit + 1] = (r - 1) # [r..<limit] @ [limit]"
    using upt_conv_Cons [of "r - 1" "limit + 1"] upt_Suc_append [of r limit] \<open>3 < r\<close> r(2) by (simp del: upt_Suc)
  ultimately have out: "filter is_prime [r - 1..<limit + 1] = filter is_prime [r..<limit]" by simp
  have "print_from p (int r - 1) (int limit) = Some (map int (filter is_prime [nat (int r - 1)..<nat (int limit + 1)]))"
    by (rule print_from [OF p(2)]) (use \<open>3 < r\<close> in simp_all)
  moreover have "nat (int r - 1) = r - 1" "nat (int limit + 1) = limit + 1" using \<open>3 < r\<close> by simp_all
  ultimately have "prvocisla limit = Some (map int (filter is_prime [r..<limit]))"
    using p(1) r(1) out by (simp add: prvocisla_def)
  moreover have "filter is_prime [0..<limit + 1] = filter is_prime [0..<r] @ filter is_prime [r..<limit]"
    using filter_upt_split [of 0 r limit is_prime] r(2) \<open>\<not> is_prime limit\<close> by simp
  ultimately show ?thesis using r(3) by blast
qed

text \<open>
  The program prints the ten largest of the primes up to its limit, in ascending order.
\<close>

theorem ten_last_primes:
  "\<exists>ps qs. prvocisla LIMIT = Some (map int ps) \<and> length ps = NUMBERS_TO_PRINT \<and> filter is_prime [0..<LIMIT + 1] = qs @ ps"
  using last_primes [of LIMIT] by (simp add: LIMIT_def NUMBERS_TO_PRINT_def)

end
