(* ===== verification/Steganography.thy ===== *)
theory Steganography
  imports Sieve C_Numbers
begin

text \<open>
  The steganography of \<^verbatim>\<open>IJC/proj1\<close>: PPM pictures are read and written (\<^verbatim>\<open>ppm.c\<close>), a text is
  meant to be put into the lowest bits of the bytes at prime positions (\<^verbatim>\<open>steg-encode.c\<close>) and
  is read from them (\<^verbatim>\<open>steg-decode.c\<close>). A file is the list of its bytes, \<open>None\<close> when it cannot
  be opened. An access outside the data of a picture or behind the end of the text has no
  result.
\<close>

section \<open>PPM files\<close>

record ppm =
  xsize :: u32
  ysize :: u32
  pixels :: "byte list"

definition data_size :: "u32 \<Rightarrow> u32 \<Rightarrow> nat" where
  "data_size x y = unat (3 * x * y)"

text \<open>\<^verbatim>\<open>%u\<close> of \<^verbatim>\<open>fscanf\<close>.\<close>

definition scan_u :: "byte list \<Rightarrow> (u32 \<times> byte list) option" where
  "scan_u s =
     (let t = dropWhile is_space s;
          neg = (t \<noteq> [] \<and> hd t = 45);
          u = (if t \<noteq> [] \<and> (hd t = 45 \<or> hd t = 43) then tl t else t);
          ds = takeWhile is_digit u;
          v = digits_value ds;
          n = (if v \<ge> 2 ^ 64 then 2 ^ 64 - 1 else if neg then - v else v)
      in if ds = [] then None else Some (of_int n, dropWhile is_digit u))"

text \<open>What follows the header: one white character and the data.\<close>

definition read_binary :: "bool \<Rightarrow> u32 \<Rightarrow> u32 \<Rightarrow> byte list \<Rightarrow> ppm option" where
  "read_binary mem x y s =
     (case s of [] \<Rightarrow> None | checkWhitespace # binary \<Rightarrow>
        if \<not> is_space checkWhitespace then None
        else if \<not> mem then None
        else if length binary < data_size x y then None
        else Some \<lparr>xsize = x, ysize = y, pixels = take (data_size x y) binary\<rparr>)"

definition ppm_read :: "bool \<Rightarrow> byte list option \<Rightarrow> ppm option" where
  "ppm_read mem fileRead =
     do {
       s \<leftarrow> fileRead;
       s0 \<leftarrow> (if take 2 s = [80, 54] then Some (drop 2 s) else None);
       (x, s1) \<leftarrow> scan_u s0;
       (y, s2) \<leftarrow> scan_u s1;
       (colors, s3) \<leftarrow> scan_u s2;
       (if colors \<noteq> 255 then None else read_binary mem x y s3) }"

definition ppm_header :: "ppm \<Rightarrow> byte list" where
  "ppm_header p = [80, 54, 10] @ decimal (unat (xsize p)) @ [32] @ decimal (unat (ysize p)) @ [10, 50, 53, 53, 10]"

text \<open>The bytes written to a file that could be opened.\<close>

definition ppm_write :: "ppm \<Rightarrow> byte list option" where
  "ppm_write p =
     (if length (pixels p) < data_size (xsize p) (ysize p) then None
      else Some (ppm_header p @ take (data_size (xsize p) (ysize p)) (pixels p)))"

definition ppm_ok :: "ppm \<Rightarrow> bool" where
  "ppm_ok p \<longleftrightarrow> length (pixels p) = data_size (xsize p) (ysize p)"

section \<open>A text in a picture\<close>

definition CHAR_BIT :: nat where
  "CHAR_BIT = 8"

definition MAX_LIMIT :: nat where
  "MAX_LIMIT = 1000 * 1000 * 3"

function encode_loop :: "u64 list \<Rightarrow> byte list \<Rightarrow> nat \<Rightarrow> nat \<Rightarrow> byte list \<Rightarrow> nat \<Rightarrow> nat \<Rightarrow> bool \<Rightarrow> byte list \<Rightarrow> byte list option" where
  "encode_loop primes text count3 i znak j n fin dat =
     (if i < MAX_LIMIT
      then if i > count3 then Some dat
           else do {
             b \<leftarrow> GetBit primes i;
             (if b = 0
              then do {
                d \<leftarrow> vec_at dat i;
                (let encode = [of_nat CHAR_BIT, d];
                     znak1 = SET_BIT znak j (GET_BIT znak j);
                     dat1 = dat[i := encode ! 1];
                     j1 = j + 1
                 in if j1 = CHAR_BIT
                    then if fin then Some dat1
                         else do {
                           c \<leftarrow> vec_at text (n + 1);
                           encode_loop primes text count3 (i + 1) (znak1[1 := c]) 0 (n + 1) (if c = 0 then True else fin) dat1 }
                    else encode_loop primes text count3 (i + 1) znak1 j1 n fin dat1) }
              else encode_loop primes text count3 (i + 1) znak j n fin dat) }
      else Some dat)"
  by pat_completeness auto

termination
  by (relation "measure (\<lambda>(primes, text, count3, i, znak, j, n, fin, dat). MAX_LIMIT - i)") auto

text \<open>\<open>text\<close> is the argument of the command line, without its null.\<close>

definition EncodeMessage :: "ppm \<Rightarrow> byte list \<Rightarrow> ppm option" where
  "EncodeMessage ppmFile text =
     do {
       primes \<leftarrow> Eratosthenes (BitArray MAX_LIMIT);
       dat \<leftarrow> encode_loop primes (text @ [0]) (data_size (xsize ppmFile) (ysize ppmFile)) 2
         [of_nat CHAR_BIT, (text @ [0]) ! 0] 0 0 False (pixels ppmFile);
       Some (ppmFile\<lparr>pixels := dat\<rparr>) }"

definition isprint :: "byte \<Rightarrow> bool" where
  "isprint c \<longleftrightarrow> 32 \<le> c \<and> c < 127"

text \<open>What is printed, and whether the program ends without \<^verbatim>\<open>FatalError\<close>.\<close>

function print_loop :: "u64 list \<Rightarrow> byte list \<Rightarrow> nat \<Rightarrow> nat \<Rightarrow> byte list \<Rightarrow> byte list \<Rightarrow> (byte list \<times> bool) option" where
  "print_loop primes dat i j znak out =
     (if i < MAX_LIMIT
      then do {
        b \<leftarrow> GetBit primes i;
        (if b = 0
         then do {
           d \<leftarrow> vec_at dat i;
           (let znak1 = SET_BIT znak j (unat (d AND 1))
            in if j < CHAR_BIT - 1 then print_loop primes dat (i + 1) (j + 1) znak1 out
               else if znak1 ! 1 = 0 then Some (out, True)
               else if j = CHAR_BIT - 1
               then if \<not> isprint (znak1 ! 1) then Some (out, False)
                    else print_loop primes dat (i + 1) 0 znak1 (out @ [znak1 ! 1])
               else print_loop primes dat (i + 1) j znak1 out) }
         else print_loop primes dat (i + 1) j znak out) }
      else Some (out, False))"
  by pat_completeness auto

termination
  by (relation "measure (\<lambda>(primes, dat, i, j, znak, out). MAX_LIMIT - i)") auto

definition PrintMessage :: "ppm \<Rightarrow> (byte list \<times> bool) option" where
  "PrintMessage ppmFile =
     do {
       primes \<leftarrow> Eratosthenes (BitArray MAX_LIMIT);
       print_loop primes (pixels ppmFile) 2 0 [of_nat CHAR_BIT, 0] [] }"

text \<open>The programs; \<open>args\<close> are the arguments without the name, \<open>files\<close> what the readable files hold.\<close>

datatype steg_exit = Help | Usage | Bad_picture | Saved "byte list" "byte list" | Message "byte list" bool

definition steg_encode_main :: "bool \<Rightarrow> (byte list \<Rightarrow> byte list option) \<Rightarrow> byte list list \<Rightarrow> steg_exit option" where
  "steg_encode_main mem files args =
     (if args = [[45, 104, 101, 108, 112]] then Some Help
      else case args of
        [file1, encodedfile, text] \<Rightarrow>
          (case ppm_read mem (files file1) of
             None \<Rightarrow> Some Bad_picture
           | Some ppmFile \<Rightarrow>
               do { p \<leftarrow> EncodeMessage ppmFile text; f \<leftarrow> ppm_write p; Some (Saved encodedfile f) })
      | _ \<Rightarrow> Some Usage)"

definition steg_decode_main :: "bool \<Rightarrow> (byte list \<Rightarrow> byte list option) \<Rightarrow> byte list list \<Rightarrow> steg_exit option" where
  "steg_decode_main mem files args =
     (case args of
        [file] \<Rightarrow>
          (case ppm_read mem (files file) of
             None \<Rightarrow> Some Bad_picture
           | Some ppmFile \<Rightarrow> map_option (\<lambda>(out, ok). Message out ok) (PrintMessage ppmFile))
      | _ \<Rightarrow> Some Usage)"

declare encode_loop.simps [simp del] print_loop.simps [simp del]

section \<open>A picture is read as it was written\<close>

lemma scan_decimal:
  assumes "n < 2 ^ 32" "\<forall>c \<in> set ws. is_space c" "rest \<noteq> []" "\<not> is_digit (hd rest)"
  shows "scan_u (ws @ decimal n @ rest) = Some (of_nat n, rest)"
proof -
  obtain d ds where d: "decimal n = d # ds" using decimal [of n] by (cases "decimal n") simp_all
  then have dig: "is_digit d" using decimal [of n] by simp
  then have "\<not> is_space d" "d \<noteq> 45" "d \<noteq> 43" by (auto simp: is_digit_def is_space_def word_le_nat_alt)
  with d assms(2) have t: "dropWhile is_space (ws @ decimal n @ rest) = decimal n @ rest" by simp
  have "takeWhile is_digit (decimal n @ rest) = decimal n" "dropWhile is_digit (decimal n @ rest) = rest"
    using decimal [of n] assms(3,4) by (cases rest; simp)+
  then show ?thesis
    unfolding scan_u_def t using d \<open>d \<noteq> 45\<close> \<open>d \<noteq> 43\<close> decimal [of n] assms(1) by (simp add: Let_def)
qed

lemma ppm_read_ok: "ppm_read mem f = Some p \<Longrightarrow> ppm_ok p"
proof -
  have "ppm_ok p" if "read_binary mem x y s = Some p" for x y s
    using that by (cases s) (auto simp: read_binary_def ppm_ok_def split: if_splits)
  then show "ppm_read mem f = Some p \<Longrightarrow> ppm_ok p" by (auto simp: ppm_read_def bind_eq_Some_conv split: if_splits)
qed

text \<open>
  A picture whose data fill its dimensions is written to a file that is read back
  as the same picture.
\<close>

theorem ppm_read_back:
  assumes "ppm_ok p"
  shows "\<exists>f. ppm_write p = Some f \<and> ppm_read True (Some f) = Some p"
proof -
  define f where "f = [80, 54, 10] @ decimal (unat (xsize p)) @ [32] @ decimal (unat (ysize p)) @ [10] @ decimal 255 @ [10] @ pixels p"
  have "decimal 255 = [50, 53, 53]" by code_simp
  then have w: "ppm_write p = Some f" using assms by (simp add: ppm_write_def ppm_header_def ppm_ok_def f_def)
  have f: "take 2 f = [80, 54]" "drop 2 f = [10] @ decimal (unat (xsize p)) @ [32] @ decimal (unat (ysize p)) @ [10] @ decimal 255 @ [10] @ pixels p"
    by (simp_all add: f_def)
  have l: "unat w < 2 ^ 32" for w :: u32 using unsigned_less [of w] by simp
  note sc = scan_decimal [OF l, of "[10]" "[32] @ decimal (unat (ysize p)) @ [10] @ decimal 255 @ [10] @ pixels p" "xsize p"]
    scan_decimal [OF l, of "[32]" "[10] @ decimal 255 @ [10] @ pixels p" "ysize p"]
    scan_decimal [of 255 "[10]" "[10] @ pixels p"]
  have "ppm_read True (Some f) = Some p"
    unfolding ppm_read_def using f sc assms by (simp add: is_space_def is_digit_def ppm_ok_def read_binary_def)
  with w show ?thesis by blast
qed

theorem ppm_read_back_witness:
  "\<exists>f. ppm_write \<lparr>xsize = 1, ysize = 2, pixels = [1, 2, 3, 4, 5, 6]\<rparr> = Some f
    \<and> ppm_read True (Some f) = Some \<lparr>xsize = 1, ysize = 2, pixels = [1, 2, 3, 4, 5, 6]\<rparr>"
  by (rule ppm_read_back) (simp add: ppm_ok_def data_size_def)

section \<open>The encoder leaves the picture as it is\<close>

lemma SET_GET_BIT:
  fixes p :: "'a::len word list"
  assumes "i div LENGTH('a) + 1 < length p"
  shows "SET_BIT p i (GET_BIT p i) = p"
proof -
  let ?w = "p ! (i div LENGTH('a) + 1)" and ?k = "i mod LENGTH('a)"
  have "?w OR push_bit ?k 1 = ?w" if "bit ?w ?k"
    by (rule bit_eqI) (use that in \<open>auto simp: bit_or_mask simp del: push_bit_of_1\<close>)
  moreover have "?w AND NOT (push_bit ?k 1) = ?w" if "\<not> bit ?w ?k"
    by (rule bit_eqI) (use that in \<open>auto simp: bit_and_not_mask simp del: push_bit_of_1\<close>)
  ultimately show ?thesis
    by (simp add: SET_BIT_def GET_BIT_bit TYPE_ELEMENTS_def TYPE_BITS_def del: push_bit_of_1)
qed

lemma encode_loop_same:
  assumes "ba.holds primes MAX_LIMIT (\<lambda>j. \<not> is_prime j)" "length dat = cnt" "\<not> is_prime cnt" "0 \<notin> set text"
    "n \<le> length text" "fin = (n = length text)" "j < 8" "length znak = 2"
  shows "encode_loop primes (text @ [0]) cnt i znak j n fin dat = Some dat"
  using assms(5-8)
proof (induction "MAX_LIMIT - i" arbitrary: i znak j n fin rule: less_induct)
  case less
  show ?case
  proof (cases "i < MAX_LIMIT \<and> i \<le> cnt")
    case True
    then have "MAX_LIMIT - (i + 1) < MAX_LIMIT - i" by linarith
    then have step: "encode_loop primes (text @ [0]) cnt (i + 1) z k m f dat = Some dat"
      if "m \<le> length text" "f = (m = length text)" "k < 8" "length z = 2" for z k m f
      using less.hyps [of "i + 1" m f k z] that by simp
    have g: "GetBit primes i = Some (if is_prime i then 0 else 1)" using ba.holds_get [OF assms(1), of i] True by simp
    show ?thesis
    proof (cases "is_prime i")
      case False
      with True g step [OF less.prems] show ?thesis by (subst encode_loop.simps) simp
    next
      case p: True
      then have i: "vec_at dat i = Some (dat ! i)" using True assms(2,3) by (intro vec_at_in) (metis le_neq_implies_less)
      have z: "SET_BIT znak j (GET_BIT znak j) = znak" using less.prems(3,4) by (intro SET_GET_BIT) simp
      show ?thesis
      proof (cases "j + 1 = CHAR_BIT \<and> \<not> fin")
        case c: True
        then have n: "n + 1 \<le> length text" using less.prems(1,2) by simp
        have t: "vec_at (text @ [0]) (Suc n) = Some ((text @ [0]) ! Suc n)" using n by (intro vec_at_in) simp
        have "(text @ [0]) ! (n + 1) = 0 \<longleftrightarrow> n + 1 = length text"
          using n assms(4) by (auto simp: nth_append in_set_conv_nth)
        then have s: "encode_loop primes (text @ [0]) cnt (i + 1) (znak[1 := (text @ [0]) ! (n + 1)]) 0 (n + 1)
            (if (text @ [0]) ! (n + 1) = 0 then True else fin) dat = Some dat"
          using c n less.prems by (intro step) auto
        show ?thesis using True g p c s by (subst encode_loop.simps) (simp add: i z t Let_def)
      next
        case c: False
        have "encode_loop primes (text @ [0]) cnt (i + 1) znak (j + 1) n fin dat = Some dat" if "j + 1 \<noteq> CHAR_BIT"
          using that less.prems by (intro step) (auto simp: CHAR_BIT_def)
        then show ?thesis using True g p c by (subst encode_loop.simps) (auto simp: i z Let_def)
      qed
    qed
  next
    case False
    then show ?thesis by (subst encode_loop.simps) auto
  qed
qed

lemma sieved_limit: "\<exists>p. Eratosthenes (BitArray MAX_LIMIT) = Some p \<and> ba.holds p MAX_LIMIT (\<lambda>j. \<not> is_prime j)"
  by (rule Eratosthenes_holds) (simp_all add: MAX_LIMIT_def)

text \<open>
  The bits of the text are set in the copy of the character and not in the byte of the
  picture: for a text that is not empty and a picture of more than one pixel the encoder
  gives back the picture unchanged.
\<close>

theorem encoder_changes_nothing:
  assumes "ppm_ok p" "3 * unat (xsize p) * unat (ysize p) < 2 ^ 32" "3 < length (pixels p)" "text \<noteq> []" "0 \<notin> set text"
  shows "EncodeMessage p text = Some p"
proof -
  obtain primes where primes: "Eratosthenes (BitArray MAX_LIMIT) = Some primes" "ba.holds primes MAX_LIMIT (\<lambda>j. \<not> is_prime j)"
    using sieved_limit by blast
  have "unat (3 * xsize p * ysize p) = 3 * (unat (xsize p) * unat (ysize p))"
    using assms(2) by (simp add: unat_mult_lem [THEN iffD1] unat_word_ariths mult.assoc)
  then have len: "length (pixels p) = 3 * (unat (xsize p) * unat (ysize p))" using assms(1) by (simp add: ppm_ok_def data_size_def)
  then have "3 \<in> {2..<length (pixels p)}" "3 dvd length (pixels p)" using assms(3) by simp_all
  then have "\<not> is_prime (length (pixels p))" unfolding is_prime_def by blast
  then have "encode_loop primes (text @ [0]) (data_size (xsize p) (ysize p)) 2 [of_nat CHAR_BIT, (text @ [0]) ! 0] 0 0 False (pixels p)
      = Some (pixels p)"
    using assms(1,4,5) by (intro encode_loop_same [OF primes(2)]) (simp_all add: ppm_ok_def)
  with primes(1) show ?thesis by (simp add: EncodeMessage_def)
qed

theorem encoder_changes_nothing_witness:
  "EncodeMessage \<lparr>xsize = 6, ysize = 3, pixels = replicate 54 7\<rparr> [72, 105] = Some \<lparr>xsize = 6, ysize = 3, pixels = replicate 54 7\<rparr>"
  by (rule encoder_changes_nothing) (simp_all add: ppm_ok_def data_size_def)

section \<open>The decoder reads what the picture carries\<close>

text \<open>The number of primes below \<open>i\<close>, and a picture with the bits of a text in its prime bytes.\<close>

definition prime_rank :: "nat \<Rightarrow> nat" where
  "prime_rank i = length (filter is_prime [0..<i])"

definition carries :: "byte list \<Rightarrow> byte list \<Rightarrow> bool" where
  "carries dat text \<longleftrightarrow>
     (let ps = filter is_prime [0..<length dat]
      in 8 * (length text + 1) \<le> length ps
         \<and> (\<forall>k < 8 * (length text + 1). bit (dat ! (ps ! k)) 0 = bit ((text @ [0]) ! (k div 8)) (k mod 8)))"

lemma prime_rank_Suc: "prime_rank (Suc i) = prime_rank i + (if is_prime i then 1 else 0)"
  by (simp add: prime_rank_def)

lemma prime_rank_mono: "i \<le> j \<Longrightarrow> prime_rank i \<le> prime_rank j"
  by (induction rule: dec_induct) (simp_all add: prime_rank_Suc)

lemma carriesD:
  assumes "carries dat text"
  shows "8 * (length text + 1) \<le> prime_rank (length dat)"
    "i < length dat \<Longrightarrow> is_prime i \<Longrightarrow> prime_rank i < 8 * (length text + 1) \<Longrightarrow>
       bit (dat ! i) 0 = bit ((text @ [0]) ! (prime_rank i div 8)) (prime_rank i mod 8)"
proof -
  show "8 * (length text + 1) \<le> prime_rank (length dat)" using assms by (simp add: carries_def prime_rank_def Let_def)
  assume i: "i < length dat" "is_prime i" "prime_rank i < 8 * (length text + 1)"
  have "filter is_prime [0..<length dat] = filter is_prime [0..<i] @ i # filter is_prime [Suc i..<length dat]"
    using filter_upt_split [of 0 i "length dat" is_prime] i(1,2) by (simp add: upt_conv_Cons)
  then have "filter is_prime [0..<length dat] ! prime_rank i = i" by (simp add: prime_rank_def)
  then show "bit (dat ! i) 0 = bit ((text @ [0]) ! (prime_rank i div 8)) (prime_rank i mod 8)"
    using assms i(3) unfolding carries_def Let_def by metis
qed

lemma prime_rank_2: "prime_rank 2 = 0"
  by code_simp

lemma lowest_bit: "unat (d AND 1 :: byte) = (if bit d 0 then 1 else 0)"
proof -
  have "d AND 1 = (if bit d 0 then 1 else 0)" by (rule bit_eqI) (auto simp: bit_and_iff bit_1_iff intro!: gr_zeroI)
  then show ?thesis by simp
qed

lemma next_bit:
  assumes "r < 8 * (n + 1)" "r mod 8 < (7 :: nat)"
  shows "r + 1 < 8 * (n + 1) \<and> (r + 1) div 8 = r div 8 \<and> (r + 1) mod 8 = r mod 8 + 1"
proof -
  have m: "(r + 1) mod 8 = r mod 8 + 1" using assms(2) mod_Suc [of r 8] by simp
  then have "r + 1 \<noteq> 8 * (n + 1)" by (metis mod_mult_self1_is_0 add_is_0 one_neq_zero)
  with m assms(1) div_Suc [of r 8] show ?thesis by simp
qed

lemma next_char: "r mod 8 = 7 \<Longrightarrow> (r + 1) div 8 = r div 8 + 1 \<and> (r + 1) mod 8 = 0" for r :: nat
  using mod_Suc [of r 8] div_Suc [of r 8] by simp

lemma print_loop_carries:
  assumes "ba.holds primes MAX_LIMIT (\<lambda>j. \<not> is_prime j)" "length dat \<le> MAX_LIMIT" "carries dat text"
    "\<forall>c \<in> set text. isprint c"
    "prime_rank i < 8 * (length text + 1)" "j = prime_rank i mod 8" "length znak = 2"
    "\<forall>k < j. GET_BIT znak k = (if bit ((text @ [0]) ! (prime_rank i div 8)) k then 1 else 0)"
    "out = take (prime_rank i div 8) text"
  shows "print_loop primes dat i j znak out = Some (text, True)"
  using assms(5-9)
proof (induction "MAX_LIMIT - i" arbitrary: i j znak out rule: less_induct)
  case less
  let ?r = "prime_rank i"
  have i: "i < length dat" 
  proof (rule ccontr)
    assume "\<not> i < length dat"
    then have "8 * (length text + 1) \<le> ?r" using carriesD(1) [OF assms(3)] prime_rank_mono [of "length dat" i] by simp
    with less.prems(1) show False by simp
  qed
  then have m: "i < MAX_LIMIT" using assms(2) by simp
  have g: "GetBit primes i = Some (if is_prime i then 0 else 1)" using ba.holds_get [OF assms(1), of i] m by simp
  show ?case
  proof (cases "is_prime i")
    case False
    have "print_loop primes dat (i + 1) j znak out = Some (text, True)"
      by (rule less.hyps) (use False m less.prems in \<open>simp_all add: prime_rank_Suc\<close>)
    with False m g show ?thesis by (subst print_loop.simps) simp
  next
    case True
    define L where "L = (text @ [0]) ! (?r div 8)"
    define z where "z = SET_BIT znak j (unat (dat ! i AND 1))"
    have j: "j < 8" using less.prems(2) by simp
    have b: "bit (dat ! i) 0 = bit L j" using carriesD(2) [OF assms(3) i True less.prems(1)] less.prems(2) by (simp add: L_def)
    have z: "length z = 2" "GET_BIT z k = (if k = j then (if bit L j then 1 else 0) else GET_BIT znak k)" for k
      using less.prems(3) j b by (simp_all add: z_def GET_SET_BIT lowest_bit)
    have bits: "\<forall>k < j + 1. GET_BIT z k = (if bit L k then 1 else 0)"
      using less.prems(4) by (auto simp: z(2) less_Suc_eq L_def)
    have unfold: "print_loop primes dat i j znak out =
        (if j < CHAR_BIT - 1 then print_loop primes dat (i + 1) (j + 1) z out
         else if z ! 1 = 0 then Some (out, True)
         else if j = CHAR_BIT - 1
         then if \<not> isprint (z ! 1) then Some (out, False)
              else print_loop primes dat (i + 1) 0 z (out @ [z ! 1])
         else print_loop primes dat (i + 1) j z out)"
      using True m g i by (subst print_loop.simps) (simp add: vec_at_in z_def Let_def)
    show ?thesis
    proof (cases "j < 7")
      case c: True
      have r: "prime_rank (i + 1) = ?r + 1" using True by (simp add: prime_rank_Suc)
      note d = next_bit [OF less.prems(1), folded less.prems(2), OF c]
      have "print_loop primes dat (i + 1) (j + 1) z out = Some (text, True)"
      proof (rule less.hyps)
        show "MAX_LIMIT - (i + 1) < MAX_LIMIT - i" using m by linarith
        show "\<forall>k < j + 1. GET_BIT z k = (if bit ((text @ [0]) ! (prime_rank (i + 1) div 8)) k then 1 else 0)"
          using bits d unfolding r L_def by simp
      qed (use d z(1) less.prems(5) in \<open>simp_all only: r\<close>)
      with c show ?thesis unfolding unfold by (simp add: CHAR_BIT_def)
    next
      case False
      then have j7: "j = 7" using j by simp
      have "z ! 1 = L"
      proof (rule bit_eqI)
        fix n assume "possible_bit TYPE(8 word) n"
        then have "n < 8" by simp
        then have "GET_BIT z n = (if bit (z ! 1) n then 1 else 0)" "GET_BIT z n = (if bit L n then 1 else 0)"
          using bits j7 by (simp_all add: GET_BIT_bit)
        then show "bit (z ! 1) n = bit L n" by (metis zero_neq_one)
      qed
      have l: "?r div 8 \<le> length text" using less.prems(1) by simp
      show ?thesis
      proof (cases "?r div 8 = length text")
        case True
        then have "L = 0" by (simp add: L_def nth_append)
        then show ?thesis unfolding unfold using j7 \<open>z ! 1 = L\<close> True less.prems(5) by (simp add: CHAR_BIT_def)
      next
        case False
        then have f: "?r div 8 < length text" using l by simp
        then have L: "L = text ! (?r div 8)" "L \<in> set text" by (simp_all add: L_def nth_append)
        then have p: "isprint L" using assms(4) by simp
        then have "L \<noteq> 0" by (auto simp: isprint_def)
        have r: "prime_rank (i + 1) = ?r + 1" using \<open>is_prime i\<close> by (simp add: prime_rank_Suc)
        have d: "(?r + 1) div 8 = ?r div 8 + 1" "(?r + 1) mod 8 = 0" using next_char [of ?r] j7 less.prems(2) by simp_all
        have "print_loop primes dat (i + 1) 0 z (out @ [L]) = Some (text, True)"
        proof (rule less.hyps)
          show "MAX_LIMIT - (i + 1) < MAX_LIMIT - i" using m by linarith
          have "?r + 1 = (?r div 8 + 1) * 8" using d div_mult_mod_eq [of "?r + 1" 8] by (metis add.right_neutral)
          then show "prime_rank (i + 1) < 8 * (length text + 1)" using f unfolding r by simp
          show "out @ [L] = take (prime_rank (i + 1) div 8) text" unfolding r d(1) less.prems(5) L(1) using f by (simp add: take_Suc_conv_app_nth)
        qed (use z(1) d r in simp_all)
        then show ?thesis unfolding unfold using j7 \<open>z ! 1 = L\<close> p \<open>L \<noteq> 0\<close> by (simp add: CHAR_BIT_def)
      qed
    qed
  qed
qed

text \<open>
  C36. A picture of at most \<open>MAX_LIMIT\<close> bytes whose bytes at prime positions have the bits of
  a printable text and its null as their lowest bits, lowest bit first: the decoder prints
  the text and ends without an error.
\<close>

theorem decoder_prints_text:
  assumes "length (pixels p) \<le> MAX_LIMIT" "carries (pixels p) text" "\<forall>c \<in> set text. isprint c"
  shows "PrintMessage p = Some (text, True)"
proof -
  obtain primes where primes: "Eratosthenes (BitArray MAX_LIMIT) = Some primes" "ba.holds primes MAX_LIMIT (\<lambda>j. \<not> is_prime j)"
    using sieved_limit by blast
  have "print_loop primes (pixels p) 2 0 [of_nat CHAR_BIT, 0] [] = Some (text, True)"
    by (rule print_loop_carries [OF primes(2) assms]) (simp_all add: prime_rank_2)
  with primes(1) show ?thesis by (simp add: PrintMessage_def)
qed

theorem decoder_prints_text_witness:
  "PrintMessage \<lparr>xsize = 6, ysize = 3, pixels = (replicate 54 4)[7 := 1, 17 := 3]\<rparr> = Some ([72], True)"
proof -
  have "filter is_prime [0..<54] = [2, 3, 5, 7, 11, 13, 17, 19, 23, 29, 31, 37, 41, 43, 47, 53]" by code_simp
  moreover have "\<forall>k < 16. bit ((replicate 54 4)[7 := 1, 17 := 3 :: byte] ! ([2, 3, 5, 7, 11, 13, 17, 19, 23, 29, 31, 37, 41, 43, 47, 53] ! k)) 0
      = bit (([72] @ [0 :: byte]) ! (k div 8)) (k mod 8)" by code_simp
  ultimately have "carries ((replicate 54 4)[7 := 1, 17 := 3]) [72]" by (simp add: carries_def)
  then show ?thesis by (intro decoder_prints_text) (simp_all add: MAX_LIMIT_def isprint_def)
qed

end
