(* ===== verification/Word_Count.thy ===== *)
theory Word_Count
  imports C_Numbers Std_Map
begin

text \<open>
  The second project of \<^verbatim>\<open>IJC\<close>: reading words (\<^verbatim>\<open>io.c\<close>), the hash table (\<^verbatim>\<open>htab_*.c\<close>,
  \<^verbatim>\<open>hash_function.c\<close>) and the program \<^verbatim>\<open>wordcount.c\<close>. A table is the list of its chains, a
  chain the list of its items; a pointer to an item is the index of the chain and the
  place in it. The booleans \<open>mem\<close> tell whether \<^verbatim>\<open>malloc\<close> succeeds. The theorem: the program
  prints every word of its input once, with the number of its occurrences.
\<close>

section \<open>Reading words\<close>

definition skip_word :: "byte list \<Rightarrow> byte list" where
  "skip_word s = tl (dropWhile (\<lambda>c. \<not> is_space c) s)"

text \<open>The rest of a word into the buffer, at most up to \<open>mx\<close> characters; the character after the word is read too.\<close>

fun read_word :: "nat \<Rightarrow> nat \<Rightarrow> byte list \<Rightarrow> byte list \<Rightarrow> byte list \<times> byte list" where
  "read_word mx i s [] = (s, [])"
| "read_word mx i s (c # f) =
     (if is_space c then (s, f)
      else if i \<ge> mx then (s, skip_word f)
      else read_word mx (i + 1) (s @ [c]) f)"

text \<open>\<open>None\<close> is \<^verbatim>\<open>EOF\<close>; else the result, the buffer and the rest of the file.\<close>

definition fgetw :: "nat \<Rightarrow> byte list \<Rightarrow> (nat \<times> byte list \<times> byte list) option" where
  "fgetw mx f =
     (if f \<noteq> [] \<and> hd f = 10 then Some (0, [], tl f)
      else case dropWhile is_space f of
        [] \<Rightarrow> None
      | c # f1 \<Rightarrow> let (s, f2) = read_word mx 1 [c] f1 in Some (length s, s, f2))"

text \<open>A buffer as a C string.\<close>

definition c_str :: "byte list \<Rightarrow> byte list" where
  "c_str s = takeWhile (\<lambda>c. c \<noteq> 0) s"

section \<open>The hash table\<close>

type_synonym item = "byte list \<times> u32"
type_synonym htab = "item list list"

definition hash_function :: "byte list \<Rightarrow> u32 \<Rightarrow> u32" where
  "hash_function str htab_size = fold (\<lambda>p h. 65599 * h + ucast p) str 0 mod htab_size"

definition htab_init :: "bool \<Rightarrow> nat \<Rightarrow> htab option" where
  "htab_init mem n = (if n < 1 then None else if \<not> mem then None else Some (replicate n []))"

definition hitem_init :: "byte list \<Rightarrow> u32 \<Rightarrow> item" where
  "hitem_init k d = (k, d)"

definition htab_index :: "htab \<Rightarrow> byte list \<Rightarrow> nat" where
  "htab_index t k = unat (hash_function k (of_nat (length t)))"

fun find_item :: "byte list \<Rightarrow> nat \<Rightarrow> item list \<Rightarrow> nat option" where
  "find_item k p [] = None"
| "find_item k p (item # items) = (if fst item = k then Some p else find_item k (p + 1) items)"

text \<open>The two allocations are the copy of the key and the new item.\<close>

definition htab_lookup :: "bool \<Rightarrow> bool \<Rightarrow> htab \<Rightarrow> byte list \<Rightarrow> (htab \<times> nat \<times> nat) option" where
  "htab_lookup mem_key mem_item t k =
     (if \<not> mem_key then None
      else let index = htab_index t k
           in case find_item k 0 (t ! index) of
                Some p \<Rightarrow> Some (t, index, p)
              | None \<Rightarrow> if \<not> mem_item then None
                        else Some (t[index := t ! index @ [hitem_init k 0]], index, length (t ! index)))"

definition item_inc :: "htab \<Rightarrow> nat \<times> nat \<Rightarrow> htab" where
  "item_inc t = (\<lambda>(index, p). t[index := (t ! index)[p := (fst (t ! index ! p), snd (t ! index ! p) + 1)]])"

text \<open>
  The copy of the key is allocated but never filled: \<open>backup\<close> is what the memory holds. When an
  item of that name is found it is unlinked and freed, and the copy is freed twice: \<open>None\<close>.
\<close>

definition htab_remove :: "bool \<Rightarrow> byte list \<Rightarrow> htab \<Rightarrow> byte list \<Rightarrow> htab option" where
  "htab_remove mem backup t k =
     (if \<not> mem then Some t
      else case find_item backup 0 (t ! htab_index t k) of Some p \<Rightarrow> None | None \<Rightarrow> Some t)"

definition htab_foreach :: "htab \<Rightarrow> (byte list \<Rightarrow> u32 \<Rightarrow> 'a) \<Rightarrow> 'a list" where
  "htab_foreach t fp = concat (map (map (\<lambda>(k, d). fp k d)) t)"

text \<open>The emptied table and the items that were freed.\<close>

definition htab_clear :: "htab \<Rightarrow> htab \<times> item list" where
  "htab_clear t = (map (\<lambda>_. []) t, concat t)"

definition htab_free :: "htab \<Rightarrow> item list" where
  "htab_free t = snd (htab_clear t)"

text \<open>Minimum, maximum and sum of the lengths of the chains.\<close>

definition htab_statistics :: "htab \<Rightarrow> int \<times> int \<times> int" where
  "htab_statistics t =
     (let cs = map (\<lambda>ch. int (length ch)) t
      in fold (\<lambda>c (mn, mx, sm). if c > mx then (mn, c, sm + c) else if c < mn then (c, mx, sm + c) else (mn, mx, sm + c))
           cs (cs ! 0, 0, 0))"

section \<open>Counting\<close>

definition WORD_MAX_LENGTH :: nat where
  "WORD_MAX_LENGTH = 127"

definition HASH_TAB_SIZE :: nat where
  "HASH_TAB_SIZE = 24593"

definition print_item :: "byte list \<Rightarrow> u32 \<Rightarrow> byte list" where
  "print_item name dat = name @ [9] @ decimal (unat dat) @ [10]"

lemma length_read_word: "length (snd (read_word mx i s f)) \<le> length f"
proof (induction mx i s f rule: read_word.induct)
  case (2 mx i s c f)
  have "length (skip_word f) \<le> length f" using length_dropWhile_le [of "\<lambda>c. \<not> is_space c" f] by (simp add: skip_word_def)
  with 2 show ?case by auto
qed simp

lemma fgetw_shorter: "fgetw mx f = Some (n, w, r) \<Longrightarrow> length r < length f"
proof -
  assume a: "fgetw mx f = Some (n, w, r)"
  show ?thesis
  proof (cases "f \<noteq> [] \<and> hd f = 10")
    case True
    with a show ?thesis by (cases f) (auto simp: fgetw_def)
  next
    case False
    then obtain c f1 where d: "dropWhile is_space f = c # f1" using a by (auto simp: fgetw_def split: list.splits)
    then have "length r \<le> length f1" using a False length_read_word [of mx 1 "[c]" f1] by (auto simp: fgetw_def split: prod.splits)
    moreover have "length (dropWhile is_space f) \<le> length f" by (rule length_dropWhile_le)
    ultimately show ?thesis using d by simp
  qed
qed

function count_words :: "bool \<Rightarrow> htab \<Rightarrow> byte list \<Rightarrow> htab option" where
  "count_words mem t f =
     (case fgetw WORD_MAX_LENGTH f of
        None \<Rightarrow> Some t
      | Some (n, w, r) \<Rightarrow>
          if n = 0 then count_words mem t r
          else case htab_lookup mem mem t (c_str w) of
                 None \<Rightarrow> None
               | Some (t', place) \<Rightarrow> count_words mem (item_inc t' place) r)"
  by pat_completeness auto

termination
  by (relation "measure (\<lambda>(mem, t, f). length f)") (auto dest: fgetw_shorter)

declare count_words.simps [simp del]

text \<open>What is printed; \<open>None\<close> is the failure of an allocation.\<close>

definition wordcount :: "bool \<Rightarrow> byte list \<Rightarrow> byte list option" where
  "wordcount mem f =
     do {
       t \<leftarrow> htab_init mem HASH_TAB_SIZE;
       t' \<leftarrow> count_words mem t f;
       Some (concat (htab_foreach t' print_item)) }"

section \<open>The table is a map\<close>

definition htab_ok :: "htab \<Rightarrow> bool" where
  "htab_ok t \<longleftrightarrow> 0 < length t \<and> length t < 2 ^ 32
     \<and> (\<forall>i < length t. distinct (map fst (t ! i)) \<and> (\<forall>k \<in> fst ` set (t ! i). htab_index t k = i))"

definition htab_find :: "htab \<Rightarrow> byte list \<Rightarrow> u32 option" where
  "htab_find t k = map_of (t ! htab_index t k) k"

definition chain_put :: "byte list \<Rightarrow> u32 \<Rightarrow> item list \<Rightarrow> item list" where
  "chain_put k d ch = (case find_item k 0 ch of Some p \<Rightarrow> ch[p := (k, d)] | None \<Rightarrow> ch @ [(k, d)])"

definition htab_put :: "byte list \<Rightarrow> u32 \<Rightarrow> htab \<Rightarrow> htab" where
  "htab_put k d t =
     (let i = htab_index t k in t[i := chain_put k d (t ! i)])"

lemma htab_index_less:
  assumes "0 < length t" "length t < 2 ^ 32"
  shows "htab_index t k < length t"
proof -
  have u: "unat (of_nat (length t) :: u32) = length t" using assms(2) by (simp add: unsigned_of_nat take_bit_nat_eq_self)
  then show ?thesis using assms(1) unfolding htab_index_def hash_function_def by (metis unat_mod mod_less_divisor)
qed

lemma htab_index_update [simp]: "htab_index (t[i := ch]) k = htab_index t k"
  by (simp add: htab_index_def)

lemma find_item_Some:
  "find_item k p ch = Some q \<Longrightarrow> p \<le> q \<and> q < p + length ch \<and> fst (ch ! (q - p)) = k"
proof (induction k p ch rule: find_item.induct)
  case (2 k p item items)
  show ?case
  proof (cases "fst item = k")
    case True
    with 2 show ?thesis by simp
  next
    case False
    with 2 have q: "p + 1 \<le> q" "q < p + 1 + length items" "fst (items ! (q - (p + 1))) = k" by simp_all
    moreover have "q - p = Suc (q - (p + 1))" using q(1) by simp
    ultimately show ?thesis by simp
  qed
qed simp

lemma find_item_None: "find_item k p ch = None \<longleftrightarrow> k \<notin> fst ` set ch"
  by (induction k p ch rule: find_item.induct) auto

lemma map_of_replace:
  "p < length ch \<Longrightarrow> fst (ch ! p) = k \<Longrightarrow> distinct (map fst ch) \<Longrightarrow>
    map fst (ch[p := (k, d)]) = map fst ch \<and> map_of (ch[p := (k, d)]) x = (if x = k then Some d else map_of ch x)"
proof (induction ch arbitrary: p)
  case (Cons item ch)
  show ?case
  proof (cases p)
    case (Suc q)
    then have q: "q < length ch" "fst (ch ! q) = k" using Cons.prems(1,2) by simp_all
    then have "k \<in> fst ` set ch" by force
    then have "fst item \<noteq> k" using Cons.prems(3) by auto
    then show ?thesis using Cons.IH [OF q] Cons.prems(3) Suc by (cases item) auto
  qed (use Cons.prems in auto)
qed simp

lemma put_chain:
  assumes "distinct (map fst ch)"
  shows "distinct (map fst (chain_put k d ch))" "fst ` set (chain_put k d ch) = insert k (fst ` set ch)" "map_of (chain_put k d ch) x = (if x = k then Some d else map_of ch x)"
proof -
  have a: "distinct (map fst (chain_put k d ch)) \<and> fst ` set (chain_put k d ch) = insert k (fst ` set ch) \<and> map_of (chain_put k d ch) x = (if x = k then Some d else map_of ch x)"
  proof (cases "find_item k 0 ch")
    case None
    then have n: "k \<notin> fst ` set ch" by (simp add: find_item_None)
    then have "map_of ch k = None" by (simp add: map_of_eq_None_iff)
    then have "map_of (ch @ [(k, d)]) x = (if x = k then Some d else map_of ch x)"
      by (cases "map_of ch x") (auto simp: map_add_def)
    then show ?thesis using assms(1) None n by (auto simp: chain_put_def)
  next
    case (Some p)
    then have p: "p < length ch" "fst (ch ! p) = k" using find_item_Some by fastforce+
    note r = map_of_replace [OF p assms(1), of d x]
    have "fst ` set (chain_put k d ch) = fst ` set ch" using r Some by (metis chain_put_def image_set option.simps(5))
    moreover have "k \<in> fst ` set ch" using p by force
    ultimately show ?thesis using r assms(1) Some by (auto simp: chain_put_def)
  qed
  then show "distinct (map fst (chain_put k d ch))" "fst ` set (chain_put k d ch) = insert k (fst ` set ch)" "map_of (chain_put k d ch) x = (if x = k then Some d else map_of ch x)"
    by simp_all
qed

lemma htab_okD:
  assumes "htab_ok t"
  shows "htab_index t k < length t" "distinct (map fst (t ! htab_index t k))"
  using assms htab_index_less [of t k] by (auto simp: htab_ok_def)

lemma htab_put_ok:
  assumes "htab_ok t"
  shows "htab_ok (htab_put k d t)"
  unfolding htab_ok_def
proof (intro conjI allI impI)
  show "0 < length (htab_put k d t)" "length (htab_put k d t) < 2 ^ 32" using assms by (simp_all add: htab_put_def Let_def htab_ok_def)
  fix i assume i: "i < length (htab_put k d t)"
  note c = put_chain [OF htab_okD(2) [OF assms, of k], of k d]
  show "distinct (map fst (htab_put k d t ! i))" "\<forall>x \<in> fst ` set (htab_put k d t ! i). htab_index (htab_put k d t) x = i"
    using c(1,2) assms i
    by (cases "i = htab_index t k"; simp add: htab_put_def Let_def htab_ok_def; blast)+
qed

lemma htab_find_put:
  assumes "htab_ok t"
  shows "htab_find (htab_put k d t) x = (if x = k then Some d else htab_find t x)"
  using put_chain(3) [OF htab_okD(2) [OF assms, of k], of k d] htab_okD(1) [OF assms]
  by (auto simp: htab_find_def htab_put_def Let_def nth_list_update)

interpretation word_map: finite_map htab_find htab_put htab_ok
  by unfold_locales (simp_all add: htab_put_ok htab_find_put)

text \<open>Looking a word up and counting it is one update of the map.\<close>

lemma count_word:
  assumes "htab_ok t" "htab_lookup True True t k = Some (t', place)"
  shows "item_inc t' place = htab_put k (case htab_find t k of None \<Rightarrow> 1 | Some d \<Rightarrow> d + 1) t"
proof (cases "find_item k 0 (t ! htab_index t k)")
  case None
  then have "htab_find t k = None" by (simp add: htab_find_def find_item_None map_of_eq_None_iff)
  with None assms htab_okD(1) [OF assms(1), of k] show ?thesis
    by (auto simp: htab_lookup_def htab_put_def chain_put_def item_inc_def hitem_init_def Let_def)
next
  case (Some p)
  then have p: "p < length (t ! htab_index t k)" "fst (t ! htab_index t k ! p) = k" using find_item_Some by fastforce+
  then have "htab_find t k = Some (snd (t ! htab_index t k ! p))"
    unfolding htab_find_def using htab_okD(2) [OF assms(1), of k] by (metis map_of_eq_Some_iff nth_mem prod.collapse)
  with Some p assms show ?thesis
    by (auto simp: htab_lookup_def htab_put_def chain_put_def item_inc_def Let_def)
qed

section \<open>The words of a text\<close>

function split_words :: "byte list \<Rightarrow> byte list list" where
  "split_words f =
     (case dropWhile is_space f of [] \<Rightarrow> [] | c # t \<Rightarrow> (c # takeWhile (\<lambda>c. \<not> is_space c) t) # split_words (dropWhile (\<lambda>c. \<not> is_space c) t))"
  by pat_completeness auto

termination
proof (relation "measure length")
  fix f c t assume "dropWhile is_space f = c # (t :: byte list)"
  then have "length t < length f" using length_dropWhile_le [of is_space f] by simp
  then show "(dropWhile (\<lambda>c. \<not> is_space c) t, f) \<in> measure length"
    using length_dropWhile_le [of "\<lambda>c. \<not> is_space c" t] by simp
qed simp

declare split_words.simps [simp del]

lemma split_words_space: "is_space c \<Longrightarrow> split_words (c # f) = split_words f"
  by (simp add: split_words.simps [of "c # f"] split_words.simps [of f])

lemma split_words_tl: "split_words (tl (dropWhile (\<lambda>c. \<not> is_space c) f)) = split_words (dropWhile (\<lambda>c. \<not> is_space c) f)"
proof (cases "dropWhile (\<lambda>c. \<not> is_space c) f")
  case (Cons c r)
  then have "is_space c" by (metis dropWhile_eq_Cons_conv)
  with Cons show ?thesis by (simp add: split_words_space)
next
  case Nil
  show ?thesis unfolding Nil by simp
qed

lemma read_word:
  "length s = i \<Longrightarrow> i \<le> mx \<Longrightarrow>
    read_word mx i s f = (s @ take (mx - i) (takeWhile (\<lambda>c. \<not> is_space c) f), tl (dropWhile (\<lambda>c. \<not> is_space c) f))"
proof (induction mx i s f rule: read_word.induct)
  case (2 mx i s c f)
  show ?case
  proof (cases "is_space c \<or> i \<ge> mx")
    case True
    with 2(3) show ?thesis by (auto simp: skip_word_def)
  next
    case False
    then have "mx - i = Suc (mx - (i + 1))" by linarith
    with False 2 show ?thesis by auto
  qed
qed simp

text \<open>One call takes one word, cut to its maximum, or the end of an empty line.\<close>

lemma fgetw_words:
  assumes "0 < mx"
  shows "fgetw mx f = None \<Longrightarrow> split_words f = []"
    "fgetw mx f = Some (0, w, r) \<Longrightarrow> f = 10 # r \<and> split_words f = split_words r"
    "fgetw mx f = Some (Suc n, w, r) \<Longrightarrow> length w = Suc n \<and> (\<exists>x. w = take mx x \<and> split_words f = x # split_words r)"
proof -
  have nl: "fgetw mx f = Some (0, [], tl f)" "split_words f = split_words (tl f)" "f = 10 # tl f" if "f \<noteq> []" "hd f = 10"
    using that by (cases f; simp add: fgetw_def split_words_space is_space_def)+
  have w: "fgetw mx f = Some (length (take mx x), take mx x, r) \<and> split_words f = x # split_words r \<and> 0 < length (take mx x)"
    if d: "\<not> (f \<noteq> [] \<and> hd f = 10)" "dropWhile is_space f = c # f1"
      and x: "x = c # takeWhile (\<lambda>c. \<not> is_space c) f1" "r = tl (dropWhile (\<lambda>c. \<not> is_space c) f1)" for c f1 x r
  proof -
    have "read_word mx 1 [c] f1 = (take mx x, r)" using read_word [of "[c]" 1 mx f1] assms x by (cases mx) simp_all
    moreover have "split_words f = x # split_words r" using d(2) x by (simp add: split_words.simps [of f] split_words_tl)
    ultimately show ?thesis using d x(1) assms unfolding fgetw_def by (simp only: if_False list.case Let_def prod.case) simp
  qed
  have e: "fgetw mx f = None \<and> split_words f = []" if "\<not> (f \<noteq> [] \<and> hd f = 10)" "dropWhile is_space f = []"
    using that(1) by (simp only: fgetw_def split_words.simps [of f] that(2) if_False list.case)
  consider "f \<noteq> []" "hd f = 10" | "\<not> (f \<noteq> [] \<and> hd f = 10)" "dropWhile is_space f = []"
    | c f1 where "\<not> (f \<noteq> [] \<and> hd f = 10)" "dropWhile is_space f = c # f1"
    by (cases "dropWhile is_space f") auto
  note cs = this
  show "split_words f = []" if n: "fgetw mx f = None"
    by (rule cs) (use n nl(1) e in simp, use e in blast, use n w in force)
  show "f = 10 # r \<and> split_words f = split_words r" if n: "fgetw mx f = Some (0, w, r)"
    by (rule cs) (use n nl in force, use n e in force, use n w in fastforce)
  show "length w = Suc n \<and> (\<exists>x. w = take mx x \<and> split_words f = x # split_words r)" if n: "fgetw mx f = Some (Suc n, w, r)"
    by (rule cs) (use n nl(1) in simp, use n e in force, use n w in fastforce)
qed

section \<open>The program counts them\<close>

definition counted :: "byte list \<Rightarrow> byte list list" where
  "counted f = map (\<lambda>w. c_str (take WORD_MAX_LENGTH w)) (split_words f)"

definition one_more :: "u32 option \<Rightarrow> u32" where
  "one_more v = (case v of None \<Rightarrow> 1 | Some d \<Rightarrow> d + 1)"

lemma count_words_tally: "htab_ok t \<Longrightarrow> count_words True t f = Some (word_map.tally one_more (counted f) t)"
proof (induction "length f" arbitrary: t f rule: less_induct)
  case less
  have m: "0 < WORD_MAX_LENGTH" by (simp add: WORD_MAX_LENGTH_def)
  show ?case
  proof (cases "fgetw WORD_MAX_LENGTH f")
    case None
    with fgetw_words(1) [OF m None] show ?thesis by (simp add: count_words.simps [of True t f] counted_def word_map.tally_def)
  next
    case (Some res)
    obtain n w r where res: "res = (n, w, r)" by (cases res) auto
    have shorter: "length r < length f" using fgetw_shorter Some res by simp
    show ?thesis
    proof (cases n)
      case 0
      with fgetw_words(2) [OF m] Some res have "counted f = counted r" by (simp add: counted_def)
      with less.hyps [OF shorter less.prems] show ?thesis using Some res 0 by (simp add: count_words.simps [of True t f])
    next
      case (Suc k)
      then obtain x where x: "w = take WORD_MAX_LENGTH x" "split_words f = x # split_words r"
        using fgetw_words(3) [OF m, of f k w r] Some res by auto
      obtain t' place where l: "htab_lookup True True t (c_str w) = Some (t', place)"
        by (cases "find_item (c_str w) 0 (t ! htab_index t (c_str w))") (simp_all add: htab_lookup_def Let_def)
      have i: "item_inc t' place = htab_put (c_str w) (one_more (htab_find t (c_str w))) t"
        using count_word [OF less.prems l] by (simp add: one_more_def)
      have "htab_ok (item_inc t' place)" unfolding i by (rule htab_put_ok [OF less.prems])
      from less.hyps [OF shorter this] show ?thesis
        using Some res Suc x l i by (simp add: count_words.simps [of True t f] counted_def word_map.tally_def)
    qed
  qed
qed

lemma one_more_times: "((\<lambda>v. Some (one_more v)) ^^ n) None = (if n = 0 then None else Some (of_nat n))"
  by (induction n) (simp_all add: one_more_def add.commute)

text \<open>The items of all chains are the entries of the map.\<close>

lemma items_of_table:
  assumes "htab_ok t"
  shows "distinct (map fst (concat t))" "map_of (concat t) k = htab_find t k"
proof -
  have keys: "htab_index t x = i" if "i < length t" "x \<in> fst ` set (t ! i)" for i x
    using assms that unfolding htab_ok_def by blast
  have d: "distinct (map fst (concat (take n t)))" if "n \<le> length t" for n
    using that
  proof (induction n)
    case (Suc n)
    have "fst ` set (concat (take n t)) \<inter> fst ` set (t ! n) = {}"
    proof (rule ccontr)
      assume "fst ` set (concat (take n t)) \<inter> fst ` set (t ! n) \<noteq> {}"
      then obtain x where x: "x \<in> fst ` set (t ! n)" "x \<in> fst ` set (concat (take n t))" by blast
      then obtain ch where ch: "ch \<in> set (take n t)" "x \<in> fst ` set ch" by auto
      then obtain i where i: "i < n" "ch = t ! i" by (auto simp: in_set_conv_nth)
      show False using keys [of i x] keys [of n x] Suc.prems x(1) ch(2) i by simp
    qed
    then show ?case using Suc assms by (auto simp: take_Suc_conv_app_nth htab_ok_def)
  qed simp
  from d [of "length t"] show dis: "distinct (map fst (concat t))" by simp
  have "map_of (concat t) k = Some v \<longleftrightarrow> htab_find t k = Some v" for v
  proof -
    note i = htab_okD [OF assms, of k]
    have "(k, v) \<in> set (concat t) \<longleftrightarrow> (k, v) \<in> set (t ! htab_index t k)"
    proof
      assume "(k, v) \<in> set (concat t)"
      then obtain ch where "ch \<in> set t" "(k, v) \<in> set ch" by auto
      then obtain j where j: "j < length t" "(k, v) \<in> set (t ! j)" by (metis in_set_conv_nth)
      then have "htab_index t k = j" by (intro keys) force+
      with j show "(k, v) \<in> set (t ! htab_index t k)" by simp
    qed (use i(1) in \<open>auto intro: nth_mem\<close>)
    then show ?thesis using dis i(2) by (simp add: htab_find_def)
  qed
  then show "map_of (concat t) k = htab_find t k" by (metis option.exhaust)
qed

lemma htab_ok_init: "0 < n \<Longrightarrow> n < 2 ^ 32 \<Longrightarrow> htab_ok (replicate n [])"
  by (simp add: htab_ok_def)

text \<open>
  C37. When no allocation fails the program prints an item for every word of its input, cut
  to 127 characters and at a null, once, and with it the number of times the word occurs
  (modulo \<open>2^32\<close>).
\<close>

theorem wordcount_counts:
  "\<exists>items. wordcount True f = Some (concat (map (\<lambda>(k, d). print_item k d) items)) \<and> distinct (map fst items)
    \<and> (\<forall>k. map_of items k = (let n = count_list (counted f) k in if n = 0 then None else Some (of_nat n)))"
proof -
  define t where "t = word_map.tally one_more (counted f) (replicate HASH_TAB_SIZE [])"
  have ok0: "htab_ok (replicate HASH_TAB_SIZE [])" by (rule htab_ok_init) (simp_all add: HASH_TAB_SIZE_def)
  have ok: "htab_ok t" unfolding t_def by (rule word_map.ok_tally [OF ok0])
  have find0: "htab_find (replicate HASH_TAB_SIZE []) k = None" for k
    using htab_okD(1) [OF ok0, of k] by (simp add: htab_find_def)
  have "htab_find t k = (let n = count_list (counted f) k in if n = 0 then None else Some (of_nat n))" for k
    unfolding t_def word_map.lookup_tally [OF ok0] find0 one_more_times Let_def ..
  moreover have "wordcount True f = Some (concat (map (\<lambda>(k, d). print_item k d) (concat t)))"
    using count_words_tally [OF ok0, of f]
    by (simp add: wordcount_def htab_init_def htab_foreach_def HASH_TAB_SIZE_def t_def map_concat)
  ultimately show ?thesis using items_of_table [OF ok] by (intro exI [of _ "concat t"]) simp
qed

section \<open>Removal and statistics\<close>

text \<open>
  The key to remove is never compared: whatever the uninitialised copy holds, the
  removal either leaves the table as it is or frees the copy twice.
\<close>

lemma remove_never_removes: "htab_remove mem backup t k = Some t \<or> htab_remove mem backup t k = None"
  by (auto simp: htab_remove_def split: option.split)

lemma statistics_fold:
  "mn \<le> mx \<Longrightarrow> fold (\<lambda>c (mn, mx, sm). if c > mx then (mn, c, sm + c) else if c < mn then (c, mx, sm + c) else (mn, mx, sm + c)) cs (mn, mx, sm)
    = (Min (insert mn (set cs)), Max (insert mx (set cs)), sm + sum_list cs)" for mn mx sm :: int
proof (induction cs arbitrary: mn mx sm)
  case (Cons c cs)
  have "Min (insert mn (insert c (set cs))) = Min (insert (min mn c) (set cs))" "Max (insert mx (insert c (set cs))) = Max (insert (max mx c) (set cs))"
    by (cases "cs = []"; simp add: min.assoc max.assoc)+
  then show ?case using Cons.IH [of "min mn c" "max mx c" "sm + c"] Cons.prems by (auto simp: min_def max_def add.assoc)
qed simp

lemma statistics_correct:
  assumes "t \<noteq> []"
  defines "cs \<equiv> map (\<lambda>ch. int (length ch)) t"
  shows "htab_statistics t = (Min (set cs), Max (set cs), sum_list cs)"
proof -
  obtain c r where c: "cs = c # r" using assms by (cases t) auto
  have "0 \<le> c" using c unfolding cs_def by auto
  with statistics_fold [of c c r c] show ?thesis
    unfolding htab_statistics_def cs_def [symmetric] Let_def c by (auto simp: min_def max_def)
qed

end
