(* ===== verification/Fold_Text.thy ===== *)
theory Fold_Text
  imports Word_Count
begin

text \<open>
  The two programs of \<^verbatim>\<open>IJC/proj2\<close> that fold text to a width: \<^verbatim>\<open>fold.c\<close>, which reads words with
  \<^verbatim>\<open>fgetw\<close>, and \<^verbatim>\<open>fold2.cc\<close>, its variant in C++, which reads lines. What is printed is part of
  the state. The theorems: the lines of the variant fit the width and hold the words of
  the text, and on tidy text the two programs print the same.
\<close>

section \<open>Options\<close>

record optionsStruct =
  width :: int
  cut :: bool
  filename :: "byte list option"

datatype fold_error = No_width | Bad_width | Long_name | Two_files | No_file

definition FILENAME_MAX_LENGTH :: nat where
  "FILENAME_MAX_LENGTH = 255"

text \<open>The options of \<^verbatim>\<open>fold.c\<close>; the variant in C++ has no limit on the name and keeps the width unsigned.\<close>

fun fold_options :: "nat option \<Rightarrow> byte list list \<Rightarrow> optionsStruct \<Rightarrow> fold_error + optionsStruct" where
  "fold_options limit [] opts = Inr opts"
| "fold_options limit (arg # args) opts =
     (if arg = [45, 119] then
        (case args of
           [] \<Rightarrow> Inl No_width
         | v # args' \<Rightarrow> let (n, endPtr) = strtol v
                       in if endPtr \<noteq> [] then Inl Bad_width else fold_options limit args' (opts\<lparr>width := to_int32 n\<rparr>))
      else if arg = [45, 99] then fold_options limit args (opts\<lparr>cut := True\<rparr>)
      else if (case limit of Some n \<Rightarrow> length arg \<ge> n | None \<Rightarrow> False) then Inl Long_name
      else if filename opts \<noteq> None then Inl Two_files
      else fold_options limit args (opts\<lparr>filename := Some arg\<rparr>))"

definition default_options :: optionsStruct where
  "default_options = \<lparr>width = 80, cut = False, filename = None\<rparr>"

text \<open>The text to fold: the standard input, or the file when it can be opened.\<close>

definition input_of :: "(byte list \<Rightarrow> byte list option) \<Rightarrow> byte list \<Rightarrow> optionsStruct \<Rightarrow> fold_error + byte list" where
  "input_of files stdin opts =
     (case filename opts of
        None \<Rightarrow> Inr stdin
      | Some name \<Rightarrow> (case files name of None \<Rightarrow> Inl No_file | Some f \<Rightarrow> Inr f))"

section \<open>fold.c\<close>

definition WORD_MAX :: nat where
  "WORD_MAX = 4096"

text \<open>Output, column and whether the line is new.\<close>

type_synonym fold_state = "byte list \<times> int \<times> bool"

text \<open>One word of \<open>n\<close> characters in the buffer; \<open>None\<close> is a write before the buffer.\<close>

definition vypis_word :: "optionsStruct \<Rightarrow> nat \<Rightarrow> byte list \<Rightarrow> fold_state \<Rightarrow> fold_state option" where
  "vypis_word opts n word = (\<lambda>(out, currentPosition, NewLine).
     let pos1 = currentPosition + int n;
         trim = cut opts \<and> int n > width opts
     in if trim \<and> width opts < 0 then None
        else let word1 = (if trim then word[nat (width opts) := 0] else word);
                 pos2 = (if \<not> NewLine then pos1 + 1 else pos1);
                 over = pos2 > width opts;
                 pos3 = (if over then int n else pos2);
                 out1 = (if over \<and> \<not> NewLine then out @ [10] else out);
                 new1 = (if over then True else NewLine);
                 out2 = (if \<not> new1 then out1 @ [32] else out1)
             in Some (out2 @ c_str word1, pos3, False))"

definition vypis_newline :: "fold_state \<Rightarrow> fold_state" where
  "vypis_newline = (\<lambda>(out, currentPosition, NewLine). (out @ [10] @ (if \<not> NewLine then [10] else []), 0, True))"

function vypis_loop :: "optionsStruct \<Rightarrow> byte list \<Rightarrow> fold_state \<Rightarrow> fold_state option" where
  "vypis_loop opts f st =
     (case fgetw WORD_MAX f of
        None \<Rightarrow> Some st
      | Some (n, word, r) \<Rightarrow>
          if n = 0 then vypis_loop opts r (vypis_newline st)
          else case vypis_word opts n word st of None \<Rightarrow> None | Some st' \<Rightarrow> vypis_loop opts r st')"
  by pat_completeness auto

termination
  by (relation "measure (\<lambda>(opts, f, st). length f)") (auto dest: fgetw_shorter)

declare vypis_loop.simps [simp del]

definition last_newline :: "fold_state \<Rightarrow> byte list" where
  "last_newline = (\<lambda>(out, pos, new). if \<not> new then out @ [10] else out)"

definition vypis :: "optionsStruct \<Rightarrow> byte list \<Rightarrow> byte list option" where
  "vypis opts f = map_option last_newline (vypis_loop opts f ([], 0, True))"

definition fold_main :: "(byte list \<Rightarrow> byte list option) \<Rightarrow> byte list \<Rightarrow> byte list list \<Rightarrow> fold_error + byte list option" where
  "fold_main files stdin args =
     (case fold_options (Some FILENAME_MAX_LENGTH) args default_options of
        Inl e \<Rightarrow> Inl e
      | Inr opts \<Rightarrow> (case input_of files stdin opts of Inl e \<Rightarrow> Inl e | Inr f \<Rightarrow> Inr (vypis opts f)))"

section \<open>fold2.cc\<close>

text \<open>The lines that \<^verbatim>\<open>getline\<close> returns.\<close>

function getlines :: "byte list \<Rightarrow> byte list list" where
  "getlines f = (if f = [] then [] else takeWhile (\<lambda>c. c \<noteq> 10) f # getlines (tl (dropWhile (\<lambda>c. c \<noteq> 10) f)))"
  by pat_completeness auto

termination
proof (relation "measure length")
  fix f :: "byte list" assume "f \<noteq> []"
  then have "0 < length f" by simp
  with length_dropWhile_le [of "\<lambda>c. c \<noteq> 10" f] have "length (tl (dropWhile (\<lambda>c. c \<noteq> 10) f)) < length f"
    unfolding length_tl by linarith
  then show "(tl (dropWhile (\<lambda>c. c \<noteq> 10) f), f) \<in> measure length" by simp
qed simp

declare getlines.simps [simp del]

type_synonym fold2_state = "byte list \<times> u32 \<times> bool"

definition fold2_word :: "u32 \<Rightarrow> bool \<Rightarrow> byte list \<Rightarrow> fold2_state \<Rightarrow> fold2_state" where
  "fold2_word wd c word = (\<lambda>(out, current, newLine).
     let len = of_nat (length word);
         cur1 = current + len;
         word1 = (if c \<and> len > wd then take (unat wd) word else word);
         cur2 = (if \<not> newLine then cur1 + 1 else cur1);
         over = cur2 > wd;
         cur3 = (if over then len else cur2);
         out1 = (if over \<and> \<not> newLine then out @ [10] else out);
         new1 = (if over then True else newLine);
         out2 = (if \<not> new1 then out1 @ [32] else out1)
     in (out2 @ word1, cur3, False))"

definition fold2_line :: "u32 \<Rightarrow> bool \<Rightarrow> byte list \<Rightarrow> fold2_state \<Rightarrow> fold2_state" where
  "fold2_line wd c line st =
     (if line = [] then (case st of (out, current, newLine) \<Rightarrow> (out @ (if \<not> newLine then [10] else []) @ [10], 0, True))
      else fold (fold2_word wd c) (split_words line) st)"

definition fold2 :: "u32 \<Rightarrow> bool \<Rightarrow> byte list \<Rightarrow> byte list" where
  "fold2 wd c f =
     (case fold (fold2_line wd c) (getlines f) ([], 0, True) of (out, current, newLine) \<Rightarrow> if \<not> newLine then out @ [10] else out)"

definition fold2_main :: "(byte list \<Rightarrow> byte list option) \<Rightarrow> byte list \<Rightarrow> byte list list \<Rightarrow> fold_error + byte list" where
  "fold2_main files stdin args =
     (case fold_options None args default_options of
        Inl e \<Rightarrow> Inl e
      | Inr opts \<Rightarrow> (case input_of files stdin opts of Inl e \<Rightarrow> Inl e | Inr f \<Rightarrow> Inr (fold2 (of_int (width opts)) (cut opts) f)))"

section \<open>Words and lines\<close>

lemma split_words_nil [simp]: "split_words [] = []"
  by (simp add: split_words.simps)

lemma dropWhile_join: "dropWhile P (a @ b) = (if \<forall>x \<in> set a. P x then dropWhile P b else dropWhile P a @ b)"
  by (induction a) auto

lemma split_words_join:
  assumes "is_space s"
  shows "split_words (a @ s # b) = split_words a @ split_words b"
proof (induction "length a" arbitrary: a rule: less_induct)
  case less
  show ?case
  proof (cases "dropWhile is_space a")
    case Nil
    then have all: "\<forall>x \<in> set a. is_space x" by simp
    then have "dropWhile is_space (a @ s # b) = dropWhile is_space b" using assms by (simp add: dropWhile_join)
    moreover have "split_words a = []" by (simp add: split_words.simps [of a] Nil)
    ultimately show ?thesis by (simp add: split_words.simps [of "a @ s # b"] split_words.simps [of b])
  next
    case (Cons c t)
    have "\<not> (\<forall>x \<in> set a. is_space x)" using Cons by (metis dropWhile_eq_Nil_conv list.distinct(1))
    then have d: "dropWhile is_space (a @ s # b) = c # t @ s # b" unfolding dropWhile_join using Cons by (simp only: if_False append_Cons)
    have len: "length (dropWhile (\<lambda>c. \<not> is_space c) t) < length a"
      using length_dropWhile_le [of is_space a] length_dropWhile_le [of "\<lambda>c. \<not> is_space c" t] Cons by simp
    have w: "takeWhile (\<lambda>c. \<not> is_space c) (t @ s # b) = takeWhile (\<lambda>c. \<not> is_space c) t"
      using assms by (induction t) auto
    have r: "dropWhile (\<lambda>c. \<not> is_space c) (t @ s # b) = dropWhile (\<lambda>c. \<not> is_space c) t @ s # b"
      using assms by (auto simp: dropWhile_join)
    have "split_words (a @ s # b) = (c # takeWhile (\<lambda>c. \<not> is_space c) t) # split_words (dropWhile (\<lambda>c. \<not> is_space c) t @ s # b)"
      unfolding split_words.simps [of "a @ s # b"] d by (simp add: w r)
    also have "\<dots> = (c # takeWhile (\<lambda>c. \<not> is_space c) t) # split_words (dropWhile (\<lambda>c. \<not> is_space c) t) @ split_words b"
      using less.hyps [OF len] by simp
    also have "\<dots> = split_words a @ split_words b" by (simp add: split_words.simps [of a] Cons)
    finally show ?thesis .
  qed
qed

lemma split_words_word: "w \<noteq> [] \<Longrightarrow> \<forall>c \<in> set w. \<not> is_space c \<Longrightarrow> split_words w = [w]"
proof (cases w)
  case (Cons c t)
  assume "\<forall>c \<in> set w. \<not> is_space c"
  then have "\<not> is_space c" "\<forall>x \<in> set t. \<not> is_space x" using Cons by simp_all
  moreover from this(2) have "dropWhile (\<lambda>c. \<not> is_space c) t = []" "takeWhile (\<lambda>c. \<not> is_space c) t = t" by simp_all
  ultimately show ?thesis unfolding Cons by (subst split_words.simps) (simp only: dropWhile.simps if_False list.case split_words_nil)
qed simp

lemma words_of_split: "w \<in> set (split_words f) \<Longrightarrow> w \<noteq> [] \<and> (\<forall>c \<in> set w. \<not> is_space c)"
proof (induction f rule: split_words.induct)
  case (1 f)
  show ?case
  proof (cases "dropWhile is_space f")
    case Nil
    with "1.prems" show ?thesis by (simp add: split_words.simps [of f])
  next
    case (Cons c t)
    have "\<not> is_space c" using Cons by (metis dropWhile_eq_Cons_conv)
    moreover have "w = c # takeWhile (\<lambda>c. \<not> is_space c) t \<or> w \<in> set (split_words (dropWhile (\<lambda>c. \<not> is_space c) t))"
      using "1.prems" Cons by (simp add: split_words.simps [of f])
    moreover have "\<forall>x \<in> set (takeWhile (\<lambda>c. \<not> is_space c) t). \<not> is_space x" by (auto dest: set_takeWhileD)
    ultimately show ?thesis using "1.IH" [OF Cons] by (metis list.distinct(1) set_ConsD)
  qed
qed

lemma newline_space: "is_space 10"
  by (simp add: is_space_def)

lemma split_words_getlines: "split_words f = concat (map split_words (getlines f))"
proof (induction f rule: getlines.induct)
  case (1 f)
  show ?case
  proof (cases "f = []")
    case False
    show ?thesis
    proof (cases "dropWhile (\<lambda>c. c \<noteq> 10) f")
      case Nil
      then have "takeWhile (\<lambda>c. c \<noteq> 10) f = f" by (metis append.right_neutral takeWhile_dropWhile_id)
      then have "getlines f = [f]" using False Nil by (simp only: getlines.simps [of f] getlines.simps [of "[]"] if_False list.sel) simp
      then show ?thesis by simp
    next
      case (Cons c t)
      then have "c = 10" using hd_dropWhile [of "\<lambda>c. c \<noteq> 10" f] by simp
      define a where "a = takeWhile (\<lambda>c. c \<noteq> 10) f"
      have "f = a @ 10 # t" using Cons \<open>c = 10\<close> unfolding a_def by (metis takeWhile_dropWhile_id)
      then have "split_words f = split_words (takeWhile (\<lambda>c. c \<noteq> 10) f) @ split_words t"
        using split_words_join [OF newline_space, of a t] unfolding a_def [symmetric] by simp
      with "1.IH" [OF False] Cons False show ?thesis by (simp add: getlines.simps [of f])
    qed
  qed (simp add: getlines.simps)
qed

section \<open>The lines of the variant\<close>

definition trim :: "nat \<Rightarrow> bool \<Rightarrow> byte list \<Rightarrow> byte list" where
  "trim wd c w = (if c \<and> length w > wd then take wd w else w)"

definition fits :: "nat \<Rightarrow> bool \<Rightarrow> byte list \<Rightarrow> bool" where
  "fits wd c l \<longleftrightarrow> 10 \<notin> set l \<and> (length l \<le> wd \<or> \<not> c \<and> split_words l = [l])"

definition ended :: "byte list list \<Rightarrow> byte list" where
  "ended ls = concat (map (\<lambda>l. l @ [10]) ls)"

lemma ended_simps [simp]: "ended [] = []" "ended (l # ls) = l @ 10 # ended ls" "ended (ls @ ms) = ended ls @ ended ms"
  by (simp_all add: ended_def)

text \<open>The output is lines and the beginning \<open>p\<close> of one; \<open>ws\<close> are the words so far.\<close>

definition laid_out :: "nat \<Rightarrow> bool \<Rightarrow> byte list list \<Rightarrow> fold2_state \<Rightarrow> bool" where
  "laid_out wd c ws = (\<lambda>(out, current, newLine).
     \<exists>ls p. out = ended ls @ p \<and> (\<forall>l \<in> set ls. fits wd c l) \<and> 10 \<notin> set p
       \<and> concat (map split_words ls) @ split_words p = map (trim wd c) ws
       \<and> (if newLine then p = [] \<and> current = 0
          else length p \<le> unat current \<and> unat current < 2 ^ 31 \<and> fits wd c p))"

lemma laid_outI:
  "out = ended ls @ p \<Longrightarrow> \<forall>l \<in> set ls. fits wd c l \<Longrightarrow> 10 \<notin> set p \<Longrightarrow> concat (map split_words ls) @ split_words p = map (trim wd c) ws
    \<Longrightarrow> (if newLine then p = [] \<and> current = 0 else length p \<le> unat current \<and> unat current < 2 ^ 31 \<and> fits wd c p)
    \<Longrightarrow> laid_out wd c ws (out, current, newLine)"
  unfolding laid_out_def prod.case by blast

lemma laid_outE:
  assumes "laid_out wd c ws (out, current, newLine)"
  obtains ls p where "out = ended ls @ p" "\<forall>l \<in> set ls. fits wd c l" "10 \<notin> set p"
    "concat (map split_words ls) @ split_words p = map (trim wd c) ws"
    "newLine \<longrightarrow> p = [] \<and> current = 0" "\<not> newLine \<longrightarrow> length p \<le> unat current \<and> unat current < 2 ^ 31 \<and> fits wd c p"
proof -
  obtain ls p where i: "out = ended ls @ p" "\<forall>l \<in> set ls. fits wd c l" "10 \<notin> set p"
    "concat (map split_words ls) @ split_words p = map (trim wd c) ws"
    "if newLine then p = [] \<and> current = 0 else length p \<le> unat current \<and> unat current < 2 ^ 31 \<and> fits wd c p"
    using assms unfolding laid_out_def prod.case by blast
  show ?thesis by (rule that [OF i(1-4)]) (use i(5) in \<open>cases newLine; simp\<close>)+
qed

lemma trim_word:
  assumes "w \<noteq> []" "\<forall>x \<in> set w. \<not> is_space x" "0 < wd"
  shows "split_words (trim wd c w) = [trim wd c w]" "length (trim wd c w) \<le> length w" "10 \<notin> set (trim wd c w)" "fits wd c (trim wd c w)"
proof -
  have "trim wd c w \<noteq> []" using assms by (auto simp: trim_def)
  moreover have sub: "set (trim wd c w) \<subseteq> set w" by (auto simp: trim_def dest: in_set_takeD)
  ultimately show s: "split_words (trim wd c w) = [trim wd c w]" using assms(2) by (intro split_words_word) auto
  show "length (trim wd c w) \<le> length w" by (simp add: trim_def)
  show n: "10 \<notin> set (trim wd c w)" using sub assms(2) newline_space by blast
  then show "fits wd c (trim wd c w)" using s by (auto simp: fits_def trim_def)
qed

lemma fold2_word_laid_out:
  assumes st: "laid_out (unat wd) c ws st" and w: "w \<noteq> []" "\<forall>x \<in> set w. \<not> is_space x" "length w < 2 ^ 31" and wd: "0 < unat wd" "unat wd < 2 ^ 31"
  shows "laid_out (unat wd) c (ws @ [w]) (fold2_word wd c w st)"
proof -
  obtain out current newLine where e: "st = (out, current, newLine)" by (cases st)
  obtain ls p where i: "out = ended ls @ p" "\<forall>l \<in> set ls. fits (unat wd) c l" "10 \<notin> set p"
    "concat (map split_words ls) @ split_words p = map (trim (unat wd) c) ws"
    "newLine \<longrightarrow> p = [] \<and> current = 0" "\<not> newLine \<longrightarrow> length p \<le> unat current \<and> unat current < 2 ^ 31 \<and> fits (unat wd) c p"
    by (rule laid_outE [OF st [unfolded e]])
  define len :: u32 where "len = of_nat (length w)"
  define t where "t = trim (unat wd) c w"
  note t = trim_word [OF w(1,2) wd(1), of c, folded t_def]
  have len: "unat len = length w" using w(3) by (simp add: len_def unsigned_of_nat take_bit_nat_eq_self)
  have word1: "(if c \<and> len > wd then take (unat wd) w else w) = t" by (simp add: t_def trim_def word_less_nat_alt len)
  show ?thesis
  proof (cases newLine)
    case True
    then have "p = []" "current = 0" using i(5) by simp_all
    then have "fold2_word wd c w st = (out @ t, len, False)"
      using True unfolding e fold2_word_def prod.case len_def [symmetric] Let_def word1 by simp
    then show ?thesis
      using i(1-4) \<open>p = []\<close> t w(3) len by (simp only:) (rule laid_outI [of _ ls t], simp_all add: t_def)
  next
    case False
    then have p: "length p \<le> unat current" "unat current < 2 ^ 31" "fits (unat wd) c p" using i(6) by simp_all
    have "unat (current + len) = unat current + length w"
      using p(2) w(3) by (subst unat_add_lem [THEN iffD1]) (simp_all add: len)
    then have cur: "unat (current + len + 1) = unat current + length w + 1"
      using p(2) w(3) by (subst unat_add_lem [THEN iffD1]) simp_all
    show ?thesis
    proof (cases "current + len + 1 > wd")
      case over: True
      then have "fold2_word wd c w st = (out @ [10] @ t, len, False)"
        using False unfolding e fold2_word_def prod.case len_def [symmetric] Let_def word1 by simp
      then show ?thesis
        using i(1-4) p(3) t w(3) len by (simp only:) (rule laid_outI [of _ "ls @ [p]" t], simp_all add: t_def)
    next
      case over: False
      then have f: "fold2_word wd c w st = (out @ 32 # t, current + len + 1, False)"
        using False unfolding e fold2_word_def prod.case len_def [symmetric] Let_def word1 by simp
      have small: "unat current + length w + 1 \<le> unat wd" using over cur by (simp add: word_less_nat_alt)
      then have len32: "length (p @ 32 # t) \<le> unat wd" using p(1) t(2) by simp
      have "split_words (p @ 32 # t) = split_words p @ [t]" using split_words_join [of 32 p t] t(1) by (simp add: is_space_def)
      moreover have "fits (unat wd) c (p @ 32 # t)" using len32 i(3) t(3) by (simp add: fits_def)
      moreover have "length (p @ 32 # t) \<le> unat (current + len + 1)" unfolding cur using p(1) t(2) by simp
      moreover have "unat (current + len + 1) < 2 ^ 31" using small wd(2) cur by simp
      ultimately show ?thesis unfolding f
        using i(1-4) t(3) by (intro laid_outI [of _ ls "p @ 32 # t"]) (simp_all add: t_def)
    qed
  qed
qed

lemma fold2_words_laid_out:
  assumes "laid_out (unat wd) c ws st" "\<forall>w \<in> set vs. w \<noteq> [] \<and> (\<forall>x \<in> set w. \<not> is_space x) \<and> length w < 2 ^ 31" "0 < unat wd" "unat wd < 2 ^ 31"
  shows "laid_out (unat wd) c (ws @ vs) (fold (fold2_word wd c) vs st)"
  using assms(1,2)
proof (induction vs arbitrary: ws st)
  case (Cons w vs)
  from Cons.IH [OF fold2_word_laid_out [OF Cons.prems(1)], of w] Cons.prems(2) assms(3,4) show ?case by simp
qed simp

lemma fold2_line_laid_out:
  assumes "laid_out (unat wd) c ws st" "\<forall>w \<in> set (split_words line). length w < 2 ^ 31" "0 < unat wd" "unat wd < 2 ^ 31"
  shows "laid_out (unat wd) c (ws @ split_words line) (fold2_line wd c line st)"
proof (cases "line = []")
  case True
  obtain out current newLine where e: "st = (out, current, newLine)" by (cases st)
  obtain ls p where i: "out = ended ls @ p" "\<forall>l \<in> set ls. fits (unat wd) c l" "10 \<notin> set p"
    "concat (map split_words ls) @ split_words p = map (trim (unat wd) c) ws"
    "newLine \<longrightarrow> p = [] \<and> current = 0" "\<not> newLine \<longrightarrow> length p \<le> unat current \<and> unat current < 2 ^ 31 \<and> fits (unat wd) c p"
    by (rule laid_outE [OF assms(1) [unfolded e]])
  have n: "fits (unat wd) c []" by (simp add: fits_def)
  show ?thesis
  proof (cases newLine)
    case new: True
    with i n True show ?thesis unfolding e fold2_line_def by (simp) (rule laid_outI [of _ "ls @ [[]]" "[]"], simp_all)
  next
    case new: False
    with i n True show ?thesis unfolding e fold2_line_def by simp (rule laid_outI [of _ "(ls @ [p]) @ [[]]" "[]"], simp_all)
  qed
next
  case False
  then show ?thesis unfolding fold2_line_def
    using fold2_words_laid_out [OF assms(1) _ assms(3,4), of "split_words line"] assms(2) words_of_split by simp
qed

text \<open>
  C38. Whatever the text, as long as words and width are below \<open>2^31\<close> characters: the variant
  prints lines that hold the words of the text in order, cut to the width when that was asked
  for; every line fits the width or, without cutting, is a single long word.
\<close>

theorem fold2_lines_fit:
  assumes "0 < unat wd" "unat wd < 2 ^ 31" "\<forall>w \<in> set (split_words f). length w < 2 ^ 31"
  shows "\<exists>ls. fold2 wd c f = concat (map (\<lambda>l. l @ [10]) ls) \<and> (\<forall>l \<in> set ls. fits (unat wd) c l)
    \<and> concat (map split_words ls) = map (trim (unat wd) c) (split_words f)"
proof -
  have all: "laid_out (unat wd) c (ws @ concat (map split_words lines)) (fold (fold2_line wd c) lines st)"
    if "laid_out (unat wd) c ws st" "\<forall>l \<in> set lines. \<forall>w \<in> set (split_words l). length w < 2 ^ 31" for lines ws st
    using that
  proof (induction lines arbitrary: ws st)
    case (Cons l lines)
    from Cons.IH [OF fold2_line_laid_out [OF Cons.prems(1) _ assms(1,2)], of l] Cons.prems(2) show ?case by simp
  qed simp
  have "laid_out (unat wd) c [] ([], 0, True)" by (rule laid_outI [of _ "[]" "[]"]) simp_all
  from all [OF this, of "getlines f"] assms(3)
  have "laid_out (unat wd) c (split_words f) (fold (fold2_line wd c) (getlines f) ([], 0, True))"
    unfolding split_words_getlines [of f] by simp
  moreover obtain out current newLine where e: "fold (fold2_line wd c) (getlines f) ([], 0, True) = (out, current, newLine)"
    by (cases "fold (fold2_line wd c) (getlines f) ([], 0, True)")
  ultimately have "laid_out (unat wd) c (split_words f) (out, current, newLine)" by simp
  then obtain ls p where i: "out = ended ls @ p" "\<forall>l \<in> set ls. fits (unat wd) c l" "10 \<notin> set p"
    "concat (map split_words ls) @ split_words p = map (trim (unat wd) c) (split_words f)"
    "newLine \<longrightarrow> p = [] \<and> current = 0" "\<not> newLine \<longrightarrow> length p \<le> unat current \<and> unat current < 2 ^ 31 \<and> fits (unat wd) c p"
    by (rule laid_outE)
  show ?thesis
  proof (cases newLine)
    case True
    with i show ?thesis unfolding fold2_def e ended_def [symmetric] by (intro exI [of _ ls]) simp
  next
    case False
    with i show ?thesis unfolding fold2_def e ended_def [symmetric] by (intro exI [of _ "ls @ [p]"]) simp
  qed
qed

theorem fold2_lines_fit_witness:
  "\<exists>ls. fold2 4 True [97, 98, 32, 99, 10, 97, 98, 99, 100, 101] = concat (map (\<lambda>l. l @ [10]) ls) \<and> (\<forall>l \<in> set ls. fits 4 True l)"
proof -
  have "split_words [97, 98, 32, 99, 10, 97, 98, 99, 100, 101] = [[97, 98], [99], [97, 98, 99, 100, 101]]" by code_simp
  then show ?thesis using fold2_lines_fit [of 4 "[97, 98, 32, 99, 10, 97, 98, 99, 100, 101]" True] by auto
qed

section \<open>Both programs on tidy text\<close>

text \<open>Lines of words that are separated by one space each; the words fit the buffer of \<^verbatim>\<open>fold.c\<close> and have no null.\<close>

fun join :: "byte list list \<Rightarrow> byte list" where
  "join [] = []"
| "join [w] = w"
| "join (w # v # ws) = w @ 32 # join (v # ws)"

definition tidy_word :: "byte list \<Rightarrow> bool" where
  "tidy_word w \<longleftrightarrow> w \<noteq> [] \<and> (\<forall>c \<in> set w. \<not> is_space c \<and> c \<noteq> 0) \<and> length w \<le> WORD_MAX"

definition tidy_text :: "byte list list list \<Rightarrow> byte list" where
  "tidy_text ls = ended (map join ls)"

lemma fgetw_tidy:
  assumes "tidy_word w" "is_space b"
  shows "fgetw WORD_MAX (w @ b # r) = Some (length w, w, r)"
proof -
  obtain c t where w: "w = c # t" using assms(1) by (cases w) (simp_all add: tidy_word_def)
  have c: "\<not> is_space c" "\<forall>x \<in> set t. \<not> is_space x" "length t < WORD_MAX" using assms(1) by (simp_all add: tidy_word_def w)
  have tk: "takeWhile (\<lambda>c. \<not> is_space c) (t @ b # r) = t" "dropWhile (\<lambda>c. \<not> is_space c) (t @ b # r) = b # r"
    using c(2) assms(2) by (induction t) auto
  have "read_word WORD_MAX 1 [c] (t @ b # r) = (w, r)" using read_word [of "[c]" 1 WORD_MAX "t @ b # r"] c(3) by (simp add: tk w)
  moreover have "c \<noteq> 10" using c(1) newline_space by blast
  moreover have "dropWhile is_space (w @ b # r) = c # t @ b # r" using c(1) by (simp add: w)
  ultimately show ?thesis by (simp add: fgetw_def w)
qed

lemma c_str_cut: "0 \<notin> set w \<Longrightarrow> n < length w \<Longrightarrow> c_str (w[n := 0]) = take n w" "0 \<notin> set w \<Longrightarrow> c_str w = w"
proof -
  show "0 \<notin> set w \<Longrightarrow> n < length w \<Longrightarrow> c_str (w[n := 0]) = take n w"
  proof (induction w arbitrary: n)
    case (Cons c w)
    then show ?case by (cases n) (auto simp: c_str_def)
  qed simp
  show "0 \<notin> set w \<Longrightarrow> c_str w = w" unfolding c_str_def by (rule takeWhile_eq_all_conv [THEN iffD2]) auto
qed

text \<open>The states of the two programs, and one word in both.\<close>

definition same_state :: "u32 \<Rightarrow> fold_state \<Rightarrow> fold2_state \<Rightarrow> bool" where
  "same_state wd = (\<lambda>(out, pos, new) (out2, cur, new2). out = out2 \<and> pos = int (unat cur) \<and> new = new2 \<and> unat cur \<le> max (unat wd) WORD_MAX)"

lemma same_word:
  assumes "same_state wd st st2" "tidy_word w" "width opts = int (unat wd)" "unat wd < 2 ^ 31"
  shows "\<exists>st'. vypis_word opts (length w) w st = Some st' \<and> same_state wd st' (fold2_word wd (cut opts) w st2)"
proof -
  obtain out cur new where e: "st = (out, int (unat cur), new)" "st2 = (out, cur, new)" and cur: "unat cur \<le> max (unat wd) WORD_MAX"
    using assms(1) by (cases st; cases st2) (auto simp: same_state_def)
  have l: "length w \<le> 4096" "0 \<notin> set w" using assms(2) by (auto simp: tidy_word_def WORD_MAX_def)
  define len :: u32 where "len = of_nat (length w)"
  have len: "unat len = length w" using l(1) by (simp add: len_def unsigned_of_nat take_bit_nat_eq_self)
  have c31: "unat cur < 2 ^ 31" using cur assms(4) by (simp add: WORD_MAX_def)
  have s1: "unat (cur + len) = unat cur + length w"
    using c31 l(1) by (subst unat_add_lem [THEN iffD1]) (simp_all add: len)
  then have s2: "unat (cur + len + 1) = unat cur + length w + 1"
    using c31 l(1) by (subst unat_add_lem [THEN iffD1]) simp_all
  have gt: "(len > wd) = (int (length w) > width opts)" unfolding word_less_nat_alt len assms(3) by (simp only: of_nat_less_iff)
  have word: "c_str (if cut opts \<and> int (length w) > width opts then w[nat (width opts) := 0] else w)
      = (if cut opts \<and> len > wd then take (unat wd) w else w)"
    using c_str_cut(1) [OF l(2), of "unat wd"] c_str_cut(2) [OF l(2)]
    unfolding gt assms(3) of_nat_less_iff nat_int by simp
  define mid where "mid = (if \<not> new then cur + len + 1 else cur + len)"
  have mid: "int (unat mid) = (if \<not> new then int (unat cur) + int (length w) + 1 else int (unat cur) + int (length w))"
    by (cases new) (simp_all only: mid_def s1 s2 if_True if_False of_nat_add of_nat_1 not_True_eq_False not_False_eq_True)
  have over: "(mid > wd) = (int (unat mid) > width opts)" unfolding word_less_nat_alt assms(3) by (simp only: of_nat_less_iff)
  define st' where "st' = ((if \<not> (if mid > wd then True else new) then (if mid > wd \<and> \<not> new then out @ [10] else out) @ [32]
      else (if mid > wd \<and> \<not> new then out @ [10] else out)) @ (if cut opts \<and> len > wd then take (unat wd) w else w),
      int (unat (if mid > wd then len else mid)), False)"
  have "vypis_word opts (length w) w st = Some st'"
    unfolding vypis_word_def e prod.case Let_def mid [symmetric] word over [symmetric] st'_def
    using assms(3) len by (simp del: of_nat_unat)
  moreover have "same_state wd st' (fold2_word wd (cut opts) w st2)"
    unfolding fold2_word_def e prod.case Let_def len_def [symmetric] mid_def [symmetric] st'_def same_state_def
    using l(1) len by (simp add: WORD_MAX_def word_less_nat_alt max_def)
  ultimately show ?thesis by blast
qed

lemma same_line:
  assumes "same_state wd st st2" "ws \<noteq> []" "\<forall>w \<in> set ws. tidy_word w" "width opts = int (unat wd)" "unat wd < 2 ^ 31"
  shows "\<exists>st'. vypis_loop opts (join ws @ 10 # r) st = vypis_loop opts r st' \<and> same_state wd st' (fold (fold2_word wd (cut opts)) ws st2)"
  using assms(1-3)
proof (induction ws arbitrary: st st2 rule: join.induct)
  case (2 w)
  obtain st' where st': "vypis_word opts (length w) w st = Some st'" "same_state wd st' (fold2_word wd (cut opts) w st2)"
    using same_word [OF 2(1) _ assms(4,5), of w] 2(3) by auto
  have "w \<noteq> []" using 2(3) by (simp add: tidy_word_def)
  then have "vypis_loop opts (join [w] @ 10 # r) st = vypis_loop opts r st'"
    using fgetw_tidy [of w 10 r] 2(3) newline_space st'(1) by (subst vypis_loop.simps) simp
  with st'(2) show ?case by (intro exI [of _ st']) simp
next
  case (3 w v ws)
  obtain st' where st': "vypis_word opts (length w) w st = Some st'" "same_state wd st' (fold2_word wd (cut opts) w st2)"
    using same_word [OF 3(2) _ assms(4,5), of w] 3(4) by auto
  have "w \<noteq> []" using 3(4) by (simp add: tidy_word_def)
  then have "vypis_loop opts (join (w # v # ws) @ 10 # r) st = vypis_loop opts (join (v # ws) @ 10 # r) st'"
    using fgetw_tidy [of w 32 "join (v # ws) @ 10 # r"] 3(4) st'(1) by (subst vypis_loop.simps) (simp add: is_space_def)
  with 3(1) [OF st'(2)] 3(4) show ?case by simp
qed simp

lemma words_join: "\<forall>w \<in> set ws. tidy_word w \<Longrightarrow> split_words (join ws) = ws"
proof (induction ws rule: join.induct)
  case (2 w)
  then show ?case using split_words_word [of w] by (simp add: tidy_word_def)
next
  case (3 w v ws)
  then have "split_words w = [w]" by (intro split_words_word) (simp_all add: tidy_word_def)
  with 3 show ?case using split_words_join [of 32 w "join (v # ws)"] by (simp add: is_space_def)
qed simp

lemma join_no_newline: "\<forall>w \<in> set ws. tidy_word w \<Longrightarrow> 10 \<notin> set (join ws) \<and> (join ws = [] \<longleftrightarrow> ws = [])"
  by (induction ws rule: join.induct) (use newline_space in \<open>auto simp: tidy_word_def\<close>)

lemma getlines_ended: "\<forall>l \<in> set ls. 10 \<notin> set l \<Longrightarrow> getlines (ended ls) = ls"
proof (induction ls)
  case (Cons l ls)
  have "takeWhile (\<lambda>c. c \<noteq> 10) (l @ 10 # ended ls) = l" "dropWhile (\<lambda>c. c \<noteq> 10) (l @ 10 # ended ls) = 10 # ended ls"
    using Cons.prems by (induction l) auto
  with Cons show ?case by (simp add: getlines.simps [of "l @ 10 # ended ls"])
qed (simp add: getlines.simps)

lemma same_text:
  assumes "same_state wd st st2" "\<forall>ws \<in> set ls. \<forall>w \<in> set ws. tidy_word w" "width opts = int (unat wd)" "unat wd < 2 ^ 31"
  shows "\<exists>st'. vypis_loop opts (tidy_text ls) st = Some st' \<and> same_state wd st' (fold (fold2_line wd (cut opts)) (map join ls) st2)"
  using assms(1,2)
proof (induction ls arbitrary: st st2)
  case Nil
  then show ?case by (subst vypis_loop.simps) (simp add: tidy_text_def fgetw_def)
next
  case (Cons ws ls)
  show ?case
  proof (cases "ws = []")
    case True
    have "same_state wd (vypis_newline st) (fold2_line wd (cut opts) [] st2)"
      using Cons.prems(1) by (cases st; cases st2) (auto simp: same_state_def vypis_newline_def fold2_line_def)
    from Cons.IH [OF this] Cons.prems(2) True show ?thesis
      by (subst vypis_loop.simps) (simp add: tidy_text_def fgetw_def)
  next
    case False
    obtain st' where st': "vypis_loop opts (join ws @ 10 # tidy_text ls) st = vypis_loop opts (tidy_text ls) st'"
      "same_state wd st' (fold (fold2_word wd (cut opts)) ws st2)"
      using same_line [OF Cons.prems(1) False _ assms(3,4), of "tidy_text ls"] Cons.prems(2) by (meson list.set_intros(1))
    have "fold2_line wd (cut opts) (join ws) st2 = fold (fold2_word wd (cut opts)) ws st2"
      using False Cons.prems(2) join_no_newline [of ws] words_join [of ws] by (simp add: fold2_line_def)
    with Cons.IH [OF st'(2)] Cons.prems(2) st'(1) show ?thesis by (simp add: tidy_text_def)
  qed
qed

text \<open>
  C39. On tidy text - words of at most 4096 characters without nulls, one space between
  them, no other white space but the ends of the lines - the program and its variant in C++
  print the same, with the same options.
\<close>

theorem fold_variants_agree:
  assumes "\<forall>ws \<in> set ls. \<forall>w \<in> set ws. tidy_word w" "0 \<le> width opts" "width opts < 2 ^ 31"
  shows "vypis opts (tidy_text ls) = Some (fold2 (of_int (width opts)) (cut opts) (tidy_text ls))"
proof -
  define wd :: u32 where "wd = of_int (width opts)"
  have "unat wd = nat (width opts)"
    using assms(2,3) by (simp add: wd_def unat_eq_nat_uint unsigned_of_int take_bit_int_eq_self)
  then have wd: "width opts = int (unat wd)" "unat wd < 2 ^ 31" using assms(2,3) by simp_all
  have "same_state wd ([], 0, True) ([], 0, True)" by (simp add: same_state_def)
  from same_text [OF this assms(1) wd] obtain st' where st': "vypis_loop opts (tidy_text ls) ([], 0, True) = Some st'"
    "same_state wd st' (fold (fold2_line wd (cut opts)) (map join ls) ([], 0, True))" by blast
  have lines: "getlines (tidy_text ls) = map join ls"
    unfolding tidy_text_def by (rule getlines_ended) (use assms(1) join_no_newline in auto)
  have "last_newline st' = fold2 wd (cut opts) (tidy_text ls)"
    unfolding fold2_def lines using st'(2) by (cases st') (auto simp: same_state_def last_newline_def split: prod.splits)
  then show ?thesis using st'(1) by (simp add: vypis_def wd_def)
qed

theorem fold_variants_agree_witness:
  "vypis \<lparr>width = 3, cut = True, filename = None\<rparr> (tidy_text [[[97, 98], [99]], [], [[97, 98, 99, 100, 101]]])
    = Some (fold2 3 True (tidy_text [[[97, 98], [99]], [], [[97, 98, 99, 100, 101]]]))"
  using fold_variants_agree [of "[[[97, 98], [99]], [], [[97, 98, 99, 100, 101]]]" "\<lparr>width = 3, cut = True, filename = None\<rparr>"]
  by (simp add: tidy_word_def is_space_def WORD_MAX_def)

text \<open>A space before the end of a line is an empty line to \<^verbatim>\<open>fold.c\<close>, and nothing to the variant.\<close>

lemma variants_differ:
  "vypis default_options [97, 32, 10, 98, 10] = Some [97, 10, 10, 98, 10]" "fold2 80 False [97, 32, 10, 98, 10] = [97, 32, 98, 10]"
  by code_simp+

end
