(* ===== verification/Ticket_Lock.thy ===== *)
theory Ticket_Lock
  imports C_Numbers
begin

text \<open>
  The threads of \<^verbatim>\<open>POS/proj1/main.c\<close>, which draw tickets and enter a section in their order. A
  thread is a point in the code of \<^verbatim>\<open>worker\<close> with its ticket; the threads take steps in any
  order, one for each access to the mutex, the condition or a shared variable. \<^verbatim>\<open>advance\<close>
  unlocks the mutex before it counts, so the step from the check to the sleep of another
  thread may fall in between. The theorems: the tickets are printed in order, each once, and
  all of them when every thread ends; but there is a run that ends in a lost wakeup.
\<close>

section \<open>Threads\<close>

datatype point = Draw | Count | Draw_unlock | Enter | Check | Sleep | Waiting | Woken | Print | Unlock | Advance | Broadcast | Stop

record thread =
  t_id :: int
  t_ticket :: int
  t_pc :: point

record lock_state =
  actualTicket :: int
  nextTicket :: int
  mutex :: "nat option"
  threads :: "thread list"
  out_tickets :: "(int \<times> int) list"

definition set_pc :: "nat \<Rightarrow> point \<Rightarrow> lock_state \<Rightarrow> lock_state" where
  "set_pc i q s = s\<lparr>threads := (threads s)[i := (threads s ! i)\<lparr>t_pc := q\<rparr>]\<rparr>"

definition lock_mutex :: "nat \<Rightarrow> point \<Rightarrow> lock_state \<Rightarrow> lock_state option" where
  "lock_mutex i q s = (if mutex s = None then Some (set_pc i q (s\<lparr>mutex := Some i\<rparr>)) else None)"

definition unlock_mutex :: "nat \<Rightarrow> point \<Rightarrow> lock_state \<Rightarrow> lock_state" where
  "unlock_mutex i q s = set_pc i q (s\<lparr>mutex := None\<rparr>)"

definition wake :: "thread \<Rightarrow> thread" where
  "wake t = (if t_pc t = Waiting then t\<lparr>t_pc := Woken\<rparr> else t)"

text \<open>
  One step of thread \<open>i\<close> in \<^verbatim>\<open>getticket\<close>, \<^verbatim>\<open>await\<close>, the section or \<^verbatim>\<open>advance\<close>. \<^verbatim>\<open>pthread_cond_wait\<close> is
  three steps: it unlocks and sleeps, is woken, and locks again.
\<close>

definition thread_step :: "int \<Rightarrow> nat \<Rightarrow> lock_state \<Rightarrow> lock_state option" where
  "thread_step passThroughs i s =
     (let t = threads s ! i
      in case t_pc t of
           Draw \<Rightarrow> lock_mutex i Count s
         | Count \<Rightarrow> Some (s\<lparr>nextTicket := nextTicket s + 1, threads := (threads s)[i := t\<lparr>t_ticket := nextTicket s + 1, t_pc := Draw_unlock\<rparr>]\<rparr>)
         | Draw_unlock \<Rightarrow> Some (unlock_mutex i (if t_ticket t < passThroughs then Enter else Stop) s)
         | Enter \<Rightarrow> lock_mutex i Check s
         | Check \<Rightarrow> Some (set_pc i (if t_ticket t \<noteq> actualTicket s then Sleep else Print) s)
         | Sleep \<Rightarrow> Some (unlock_mutex i Waiting s)
         | Waiting \<Rightarrow> None
         | Woken \<Rightarrow> lock_mutex i Check s
         | Print \<Rightarrow> Some (set_pc i Unlock (s\<lparr>out_tickets := out_tickets s @ [(t_ticket t, t_id t)]\<rparr>))
         | Unlock \<Rightarrow> Some (unlock_mutex i Advance s)
         | Advance \<Rightarrow> Some (set_pc i Broadcast (s\<lparr>actualTicket := actualTicket s + 1\<rparr>))
         | Broadcast \<Rightarrow> Some (s\<lparr>threads := map wake ((threads s)[i := t\<lparr>t_pc := Draw\<rparr>])\<rparr>)
         | Stop \<Rightarrow> None)"

definition threads_init :: "nat \<Rightarrow> lock_state" where
  "threads_init threadsCount =
     \<lparr>actualTicket = 0, nextTicket = - 1, mutex = None,
      threads = map (\<lambda>i. \<lparr>t_id = int i + 1, t_ticket = - 1, t_pc = Draw\<rparr>) [0..<threadsCount], out_tickets = []\<rparr>"

text \<open>A thread may also be woken without a broadcast, as POSIX allows.\<close>

definition spurious_wakeup :: "nat \<Rightarrow> lock_state \<Rightarrow> lock_state" where
  "spurious_wakeup i s = s\<lparr>threads := (threads s)[i := wake (threads s ! i)]\<rparr>"

inductive lock_run :: "int \<Rightarrow> nat \<Rightarrow> lock_state \<Rightarrow> bool" for passThroughs threadsCount where
  init: "lock_run passThroughs threadsCount (threads_init threadsCount)"
| step: "lock_run passThroughs threadsCount s \<Longrightarrow> i < threadsCount \<Longrightarrow> thread_step passThroughs i s = Some s' \<Longrightarrow>
    lock_run passThroughs threadsCount s'"
| spurious: "lock_run passThroughs threadsCount s \<Longrightarrow> i < threadsCount \<Longrightarrow> lock_run passThroughs threadsCount (spurious_wakeup i s)"

section \<open>Arguments\<close>

text \<open>\<^verbatim>\<open>ERANGE\<close> is set when the number is not a \<^verbatim>\<open>long\<close>.\<close>

definition parseNumber :: "byte list \<Rightarrow> int option" where
  "parseNumber s =
     (let (number, endptr) = strtol s
      in if strtol_range s then None
         else if endptr = s \<or> endptr \<noteq> [] then None
         else Some number)"

definition lock_main :: "byte list list \<Rightarrow> (int \<times> int) option" where
  "lock_main args =
     (case args of
        a # b # _ \<Rightarrow> do { threadsCount \<leftarrow> parseNumber a; passThroughs \<leftarrow> parseNumber b; Some (threadsCount, passThroughs) }
      | _ \<Rightarrow> None)"

section \<open>The invariant\<close>

text \<open>Who holds the mutex, who holds a ticket that is still to be served, and who is being served.\<close>

definition in_mutex :: "point \<Rightarrow> bool" where
  "in_mutex q \<longleftrightarrow> q \<in> {Count, Draw_unlock, Check, Sleep, Print, Unlock}"

definition pending :: "int \<Rightarrow> thread \<Rightarrow> bool" where
  "pending M t \<longleftrightarrow> t_pc t \<in> {Enter, Check, Sleep, Waiting, Woken, Print, Unlock, Advance} \<or> t_pc t = Draw_unlock \<and> t_ticket t < M"

definition served :: "point \<Rightarrow> bool" where
  "served q \<longleftrightarrow> q \<in> {Print, Unlock, Advance}"

definition was_printed :: "point \<Rightarrow> bool" where
  "was_printed q \<longleftrightarrow> q \<in> {Unlock, Advance}"

definition mutex_ok :: "nat option \<Rightarrow> thread list \<Rightarrow> bool" where
  "mutex_ok m ts \<longleftrightarrow> (\<forall>i < length ts. in_mutex (t_pc (ts ! i)) \<longleftrightarrow> m = Some i)"

definition tickets_ok :: "int \<Rightarrow> int \<Rightarrow> int \<Rightarrow> thread list \<Rightarrow> bool" where
  "tickets_ok M a n ts \<longleftrightarrow> (\<forall>i < length ts. pending M (ts ! i) \<longrightarrow> a \<le> t_ticket (ts ! i) \<and> t_ticket (ts ! i) \<le> n \<and> t_ticket (ts ! i) < M)"

definition distinct_ok :: "int \<Rightarrow> thread list \<Rightarrow> bool" where
  "distinct_ok M ts \<longleftrightarrow> (\<forall>i < length ts. \<forall>j < length ts. pending M (ts ! i) \<longrightarrow> pending M (ts ! j) \<longrightarrow> i \<noteq> j \<longrightarrow>
     t_ticket (ts ! i) \<noteq> t_ticket (ts ! j))"

definition served_ok :: "int \<Rightarrow> thread list \<Rightarrow> bool" where
  "served_ok a ts \<longleftrightarrow> (\<forall>i < length ts. served (t_pc (ts ! i)) \<longrightarrow> t_ticket (ts ! i) = a)"

definition output_ok :: "int \<Rightarrow> (int \<times> int) list \<Rightarrow> thread list \<Rightarrow> bool" where
  "output_ok a out ts \<longleftrightarrow> map fst out = [0..a - 1] @ (if \<exists>i < length ts. was_printed (t_pc (ts ! i)) then [a] else [])"

definition covered_ok :: "int \<Rightarrow> int \<Rightarrow> int \<Rightarrow> thread list \<Rightarrow> bool" where
  "covered_ok M a n ts \<longleftrightarrow> (\<forall>k. a \<le> k \<longrightarrow> k \<le> n \<longrightarrow> k < M \<longrightarrow> (\<exists>i < length ts. pending M (ts ! i) \<and> t_ticket (ts ! i) = k))"

definition stop_ok :: "int \<Rightarrow> int \<Rightarrow> thread list \<Rightarrow> bool" where
  "stop_ok M n ts \<longleftrightarrow> (\<forall>i < length ts. t_pc (ts ! i) = Stop \<or> t_pc (ts ! i) = Draw_unlock \<and> \<not> t_ticket (ts ! i) < M \<longrightarrow> M \<le> n)"

definition lock_ok :: "int \<Rightarrow> nat \<Rightarrow> lock_state \<Rightarrow> bool" where
  "lock_ok M N s \<longleftrightarrow> length (threads s) = N \<and> 0 \<le> actualTicket s \<and> actualTicket s \<le> nextTicket s + 1 \<and> actualTicket s \<le> max 0 M
     \<and> mutex_ok (mutex s) (threads s) \<and> tickets_ok M (actualTicket s) (nextTicket s) (threads s) \<and> distinct_ok M (threads s)
     \<and> served_ok (actualTicket s) (threads s) \<and> output_ok (actualTicket s) (out_tickets s) (threads s)
     \<and> covered_ok M (actualTicket s) (nextTicket s) (threads s) \<and> stop_ok M (nextTicket s) (threads s)"

text \<open>A thread that goes on with its ticket, without entering or leaving what the parts of the invariant speak of.\<close>

lemma tickets_move:
  assumes "tickets_ok M a n ts" "i < length ts" "pending M t \<Longrightarrow> pending M (ts ! i) \<and> t_ticket t = t_ticket (ts ! i)"
  shows "tickets_ok M a n (ts[i := t])"
  using assms unfolding tickets_ok_def by (auto simp: nth_list_update)

lemma distinct_move:
  assumes "distinct_ok M ts" "i < length ts" "pending M t \<Longrightarrow> pending M (ts ! i) \<and> t_ticket t = t_ticket (ts ! i)"
  shows "distinct_ok M (ts[i := t])"
  using assms unfolding distinct_ok_def by (auto simp: nth_list_update)

lemma served_move:
  assumes "served_ok a ts" "i < length ts" "served (t_pc t) \<Longrightarrow> t_ticket t = a"
  shows "served_ok a (ts[i := t])"
  using assms unfolding served_ok_def by (auto simp: nth_list_update)

lemma output_move:
  assumes "output_ok a out ts" "i < length ts" "was_printed (t_pc t) = was_printed (t_pc (ts ! i))"
  shows "output_ok a out (ts[i := t])"
proof -
  have "was_printed (t_pc (ts[i := t] ! j)) = was_printed (t_pc (ts ! j))" for j using assms(2,3) by (simp add: nth_list_update)
  then show ?thesis using assms(1) unfolding output_ok_def by simp
qed

lemma covered_move:
  assumes "covered_ok M a n ts" "i < length ts" "pending M (ts ! i) \<Longrightarrow> pending M t \<and> t_ticket t = t_ticket (ts ! i)"
  shows "covered_ok M a n (ts[i := t])"
  unfolding covered_ok_def
proof (intro allI impI)
  fix k assume "a \<le> k" "k \<le> n" "k < M"
  then obtain j where j: "j < length ts" "pending M (ts ! j)" "t_ticket (ts ! j) = k" using assms(1) unfolding covered_ok_def by blast
  then show "\<exists>j < length (ts[i := t]). pending M (ts[i := t] ! j) \<and> t_ticket (ts[i := t] ! j) = k"
    using assms(2,3) by (intro exI [of _ j]) (auto simp: nth_list_update)
qed

lemma stop_move:
  assumes "stop_ok M n ts" "i < length ts" "t_pc t = Stop \<or> t_pc t = Draw_unlock \<and> \<not> t_ticket t < M \<Longrightarrow> M \<le> n"
  shows "stop_ok M n (ts[i := t])"
  using assms unfolding stop_ok_def by (auto simp: nth_list_update)

lemma mutex_move:
  assumes "mutex_ok m ts" "i < length ts" "in_mutex (t_pc t) = in_mutex (t_pc (ts ! i))"
  shows "mutex_ok m (ts[i := t])"
  using assms unfolding mutex_ok_def by (auto simp: nth_list_update)

lemma mutex_lock:
  assumes "mutex_ok None ts" "i < length ts" "in_mutex (t_pc t)"
  shows "mutex_ok (Some i) (ts[i := t])"
  using assms unfolding mutex_ok_def by (auto simp: nth_list_update)

lemma mutex_unlock:
  assumes "mutex_ok m ts" "i < length ts" "in_mutex (t_pc (ts ! i))" "\<not> in_mutex (t_pc t)"
  shows "mutex_ok None (ts[i := t])"
  using assms unfolding mutex_ok_def by (auto simp: nth_list_update)

lemma lock_okD:
  assumes "lock_ok M N s"
  shows "length (threads s) = N" "0 \<le> actualTicket s" "actualTicket s \<le> nextTicket s + 1" "actualTicket s \<le> max 0 M"
    "mutex_ok (mutex s) (threads s)" "tickets_ok M (actualTicket s) (nextTicket s) (threads s)" "distinct_ok M (threads s)"
    "served_ok (actualTicket s) (threads s)" "output_ok (actualTicket s) (out_tickets s) (threads s)"
    "covered_ok M (actualTicket s) (nextTicket s) (threads s)" "stop_ok M (nextTicket s) (threads s)"
  using assms unfolding lock_ok_def by blast+

lemmas classes = in_mutex_def pending_def served_def was_printed_def

text \<open>A step that changes only the point of the thread and perhaps the mutex.\<close>

lemma point_move:
  assumes ok: "lock_ok M N s" and i: "i < N" and m: "mutex_ok m ((threads s)[i := (threads s ! i)\<lparr>t_pc := q\<rparr>])"
    and p: "pending M ((threads s ! i)\<lparr>t_pc := q\<rparr>) = pending M (threads s ! i)"
    and sv: "served q \<Longrightarrow> t_ticket (threads s ! i) = actualTicket s"
    and pr: "was_printed q = was_printed (t_pc (threads s ! i))"
    and st: "q = Stop \<or> q = Draw_unlock \<and> \<not> t_ticket (threads s ! i) < M \<Longrightarrow> M \<le> nextTicket s"
  shows "lock_ok M N (s\<lparr>mutex := m, threads := (threads s)[i := (threads s ! i)\<lparr>t_pc := q\<rparr>]\<rparr>)"
proof -
  note d = lock_okD [OF ok]
  have i': "i < length (threads s)" using i d(1) by simp
  let ?ts = "(threads s)[i := (threads s ! i)\<lparr>t_pc := q\<rparr>]"
  have "tickets_ok M (actualTicket s) (nextTicket s) ?ts" by (rule tickets_move [OF d(6) i']) (use p in simp)
  moreover have "distinct_ok M ?ts" by (rule distinct_move [OF d(7) i']) (use p in simp)
  moreover have "served_ok (actualTicket s) ?ts" by (rule served_move [OF d(8) i']) (use sv in simp)
  moreover have "output_ok (actualTicket s) (out_tickets s) ?ts" by (rule output_move [OF d(9) i']) (use pr in simp)
  moreover have "covered_ok M (actualTicket s) (nextTicket s) ?ts" by (rule covered_move [OF d(10) i']) (use p in simp)
  moreover have "stop_ok M (nextTicket s) ?ts" by (rule stop_move [OF d(11) i']) (use st in simp)
  ultimately show ?thesis using d(1-4) m by (simp add: lock_ok_def)
qed

text \<open>Being woken changes nothing of what the invariant says.\<close>

lemma wake_same:
  "in_mutex (t_pc (wake t)) = in_mutex (t_pc t)" "pending M (wake t) = pending M t" "t_ticket (wake t) = t_ticket t"
  "served (t_pc (wake t)) = served (t_pc t)" "was_printed (t_pc (wake t)) = was_printed (t_pc t)"
  "(t_pc (wake t) = Stop) = (t_pc t = Stop)" "(t_pc (wake t) = Draw_unlock) = (t_pc t = Draw_unlock)"
  by (auto simp: wake_def classes)

lemma wake_all:
  "lock_ok M N (s\<lparr>threads := ts\<rparr>) \<Longrightarrow> lock_ok M N (s\<lparr>threads := map wake ts\<rparr>)"
  unfolding lock_ok_def mutex_ok_def tickets_ok_def distinct_ok_def served_ok_def output_ok_def covered_ok_def stop_ok_def
  by (simp add: wake_same cong: conj_cong)

lemma step_ok:
  assumes ok: "lock_ok M N s" and i: "i < N" and st: "thread_step M i s = Some s'"
  shows "lock_ok M N s'"
proof -
  note d = lock_okD [OF ok]
  have i': "i < length (threads s)" using i d(1) by simp
  define t where "t = threads s ! i"
  have ins: "in_mutex (t_pc t) = (mutex s = Some i)" using d(5) i' by (simp add: mutex_ok_def t_def)
  have pm: "lock_ok M N (s\<lparr>mutex := m, threads := (threads s)[i := t\<lparr>t_pc := q\<rparr>]\<rparr>)"
    if "mutex_ok m ((threads s)[i := t\<lparr>t_pc := q\<rparr>])" "pending M (t\<lparr>t_pc := q\<rparr>) = pending M t"
      "served q \<Longrightarrow> t_ticket t = actualTicket s" "was_printed q = was_printed (t_pc t)" "q = Stop \<or> q = Draw_unlock \<and> \<not> t_ticket t < M \<Longrightarrow> M \<le> nextTicket s"
    for m q
    using point_move [OF ok i, folded t_def, OF that] .
  have locked: "lock_ok M N s1" if "lock_mutex i q s = Some s1" "in_mutex q" "pending M (t\<lparr>t_pc := q\<rparr>) = pending M t" "\<not> served q" "\<not> was_printed q"
      "\<not> was_printed (t_pc t)" "q \<noteq> Stop" "q \<noteq> Draw_unlock" for q s1
  proof -
    have m: "mutex s = None" "s1 = s\<lparr>mutex := Some i, threads := (threads s)[i := t\<lparr>t_pc := q\<rparr>]\<rparr>"
      using that(1) by (auto simp: lock_mutex_def set_pc_def t_def split: if_splits)
    have "mutex_ok (Some i) ((threads s)[i := t\<lparr>t_pc := q\<rparr>])" using d(5) m(1) i' that(2) by (intro mutex_lock) simp_all
    then show ?thesis unfolding m(2) using that by (intro pm) simp_all
  qed
  have unlocked: "lock_ok M N (unlock_mutex i q s)" if "in_mutex (t_pc t)" "\<not> in_mutex q" "pending M (t\<lparr>t_pc := q\<rparr>) = pending M t"
      "served q \<Longrightarrow> t_ticket t = actualTicket s" "was_printed q = was_printed (t_pc t)" "q = Stop \<or> q = Draw_unlock \<and> \<not> t_ticket t < M \<Longrightarrow> M \<le> nextTicket s" for q
  proof -
    have "mutex_ok None ((threads s)[i := t\<lparr>t_pc := q\<rparr>])" using d(5) i' that(1,2) by (intro mutex_unlock) (simp_all add: t_def)
    then have "lock_ok M N (s\<lparr>mutex := None, threads := (threads s)[i := t\<lparr>t_pc := q\<rparr>]\<rparr>)" using that by (intro pm) simp_all
    then show ?thesis by (simp add: unlock_mutex_def set_pc_def t_def)
  qed
  show ?thesis
  proof (cases "t_pc t")
    case Draw
    then show ?thesis using st by (intro locked [of Count]) (simp_all add: thread_step_def t_def classes Let_def)
  next
    case Enter
    then show ?thesis using st by (intro locked [of Check]) (simp_all add: thread_step_def t_def classes Let_def)
  next
    case Woken
    then show ?thesis using st by (intro locked [of Check]) (simp_all add: thread_step_def t_def classes Let_def)
  next
    case Draw_unlock
    have "M \<le> nextTicket s" if "\<not> t_ticket t < M" using d(11) i' Draw_unlock that by (simp add: stop_ok_def t_def)
    then have "lock_ok M N (unlock_mutex i (if t_ticket t < M then Enter else Stop) s)"
      using Draw_unlock by (intro unlocked) (auto simp: classes split: if_splits)
    then show ?thesis using st Draw_unlock by (simp add: thread_step_def t_def Let_def)
  next
    case Sleep
    then have "lock_ok M N (unlock_mutex i Waiting s)" by (intro unlocked) (simp_all add: classes)
    then show ?thesis using st Sleep by (simp add: thread_step_def t_def Let_def)
  next
    case Unlock
    then have "t_ticket t = actualTicket s" using d(8) i' by (simp add: served_ok_def t_def classes)
    with Unlock have "lock_ok M N (unlock_mutex i Advance s)" by (intro unlocked) (simp_all add: classes)
    then show ?thesis using st Unlock by (simp add: thread_step_def t_def Let_def)
  next
    case Check
    define q where "q = (if t_ticket t \<noteq> actualTicket s then Sleep else Print)"
    have "mutex_ok (mutex s) ((threads s)[i := t\<lparr>t_pc := q\<rparr>])" using d(5) i' Check by (intro mutex_move) (simp_all add: t_def q_def classes)
    then have "lock_ok M N (s\<lparr>mutex := mutex s, threads := (threads s)[i := t\<lparr>t_pc := q\<rparr>]\<rparr>)"
      using Check by (intro pm) (auto simp: q_def classes split: if_splits)
    then show ?thesis using st Check by (simp add: thread_step_def t_def Let_def set_pc_def q_def)
  next
    case Count
    define ts where "ts = (threads s)[i := t\<lparr>t_ticket := nextTicket s + 1, t_pc := Draw_unlock\<rparr>]"
    have s': "s' = s\<lparr>nextTicket := nextTicket s + 1, threads := ts\<rparr>" using st Count by (simp add: thread_step_def t_def ts_def Let_def)
    have nth: "ts ! j = (if j = i then t\<lparr>t_ticket := nextTicket s + 1, t_pc := Draw_unlock\<rparr> else threads s ! j)" for j
      using i' by (simp add: ts_def nth_list_update)
    have len: "length ts = length (threads s)" by (simp add: ts_def)
    have np: "\<not> pending M t" using Count by (simp add: classes)
    have "mutex_ok (mutex s) ts" unfolding ts_def using d(5) i' Count by (intro mutex_move) (simp_all add: t_def classes)
    moreover have "tickets_ok M (actualTicket s) (nextTicket s + 1) ts"
      unfolding tickets_ok_def len
    proof (intro allI impI)
      fix j assume j: "j < length (threads s)" "pending M (ts ! j)"
      show "actualTicket s \<le> t_ticket (ts ! j) \<and> t_ticket (ts ! j) \<le> nextTicket s + 1 \<and> t_ticket (ts ! j) < M"
      proof (cases "j = i")
        case True
        then show ?thesis using j(2) d(3) by (simp add: nth classes)
      next
        case False
        then have "pending M (threads s ! j)" using j(2) by (simp add: nth)
        then show ?thesis using d(6) j(1) False unfolding tickets_ok_def by (fastforce simp: nth)
      qed
    qed
    moreover have "distinct_ok M ts" unfolding distinct_ok_def len
    proof (intro allI impI)
      have old: "t_ticket (threads s ! j) \<noteq> nextTicket s + 1" if "j < length (threads s)" "pending M (threads s ! j)" for j
        using d(6) that unfolding tickets_ok_def by fastforce
      fix j k assume jk: "j < length (threads s)" "k < length (threads s)" "pending M (ts ! j)" "pending M (ts ! k)" "j \<noteq> k"
      consider "j = i" "k \<noteq> i" | "k = i" "j \<noteq> i" | "j \<noteq> i" "k \<noteq> i" using jk(5) by blast
      then show "t_ticket (ts ! j) \<noteq> t_ticket (ts ! k)"
      proof cases
        case 1
        then show ?thesis using old [OF jk(2)] jk(4) by (simp add: nth)
      next
        case 2
        then show ?thesis using old [OF jk(1)] jk(3) by (simp add: nth)
      next
        case 3
        then show ?thesis using d(7) jk unfolding distinct_ok_def by (simp add: nth)
      qed
    qed
    moreover have "served_ok (actualTicket s) ts" unfolding ts_def using d(8) i' by (intro served_move) (simp_all add: classes)
    moreover have "output_ok (actualTicket s) (out_tickets s) ts" unfolding ts_def using d(9) i' Count by (intro output_move) (simp_all add: t_def classes)
    moreover have "covered_ok M (actualTicket s) (nextTicket s + 1) ts" unfolding covered_ok_def
    proof (intro allI impI)
      fix k assume k: "actualTicket s \<le> k" "k \<le> nextTicket s + 1" "k < M"
      show "\<exists>j < length ts. pending M (ts ! j) \<and> t_ticket (ts ! j) = k"
      proof (cases "k = nextTicket s + 1")
        case True
        then show ?thesis using k(3) i' by (intro exI [of _ i]) (simp add: nth len classes)
      next
        case False
        then obtain j where j: "j < length (threads s)" "pending M (threads s ! j)" "t_ticket (threads s ! j) = k"
          using d(10) k unfolding covered_ok_def by force
        then have "j \<noteq> i" using np by (auto simp: t_def)
        with j show ?thesis by (intro exI [of _ j]) (simp add: nth len)
      qed
    qed
    moreover have "stop_ok M (nextTicket s + 1) ts" using d(11) unfolding stop_ok_def len nth by (auto simp: not_less intro: order_trans)
    ultimately show ?thesis using d(1-4) unfolding s' lock_ok_def by (simp add: len)
  next
    case Print
    have tk: "t_ticket t = actualTicket s" using d(8) i' Print by (simp add: served_ok_def t_def classes)
    have unique: "j = i" if "j < length (threads s)" "was_printed (t_pc (threads s ! j))" for j
    proof (rule ccontr)
      assume "j \<noteq> i"
      have "pending M (threads s ! j)" "served (t_pc (threads s ! j))" using that(2) by (auto simp: classes)
      moreover from this(2) have "t_ticket (threads s ! j) = actualTicket s" using d(8) that(1) by (simp add: served_ok_def)
      moreover have "pending M (threads s ! i)" using Print by (simp add: t_def classes)
      ultimately show False using d(7) that(1) i' tk \<open>j \<noteq> i\<close> unfolding distinct_ok_def t_def by metis
    qed
    have "\<not> was_printed (t_pc (threads s ! i))" using Print by (simp add: t_def classes)
    then have out: "map fst (out_tickets s) = [0..actualTicket s - 1]" using d(9) unique unfolding output_ok_def by (auto split: if_splits)
    have "mutex_ok (mutex s) ((threads s)[i := t\<lparr>t_pc := Unlock\<rparr>])" using d(5) i' Print by (intro mutex_move) (simp_all add: t_def classes)
    moreover have "tickets_ok M (actualTicket s) (nextTicket s) ((threads s)[i := t\<lparr>t_pc := Unlock\<rparr>])"
      by (rule tickets_move [OF d(6) i']) (use Print in \<open>simp add: t_def classes\<close>)
    moreover have "distinct_ok M ((threads s)[i := t\<lparr>t_pc := Unlock\<rparr>])"
      by (rule distinct_move [OF d(7) i']) (use Print in \<open>simp add: t_def classes\<close>)
    moreover have "served_ok (actualTicket s) ((threads s)[i := t\<lparr>t_pc := Unlock\<rparr>])" by (rule served_move [OF d(8) i']) (use tk in simp)
    moreover have "output_ok (actualTicket s) (out_tickets s @ [(t_ticket t, t_id t)]) ((threads s)[i := t\<lparr>t_pc := Unlock\<rparr>])"
    proof -
      have "\<exists>j < length (threads s). was_printed (t_pc ((threads s)[i := t\<lparr>t_pc := Unlock\<rparr>] ! j))" using i' by (intro exI [of _ i]) (simp add: classes)
      then show ?thesis by (simp add: output_ok_def out tk)
    qed
    moreover have "covered_ok M (actualTicket s) (nextTicket s) ((threads s)[i := t\<lparr>t_pc := Unlock\<rparr>])"
      by (rule covered_move [OF d(10) i']) (simp add: t_def classes)
    moreover have "stop_ok M (nextTicket s) ((threads s)[i := t\<lparr>t_pc := Unlock\<rparr>])" by (rule stop_move [OF d(11) i']) simp
    moreover have "s' = s\<lparr>out_tickets := out_tickets s @ [(t_ticket t, t_id t)], threads := (threads s)[i := t\<lparr>t_pc := Unlock\<rparr>]\<rparr>"
      using st Print by (simp add: thread_step_def t_def Let_def set_pc_def)
    ultimately show ?thesis using d(1-4) unfolding lock_ok_def by simp
  next
    case Advance
    define ts where "ts = (threads s)[i := t\<lparr>t_pc := Broadcast\<rparr>]"
    have s': "s' = s\<lparr>actualTicket := actualTicket s + 1, threads := ts\<rparr>" using st Advance by (simp add: thread_step_def t_def ts_def Let_def set_pc_def)
    have nth: "ts ! j = (if j = i then t\<lparr>t_pc := Broadcast\<rparr> else threads s ! j)" for j using i' by (simp add: ts_def nth_list_update)
    have len: "length ts = length (threads s)" by (simp add: ts_def)
    have tk: "t_ticket t = actualTicket s" using d(8) i' Advance by (simp add: served_ok_def t_def classes)
    have p: "pending M t" using Advance by (simp add: classes)
    then have nx: "actualTicket s \<le> nextTicket s" "actualTicket s < M" using d(6) i' tk unfolding tickets_ok_def t_def by fastforce+
    have other: "t_ticket (threads s ! j) \<noteq> actualTicket s" if "j < length (threads s)" "j \<noteq> i" "pending M (threads s ! j)" for j
      using d(7) that p tk i' unfolding distinct_ok_def t_def by metis
    have sv: "pending M (threads s ! j)" if "served (t_pc (threads s ! j))" for j using that by (auto simp: classes)
    have "mutex_ok (mutex s) ts" unfolding ts_def using d(5) i' Advance by (intro mutex_move) (simp_all add: t_def classes)
    moreover have "tickets_ok M (actualTicket s + 1) (nextTicket s) ts" unfolding tickets_ok_def len nth
    proof (intro allI impI)
      fix j assume j: "j < length (threads s)" "pending M (if j = i then t\<lparr>t_pc := Broadcast\<rparr> else threads s ! j)"
      then have "j \<noteq> i" "pending M (threads s ! j)" by (auto simp: classes split: if_splits)
      then have "actualTicket s \<le> t_ticket (threads s ! j) \<and> t_ticket (threads s ! j) \<le> nextTicket s \<and> t_ticket (threads s ! j) < M"
        "t_ticket (threads s ! j) \<noteq> actualTicket s" using d(6) j(1) other unfolding tickets_ok_def by blast+
      with \<open>j \<noteq> i\<close> show "actualTicket s + 1 \<le> t_ticket (if j = i then t\<lparr>t_pc := Broadcast\<rparr> else threads s ! j)
          \<and> t_ticket (if j = i then t\<lparr>t_pc := Broadcast\<rparr> else threads s ! j) \<le> nextTicket s
          \<and> t_ticket (if j = i then t\<lparr>t_pc := Broadcast\<rparr> else threads s ! j) < M" by simp
    qed
    moreover have "distinct_ok M ts" unfolding ts_def by (rule distinct_move [OF d(7) i']) (simp add: classes)
    moreover have "served_ok (actualTicket s + 1) ts" unfolding served_ok_def len nth
    proof (intro allI impI)
      fix j assume j: "j < length (threads s)" "served (t_pc (if j = i then t\<lparr>t_pc := Broadcast\<rparr> else threads s ! j))"
      then have "j \<noteq> i" "served (t_pc (threads s ! j))" by (auto simp: classes split: if_splits)
      moreover from this(2) have "t_ticket (threads s ! j) = actualTicket s" using d(8) j(1) by (simp add: served_ok_def)
      ultimately have False using other [OF j(1)] sv by blast
      then show "t_ticket (if j = i then t\<lparr>t_pc := Broadcast\<rparr> else threads s ! j) = actualTicket s + 1" ..
    qed
    moreover have "output_ok (actualTicket s + 1) (out_tickets s) ts"
    proof -
      have "\<exists>j < length (threads s). was_printed (t_pc (threads s ! j))" using i' Advance by (intro exI [of _ i]) (simp add: t_def classes)
      then have o: "map fst (out_tickets s) = [0..actualTicket s - 1] @ [actualTicket s]" using d(9) by (simp add: output_ok_def)
      have "\<not> was_printed (t_pc (ts ! j))" if "j < length ts" for j
      proof
        assume a: "was_printed (t_pc (ts ! j))"
        then have "j \<noteq> i" "served (t_pc (threads s ! j))" by (auto simp: nth classes split: if_splits)
        moreover from this(2) have "t_ticket (threads s ! j) = actualTicket s" using d(8) that len by (simp add: served_ok_def)
        ultimately show False using other [of j] sv that len by metis
      qed
      then show ?thesis using o d(2) upto_rec2 [of 0 "actualTicket s"] by (auto simp: output_ok_def)
    qed
    moreover have "covered_ok M (actualTicket s + 1) (nextTicket s) ts" unfolding covered_ok_def len nth
    proof (intro allI impI)
      fix k assume k: "actualTicket s + 1 \<le> k" "k \<le> nextTicket s" "k < M"
      then have "actualTicket s \<le> k" by simp
      then obtain j where j: "j < length (threads s)" "pending M (threads s ! j)" "t_ticket (threads s ! j) = k"
        using d(10) k(2,3) unfolding covered_ok_def by blast
      then have "j \<noteq> i" using k(1) tk by (auto simp: t_def)
      with j show "\<exists>j < length (threads s). pending M (if j = i then t\<lparr>t_pc := Broadcast\<rparr> else threads s ! j)
          \<and> t_ticket (if j = i then t\<lparr>t_pc := Broadcast\<rparr> else threads s ! j) = k" by (intro exI [of _ j]) simp
    qed
    moreover have "stop_ok M (nextTicket s) ts" unfolding ts_def by (rule stop_move [OF d(11) i']) simp
    ultimately show ?thesis using d(1-4) nx unfolding s' lock_ok_def by (simp add: len)
  next
    case Broadcast
    have "mutex_ok (mutex s) ((threads s)[i := t\<lparr>t_pc := Draw\<rparr>])" using d(5) i' Broadcast by (intro mutex_move) (simp_all add: t_def classes)
    then have "lock_ok M N (s\<lparr>mutex := mutex s, threads := (threads s)[i := t\<lparr>t_pc := Draw\<rparr>]\<rparr>)"
      using Broadcast by (intro pm) (simp_all add: classes)
    then have "lock_ok M N (s\<lparr>threads := map wake ((threads s)[i := t\<lparr>t_pc := Draw\<rparr>])\<rparr>)" by (intro wake_all) simp
    then show ?thesis using st Broadcast by (simp add: thread_step_def t_def Let_def)
  qed (use st in \<open>simp_all add: thread_step_def t_def Let_def\<close>)
qed

lemma spurious_ok:
  assumes ok: "lock_ok M N s" and i: "i < N"
  shows "lock_ok M N (spurious_wakeup i s)"
proof -
  note d = lock_okD [OF ok]
  have i': "i < length (threads s)" using i d(1) by simp
  have "mutex_ok (mutex s) ((threads s)[i := wake (threads s ! i)])" by (rule mutex_move [OF d(5) i']) (simp add: wake_same)
  moreover have "tickets_ok M (actualTicket s) (nextTicket s) ((threads s)[i := wake (threads s ! i)])"
    by (rule tickets_move [OF d(6) i']) (simp add: wake_same)
  moreover have "distinct_ok M ((threads s)[i := wake (threads s ! i)])" by (rule distinct_move [OF d(7) i']) (simp add: wake_same)
  moreover have "served_ok (actualTicket s) ((threads s)[i := wake (threads s ! i)])"
    by (rule served_move [OF d(8) i']) (use d(8) i' in \<open>simp add: wake_same served_ok_def\<close>)
  moreover have "output_ok (actualTicket s) (out_tickets s) ((threads s)[i := wake (threads s ! i)])"
    by (rule output_move [OF d(9) i']) (simp add: wake_same)
  moreover have "covered_ok M (actualTicket s) (nextTicket s) ((threads s)[i := wake (threads s ! i)])"
    by (rule covered_move [OF d(10) i']) (simp add: wake_same)
  moreover have "stop_ok M (nextTicket s) ((threads s)[i := wake (threads s ! i)])"
    by (rule stop_move [OF d(11) i']) (use d(11) i' in \<open>auto simp: wake_same stop_ok_def\<close>)
  ultimately show ?thesis using d(1-4) by (simp add: spurious_wakeup_def lock_ok_def)
qed

lemma run_lock_ok: "lock_run M N s \<Longrightarrow> lock_ok M N s"
proof (induction rule: lock_run.induct)
  case init
  show ?case
    by (simp add: lock_ok_def threads_init_def mutex_ok_def tickets_ok_def distinct_ok_def served_ok_def output_ok_def covered_ok_def stop_ok_def classes)
next
  case (step s i s')
  then show ?case using step_ok by blast
next
  case (spurious s i)
  then show ?case using spurious_ok by blast
qed

section \<open>The theorems\<close>

text \<open>
  C21. In every state that the threads can reach, whatever the order of their steps and with
  spurious wakeups: the tickets printed are 0, 1, 2 and so on, each once and below the number
  of passes, at most one thread is in the section, and when all threads have ended every
  ticket below the number of passes was printed.
\<close>

theorem tickets_in_order:
  assumes "lock_run passThroughs threadsCount s"
  shows "(\<exists>n. n \<le> max 0 passThroughs \<and> map fst (out_tickets s) = [0..n - 1])
    \<and> (\<forall>i < threadsCount. \<forall>j < threadsCount. t_pc (threads s ! i) \<in> {Print, Unlock} \<longrightarrow> t_pc (threads s ! j) \<in> {Print, Unlock} \<longrightarrow> i = j)
    \<and> (0 < threadsCount \<longrightarrow> (\<forall>i < threadsCount. t_pc (threads s ! i) = Stop) \<longrightarrow> map fst (out_tickets s) = [0..passThroughs - 1])"
proof -
  have ok: "lock_ok passThroughs threadsCount s" by (rule run_lock_ok [OF assms])
  note d = lock_okD [OF ok]
  have one: "\<exists>n. n \<le> max 0 passThroughs \<and> map fst (out_tickets s) = [0..n - 1]"
  proof (cases "\<exists>i < length (threads s). was_printed (t_pc (threads s ! i))")
    case True
    then obtain i where i: "i < length (threads s)" "was_printed (t_pc (threads s ! i))" by blast
    then have "served (t_pc (threads s ! i))" "pending passThroughs (threads s ! i)" by (auto simp: classes)
    then have "actualTicket s < passThroughs" using d(6,8) i(1) unfolding tickets_ok_def served_ok_def by fastforce
    moreover have "map fst (out_tickets s) = [0..actualTicket s]"
      using d(9) True d(2) upto_rec2 [of 0 "actualTicket s"] by (simp add: output_ok_def)
    ultimately show ?thesis by (intro exI [of _ "actualTicket s + 1"]) simp
  next
    case False
    then show ?thesis using d(4,9) by (intro exI [of _ "actualTicket s"]) (simp add: output_ok_def)
  qed
  have two: "i = j" if "i < threadsCount" "j < threadsCount" "t_pc (threads s ! i) \<in> {Print, Unlock}" "t_pc (threads s ! j) \<in> {Print, Unlock}" for i j
  proof -
    have "in_mutex (t_pc (threads s ! i))" "in_mutex (t_pc (threads s ! j))" using that(3,4) by (auto simp: classes)
    then show ?thesis using d(1,5) that(1,2) unfolding mutex_ok_def by auto
  qed
  have three: "map fst (out_tickets s) = [0..passThroughs - 1]"
    if "0 < threadsCount" "\<forall>i < threadsCount. t_pc (threads s ! i) = Stop"
  proof -
    have np: "\<not> pending passThroughs (threads s ! i)" "\<not> was_printed (t_pc (threads s ! i))" if "i < length (threads s)" for i
      using \<open>\<forall>i < threadsCount. t_pc (threads s ! i) = Stop\<close> that d(1) by (simp_all add: classes)
    have "passThroughs \<le> nextTicket s" using d(1,11) that unfolding stop_ok_def by blast
    have a: "passThroughs \<le> actualTicket s"
    proof (rule ccontr)
      assume "\<not> passThroughs \<le> actualTicket s"
      then have "actualTicket s \<le> nextTicket s" "actualTicket s < passThroughs" using \<open>passThroughs \<le> nextTicket s\<close> by simp_all
      then show False using d(10) np(1) unfolding covered_ok_def by blast
    qed
    have "[0..actualTicket s - 1] = [0..passThroughs - 1]" using a d(2,4) by (cases "0 \<le> passThroughs") auto
    then show ?thesis using d(9) np(2) by (auto simp: output_ok_def)
  qed
  show ?thesis using one two three by blast
qed

text \<open>A schedule of the threads, and a run of two threads through one pass.\<close>

fun schedule :: "int \<Rightarrow> nat list \<Rightarrow> lock_state \<Rightarrow> lock_state option" where
  "schedule M [] s = Some s"
| "schedule M (i # is) s = (case thread_step M i s of None \<Rightarrow> None | Some s' \<Rightarrow> schedule M is s')"

lemma schedule_run: "lock_run M N s \<Longrightarrow> \<forall>i \<in> set is. i < N \<Longrightarrow> schedule M is s = Some s' \<Longrightarrow> lock_run M N s'"
  by (induction "is" arbitrary: s) (auto split: option.splits dest: lock_run.step)

definition view :: "lock_state \<Rightarrow> (int \<times> int) list \<times> point list" where
  "view s = (out_tickets s, map t_pc (threads s))"

theorem tickets_in_order_witness:
  "\<exists>s. lock_run 1 2 s \<and> (\<forall>i < 2. t_pc (threads s ! i) = Stop) \<and> map fst (out_tickets s) = [0]"
proof -
  define s where "s = the (schedule 1 ([0, 0, 0, 0, 0, 0, 0, 0, 0, 0, 0, 0] @ [1, 1, 1]) (threads_init 2))"
  have r: "schedule 1 ([0, 0, 0, 0, 0, 0, 0, 0, 0, 0, 0, 0] @ [1, 1, 1]) (threads_init 2) = Some s"
    "map t_pc (threads s) = [Stop, Stop]" unfolding s_def by code_simp+
  have run: "lock_run 1 2 s" by (rule schedule_run [OF lock_run.init _ r(1)]) simp
  have "length (threads s) = 2" "\<forall>p \<in> set (map t_pc (threads s)). p = Stop" using r(2) by (metis length_map length_Cons list.size(3) numeral_2_eq_2, simp)
  then have "\<forall>i < 2. t_pc (threads s ! i) = Stop" by simp
  with tickets_in_order [OF run] run show ?thesis by auto
qed

text \<open>
  The lost wakeup: two threads and two passes can reach a state in which one thread has
  ended and the other sleeps for ever, its ticket 1 never printed; no step of a thread is
  possible any more.
\<close>

theorem lost_wakeup:
  "\<exists>s. lock_run 2 2 s \<and> thread_step 2 0 s = None \<and> thread_step 2 1 s = None \<and> t_pc (threads s ! 1) = Waiting \<and> map fst (out_tickets s) = [0]"
proof -
  define s where "s = the (schedule 2 ([0, 0, 0, 0, 0, 0, 0] @ [1, 1, 1, 1, 1] @ [0, 0] @ [1] @ [0, 0, 0]) (threads_init 2))"
  have r: "schedule 2 ([0, 0, 0, 0, 0, 0, 0] @ [1, 1, 1, 1, 1] @ [0, 0] @ [1] @ [0, 0, 0]) (threads_init 2) = Some s"
    "thread_step 2 0 s = None" "thread_step 2 1 s = None" "t_pc (threads s ! 1) = Waiting" "map fst (out_tickets s) = [0]"
    unfolding s_def by code_simp+
  have "lock_run 2 2 s" by (rule schedule_run [OF lock_run.init _ r(1)]) simp
  then show ?thesis using r(2-5) by (intro exI [of _ s] conjI)
qed

end
