(* ===== verification/Shell_Parser.thy ===== *)
theory Shell_Parser
  imports C_Numbers
begin

text \<open>
  The command parser of the shell of \<^verbatim>\<open>POS/proj2/main.c\<close>: a state machine over the characters
  of the buffer, with the positions of the word it is in. An argument that does not fit the
  array of arguments has no result. The theorem: arguments, files and the background mark,
  separated by spaces, are what the parser finds, but the fourth argument is written after
  the end of the array.
\<close>

section \<open>The state of the parser\<close>

datatype FMStates = New | Add | Input | InputAdd | Output | OutputAdd

record programInfo =
  args :: "byte list list"
  input_file :: "byte list option"
  output_file :: "byte list option"
  bg :: bool
  maxArgc :: nat

definition DEFAULT_ARGC :: nat where
  "DEFAULT_ARGC = 4"

text \<open>The \<^verbatim>\<open>argc\<close> of the code is the length of \<open>args\<close>.\<close>

definition empty_program :: programInfo where
  "empty_program = \<lparr>args = [], input_file = None, output_file = None, bg = False, maxArgc = DEFAULT_ARGC\<rparr>"

definition clearProgram :: "programInfo \<Rightarrow> programInfo" where
  "clearProgram p = p\<lparr>args := [], input_file := None, output_file := None, bg := False\<rparr>"

definition slice :: "byte list \<Rightarrow> nat \<Rightarrow> nat \<Rightarrow> byte list" where
  "slice buffer startPos endPos = take (endPos - startPos + 1) (drop startPos buffer)"

text \<open>The array has room for \<open>maxArgc\<close> pointers, the null after the last argument is one of them.\<close>

definition pushArgument :: "byte list \<Rightarrow> nat \<Rightarrow> nat \<Rightarrow> programInfo \<Rightarrow> programInfo option" where
  "pushArgument buffer startPos endPos p =
     (let argc = length (args p) + 1;
          mx = (if argc > maxArgc p + 1 then 2 * maxArgc p else maxArgc p)
      in if argc < mx then Some (p\<lparr>args := args p @ [slice buffer startPos endPos], maxArgc := mx\<rparr>) else None)"

definition saveInput :: "byte list \<Rightarrow> nat \<Rightarrow> nat \<Rightarrow> programInfo \<Rightarrow> programInfo option" where
  "saveInput buffer startPos endPos p = Some (p\<lparr>input_file := Some (slice buffer startPos endPos)\<rparr>)"

definition saveOutput :: "byte list \<Rightarrow> nat \<Rightarrow> nat \<Rightarrow> programInfo \<Rightarrow> programInfo option" where
  "saveOutput buffer startPos endPos p = Some (p\<lparr>output_file := Some (slice buffer startPos endPos)\<rparr>)"

text \<open>State, position of the first character of the word, and the program; \<^verbatim>\<open>endPos\<close> is always set where it is used.\<close>

type_synonym parse_state = "FMStates \<times> nat \<times> programInfo"

abbreviation (input) "LT \<equiv> (60 :: byte)"
abbreviation (input) "GT \<equiv> (62 :: byte)"
abbreviation (input) "AMP \<equiv> (38 :: byte)"

definition parse_char :: "byte list \<Rightarrow> nat \<Rightarrow> parse_state \<Rightarrow> parse_state option" where
  "parse_char buffer i = (\<lambda>(state, startPos, p).
     let c = buffer ! i; last = (i = length buffer - 1)
     in case state of
          New \<Rightarrow>
            if is_space c then Some (New, startPos, p)
            else if c = LT then Some (Input, startPos, p)
            else if c = GT then Some (Output, startPos, p)
            else if c = AMP then Some (New, startPos, p\<lparr>bg := True\<rparr>)
            else do { p' \<leftarrow> (if last then pushArgument buffer i i p else Some p); Some (Add, i, p') }
        | Add \<Rightarrow>
            if c = LT then map_option (\<lambda>p'. (Input, startPos, p')) (pushArgument buffer startPos (i - 1) p)
            else if c = GT then map_option (\<lambda>p'. (Output, startPos, p')) (pushArgument buffer startPos (i - 1) p)
            else if c = AMP then map_option (\<lambda>p'. (Add, startPos, p')) (pushArgument buffer startPos (i - 1) (p\<lparr>bg := True\<rparr>))
            else if is_space c \<or> last
            then map_option (\<lambda>p'. (New, startPos, p')) (pushArgument buffer startPos (if is_space c then i - 1 else i) p)
            else Some (Add, startPos, p)
        | Input \<Rightarrow>
            if \<not> is_space c
            then do { p' \<leftarrow> (if last then saveInput buffer i i p else Some p); Some (InputAdd, i, p') }
            else Some (Input, startPos, p)
        | InputAdd \<Rightarrow>
            if c = GT then map_option (\<lambda>p'. (Output, startPos, p')) (saveInput buffer startPos (i - 1) p)
            else if c = AMP then map_option (\<lambda>p'. (InputAdd, startPos, p')) (saveInput buffer startPos (i - 1) (p\<lparr>bg := True\<rparr>))
            else if is_space c \<or> last
            then map_option (\<lambda>p'. (New, startPos, p')) (saveInput buffer startPos (if is_space c then i - 1 else i) p)
            else Some (InputAdd, startPos, p)
        | Output \<Rightarrow>
            if \<not> is_space c
            then do { p' \<leftarrow> (if last then saveOutput buffer i i p else Some p); Some (OutputAdd, i, p') }
            else Some (Output, startPos, p)
        | OutputAdd \<Rightarrow>
            if c = LT then map_option (\<lambda>p'. (Input, startPos, p')) (saveOutput buffer startPos (i - 1) p)
            else if c = AMP then map_option (\<lambda>p'. (OutputAdd, startPos, p')) (saveOutput buffer startPos (i - 1) (p\<lparr>bg := True\<rparr>))
            else if is_space c \<or> last
            then map_option (\<lambda>p'. (New, startPos, p')) (saveOutput buffer startPos (if is_space c then i - 1 else i) p)
            else Some (OutputAdd, startPos, p))"

function parse_from :: "byte list \<Rightarrow> nat \<Rightarrow> parse_state \<Rightarrow> programInfo option" where
  "parse_from buffer i st =
     (if i < length buffer
      then case parse_char buffer i st of None \<Rightarrow> None | Some st' \<Rightarrow> parse_from buffer (i + 1) st'
      else Some (snd (snd st)))"
  by pat_completeness auto

termination
  by (relation "measure (\<lambda>(buffer, i, st). length buffer - i)") auto

declare parse_from.simps [simp del]

text \<open>The buffer up to its null.\<close>

definition parseBuffer :: "byte list \<Rightarrow> programInfo \<Rightarrow> programInfo option" where
  "parseBuffer buffer p = parse_from (takeWhile (\<lambda>c. c \<noteq> 0) buffer) 0 (New, 0, p)"

section \<open>Reading commands\<close>

definition BUFFER_SIZE :: nat where
  "BUFFER_SIZE = 513"

datatype parse_action = End_of_input | Too_long | Leave | Empty_command | Execute "byte list" | Write_before

text \<open>
  What \<^verbatim>\<open>parseWorker\<close> does with the bytes that were read into the buffer, and the buffer afterwards;
  the bytes behind them are those of earlier commands. \<open>None\<close> is a failed read, whose
  result -1 passes all tests: the null byte is then written before the buffer.
\<close>

definition read_command :: "byte list option \<Rightarrow> byte list \<Rightarrow> parse_action \<times> byte list" where
  "read_command result buffer =
     (case result of
        None \<Rightarrow>
          (if take 5 buffer = [101, 120, 105, 116, 10] then (Leave, buffer)
           else if buffer ! 0 = 10 then (Empty_command, buffer)
           else (Write_before, buffer))
      | Some bytes \<Rightarrow>
          (let buf = take BUFFER_SIZE bytes @ drop (length (take BUFFER_SIZE bytes)) buffer; n = length (take BUFFER_SIZE bytes)
           in if n = 0 then (End_of_input, buffer)
              else if n > BUFFER_SIZE - 1 then (Too_long, buf)
              else if take 5 buf = [101, 120, 105, 116, 10] then (Leave, buf)
              else if buf ! 0 = 10 then (Empty_command, buf)
              else (Execute (buf[n - 1 := 0]), buf[n - 1 := 0])))"

section \<open>Commands that are written with spaces\<close>

datatype token = Arg "byte list" | In_file "byte list" | Out_file "byte list" | Background

fun token_text :: "token \<Rightarrow> byte list" where
  "token_text (Arg w) = w"
| "token_text (In_file w) = LT # w"
| "token_text (Out_file w) = GT # w"
| "token_text Background = [AMP]"

definition plain :: "byte list \<Rightarrow> bool" where
  "plain w \<longleftrightarrow> w \<noteq> [] \<and> (\<forall>c \<in> set w. \<not> is_space c \<and> c \<noteq> LT \<and> c \<noteq> GT \<and> c \<noteq> AMP \<and> c \<noteq> 0)"

fun token_ok :: "token \<Rightarrow> bool" where
  "token_ok (Arg w) = plain w"
| "token_ok (In_file w) = plain w"
| "token_ok (Out_file w) = plain w"
| "token_ok Background = True"

fun command_text :: "token list \<Rightarrow> byte list" where
  "command_text [] = []"
| "command_text [t] = token_text t"
| "command_text (t # ts) = token_text t @ 32 # command_text ts"

text \<open>What a token says, where the array has room for the three arguments that fit.\<close>

fun put_token :: "token \<Rightarrow> programInfo \<Rightarrow> programInfo option" where
  "put_token (Arg w) p = (if length (args p) < 3 then Some (p\<lparr>args := args p @ [w]\<rparr>) else None)"
| "put_token (In_file w) p = Some (p\<lparr>input_file := Some w\<rparr>)"
| "put_token (Out_file w) p = Some (p\<lparr>output_file := Some w\<rparr>)"
| "put_token Background p = Some (p\<lparr>bg := True\<rparr>)"

fun put_tokens :: "token list \<Rightarrow> programInfo \<Rightarrow> programInfo option" where
  "put_tokens [] p = Some p"
| "put_tokens (t # ts) p = (case put_token t p of None \<Rightarrow> None | Some p' \<Rightarrow> put_tokens ts p')"

section \<open>One word\<close>

text \<open>
  The three states in which a word starts, the state inside the word, and what is done with it.
\<close>

type_synonym push = "byte list \<Rightarrow> nat \<Rightarrow> nat \<Rightarrow> programInfo \<Rightarrow> programInfo option"

inductive word_mode :: "FMStates \<Rightarrow> FMStates \<Rightarrow> push \<Rightarrow> bool" where
  argument: "word_mode New Add pushArgument"
| input_word: "word_mode Input InputAdd saveInput"
| output_word: "word_mode Output OutputAdd saveOutput"

definition plain_char :: "byte \<Rightarrow> bool" where
  "plain_char c \<longleftrightarrow> \<not> is_space c \<and> c \<noteq> LT \<and> c \<noteq> GT \<and> c \<noteq> AMP \<and> c \<noteq> 0"

lemma plain_iff: "plain w \<longleftrightarrow> w \<noteq> [] \<and> (\<forall>c \<in> set w. plain_char c)"
  by (auto simp: plain_def plain_char_def)

lemma word_first:
  assumes "word_mode q s push" and "plain_char (buffer ! i)"
  shows "parse_char buffer i (q, x, p) =
           map_option (Pair s \<circ> Pair i) (if i = length buffer - 1 then push buffer i i p else Some p)"
  using assms by (cases rule: word_mode.cases) (auto simp: parse_char_def plain_char_def comp_def map_conv_bind_option)

lemma word_next:
  assumes "word_mode q s push" and "plain_char (buffer ! i)"
  shows "parse_char buffer i (s, x, p) =
           (if i = length buffer - 1 then map_option (Pair New \<circ> Pair x) (push buffer x i p) else Some (s, x, p))"
  using assms by (cases rule: word_mode.cases) (auto simp: parse_char_def plain_char_def comp_def)

lemma is_space_plain: "is_space c \<Longrightarrow> c \<noteq> LT \<and> c \<noteq> GT \<and> c \<noteq> AMP"
  by (auto simp: is_space_def)

lemma word_end:
  assumes "word_mode q s push" and "is_space (buffer ! i)"
  shows "parse_char buffer i (s, x, p) = map_option (Pair New \<circ> Pair x) (push buffer x (i - 1) p)"
  using assms(1) is_space_plain [OF assms(2)] assms(2)
  by (cases rule: word_mode.cases) (auto simp: parse_char_def comp_def)

lemma parse_from_end: "length buffer \<le> i \<Longrightarrow> parse_from buffer i (s, x, p) = Some p"
  by (simp add: parse_from.simps)

lemma parse_from_step:
  "i < length buffer \<Longrightarrow> parse_from buffer i st =
     (case parse_char buffer i st of None \<Rightarrow> None | Some st' \<Rightarrow> parse_from buffer (i + 1) st')"
  by (simp add: parse_from.simps [of buffer i])

definition ends_word :: "byte list \<Rightarrow> bool" where
  "ends_word rest \<longleftrightarrow> rest = [] \<or> is_space (hd rest)"

lemma word_rest:
  assumes m: "word_mode q s push" and b: "buffer = pre @ w @ rest" and e: "ends_word rest"
    and w: "\<forall>c \<in> set w. plain_char c" and i: "length pre < i" "i \<le> length pre + length w"
    and n: "rest = [] \<longrightarrow> i < length buffer"
  shows "parse_from buffer i (s, length pre, p) =
           (case push buffer (length pre) (length pre + length w - 1) p of None \<Rightarrow> None
            | Some p' \<Rightarrow> parse_from buffer (length pre + length w + 1) (New, length pre, p'))"
  using i n
proof (induction "length pre + length w - i" arbitrary: i)
  case 0
  then have i: "i = length pre + length w" by simp
  with 0 b have r: "rest \<noteq> []" by auto
  with b i have h: "buffer ! i = hd rest" "i < length buffer"
    by (auto simp: nth_append hd_conv_nth)
  with e r have "is_space (buffer ! i)" by (simp add: ends_word_def)
  then show ?case
    by (subst parse_from_step [OF h(2)], subst word_end [OF m]) (simp_all add: i split: option.split)
next
  case (Suc k)
  then have i: "i < length pre + length w" by simp
  then have l: "i < length buffer" using b by simp
  have "buffer ! i = w ! (i - length pre)"
    unfolding b using i Suc.prems(1) by (simp add: nth_append) arith
  with w i Suc.prems(1) have c: "plain_char (buffer ! i)" by auto
  show ?case
  proof (cases "i = length buffer - 1")
    case True
    have lb: "length buffer = length pre + length w + length rest" using b by simp
    have i': "i = length pre + length w - 1" and ge: "length buffer \<le> length pre + length w + 1"
      and ge': "length buffer \<le> i + 1"
      using lb i l True by linarith+
    have "parse_char buffer i (s, length pre, p) = map_option (Pair New \<circ> Pair (length pre)) (push buffer (length pre) i p)"
      by (subst word_next [OF m c], subst if_P [OF True]) (rule refl)
    with i' show ?thesis
      using ge ge' by (subst parse_from_step [OF l]) (auto simp: parse_from_end split: option.split)
  next
    case False
    have "parse_from buffer (i + 1) (s, length pre, p) =
           (case push buffer (length pre) (length pre + length w - 1) p of None \<Rightarrow> None
            | Some p' \<Rightarrow> parse_from buffer (length pre + length w + 1) (New, length pre, p'))"
      using Suc.hyps(2) Suc.prems i l False by (intro Suc.hyps(1)) auto
    then show ?thesis
      by (simp add: parse_from_step [OF l] word_next [OF m c] False del: One_nat_def)
  qed
qed

lemma word_run:
  assumes m: "word_mode q s push" and b: "buffer = pre @ w @ rest" and e: "ends_word rest" and w: "plain w"
  shows "parse_from buffer (length pre) (q, x, p) =
           (case push buffer (length pre) (length pre + length w - 1) p of None \<Rightarrow> None
            | Some p' \<Rightarrow> parse_from buffer (length pre + length w + 1) (New, length pre, p'))"
proof -
  from w have w': "\<forall>c \<in> set w. plain_char c" and ne: "w \<noteq> []" by (auto simp: plain_iff)
  with b have l: "length pre < length buffer" and h: "buffer ! length pre = w ! 0"
    by (auto simp: nth_append)
  with w' ne have c: "plain_char (buffer ! length pre)" by auto
  show ?thesis
  proof (cases "length pre = length buffer - 1")
    case True
    have lb: "length buffer = length pre + length w + length rest" using b by simp
    have "length w > 0" using ne by simp
    with lb l True have w1: "length w = 1" and lb': "length buffer = length pre + 1" by linarith+
    have "parse_char buffer (length pre) (q, x, p) =
        map_option (Pair s \<circ> Pair (length pre)) (push buffer (length pre) (length pre) p)"
      by (subst word_first [OF m c], subst if_P [OF True]) (rule refl)
    with w1 lb' show ?thesis
      by (simp only: parse_from_step [OF l]) (auto simp: parse_from_end split: option.split)
  next
    case False
    have "rest = [] \<longrightarrow> length pre + 1 < length buffer"
      using False l by linarith
    from word_rest [OF m b e w' _ _ this] ne False
    show ?thesis
      by (cases w) (simp_all add: parse_from_step [OF l] word_first [OF m c])
  qed
qed

lemma slice_word: "w \<noteq> [] \<Longrightarrow> slice (pre @ w @ rest) (length pre) (length pre + length w - 1) = w"
  by (cases w) (simp_all add: slice_def)

section \<open>One token\<close>

definition args_fit :: "programInfo \<Rightarrow> bool" where
  "args_fit p \<longleftrightarrow> maxArgc p = DEFAULT_ARGC \<and> length (args p) < DEFAULT_ARGC"

lemma put_token_fit: "args_fit p \<Longrightarrow> put_token t p = Some p' \<Longrightarrow> args_fit p'"
  by (cases t) (auto simp: args_fit_def DEFAULT_ARGC_def split: if_splits)

lemma push_put:
  assumes "args_fit p" "w \<noteq> []"
  shows "pushArgument (pre @ w @ rest) (length pre) (length pre + length w - 1) p = put_token (Arg w) p"
    and "saveInput (pre @ w @ rest) (length pre) (length pre + length w - 1) p = put_token (In_file w) p"
    and "saveOutput (pre @ w @ rest) (length pre) (length pre + length w - 1) p = put_token (Out_file w) p"
  using assms unfolding pushArgument_def saveInput_def saveOutput_def slice_word [OF assms(2)]
  by (auto simp: args_fit_def DEFAULT_ARGC_def Let_def)

lemma token_run:
  assumes "token_ok t" and "ends_word rest" and a: "args_fit p"
  shows "\<exists>y. parse_from (pre @ token_text t @ rest) (length pre) (New, x, p) =
           (case put_token t p of None \<Rightarrow> None
            | Some p' \<Rightarrow> parse_from (pre @ token_text t @ rest) (length (pre @ token_text t) + 1) (New, y, p'))"
proof -
  let ?run = "\<lambda>i st. parse_from (pre @ token_text t @ rest) i st"
  have l: "length pre < length (pre @ token_text t @ rest)"
    using assms(1) by (cases t) (auto simp: plain_iff)
  have opened: "\<exists>y. parse_from ((pre @ [d]) @ w @ rest) (length (pre @ [d])) (q, x, p) =
           (case push ((pre @ [d]) @ w @ rest) (length (pre @ [d])) (length (pre @ [d]) + length w - 1) p of None \<Rightarrow> None
            | Some p' \<Rightarrow> parse_from ((pre @ [d]) @ w @ rest) (length (pre @ [d]) + length w + 1) (New, y, p'))"
    if "word_mode q s push" "plain w" for q s push d w
    using word_run [OF that(1) refl assms(2) that(2), of "pre @ [d]" x p] by blast
  show ?thesis
  proof (cases t)
    case (Arg w)
    with assms have w: "plain w" "w \<noteq> []" by (auto simp: plain_def)
    show ?thesis
      using word_run [OF argument refl assms(2) w(1), of pre x p] push_put(1) [OF a w(2), of pre rest] Arg
      by auto
  next
    case (In_file w)
    with assms have w: "plain w" "w \<noteq> []" by (auto simp: plain_def)
    have "parse_char (pre @ token_text t @ rest) (length pre) (New, x, p) = Some (Input, x, p)"
      using In_file by (simp add: parse_char_def is_space_def)
    then have "?run (length pre) (New, x, p) = ?run (length pre + 1) (Input, x, p)"
      by (subst parse_from_step [OF l]) simp
    then show ?thesis
      using opened [OF input_word w(1), of LT] push_put(2) [OF a w(2), of "pre @ [LT]" rest] In_file
      by simp
  next
    case (Out_file w)
    with assms have w: "plain w" "w \<noteq> []" by (auto simp: plain_def)
    have "parse_char (pre @ token_text t @ rest) (length pre) (New, x, p) = Some (Output, x, p)"
      using Out_file by (simp add: parse_char_def is_space_def)
    then have "?run (length pre) (New, x, p) = ?run (length pre + 1) (Output, x, p)"
      by (subst parse_from_step [OF l]) simp
    then show ?thesis
      using opened [OF output_word w(1), of GT] push_put(3) [OF a w(2), of "pre @ [GT]" rest] Out_file
      by simp
  next
    case Background
    have c: "parse_char (pre @ token_text t @ rest) (length pre) (New, x, p) = Some (New, x, p\<lparr>bg := True\<rparr>)"
      using Background by (simp add: parse_char_def is_space_def)
    then have step: "?run (length pre) (New, x, p) = ?run (length pre + 1) (New, x, p\<lparr>bg := True\<rparr>)"
      by (subst parse_from_step [OF l]) simp
    show ?thesis
    proof (cases rest)
      case Nil
      then show ?thesis
        using step Background by (simp add: parse_from_end)
    next
      case (Cons d r)
      with assms(2) have "is_space d" by (simp add: ends_word_def)
      with Cons Background have "parse_char (pre @ token_text t @ rest) (length pre + 1) (New, x, p\<lparr>bg := True\<rparr>)
          = Some (New, x, p\<lparr>bg := True\<rparr>)"
        by (simp add: parse_char_def nth_append)
      then have "?run (length pre + 1) (New, x, p\<lparr>bg := True\<rparr>) = ?run (length pre + 1 + 1) (New, x, p\<lparr>bg := True\<rparr>)"
        using Cons Background by (subst parse_from_step) simp_all
      with step Background show ?thesis
        by auto
    qed
  qed
qed


section \<open>The command line\<close>

lemma command_text_Cons:
  "command_text (t # ts) = token_text t @ (if ts = [] then [] else 32 # command_text ts)"
  by (cases ts) simp_all

lemma tokens_run:
  assumes "list_all token_ok ts" and "args_fit p"
  shows "parse_from (pre @ command_text ts) (length pre) (New, x, p) = put_tokens ts p"
  using assms
proof (induction ts arbitrary: pre x p)
  case Nil
  then show ?case by (simp add: parse_from_end)
next
  case (Cons t ts)
  define rest where "rest = (if ts = [] then [] else 32 # command_text ts)"
  then have e: "ends_word rest" by (simp add: ends_word_def is_space_def)
  from Cons.prems have "token_ok t" by simp
  from token_run [OF this e Cons.prems(2), of pre x] obtain y where
    run: "parse_from (pre @ token_text t @ rest) (length pre) (New, x, p) =
           (case put_token t p of None \<Rightarrow> None
            | Some p' \<Rightarrow> parse_from (pre @ token_text t @ rest) (length (pre @ token_text t) + 1) (New, y, p'))" ..
  have written: "command_text (t # ts) = token_text t @ rest"
    by (simp add: command_text_Cons rest_def)
  show ?case
  proof (cases "put_token t p")
    case None
    then show ?thesis using run written by simp
  next
    case (Some p')
    have "parse_from (pre @ token_text t @ rest) (length (pre @ token_text t) + 1) (New, y, p') = put_tokens ts p'"
    proof (cases "ts = []")
      case True
      then show ?thesis by (simp add: rest_def parse_from_end)
    next
      case False
      have "parse_from ((pre @ token_text t @ [32]) @ command_text ts) (length (pre @ token_text t @ [32])) (New, y, p')
          = put_tokens ts p'"
        using Cons.prems put_token_fit [OF _ Some] by (intro Cons.IH) simp_all
      then show ?thesis using False by (simp add: rest_def)
    qed
    then show ?thesis using run written Some by simp
  qed
qed

lemma token_text_nonnull: "token_ok t \<Longrightarrow> 0 \<notin> set (token_text t)"
  by (cases t) (auto simp: plain_def)

lemma command_text_nonnull: "list_all token_ok ts \<Longrightarrow> 0 \<notin> set (command_text ts)"
  by (induction ts) (auto simp: command_text_Cons token_text_nonnull)

lemma is_space_newline [simp]: "is_space 10"
  by (simp add: is_space_def)

lemma newline_not_plain: "plain w \<Longrightarrow> 10 \<notin> set w"
  unfolding plain_def using is_space_newline by blast

lemma newline_not_token: "token_ok t \<Longrightarrow> 10 \<notin> set (token_text t)"
  by (cases t) (simp_all add: newline_not_plain)

lemma newline_not_command: "list_all token_ok ts \<Longrightarrow> 10 \<notin> set (command_text ts)"
  by (induction ts) (auto simp: command_text_Cons newline_not_token)

lemma token_text_not_empty: "token_ok t \<Longrightarrow> token_text t \<noteq> []"
  by (cases t) (auto simp: plain_def)

lemma command_text_head:
  assumes "list_all token_ok ts" "ts \<noteq> []"
  shows "command_text ts \<noteq> []" and "command_text ts ! 0 \<noteq> 10"
proof -
  from assms show ne: "command_text ts \<noteq> []"
    using token_text_not_empty [of "hd ts"] by (cases ts) (auto simp: command_text_Cons)
  then have "command_text ts ! 0 \<in> set (command_text ts)" by simp
  then show "command_text ts ! 0 \<noteq> 10" using newline_not_command [OF assms(1)] by metis
qed

lemma exit_line:
  assumes "10 \<notin> set c" and "c \<noteq> [101, 120, 105, 116]"
  shows "take 5 (c @ 10 # r) \<noteq> [101, 120, 105, 116, 10 :: byte]"
proof
  assume t: "take 5 (c @ 10 # r) = [101, 120, 105, 116, 10]"
  then have n: "(c @ 10 # r) ! i = [101, 120, 105, 116, 10] ! i" if "i < 5" for i
    using nth_take [OF that, of "c @ 10 # r"] by simp
  have "length c = 4"
  proof (rule ccontr)
    assume "length c \<noteq> 4"
    then consider "length c = 0" | "length c = 1" | "length c = 2" | "length c = 3" | "4 < length c" by linarith
    then show False
    proof cases
      case 5
      with n [of 4] have "c ! 4 = 10" by (simp add: nth_append)
      with 5 assms(1) nth_mem show False by fastforce
    qed (use n [of 0] n [of 1] n [of 2] n [of 3] in \<open>simp_all add: nth_append\<close>)
  qed
  with t assms(2) show False by simp
qed

text \<open>
  C22. What the shell reads: a line of fewer than 512 bytes with tokens separated by single spaces,
  other than the word \<open>exit\<close>, is given to the parser without its newline, whatever an
  earlier command left in the buffer, and the parser finds the arguments in their order, the last
  input and output file and the background mark; with a fourth argument it writes after the
  end of the array.
\<close>

theorem command_is_parsed:
  assumes "list_all token_ok ts" and "ts \<noteq> []" and "length (command_text ts) < BUFFER_SIZE - 1"
    and "command_text ts \<noteq> [101, 120, 105, 116]" and "length buffer = BUFFER_SIZE"
  shows "\<exists>b. read_command (Some (command_text ts @ [10])) buffer = (Execute b, b) \<and> length b = BUFFER_SIZE \<and>
           parseBuffer b empty_program = put_tokens ts empty_program"
proof -
  let ?c = "command_text ts"
  let ?r = "drop (length ?c + 1) buffer"
  from assms have l: "take BUFFER_SIZE (?c @ [10]) = ?c @ [10]" by simp
  have r: "read_command (Some (?c @ [10])) buffer = (Execute (?c @ 0 # ?r), ?c @ 0 # ?r)"
    using assms(3) command_text_head [OF assms(1,2)] exit_line [OF newline_not_command [OF assms(1)] assms(4)]
    unfolding read_command_def option.case l by (simp add: Let_def nth_append BUFFER_SIZE_def list_update_append)
  have p: "takeWhile (\<lambda>c. c \<noteq> 0) (?c @ 0 # ?r) = ?c"
    using command_text_nonnull [OF assms(1)] by (subst takeWhile_append2) auto
  have "parseBuffer (?c @ 0 # ?r) empty_program = put_tokens ts empty_program"
    using tokens_run [OF assms(1), of empty_program "[]" 0]
    by (simp add: parseBuffer_def p [simplified] args_fit_def empty_program_def DEFAULT_ARGC_def)
  with r assms(3,5) show ?thesis
    by (intro exI [of _ "?c @ 0 # ?r"]) (simp add: BUFFER_SIZE_def)
qed

definition sample_tokens :: "token list" where
  "sample_tokens = [Arg [108, 115], Out_file [111], Arg [45, 108], Background]"

theorem command_is_parsed_witness:
  "\<exists>b. read_command (Some (command_text sample_tokens @ [10])) (replicate 513 7) = (Execute b, b) \<and> length b = BUFFER_SIZE \<and>
     parseBuffer b empty_program = Some (empty_program\<lparr>args := [[108, 115], [45, 108]], output_file := Some [111], bg := True\<rparr>)"
proof -
  have "put_tokens sample_tokens empty_program
      = Some (empty_program\<lparr>args := [[108, 115], [45, 108]], output_file := Some [111], bg := True\<rparr>)"
    by code_simp
  moreover have "list_all token_ok sample_tokens" "sample_tokens \<noteq> []" by code_simp+
  moreover have "length (command_text sample_tokens) < BUFFER_SIZE - 1" by code_simp
  moreover have "command_text sample_tokens \<noteq> [101, 120, 105, 116]" by code_simp
  moreover have "length (replicate 513 (7 :: byte)) = BUFFER_SIZE" by (simp add: BUFFER_SIZE_def)
  ultimately show ?thesis
    using command_is_parsed [of sample_tokens "replicate 513 7"] by simp
qed

end
