(* ===== verification/Shell.thy ===== *)
theory Shell
  imports Shell_Parser
begin

text \<open>
  The two threads of the shell of \<^verbatim>\<open>POS/proj2/main.c\<close>: one reads lines into the buffer, the other
  parses and launches them, and they hand the buffer over with a condition variable. A section
  between the lock and the unlock of the mutex is one step, and so are a read and a parse. A read can fail, and a waiting thread can wake up
  although nobody signalled; the runs count these wakeups. The theorems: without such a wakeup
  the commands are launched in the order of the lines, each once; with one, a command is launched twice; and a signal that is sent before
  the other thread waits is lost, and then both threads wait for ever.
\<close>

section \<open>The child process\<close>

text \<open>What the operating system answers.\<close>

record sys_answers =
  can_open :: "byte list \<Rightarrow> bool"
  can_create :: "byte list \<Rightarrow> bool"
  dup_input :: bool
  dup_output :: bool

text \<open>Program arguments, standard input and output where they are redirected, and whether interrupts are ignored.\<close>

datatype child_result = Open_failed | Dup_input_failed | Create_failed | Dup_output_failed
  | Execvp "byte list list" "byte list option" "byte list option" bool

definition run_child :: "sys_answers \<Rightarrow> programInfo \<Rightarrow> child_result" where
  "run_child sys p =
     (if \<exists>f. input_file p = Some f \<and> \<not> can_open sys f then Open_failed
      else if input_file p \<noteq> None \<and> \<not> dup_input sys then Dup_input_failed
      else if \<exists>f. output_file p = Some f \<and> \<not> can_create sys f then Create_failed
      else if output_file p \<noteq> None \<and> \<not> dup_output sys then Dup_output_failed
      else Execvp (args p) (input_file p) (output_file p) (bg p))"

section \<open>The threads\<close>

datatype reader_point = R_test | R_read | R_signal | R_wait | R_waiting | R_last_signal | R_undefined | R_done

datatype exec_point = X_test | X_wait | X_waiting | X_woken | X_parse | X_overflow | X_fork | X_child | X_clear | X_signal | X_done

record shell =
  sh_run :: bool
  sh_buffer :: "byte list"
  sh_program :: programInfo
  sh_reader :: reader_point
  sh_exec :: exec_point
  sh_input :: "byte list option list"
  sh_launched :: "programInfo list"

definition shell_init :: "byte list option list \<Rightarrow> byte list \<Rightarrow> shell" where
  "shell_init reads buffer =
     \<lparr>sh_run = True, sh_buffer = buffer, sh_program = empty_program, sh_reader = R_test, sh_exec = X_test,
      sh_input = reads, sh_launched = []\<rparr>"

text \<open>A signal reaches the other thread only when it waits.\<close>

definition signal_exec :: "shell \<Rightarrow> shell" where
  "signal_exec s = (if sh_exec s = X_waiting then s\<lparr>sh_exec := X_woken\<rparr> else s)"

definition signal_reader :: "shell \<Rightarrow> shell" where
  "signal_reader s = (if sh_reader s = R_waiting then s\<lparr>sh_reader := R_test\<rparr> else s)"

text \<open>\<open>sh_input\<close> are the results of the reads, \<open>None\<close> for a failed one; behind them is the end of the input, where \<^verbatim>\<open>read\<close> gives no bytes.\<close>

definition read_line :: "shell \<Rightarrow> parse_action \<times> shell" where
  "read_line s =
     (let (act, b) = read_command (case sh_input s of [] \<Rightarrow> Some [] | x # _ \<Rightarrow> x) (sh_buffer s)
      in (act, s\<lparr>sh_buffer := b, sh_input := tl (sh_input s)\<rparr>))"

text \<open>After a write before the buffer the thread has no next step.\<close>

definition parseWorker :: "shell \<Rightarrow> shell option" where
  "parseWorker s =
     (case sh_reader s of
        R_test \<Rightarrow> Some (s\<lparr>sh_reader := (if sh_run s then R_read else R_done)\<rparr>)
      | R_read \<Rightarrow>
          (case read_line s of
             (Execute _, s1) \<Rightarrow> Some (s1\<lparr>sh_reader := R_signal\<rparr>)
           | (End_of_input, s1) \<Rightarrow> Some (s1\<lparr>sh_run := False, sh_reader := R_last_signal\<rparr>)
           | (Leave, s1) \<Rightarrow> Some (s1\<lparr>sh_run := False, sh_reader := R_last_signal\<rparr>)
           | (Write_before, s1) \<Rightarrow> Some (s1\<lparr>sh_reader := R_undefined\<rparr>)
           | (_, s1) \<Rightarrow> Some (s1\<lparr>sh_reader := R_test\<rparr>))
      | R_signal \<Rightarrow> Some ((signal_exec s)\<lparr>sh_reader := R_wait\<rparr>)
      | R_wait \<Rightarrow> Some (s\<lparr>sh_reader := R_waiting\<rparr>)
      | R_waiting \<Rightarrow> None
      | R_last_signal \<Rightarrow> Some ((signal_exec s)\<lparr>sh_reader := R_done\<rparr>)
      | R_undefined \<Rightarrow> None
      | R_done \<Rightarrow> None)"

text \<open>The argument is whether \<^verbatim>\<open>fork\<close> succeeds. After a write behind its array the thread has no next step.\<close>

definition execWorker :: "bool \<Rightarrow> shell \<Rightarrow> shell option" where
  "execWorker forked s =
     (case sh_exec s of
        X_test \<Rightarrow> Some (s\<lparr>sh_exec := (if sh_run s then X_wait else X_done)\<rparr>)
      | X_wait \<Rightarrow> Some (s\<lparr>sh_exec := X_waiting\<rparr>)
      | X_waiting \<Rightarrow> None
      | X_woken \<Rightarrow> Some (s\<lparr>sh_exec := (if sh_run s then X_parse else X_done)\<rparr>)
      | X_parse \<Rightarrow>
          (case parseBuffer (sh_buffer s) (sh_program s) of
             None \<Rightarrow> Some (s\<lparr>sh_exec := X_overflow\<rparr>)
           | Some p \<Rightarrow> Some (s\<lparr>sh_program := p, sh_exec := X_fork\<rparr>))
      | X_overflow \<Rightarrow> None
      | X_fork \<Rightarrow>
          if forked
          then Some (s\<lparr>sh_launched := sh_launched s @ [sh_program s], sh_exec := (if bg (sh_program s) then X_clear else X_child)\<rparr>)
          else Some (s\<lparr>sh_run := False, sh_exec := X_done\<rparr>)
      | X_child \<Rightarrow> Some (s\<lparr>sh_exec := X_clear\<rparr>)
      | X_clear \<Rightarrow> Some (s\<lparr>sh_program := clearProgram (sh_program s), sh_exec := X_signal\<rparr>)
      | X_signal \<Rightarrow> Some ((signal_reader s)\<lparr>sh_exec := X_test\<rparr>)
      | X_done \<Rightarrow> None)"

text \<open>
  \<open>n\<close> counts the wakeups that no signal caused, which POSIX allows: \<^verbatim>\<open>waitThread\<close> returns as if it had been signalled.
\<close>

inductive shell_run :: "byte list option list \<Rightarrow> byte list \<Rightarrow> nat \<Rightarrow> shell \<Rightarrow> bool" for reads buffer where
  start: "shell_run reads buffer 0 (shell_init reads buffer)"
| reader: "shell_run reads buffer n s \<Longrightarrow> parseWorker s = Some s' \<Longrightarrow> shell_run reads buffer n s'"
| exec: "shell_run reads buffer n s \<Longrightarrow> execWorker forked s = Some s' \<Longrightarrow> shell_run reads buffer n s'"
| reader_wakes: "shell_run reads buffer n s \<Longrightarrow> sh_reader s = R_waiting \<Longrightarrow> shell_run reads buffer (Suc n) (s\<lparr>sh_reader := R_test\<rparr>)"
| exec_wakes: "shell_run reads buffer n s \<Longrightarrow> sh_exec s = X_waiting \<Longrightarrow> shell_run reads buffer (Suc n) (s\<lparr>sh_exec := X_woken\<rparr>)"

section \<open>The commands of the input\<close>

text \<open>What is in the buffer for each of the commands that are read, up to the end or to a read that fails.\<close>

fun commands :: "byte list option list \<Rightarrow> byte list \<Rightarrow> byte list list" where
  "commands [] buffer = []"
| "commands (x # xs) buffer =
     (case read_command x buffer of
        (Execute _, b) \<Rightarrow> b # commands xs b
      | (Too_long, b) \<Rightarrow> commands xs b
      | (Empty_command, b) \<Rightarrow> commands xs b
      | _ \<Rightarrow> [])"

lemma commands_read:
  "read_line s = (act, s1) \<Longrightarrow> commands (sh_input s) (sh_buffer s) =
     (case act of Execute _ \<Rightarrow> sh_buffer s1 # commands (sh_input s1) (sh_buffer s1)
      | Too_long \<Rightarrow> commands (sh_input s1) (sh_buffer s1) | Empty_command \<Rightarrow> commands (sh_input s1) (sh_buffer s1) | _ \<Rightarrow> [])"
proof (cases "sh_input s")
  case Nil
  then show ?thesis if "read_line s = (act, s1)" using that by (auto simp: read_line_def read_command_def)
next
  case (Cons x xs)
  obtain a b where "read_command x (sh_buffer s) = (a, b)" by fastforce
  with Cons show ?thesis if "read_line s = (act, s1)" using that by (cases a) (simp_all add: read_line_def, auto)
qed

lemma read_line_other:
  "read_line s = (act, s1) \<Longrightarrow> sh_run s1 = sh_run s \<and> sh_program s1 = sh_program s \<and> sh_reader s1 = sh_reader s
     \<and> sh_exec s1 = sh_exec s \<and> sh_launched s1 = sh_launched s"
  by (auto simp: read_line_def split: prod.splits)

text \<open>A parse that fits leaves the capacity as it was, so that the cleared program is the empty one.\<close>

lemma pushArgument_fit: "args_fit p \<Longrightarrow> pushArgument b x y p = Some p' \<Longrightarrow> args_fit p'"
  by (auto simp: pushArgument_def args_fit_def DEFAULT_ARGC_def Let_def split: if_splits)

lemma save_fit: "args_fit p \<Longrightarrow> saveInput b x y p = Some p' \<Longrightarrow> args_fit p'"
  "args_fit p \<Longrightarrow> saveOutput b x y p = Some p' \<Longrightarrow> args_fit p'"
  by (auto simp: saveInput_def saveOutput_def args_fit_def)

lemma args_fit_bg [simp]: "args_fit (p\<lparr>bg := v\<rparr>) = args_fit p"
  by (simp add: args_fit_def)

lemma parse_char_fit: "parse_char b i (q, x, p) = Some (q', x', p') \<Longrightarrow> args_fit p \<Longrightarrow> args_fit p'"
  by (auto simp: parse_char_def Let_def bind_eq_Some_conv split: FMStates.splits if_splits
      dest!: pushArgument_fit [rotated] save_fit [rotated])

lemma parse_from_fit: "parse_from b i st = Some p' \<Longrightarrow> args_fit (snd (snd st)) \<Longrightarrow> args_fit p'"
proof (induction b i st rule: parse_from.induct)
  case (1 b i st)
  then show ?case
    by (cases st) (auto simp: parse_from.simps [of b i] split: if_splits option.splits dest: parse_char_fit)
qed

lemma empty_fit [simp]: "args_fit empty_program"
  by (simp add: empty_program_def args_fit_def DEFAULT_ARGC_def)

lemma clear_parsed:
  assumes "parseBuffer b empty_program = Some p"
  shows "clearProgram p = empty_program"
proof -
  have "args_fit p" using parse_from_fit [OF assms [unfolded parseBuffer_def]] by simp
  then show ?thesis by (cases p) (simp add: clearProgram_def empty_program_def args_fit_def)
qed

section \<open>The order of the commands\<close>

text \<open>What was launched is what the parser makes of the buffers \<open>bs\<close>.\<close>

definition launched :: "byte list list \<Rightarrow> shell \<Rightarrow> bool" where
  "launched bs s \<longleftrightarrow> map Some (sh_launched s) = map (\<lambda>b. parseBuffer b empty_program) bs"

text \<open>
  \<open>rd\<close> are the commands that were read, \<open>bs\<close> all commands. The last one is launched when the
  reader goes on, and not before the other thread was woken.
\<close>

definition lines_ok :: "byte list list \<Rightarrow> byte list list \<Rightarrow> shell \<Rightarrow> bool" where
  "lines_ok bs rd s \<longleftrightarrow> (\<exists>more. bs = rd @ more) \<and>
     (sh_reader s \<notin> {R_last_signal, R_undefined, R_done} \<longrightarrow> bs = rd @ commands (sh_input s) (sh_buffer s)) \<and>
     (sh_reader s \<in> {R_signal, R_wait, R_waiting} \<longrightarrow> rd \<noteq> [] \<and> sh_buffer s = last rd)"

definition program_ok :: "shell \<Rightarrow> bool" where
  "program_ok s \<longleftrightarrow>
     (case sh_exec s of
        X_fork \<Rightarrow> parseBuffer (sh_buffer s) empty_program = Some (sh_program s)
      | X_child \<Rightarrow> clearProgram (sh_program s) = empty_program
      | X_clear \<Rightarrow> clearProgram (sh_program s) = empty_program
      | X_overflow \<Rightarrow> True
      | X_done \<Rightarrow> True
      | _ \<Rightarrow> sh_program s = empty_program)"

definition turns_ok :: "byte list list \<Rightarrow> shell \<Rightarrow> bool" where
  "turns_ok rd s \<longleftrightarrow>
     (case sh_reader s of
        R_test \<Rightarrow> sh_run s \<and> sh_exec s \<in> {X_test, X_wait, X_waiting} \<and> launched rd s
      | R_read \<Rightarrow> sh_run s \<and> sh_exec s \<in> {X_test, X_wait, X_waiting} \<and> launched rd s
      | R_undefined \<Rightarrow> sh_run s \<and> sh_exec s \<in> {X_test, X_wait, X_waiting} \<and> launched rd s
      | R_signal \<Rightarrow> sh_run s \<and> sh_exec s \<in> {X_test, X_wait, X_waiting} \<and> launched (butlast rd) s
      | R_last_signal \<Rightarrow> \<not> sh_run s \<and> sh_exec s \<in> {X_test, X_wait, X_waiting, X_woken, X_done} \<and> launched rd s
      | R_done \<Rightarrow> \<not> sh_run s \<and> sh_exec s \<in> {X_test, X_wait, X_waiting, X_woken, X_done} \<and> launched rd s
      | _ \<Rightarrow> (sh_exec s \<noteq> X_done \<longrightarrow> sh_run s) \<and> (sh_exec s \<in> {X_woken, X_parse, X_fork, X_overflow} \<longrightarrow> launched (butlast rd) s) \<and>
             (sh_exec s \<in> {X_child, X_clear, X_signal} \<longrightarrow> launched rd s) \<and>
             (sh_exec s \<in> {X_test, X_wait, X_waiting, X_done} \<longrightarrow> launched rd s \<or> launched (butlast rd) s))"

lemmas shell_ok_defs = lines_ok_def program_ok_def turns_ok_def

lemma launched_update [simp]:
  "launched bs (s\<lparr>sh_run := r\<rparr>) = launched bs s" "launched bs (s\<lparr>sh_buffer := b\<rparr>) = launched bs s"
  "launched bs (s\<lparr>sh_program := p\<rparr>) = launched bs s" "launched bs (s\<lparr>sh_reader := q\<rparr>) = launched bs s"
  "launched bs (s\<lparr>sh_exec := x\<rparr>) = launched bs s" "launched bs (s\<lparr>sh_input := i\<rparr>) = launched bs s"
  by (simp_all add: launched_def)

lemma launched_cong: "sh_launched s = sh_launched s' \<Longrightarrow> launched bs s = launched bs s'"
  by (simp add: launched_def)

definition shell_ok :: "byte list list \<Rightarrow> byte list list \<Rightarrow> shell \<Rightarrow> bool" where
  "shell_ok bs rd s \<longleftrightarrow> lines_ok bs rd s \<and> program_ok s \<and> turns_ok rd s"

lemma lines_move:
  assumes "lines_ok bs rd s" "sh_input s' = sh_input s" "sh_buffer s' = sh_buffer s"
    and "sh_reader s' = sh_reader s \<or> (sh_reader s, sh_reader s') \<in>
      {(R_test, R_read), (R_test, R_done), (R_signal, R_wait), (R_wait, R_waiting), (R_waiting, R_test), (R_last_signal, R_done)}"
  shows "lines_ok bs rd s'"
  using assms unfolding lines_ok_def by (elim disjE) (simp_all, force+)

lemma read_ok:
  assumes "shell_ok bs rd s" and r: "sh_reader s = R_read" and "parseWorker s = Some s'"
  shows "\<exists>rd'. shell_ok bs rd' s'"
proof -
  obtain act s1 where l: "read_line s = (act, s1)" by fastforce
  note o = read_line_other [OF l]
  have x: "sh_exec s1 \<in> {X_test, X_wait, X_waiting}" "sh_run s1" "launched rd s1" "sh_program s1 = empty_program"
    using assms o launched_cong [of s1 s] by (auto simp: shell_ok_def shell_ok_defs)
  have b: "bs = rd @ commands (sh_input s) (sh_buffer s)"
    using assms by (simp add: shell_ok_def lines_ok_def)
  note c = commands_read [OF l]
  show ?thesis
  proof (cases act)
    case (Execute e)
    with assms(3) r l have "s' = s1\<lparr>sh_reader := R_signal\<rparr>" by (simp add: parseWorker_def)
    with x b c Execute show ?thesis
      by (intro exI [of _ "rd @ [sh_buffer s1]"]) (auto simp: shell_ok_def shell_ok_defs)
  qed (rule exI [of _ rd]; use assms(3) r l x b c in \<open>auto simp: parseWorker_def shell_ok_def shell_ok_defs\<close>)+
qed

lemma reader_ok:
  assumes "shell_ok bs rd s" and "parseWorker s = Some s'"
  shows "\<exists>rd'. shell_ok bs rd' s'"
proof (cases "sh_reader s = R_read")
  case True
  with assms show ?thesis by (intro read_ok)
next
  case False
  have l: "lines_ok bs rd s" using assms by (simp add: shell_ok_def)
  have "sh_reader s = R_test \<Longrightarrow> sh_run s" using assms by (simp add: shell_ok_def turns_ok_def)
  then have "lines_ok bs rd s'"
    using False assms(2) by (intro lines_move [OF l]; cases "sh_reader s") (auto simp: parseWorker_def signal_exec_def)
  moreover have "program_ok s'"
    using False assms by (cases "sh_reader s"; cases "sh_exec s")
      (auto simp: shell_ok_def program_ok_def turns_ok_def parseWorker_def signal_exec_def)
  moreover have "turns_ok rd s'"
    using False assms by (cases "sh_reader s"; cases "sh_exec s")
      (auto simp: shell_ok_def turns_ok_def parseWorker_def signal_exec_def)
  ultimately show ?thesis by (auto simp: shell_ok_def)
qed

lemma exec_ok:
  assumes ok: "shell_ok bs rd s" and st: "execWorker forked s = Some s'"
  shows "shell_ok bs rd s'"
proof -
  have "lines_ok bs rd s" using ok by (simp add: shell_ok_def)
  then have l: "lines_ok bs rd s'"
    by (rule lines_move; use st in \<open>cases "sh_exec s"; auto simp: execWorker_def signal_reader_def split: option.splits if_splits\<close>)
  show ?thesis
  proof (cases "sh_exec s")
  case X_fork
  then have q: "sh_reader s \<in> {R_wait, R_waiting}"
    using ok by (auto simp: shell_ok_def turns_ok_def split: reader_point.splits)
  have r: "sh_run s" using ok q X_fork by (auto simp: shell_ok_def turns_ok_def)
  have p: "parseBuffer (last rd) empty_program = Some (sh_program s)" "rd \<noteq> []" "launched (butlast rd) s"
    using ok q X_fork by (auto simp: shell_ok_def shell_ok_defs)
  then have "launched rd (s\<lparr>sh_launched := sh_launched s @ [sh_program s], sh_exec := x\<rparr>)" for x
    by (cases rd rule: rev_cases) (auto simp: launched_def)
  then show ?thesis
    using st q p r X_fork clear_parsed [OF p(1)] l by (auto simp: execWorker_def shell_ok_def program_ok_def turns_ok_def split: if_splits)
next
  case X_parse
  then have q: "sh_reader s \<in> {R_wait, R_waiting}"
    using ok by (auto simp: shell_ok_def turns_ok_def split: reader_point.splits)
  with ok st X_parse l show ?thesis
    by (auto simp: execWorker_def shell_ok_def program_ok_def turns_ok_def split: option.splits)
next
  case X_signal
  then have q: "sh_reader s \<in> {R_wait, R_waiting}"
    using ok by (auto simp: shell_ok_def turns_ok_def split: reader_point.splits)
  with ok st X_signal l show ?thesis
    by (auto simp: execWorker_def shell_ok_def program_ok_def turns_ok_def signal_reader_def)
qed (use ok st l in \<open>cases "sh_reader s"; auto simp: execWorker_def shell_ok_def program_ok_def turns_ok_def\<close>)+
qed

lemma shell_run_ok: "shell_run reads buffer n s \<Longrightarrow> n = 0 \<Longrightarrow> \<exists>rd. shell_ok (commands reads buffer) rd s"
proof (induction rule: shell_run.induct)
  case start
  show ?case
    by (intro exI [of _ "[]"]) (simp add: shell_ok_def shell_ok_defs shell_init_def launched_def)
qed (auto intro: reader_ok exec_ok)

text \<open>
  C20. In every state that the two threads can reach without a spurious wakeup, in whatever order they take their steps, the
  programs that were launched are what the parser makes of the first commands that were read,
  in their order, each once: no command is launched twice, skipped or read over by the next one. When a read
  fails, the thread that reads writes before its buffer unless an old empty command or exit is still in it, and the property speaks of the
  commands before that.
\<close>

theorem commands_in_order:
  assumes "shell_run reads buffer 0 s"
  shows "\<exists>n. map Some (sh_launched s) = map (\<lambda>b. parseBuffer b empty_program) (take n (commands reads buffer))"
proof -
  from shell_run_ok [OF assms] obtain rd where ok: "shell_ok (commands reads buffer) rd s" by blast
  then obtain more where m: "commands reads buffer = rd @ more" by (auto simp: shell_ok_def lines_ok_def)
  then have "take (length rd) (commands reads buffer) = rd" "take (length rd - 1) (commands reads buffer) = butlast rd"
    by (simp_all add: butlast_conv_take)
  moreover have "launched rd s \<or> launched (butlast rd) s"
    using ok by (cases "sh_reader s"; cases "sh_exec s") (auto simp: shell_ok_def turns_ok_def)
  ultimately show ?thesis unfolding launched_def by metis
qed

text \<open>A schedule: \<open>False\<close> for a step of the reader.\<close>

fun shell_schedule :: "bool list \<Rightarrow> shell \<Rightarrow> shell option" where
  "shell_schedule [] s = Some s"
| "shell_schedule (x # xs) s = (case (if x then execWorker True s else parseWorker s) of None \<Rightarrow> None | Some s' \<Rightarrow> shell_schedule xs s')"

lemma shell_schedule_run: "shell_run reads buffer n s \<Longrightarrow> shell_schedule xs s = Some s' \<Longrightarrow> shell_run reads buffer n s'"
  by (induction xs arbitrary: s) (auto split: option.splits if_splits intro: shell_run.intros)

definition two_lines :: "byte list option list" where
  "two_lines = [Some [97, 32, 38, 10], Some [98, 10]]"

theorem commands_in_order_witness:
  "\<exists>s n. shell_run two_lines (replicate 513 0) 0 s \<and> length (sh_launched s) = 2 \<and> sh_exec s = X_done \<and> sh_reader s = R_done \<and>
     map Some (sh_launched s) = map (\<lambda>b. parseBuffer b empty_program) (take n (commands two_lines (replicate 513 0)))"
proof -
  define xs where "xs = [True, True] @ [False, False, False, False] @ [True, True, True, True, True] @ [True, True]
    @ [False, False, False, False] @ [True, True, True, True, True, True] @ [True, True] @ [False, False, False] @ [True]"
  define s where "s = the (shell_schedule xs (shell_init two_lines (replicate 513 0)))"
  have r: "shell_schedule xs (shell_init two_lines (replicate 513 0)) = Some s" "length (sh_launched s) = 2"
    "sh_exec s = X_done" "sh_reader s = R_done"
    unfolding s_def xs_def by code_simp+
  have run: "shell_run two_lines (replicate 513 0) 0 s" by (rule shell_schedule_run [OF shell_run.start r(1)])
  with commands_in_order [OF run] r(2-4) show ?thesis by blast
qed

text \<open>
  A lost signal: the reader signals its first command before the other thread waits. Both threads
  then wait for each other, no step is possible, and the command is never launched.
\<close>

theorem signal_lost:
  "\<exists>s. shell_run two_lines (replicate 513 0) 0 s \<and> parseWorker s = None \<and> (\<forall>forked. execWorker forked s = None) \<and>
     sh_run s \<and> sh_launched s = []"
proof -
  define s where "s = the (shell_schedule ([False, False, False, False] @ [True, True]) (shell_init two_lines (replicate 513 0)))"
  have r: "shell_schedule ([False, False, False, False] @ [True, True]) (shell_init two_lines (replicate 513 0)) = Some s"
    "parseWorker s = None" "sh_exec s = X_waiting" "sh_run s" "sh_launched s = []"
    unfolding s_def by code_simp+
  have run: "shell_run two_lines (replicate 513 0) 0 s" by (rule shell_schedule_run [OF shell_run.start r(1)])
  with r(2-5) show ?thesis by (intro exI [of _ s]) (simp add: execWorker_def)
qed

text \<open>
  A wakeup that nobody caused: after the first command the thread that launches wakes up by itself, and launches what is
  still in the buffer a second time.
\<close>

theorem spurious_wakeup_repeats:
  "\<exists>s. shell_run two_lines (replicate 513 0) 1 s \<and> length (sh_launched s) = 2 \<and>
     map Some (sh_launched s) = map (\<lambda>b. parseBuffer b empty_program) (replicate 2 (hd (commands two_lines (replicate 513 0))))"
proof -
  define xs where "xs = [True, True] @ [False, False, False, False] @ [True, True, True, True, True] @ [True, True]"
  define s where "s = the (shell_schedule xs (shell_init two_lines (replicate 513 0)))"
  define s' where "s' = the (shell_schedule [True, True, True] (s\<lparr>sh_exec := X_woken\<rparr>))"
  have r: "shell_schedule xs (shell_init two_lines (replicate 513 0)) = Some s" "sh_exec s = X_waiting"
    "shell_schedule [True, True, True] (s\<lparr>sh_exec := X_woken\<rparr>) = Some s'"
    "map Some (sh_launched s') = map (\<lambda>b. parseBuffer b empty_program) (replicate 2 (hd (commands two_lines (replicate 513 0))))"
    unfolding s'_def s_def xs_def by code_simp+
  have "shell_run two_lines (replicate 513 0) 0 s" by (rule shell_schedule_run [OF shell_run.start r(1)])
  then have "shell_run two_lines (replicate 513 0) 1 (s\<lparr>sh_exec := X_woken\<rparr>)" using r(2) by (simp add: shell_run.exec_wakes)
  then have run: "shell_run two_lines (replicate 513 0) 1 s'" by (rule shell_schedule_run [OF _ r(3)])
  have "length (sh_launched s') = 2" using arg_cong [OF r(4), of length] by simp
  with run r(4) show ?thesis by blast
qed

end
