(* ===== verification/Word_Pattern.thy ===== *)
theory Word_Pattern
  imports C_Numbers
begin

text \<open>
  The word counter of \<^verbatim>\<open>IZP/proj1.c\<close>: it counts the words of its input that have a given character,
  or one of a class of characters, at a given position or anywhere. A word is a run of
  letters, digits, \<open>-\<close> and \<open>_\<close>. The theorem says so of the whole program, with the arguments
  in decimal and the output of the debug mode.
\<close>

section \<open>The program\<close>

definition CHAR_ALL :: byte where "CHAR_ALL = 46"
definition CHAR_NUMBER :: byte where "CHAR_NUMBER = 58"
definition CHAR_UPCASE :: byte where "CHAR_UPCASE = 94"
definition DEBUG_MAXLEN :: u32 where "DEBUG_MAXLEN = 80"
definition INT_MAX :: nat where "INT_MAX = 2147483647"

record TParams =
  symbol :: byte
  index :: u32
  debug :: bool

definition checkDigit :: "byte \<Rightarrow> bool" where
  "checkDigit c \<longleftrightarrow> 48 \<le> c \<and> c \<le> 57"

definition checkUpperCase :: "byte \<Rightarrow> bool" where
  "checkUpperCase c \<longleftrightarrow> 65 \<le> c \<and> c \<le> 90"

definition checkLowerCase :: "byte \<Rightarrow> bool" where
  "checkLowerCase c \<longleftrightarrow> 97 \<le> c \<and> c \<le> 122"

definition checkCharInput :: "byte \<Rightarrow> bool" where
  "checkCharInput c \<longleftrightarrow> checkDigit c \<or> checkUpperCase c \<or> checkLowerCase c \<or> c = 45 \<or> c = 95"

definition checkChar :: "byte \<Rightarrow> byte \<Rightarrow> bool" where
  "checkChar c symb =
     (if symb = CHAR_NUMBER then checkDigit c
      else if symb = CHAR_UPCASE then checkUpperCase c
      else symb = CHAR_ALL \<or> symb = c)"

fun to_int_loop :: "u64 \<Rightarrow> byte list \<Rightarrow> u32" where
  "to_int_loop number [] = ucast number"
| "to_int_loop number (c # cs) =
     (if \<not> checkDigit c then 0
      else let n = number * 10 + ucast c - 48 in if n > of_nat INT_MAX then 0 else to_int_loop n cs)"

definition charToInt :: "byte list \<Rightarrow> u32" where
  "charToInt s = to_int_loop 0 s"

record counting =
  wordFound :: bool
  newWord :: bool
  position :: u32
  wordsCount :: u32
  debug_out :: "byte list"

definition read_char :: "TParams \<Rightarrow> byte \<Rightarrow> counting \<Rightarrow> counting" where
  "read_char params c st =
     (if \<not> checkCharInput c
      then st\<lparr>debug_out := debug_out st @ (if debug params \<and> \<not> newWord st then [10] else []),
              wordFound := False, newWord := True, position := 0\<rparr>
      else let out = debug_out st @ (if debug params \<and> position st < DEBUG_MAXLEN then [c] else []);
               pos = position st + 1;
               hit = (\<not> wordFound st \<and> checkChar c (symbol params) \<and> (index params = 0 \<or> index params = pos))
           in st\<lparr>debug_out := out, newWord := False, position := pos,
                 wordFound := (hit \<or> wordFound st), wordsCount := (if hit then wordsCount st + 1 else wordsCount st)\<rparr>)"

definition readAndCount :: "TParams \<Rightarrow> byte list \<Rightarrow> byte list \<times> int" where
  "readAndCount params input =
     (let st = fold (read_char params) input \<lparr>wordFound = False, newWord = True, position = 0, wordsCount = 0, debug_out = []\<rparr>
      in (debug_out st, sint (wordsCount st)))"

datatype count_result = Count_error | Count_help | Counted "byte list \<times> int"

definition count_arg :: "byte list \<Rightarrow> TParams \<Rightarrow> TParams" where
  "count_arg a p =
     (let p1 = (if charToInt a \<noteq> 0 then p\<lparr>index := charToInt a\<rparr> else p)
      in if a = [45, 100] then p1\<lparr>debug := True\<rparr> else p1)"

definition count_main :: "byte list list \<Rightarrow> byte list \<Rightarrow> count_result" where
  "count_main args input =
     (if length args < 1 \<or> length args > 3 then Count_error
      else if args ! 0 = [45, 45, 104, 101, 108, 112] then Count_help
      else if length (args ! 0) > 1 then Count_error
      else let symb = (if args ! 0 = [] then 0 else args ! 0 ! 0)
           in Counted (readAndCount (fold count_arg (tl args) \<lparr>symbol = symb, index = 0, debug = False\<rparr>) input))"

section \<open>The words of the input\<close>

function word_runs :: "byte list \<Rightarrow> byte list list" where
  "word_runs f =
     (case dropWhile (\<lambda>c. \<not> checkCharInput c) f of [] \<Rightarrow> []
      | c # t \<Rightarrow> (c # takeWhile checkCharInput t) # word_runs (dropWhile checkCharInput t))"
  by pat_completeness auto

termination
proof (relation "measure length")
  fix f c t assume "dropWhile (\<lambda>c. \<not> checkCharInput c) f = c # t"
  then have "length t < length f" using length_dropWhile_le [of "\<lambda>c. \<not> checkCharInput c" f] by simp
  then show "(dropWhile checkCharInput t, f) \<in> measure length"
    using length_dropWhile_le [of checkCharInput t] by simp
qed simp

declare word_runs.simps [simp del]

definition word_matches :: "byte \<Rightarrow> nat \<Rightarrow> byte list \<Rightarrow> bool" where
  "word_matches symb n w \<longleftrightarrow>
     (if n = 0 then \<exists>c \<in> set w. checkChar c symb else n \<le> length w \<and> checkChar (w ! (n - 1)) symb)"

definition debug_text :: "byte list \<Rightarrow> byte list" where
  "debug_text input =
     (let t = concat (map (\<lambda>w. take 80 w @ [10]) (word_runs input))
      in if input \<noteq> [] \<and> checkCharInput (last input) then butlast t else t)"

lemma word_matches_nil [simp]: "\<not> word_matches symb n []"
  by (simp add: word_matches_def)

lemma word_matches_snoc:
  "word_matches symb n (w @ [c]) \<longleftrightarrow> word_matches symb n w \<or> checkChar c symb \<and> (n = 0 \<or> n = length w + 1)"
  by (auto simp: word_matches_def nth_append)

text \<open>The state inside a word \<open>w\<close>, or between words when \<open>w\<close> is empty.\<close>

definition inside_word :: "TParams \<Rightarrow> byte list \<Rightarrow> u32 \<Rightarrow> byte list \<Rightarrow> counting" where
  "inside_word p w n out =
     \<lparr>wordFound = word_matches (symbol p) (unat (index p)) w, newWord = (w = []), position = of_nat (length w),
      wordsCount = n + (if word_matches (symbol p) (unat (index p)) w then 1 else 0),
      debug_out = out @ (if debug p then take 80 w else [])\<rparr>"

lemma unat_u32: "k < 2 ^ 32 \<Longrightarrow> unat (of_nat k :: u32) = k"
  by (simp add: unsigned_of_nat take_bit_nat_eq_self)

lemma index_is_position:
  assumes "k < 2 ^ 32"
  shows "(i :: u32) = of_nat k \<longleftrightarrow> unat i = k"
  using unat_u32 [OF assms] by (auto simp: word_unat_eq_iff)

lemma read_word_char:
  assumes "checkCharInput c" and l: "length w + 1 < 2 ^ 32"
  shows "read_char p c (inside_word p w n out) = inside_word p (w @ [c]) n out"
proof -
  have i: "(index p = of_nat (length w) + 1) \<longleftrightarrow> unat (index p) = length w + 1"
    using index_is_position [OF l, of "index p"] by (simp add: add.commute)
  have z: "index p = 0 \<longleftrightarrow> unat (index p) = 0" by (simp add: unat_eq_zero)
  have d: "(of_nat (length w) :: u32) < DEBUG_MAXLEN \<longleftrightarrow> length w < 80"
    using unat_u32 [of "length w"] l by (simp add: DEBUG_MAXLEN_def word_less_nat_alt)
  show ?thesis
    using assms(1) by (auto simp: read_char_def inside_word_def word_matches_snoc i z d Let_def)
qed

lemma read_whole_word:
  "\<forall>c \<in> set w. checkCharInput c \<Longrightarrow> length v + length w < 2 ^ 32 \<Longrightarrow>
     fold (read_char p) w (inside_word p v n out) = inside_word p (v @ w) n out"
  by (induction w arbitrary: v) (simp_all add: read_word_char)

lemma read_gap:
  "\<forall>c \<in> set g. \<not> checkCharInput c \<Longrightarrow> fold (read_char p) g (inside_word p [] n out) = inside_word p [] n out"
  by (induction g) (auto simp: read_char_def inside_word_def)

lemma read_separator:
  assumes "\<not> checkCharInput c" "w \<noteq> []"
  shows "read_char p c (inside_word p w n out) =
    read_char p c (inside_word p [] (n + (if word_matches (symbol p) (unat (index p)) w then 1 else 0))
      (out @ (if debug p then take 80 w @ [10] else [])))"
  using assms by (simp add: read_char_def inside_word_def)


lemma runs_gap: "\<not> checkCharInput c \<Longrightarrow> word_runs (c # r) = word_runs r"
  by (simp add: word_runs.simps [of "c # r"] word_runs.simps [of r])

lemma runs_Nil [simp]: "word_runs [] = []"
  by (simp add: word_runs.simps)

definition word_lines :: "byte list \<Rightarrow> byte list" where
  "word_lines input = concat (map (\<lambda>w. take 80 w @ [10]) (word_runs input))"

lemma runs_cases:
  obtains (gap) g where "input = g" "\<forall>c \<in> set g. \<not> checkCharInput c" "word_runs input = []"
  | (word) g w r where "input = g @ w @ r" "\<forall>c \<in> set g. \<not> checkCharInput c" "w \<noteq> []" "\<forall>c \<in> set w. checkCharInput c"
      "r = [] \<or> \<not> checkCharInput (hd r)" "word_runs input = w # word_runs r" "length r < length input"
proof (cases "dropWhile (\<lambda>c. \<not> checkCharInput c) input")
  case Nil
  then have "\<forall>c \<in> set input. \<not> checkCharInput c" by simp
  moreover have "word_runs input = []" by (subst word_runs.simps) (simp only: Nil list.case)
  ultimately show ?thesis by (intro gap [OF refl])
next
  case (Cons c t)
  define g where "g = takeWhile (\<lambda>c. \<not> checkCharInput c) input"
  have e: "input = g @ c # t" using takeWhile_dropWhile_id [of "\<lambda>c. \<not> checkCharInput c" input] Cons by (simp add: g_def)
  have c: "checkCharInput c" using hd_dropWhile [of "\<lambda>c. \<not> checkCharInput c" input] Cons by simp
  show ?thesis
  proof (rule word [of g "c # takeWhile checkCharInput t" "dropWhile checkCharInput t"])
    show "\<forall>d \<in> set g. \<not> checkCharInput d" unfolding g_def by (auto dest: set_takeWhileD)
    show "\<forall>d \<in> set (c # takeWhile checkCharInput t). checkCharInput d" using c by (auto dest: set_takeWhileD)
    show "dropWhile checkCharInput t = [] \<or> \<not> checkCharInput (hd (dropWhile checkCharInput t))"
      using hd_dropWhile [of checkCharInput t] by blast
    show "word_runs input = (c # takeWhile checkCharInput t) # word_runs (dropWhile checkCharInput t)"
      by (simp add: word_runs.simps [of input] Cons)
    show "length (dropWhile checkCharInput t) < length input"
      using length_dropWhile_le [of checkCharInput t] e by simp
  qed (simp_all add: e)
qed

text \<open>Reading the whole input from between two words.\<close>

lemma read_input:
  assumes "length input < 2 ^ 32"
  shows "wordsCount (fold (read_char p) input (inside_word p [] n out))
      = n + of_nat (length (filter (word_matches (symbol p) (unat (index p))) (word_runs input)))
    \<and> debug_out (fold (read_char p) input (inside_word p [] n out))
      = out @ (if debug p then if input \<noteq> [] \<and> checkCharInput (last input) then butlast (word_lines input) else word_lines input else [])"
  using assms
proof (induction "length input" arbitrary: input n out rule: less_induct)
  case less
  show ?case
  proof (cases input rule: runs_cases)
    case (gap g)
    then have "input \<noteq> [] \<Longrightarrow> \<not> checkCharInput (last input)" by simp
    then show ?thesis
      unfolding gap(1) read_gap [OF gap(2)] using gap by (auto simp: word_lines_def inside_word_def)
  next
    case (word g w r)
    let ?m = "word_matches (symbol p) (unat (index p))"
    have w: "fold (read_char p) input (inside_word p [] n out) = fold (read_char p) r (inside_word p w n out)"
      using word less.prems read_whole_word [of w "[]" p n out] by (simp add: read_gap)
    show ?thesis
    proof (cases r)
      case Nil
      then have "input \<noteq> [] \<and> checkCharInput (last input)" using word by simp
      then show ?thesis
        using Nil w word(6) by (simp add: word_lines_def inside_word_def butlast_append)
    next
      case (Cons c r')
      let ?n = "n + (if ?m w then 1 else 0)" and ?out = "out @ (if debug p then take 80 w @ [10] else [])"
      have c: "\<not> checkCharInput c" using Cons word(5) by simp
      have "fold (read_char p) r (inside_word p w n out) = fold (read_char p) r (inside_word p [] ?n ?out)"
        using read_separator [OF c word(3), of p n out] Cons by simp
      moreover have "wordsCount (fold (read_char p) r (inside_word p [] ?n ?out)) = ?n + of_nat (length (filter ?m (word_runs r)))
        \<and> debug_out (fold (read_char p) r (inside_word p [] ?n ?out))
          = ?out @ (if debug p then if r \<noteq> [] \<and> checkCharInput (last r) then butlast (word_lines r) else word_lines r else [])"
        using less.prems word(7) by (intro less.hyps) simp_all
      moreover have "last input = last r" "input \<noteq> []" "r \<noteq> []" using word(1) Cons by simp_all
      moreover have "word_lines input = take 80 w @ [10] @ word_lines r" by (simp add: word_lines_def word(6))
      moreover have "checkCharInput (last r) \<Longrightarrow> word_lines r \<noteq> []"
      proof -
        assume l: "checkCharInput (last r)"
        show ?thesis
        proof (cases r rule: runs_cases)
          case (gap g)
          with Cons l show ?thesis by simp
        qed (simp add: word_lines_def)
      qed
      ultimately show ?thesis using w word(6) by (simp add: butlast_append)
    qed
  qed
qed

section \<open>The arguments\<close>

lemma digit_u64:
  assumes "checkDigit c" "F < 2 ^ 40"
  shows "of_nat F * 10 + ucast c - 48 = (of_nat (F * 10 + unat (c - 48)) :: u64)"
proof -
  have c: "48 \<le> unat c" using assms(1) by (simp add: checkDigit_def word_le_nat_alt)
  have "unat (c - 48) = unat c - 48" using assms(1) by (simp add: checkDigit_def unat_sub)
  moreover have "(ucast c :: u64) = of_nat (unat c)" by simp
  ultimately show ?thesis using c by (simp add: of_nat_diff algebra_simps)
qed

lemma unat_u64: "k < 2 ^ 64 \<Longrightarrow> unat (of_nat k :: u64) = k"
  by (simp add: unsigned_of_nat take_bit_nat_eq_self)

lemma digits_grow: "G \<le> foldl (\<lambda>n c. n * 10 + unat (c - 48 :: byte)) G ds"
proof (induction ds arbitrary: G)
  case (Cons d ds)
  show ?case using Cons [of "G * 10 + unat (d - 48)"] by simp
qed simp

lemma to_int_digits:
  assumes "\<forall>c \<in> set cs. checkDigit c" "foldl (\<lambda>n c. n * 10 + unat (c - 48)) F cs \<le> INT_MAX"
  shows "to_int_loop (of_nat F) cs = of_nat (foldl (\<lambda>n c. n * 10 + unat (c - 48)) F cs)"
  using assms
proof (induction cs arbitrary: F)
  case Nil
  have "(ucast (of_nat F :: u64) :: u32) = of_nat F" by (simp add: unsigned_of_nat word_of_nat_eq_iff)
  then show ?case by simp
next
  case (Cons c cs)
  let ?G = "F * 10 + unat (c - 48)"
  have G: "?G \<le> INT_MAX" using digits_grow [of ?G cs] Cons.prems(2) by simp
  then have "F < 2 ^ 40" by (simp add: INT_MAX_def)
  then have n: "of_nat F * 10 + ucast c - 48 = (of_nat ?G :: u64)" using Cons.prems by (intro digit_u64) simp_all
  have "unat (of_nat ?G :: u64) = ?G" using G by (intro unat_u64) (simp add: INT_MAX_def)
  then have "\<not> (of_nat INT_MAX < (of_nat ?G :: u64))" using G by (simp add: word_less_nat_alt INT_MAX_def)
  moreover have "to_int_loop (of_nat ?G) cs = of_nat (foldl (\<lambda>n c. n * 10 + unat (c - 48)) ?G cs)"
    using Cons.prems by (intro Cons.IH) simp_all
  ultimately show ?case using Cons.prems(1) by (simp only: to_int_loop.simps n Let_def list.set) simp
qed

lemma charToInt_decimal:
  assumes "n \<le> INT_MAX"
  shows "charToInt (decimal n) = of_nat n"
proof -
  have i: "int (foldl (\<lambda>n c. n * 10 + unat (c - 48 :: byte)) F ds) = foldl (\<lambda>n c. n * 10 + int (unat (c - 48))) (int F) ds" for F ds
    by (induction ds arbitrary: F) (simp_all del: of_nat_unat)
  have "foldl (\<lambda>n c. n * 10 + unat (c - 48 :: byte)) 0 (decimal n) = n"
    using decimal [of n] i [of 0 "decimal n"] by (simp add: digits_value_def del: of_nat_unat)
  moreover have "\<forall>c \<in> set (decimal n). checkDigit c" using decimal [of n] by (simp add: checkDigit_def is_digit_def)
  ultimately show ?thesis using to_int_digits [of "decimal n" 0] assms by (simp add: charToInt_def)
qed

lemma debug_arg: "charToInt [45, 100] = 0"
  by code_simp

lemma decimal_not_debug: "decimal n \<noteq> [45, 100]"
  using decimal [of n] by (auto simp: is_digit_def)

lemma length_word_runs: "length (word_runs f) \<le> length f"
proof (induction "length f" arbitrary: f rule: less_induct)
  case less
  show ?case
  proof (cases f rule: runs_cases)
    case (word g w r)
    then show ?thesis using less.hyps [of r] by (cases w) simp_all
  qed simp
qed

text \<open>
  C24. The whole program: with a character, a decimal position that fits an \<open>int\<close> and possibly
  \<open>-d\<close>, it prints the number of words of the input that have the character, or one of its class, at the
  position, or anywhere when the position is 0; in the debug mode also the first 80 characters of
  every word on a line of their own, without the end of the last line when the input ends in a word.
\<close>

theorem words_are_counted:
  assumes "c \<noteq> 0" and "n \<le> INT_MAX" and "length input \<le> INT_MAX"
  shows "count_main ([[c], decimal n] @ (if d then [[45, 100]] else [])) input =
    Counted (if d then debug_text input else [], int (length (filter (word_matches c n) (word_runs input))))"
proof -
  define p where "p = \<lparr>symbol = c, index = of_nat n, debug = d\<rparr>"
  define st where "st = fold (read_char p) input (inside_word p [] 0 [])"
  let ?k = "length (filter (word_matches c n) (word_runs input))"
  have l: "length input < 2 ^ 32" using assms(3) by (simp add: INT_MAX_def)
  have i: "unat (index p) = n" using assms(2) unat_u32 [of n] by (simp add: p_def INT_MAX_def)
  have sy: "symbol p = c" "debug p = d" by (simp_all add: p_def)
  have args: "fold count_arg (decimal n # (if d then [[45, 100]] else [])) \<lparr>symbol = c, index = 0, debug = False\<rparr> = p"
    using charToInt_decimal [OF assms(2)] decimal_not_debug [of n] debug_arg by (auto simp: count_arg_def p_def Let_def)
  have start: "\<lparr>wordFound = False, newWord = True, position = 0, wordsCount = 0, debug_out = []\<rparr> = inside_word p [] 0 []"
    by (simp add: inside_word_def)
  have main: "count_main ([[c], decimal n] @ (if d then [[45, 100]] else [])) input = Counted (debug_out st, sint (wordsCount st))"
    using args by (simp add: count_main_def readAndCount_def start st_def Let_def)
  have st: "wordsCount st = of_nat ?k" "debug_out st = (if d then debug_text input else [])"
    using read_input [OF l, of p 0 "[]"] unfolding st_def i sy by (auto simp: debug_text_def word_lines_def Let_def)
  have "?k \<le> INT_MAX" using length_word_runs [of input] length_filter_le [of "word_matches c n" "word_runs input"] assms(3) by linarith
  then have "sint (of_nat ?k :: u32) = int ?k" by (simp add: INT_MAX_def signed_of_nat signed_take_bit_int_eq_self)
  then show ?thesis using main st by simp
qed

theorem words_are_counted_witness:
  "count_main [[94], [50], [45, 100]] [97, 66, 32, 45, 65, 66, 46, 67] = Counted ([97, 66, 10, 45, 65, 66, 10, 67], 2)"
proof -
  have d: "decimal 2 = [50]" by code_simp
  have f: "length (filter (word_matches 94 2) (word_runs [97, 66, 32, 45, 65, 66, 46, 67])) = 2" by code_simp
  have t: "debug_text [97, 66, 32, 45, 65, 66, 46, 67] = [97, 66, 10, 45, 65, 66, 10, 67]" by code_simp
  show ?thesis
    using words_are_counted [of 94 2 "[97, 66, 32, 45, 65, 66, 46, 67]" True] by (simp add: d f t INT_MAX_def)
qed

end
