(* ===== verification/Bitmap_Shapes.thy ===== *)
theory Bitmap_Shapes
  imports C_Numbers "HOL-Library.Product_Lexorder"
begin

text \<open>
  The search for shapes in a bitmap of \<^verbatim>\<open>IZP/proj3.c\<close>: the longest horizontal and the longest
  vertical line, the largest square, and the program around them. The theorems: both line
  searches find the first of the longest lines, in the order of the rows; what the square search
  finds is a square, but there are squares that it does not find.
\<close>

section \<open>The bitmap\<close>

record Bitmap =
  rows :: int
  cols :: int
  cells :: "byte list"

abbreviation (input) "ZERO \<equiv> (48 :: byte)"
abbreviation (input) "ONE \<equiv> (49 :: byte)"

definition getcolor :: "Bitmap \<Rightarrow> nat \<Rightarrow> nat \<Rightarrow> byte" where
  "getcolor bitmap x y = cells bitmap ! (y * nat (cols bitmap) + x)"

definition black :: "Bitmap \<Rightarrow> nat \<Rightarrow> nat \<Rightarrow> bool" where
  "black bitmap x y \<longleftrightarrow> getcolor bitmap x y \<noteq> ZERO"

section \<open>Lines\<close>

text \<open>
  The variables of both line searches: \<^verbatim>\<open>found\<close>, \<^verbatim>\<open>a\<close> and \<^verbatim>\<open>b\<close>, \<^verbatim>\<open>n\<close>, \<^verbatim>\<open>max\<close>, and the end points
  \<^verbatim>\<open>x1\<close>, \<^verbatim>\<open>y1\<close> and \<^verbatim>\<open>x2\<close>, \<^verbatim>\<open>y2\<close>. A point is its row and its column.
\<close>

record line_search =
  found :: bool
  start :: "nat \<times> nat"
  run_n :: nat
  max_n :: nat
  end1 :: "nat \<times> nat"
  end2 :: "nat \<times> nat"

definition search_init :: line_search where
  "search_init = \<lparr>found = False, start = (0, 0), run_n = 0, max_n = 0, end1 = (0, 0), end2 = (0, 0)\<rparr>"

definition hline_cell :: "Bitmap \<Rightarrow> nat \<Rightarrow> nat \<Rightarrow> line_search \<Rightarrow> line_search" where
  "hline_cell bitmap i j s =
     (if getcolor bitmap j i = ZERO then s\<lparr>run_n := 0, found := False\<rparr>
      else let s1 = (if \<not> found s then s\<lparr>start := (i, j), found := True\<rparr> else s);
               s2 = (if run_n s1 > max_n s1 then s1\<lparr>max_n := run_n s1, end1 := start s1, end2 := (i, j)\<rparr> else s1)
           in s2\<lparr>run_n := run_n s2 + 1\<rparr>)"

definition find_hline :: "Bitmap \<Rightarrow> line_search" where
  "find_hline bitmap =
     fold (\<lambda>i s. fold (hline_cell bitmap i) [0..<nat (cols bitmap)] (s\<lparr>run_n := 0, found := False\<rparr>))
       [0..<nat (rows bitmap)] search_init"

definition vline_cell :: "Bitmap \<Rightarrow> nat \<Rightarrow> nat \<Rightarrow> line_search \<Rightarrow> line_search" where
  "vline_cell bitmap i j s =
     (if getcolor bitmap i j = ZERO then s\<lparr>run_n := 0, found := False\<rparr>
      else let s1 = (if \<not> found s then s\<lparr>start := (j, i), found := True\<rparr> else s);
               s2 = (if run_n s1 > max_n s1 then s1\<lparr>max_n := run_n s1, end1 := start s1, end2 := (j, i)\<rparr> else s1);
               s3 = (if run_n s2 = max_n s2 \<and> fst (end1 s2) > fst (start s2) then s2\<lparr>end1 := start s2, end2 := (j, i)\<rparr> else s2)
           in s3\<lparr>run_n := run_n s3 + 1\<rparr>)"

definition find_vline :: "Bitmap \<Rightarrow> line_search" where
  "find_vline bitmap =
     fold (\<lambda>i s. fold (vline_cell bitmap i) [0..<nat (rows bitmap)] (s\<lparr>run_n := 0, found := False\<rparr>))
       [0..<nat (cols bitmap)] search_init"

section \<open>Squares\<close>

record square_search =
  max_sq :: nat
  corner1 :: "nat \<times> nat"
  corner2 :: "nat \<times> nat"

text \<open>
  The loop over the sizes \<open>n\<close> of a square at column \<open>i\<close> and row \<open>j\<close>; the result is the column
  from which the search goes on.
\<close>

function square_sizes :: "Bitmap \<Rightarrow> nat \<Rightarrow> nat \<Rightarrow> nat \<Rightarrow> bool \<Rightarrow> square_search \<Rightarrow> nat \<times> square_search" where
  "square_sizes bitmap j i n check s =
     (if n \<le> nat (cols bitmap) - i \<and> n \<le> nat (rows bitmap) - j
      then if getcolor bitmap (n + i - 1) j = ZERO then (i + n - 1, s)
           else if getcolor bitmap i (n + j - 1) = ZERO then (i, s)
           else if check \<and> (\<exists>x \<in> set [i + 1..<n + i - 1]. getcolor bitmap x j = ZERO) then (i + n - 1, s)
           else if check \<and> (\<exists>y \<in> set [j + 1..<n + j - 1]. getcolor bitmap i y = ZERO) then (i, s)
           else let good = (\<forall>x \<in> set [i + 1..<n + i]. getcolor bitmap x (j + n - 1) \<noteq> ZERO) \<and>
                           (\<forall>y \<in> set [j + 1..<n + j - 1]. getcolor bitmap (i + n - 1) y \<noteq> ZERO);
                    s1 = (if good \<and> n > max_sq s
                          then \<lparr>max_sq = n, corner1 = (j, i), corner2 = (j + n - 1, i + n - 1)\<rparr> else s)
                in square_sizes bitmap j i (n + 1) False s1
      else (i, s))"
  by pat_completeness auto

termination
  by (relation "measure (\<lambda>(bitmap, j, i, n, check, s). nat (cols bitmap) + 1 - n)") auto

declare square_sizes.simps [simp del]

lemma square_sizes_forward: "n \<noteq> 0 \<Longrightarrow> i \<le> fst (square_sizes bitmap j i n check s)"
proof (induction "nat (cols bitmap) + 1 - n" arbitrary: n check s rule: less_induct)
  case less
  show ?case
  proof (cases "n \<le> nat (cols bitmap) - i \<and> n \<le> nat (rows bitmap) - j")
    case True
    then have "nat (cols bitmap) + 1 - (n + 1) < nat (cols bitmap) + 1 - n" by arith
    then have "i \<le> fst (square_sizes bitmap j i (n + 1) False s1)" for s1 by (rule less.hyps) simp
    then show ?thesis using less.prems by (auto simp: square_sizes.simps [of bitmap j i n] Let_def)
  next
    case False
    then show ?thesis by (subst square_sizes.simps) auto
  qed
qed

text \<open>The loop over the columns of row \<open>j\<close>. A square of one cell is not looked for.\<close>

function square_row :: "Bitmap \<Rightarrow> nat \<Rightarrow> nat \<Rightarrow> square_search \<Rightarrow> square_search" where
  "square_row bitmap j i s =
     (if i < nat (cols bitmap) \<and> max_sq s < nat (cols bitmap) - i
      then if getcolor bitmap i j = ONE
           then case square_sizes bitmap j i (max_sq s + 1) True s of (i', s') \<Rightarrow> square_row bitmap j (i' + 1) s'
           else square_row bitmap j (i + 1) s
      else s)"
  by pat_completeness auto

termination
proof (relation "measure (\<lambda>(bitmap, j, i, s). nat (cols bitmap) - i)", goal_cases)
  case (2 bitmap j i s i' s')
  then show ?case
    using square_sizes_forward [of "max_sq s + 1" i bitmap j True s]
    by (cases "square_sizes bitmap j i (max_sq s + 1) True s") auto
qed auto

declare square_row.simps [simp del]

function square_rows :: "Bitmap \<Rightarrow> nat \<Rightarrow> square_search \<Rightarrow> square_search" where
  "square_rows bitmap j s =
     (if j < nat (rows bitmap) \<and> max_sq s < nat (rows bitmap) - j then square_rows bitmap (j + 1) (square_row bitmap j 0 s) else s)"
  by pat_completeness auto

termination
  by (relation "measure (\<lambda>(bitmap, j, s). nat (rows bitmap) - j)") auto

declare square_rows.simps [simp del]

definition find_square :: "Bitmap \<Rightarrow> square_search" where
  "find_square bitmap = square_rows bitmap 0 \<lparr>max_sq = 1, corner1 = (0, 0), corner2 = (0, 0)\<rparr>"

section \<open>The program\<close>

text \<open>\<^verbatim>\<open>%d\<close> of \<^verbatim>\<open>fscanf\<close>.\<close>

definition scan_d :: "byte list \<Rightarrow> (int \<times> byte list) option" where
  "scan_d f = (case strtol f of (n, r) \<Rightarrow> if r = f then None else Some (to_int32 n, r))"

fun load_cells :: "nat \<Rightarrow> byte list \<Rightarrow> (byte list \<times> byte list) option" where
  "load_cells 0 f = Some ([], f)"
| "load_cells (Suc k) f =
     (case scan_d f of None \<Rightarrow> None
      | Some (x, r) \<Rightarrow>
          if x < 0 \<or> x > 1 then None
          else case load_cells k r of None \<Rightarrow> None | Some (cs, r') \<Rightarrow> Some (of_int (x + 48) # cs, r'))"

text \<open>
  The number of cells is a product of type \<^verbatim>\<open>int\<close>, for the allocation and for the loop. When it does not fit, C leaves it undefined; here it
  wraps around, as it does where the multiplication is that of the machine.
\<close>

definition cells_size :: "int \<Rightarrow> int \<Rightarrow> int" where
  "cells_size r c = to_int32 (r * c)"

definition load_bitmap :: "int \<Rightarrow> int \<Rightarrow> byte list \<Rightarrow> Bitmap option" where
  "load_bitmap r c f =
     (case load_cells (nat (cells_size c r)) f of None \<Rightarrow> None
      | Some (cs, rest) \<Rightarrow> if scan_d rest \<noteq> None then None else Some \<lparr>rows = r, cols = c, cells = cs\<rparr>)"

datatype tstates = HELP | HLINE | VLINE | SQUARE | TEST | ERROR

text \<open>The arguments after the name of the program; the file name is only set when there are two.\<close>

definition processArgs :: "string list \<Rightarrow> tstates \<times> string option" where
  "processArgs args =
     (if length args < 1 \<or> length args > 3 then (ERROR, None)
      else (if args ! 0 = ''--help'' then HELP
            else if args ! 0 = ''--hline'' then HLINE
            else if args ! 0 = ''--vline'' then VLINE
            else if args ! 0 = ''--square'' then SQUARE
            else if args ! 0 = ''--test'' then TEST
            else ERROR,
            if length args = 2 then Some (args ! 1) else None))"

datatype bitmap_result = Bad_arguments | Show_help | Unset_name | No_file | Invalid_file | No_memory | Valid_file
  | Coordinates "nat \<times> nat" "nat \<times> nat" | Out_of_bounds

text \<open>
  The searches read cells that are not there when the product of rows and columns has not fitted. The argument \<open>malloc\<close> tells for
  a size, which is huge when the product is negative, whether there is the memory.
\<close>

definition bitmap_main :: "(string \<Rightarrow> byte list option) \<Rightarrow> (int \<Rightarrow> bool) \<Rightarrow> string list \<Rightarrow> bitmap_result" where
  "bitmap_main files malloc args =
     (case processArgs args of (state, file) \<Rightarrow>
        if state = ERROR then Bad_arguments
        else if state = HELP then Show_help
        else case file of None \<Rightarrow> Unset_name
          | Some name \<Rightarrow>
              (case files name of None \<Rightarrow> No_file
               | Some f \<Rightarrow>
                   (case scan_d f of None \<Rightarrow> Invalid_file
                    | Some (r, f1) \<Rightarrow>
                        (case scan_d f1 of None \<Rightarrow> Invalid_file
                         | Some (c, f2) \<Rightarrow>
                             if \<not> malloc (cells_size r c) then No_memory
                             else case load_bitmap r c f2 of None \<Rightarrow> Invalid_file
                               | Some b \<Rightarrow>
                                   if state = TEST then Valid_file
                                   else if 0 < r \<and> 0 < c \<and> int (length (cells b)) < r * c then Out_of_bounds
                                   else if state = VLINE then Coordinates (end1 (find_vline b)) (end2 (find_vline b))
                                   else if state = HLINE then Coordinates (end1 (find_hline b)) (end2 (find_hline b))
                                   else Coordinates (corner1 (find_square b)) (corner2 (find_square b))))))"

section \<open>The largest square is missed\<close>

definition missed_square :: Bitmap where
  "missed_square = \<lparr>rows = 6, cols = 6, cells =
     [49, 49, 49, 49, 49, 48,
      49, 48, 48, 49, 49, 48,
      49, 48, 48, 48, 48, 48,
      49, 48, 48, 48, 48, 48,
      49, 48, 48, 48, 48, 48,
      49, 48, 48, 48, 48, 48]\<rparr>"

section \<open>Scanning lines\<close>

text \<open>
  Both line searches scan lines of cells; they differ in the direction, in the point \<open>pos i k\<close> of
  cell \<open>k\<close> of line \<open>i\<close>, and in what they do with a line as long as the best one.
\<close>

definition scan_cell :: "bool \<Rightarrow> bool \<Rightarrow> nat \<times> nat \<Rightarrow> line_search \<Rightarrow> line_search" where
  "scan_cell tie blk p s =
     (if \<not> blk then s\<lparr>run_n := 0, found := False\<rparr>
      else let s1 = (if \<not> found s then s\<lparr>start := p, found := True\<rparr> else s);
               s2 = (if run_n s1 > max_n s1 then s1\<lparr>max_n := run_n s1, end1 := start s1, end2 := p\<rparr> else s1);
               s3 = (if tie \<and> run_n s2 = max_n s2 \<and> fst (end1 s2) > fst (start s2) then s2\<lparr>end1 := start s2, end2 := p\<rparr> else s2)
           in s3\<lparr>run_n := run_n s3 + 1\<rparr>)"

lemma hline_scan: "hline_cell b i j = scan_cell False (black b j i) (i, j)"
  by (rule ext) (simp add: hline_cell_def scan_cell_def black_def Let_def)

lemma vline_scan: "vline_cell b i j = scan_cell True (black b i j) (j, i)"
  by (rule ext) (simp add: vline_cell_def scan_cell_def black_def Let_def)

definition scan_lines :: "bool \<Rightarrow> (nat \<Rightarrow> nat \<Rightarrow> nat \<times> nat) \<Rightarrow> (nat \<Rightarrow> nat \<Rightarrow> bool) \<Rightarrow> nat \<Rightarrow> nat \<Rightarrow> line_search" where
  "scan_lines tie pos blk L R =
     fold (\<lambda>i s. fold (\<lambda>k. scan_cell tie (blk i k) (pos i k)) [0..<L] (s\<lparr>run_n := 0, found := False\<rparr>)) [0..<R] search_init"

lemma find_hline_scan: "find_hline b = scan_lines False (\<lambda>i k. (i, k)) (\<lambda>i k. black b k i) (nat (cols b)) (nat (rows b))"
  by (simp add: find_hline_def scan_lines_def hline_scan [abs_def])

lemma find_vline_scan: "find_vline b = scan_lines True (\<lambda>i k. (k, i)) (black b) (nat (rows b)) (nat (cols b))"
  by (simp add: find_vline_def scan_lines_def vline_scan [abs_def])

definition run_in :: "(nat \<Rightarrow> nat \<Rightarrow> bool) \<Rightarrow> nat \<Rightarrow> nat \<Rightarrow> nat \<Rightarrow> bool" where
  "run_in blk i c d \<longleftrightarrow> c \<le> d \<and> (\<forall>k. c \<le> k \<longrightarrow> k \<le> d \<longrightarrow> blk i k)"

text \<open>Cell \<open>d\<close> of line \<open>i'\<close> is scanned before cell \<open>k\<close> of line \<open>i\<close>.\<close>

definition scanned :: "nat \<Rightarrow> nat \<Rightarrow> nat \<Rightarrow> nat \<Rightarrow> bool" where
  "scanned i k i' d \<longleftrightarrow> i' < i \<or> i' = i \<and> d < k"

definition current_run :: "(nat \<Rightarrow> nat \<Rightarrow> nat \<times> nat) \<Rightarrow> (nat \<Rightarrow> nat \<Rightarrow> bool) \<Rightarrow> nat \<Rightarrow> nat \<Rightarrow> line_search \<Rightarrow> bool" where
  "current_run pos blk i k s \<longleftrightarrow>
     (if found s then \<exists>c < k. start s = pos i c \<and> run_n s = k - c \<and> run_in blk i c (k - 1) \<and> (c = 0 \<or> \<not> blk i (c - 1))
      else run_n s = 0 \<and> (k = 0 \<or> \<not> blk i (k - 1)))"

definition best_run :: "(nat \<Rightarrow> nat \<Rightarrow> nat \<times> nat) \<Rightarrow> (nat \<Rightarrow> nat \<Rightarrow> bool) \<Rightarrow> nat \<Rightarrow> nat \<Rightarrow> nat \<Rightarrow> line_search \<Rightarrow> bool" where
  "best_run pos blk L i k s \<longleftrightarrow>
     (if max_n s = 0 then end1 s = (0, 0) \<and> end2 s = (0, 0)
      else \<exists>i' c. end1 s = pos i' c \<and> end2 s = pos i' (c + max_n s) \<and> run_in blk i' c (c + max_n s)
             \<and> c + max_n s < L \<and> scanned i k i' (c + max_n s))"

definition no_better :: "(nat \<Rightarrow> nat \<Rightarrow> nat \<times> nat) \<Rightarrow> (nat \<Rightarrow> nat \<Rightarrow> bool) \<Rightarrow> nat \<Rightarrow> nat \<Rightarrow> nat \<Rightarrow> line_search \<Rightarrow> bool" where
  "no_better pos blk L i k s \<longleftrightarrow>
     (\<forall>i' c d. run_in blk i' c d \<longrightarrow> d < L \<longrightarrow> scanned i k i' d \<longrightarrow>
        d - c \<le> max_n s \<and> (0 < max_n s \<longrightarrow> d - c = max_n s \<longrightarrow> end1 s \<le> pos i' c))"

lemma scanned_Suc: "scanned i (Suc k) i' d \<longleftrightarrow> scanned i k i' d \<or> i' = i \<and> d = k"
  by (auto simp: scanned_def)

lemma best_runI:
  "max_n s \<noteq> 0 \<Longrightarrow> end1 s = pos i' c \<Longrightarrow> end2 s = pos i' d \<Longrightarrow> d = c + max_n s \<Longrightarrow> run_in blk i' c d \<Longrightarrow> d < L \<Longrightarrow>
    scanned i k i' d \<Longrightarrow> best_run pos blk L i k s"
  by (simp add: best_run_def) blast

lemma best_run_move:
  assumes "best_run pos blk L i k s" "max_n s' = max_n s" "end1 s' = end1 s" "end2 s' = end2 s"
    and "\<And>i' d. d < L \<Longrightarrow> scanned i k i' d \<Longrightarrow> scanned i2 k2 i' d"
  shows "best_run pos blk L i2 k2 s'"
proof (cases "max_n s = 0")
  case False
  with assms(1) obtain i' c where b: "end1 s = pos i' c" "end2 s = pos i' (c + max_n s)" "run_in blk i' c (c + max_n s)"
      "c + max_n s < L" "scanned i k i' (c + max_n s)"
    by (auto simp: best_run_def)
  then show ?thesis
    unfolding best_run_def using False assms(2-5) by (simp, intro exI [of _ i'] exI [of _ c]) simp
qed (use assms in \<open>simp add: best_run_def\<close>)

text \<open>
  A later line of the same length must not be before an earlier one, unless it replaces it.
\<close>

locale line_scan =
  fixes tie :: bool and pos :: "nat \<Rightarrow> nat \<Rightarrow> nat \<times> nat"
  assumes later: "i' < i \<or> i' = i \<and> c' < c \<Longrightarrow> \<not> (tie \<and> fst (pos i c) < fst (pos i' c')) \<Longrightarrow> pos i' c' \<le> pos i c"
begin

lemma start_run:
  assumes "current_run pos blk i k s" "blk i k"
  obtains c where "c \<le> k" "start (if \<not> found s then s\<lparr>start := pos i k, found := True\<rparr> else s) = pos i c"
    "run_n s = k - c" "run_in blk i c k" "c = 0 \<or> \<not> blk i (c - 1)"
proof (cases "found s")
  case True
  then obtain c where c: "c < k" "start s = pos i c" "run_n s = k - c" "run_in blk i c (k - 1)" "c = 0 \<or> \<not> blk i (c - 1)"
    using assms(1) by (auto simp: current_run_def)
  have "run_in blk i c k" unfolding run_in_def
  proof (intro conjI allI impI)
    fix l assume "c \<le> l" "l \<le> k"
    then show "blk i l" using c(4) assms(2) by (cases "l = k") (auto simp: run_in_def)
  qed (use c(1) in simp)
  then show ?thesis using c True by (intro that [of c]) simp_all
next
  case False
  then show ?thesis using assms by (intro that [of k]) (auto simp: current_run_def run_in_def)
qed

lemma run_starts:
  assumes "run_in blk i c' k" "c = 0 \<or> \<not> blk i (c - 1)" "c \<le> k"
  shows "c \<le> c'"
proof (rule ccontr)
  assume "\<not> c \<le> c'"
  then have "blk i (c - 1)" using assms(1,3) by (auto simp: run_in_def)
  with assms(2) \<open>\<not> c \<le> c'\<close> show False by auto
qed

lemma cell_scanned:
  assumes cur: "current_run pos blk i k s" and best: "best_run pos blk L i k s" and nb: "no_better pos blk L i k s" and kL: "k < L"
  defines "s' \<equiv> scan_cell tie (blk i k) (pos i k) s"
  shows "current_run pos blk i (Suc k) s' \<and> best_run pos blk L i (Suc k) s' \<and> no_better pos blk L i (Suc k) s'"
proof (cases "blk i k")
  case False
  then have s': "s' = s\<lparr>run_n := 0, found := False\<rparr>" by (simp add: s'_def scan_cell_def)
  have "\<not> run_in blk i c k" for c using False by (auto simp: run_in_def)
  then have "no_better pos blk L i (Suc k) s'" using nb unfolding no_better_def s' scanned_Suc by auto
  moreover have "best_run pos blk L i (Suc k) s'" by (rule best_run_move [OF best]) (simp_all add: s' scanned_Suc)
  ultimately show ?thesis using False by (simp add: current_run_def s')
next
  case True
  obtain c where c: "c \<le> k" "start (if \<not> found s then s\<lparr>start := pos i k, found := True\<rparr> else s) = pos i c"
      "run_n s = k - c" "run_in blk i c k" "c = 0 \<or> \<not> blk i (c - 1)"
    by (rule start_run [OF cur True])
  define s1 where "s1 = (if \<not> found s then s\<lparr>start := pos i k, found := True\<rparr> else s)"
  have s1: "found s1" "start s1 = pos i c" "run_n s1 = k - c" "max_n s1 = max_n s" "end1 s1 = end1 s" "end2 s1 = end2 s"
    using c(2,3) by (auto simp: s1_def)
  have mine: "c \<le> c'" if "run_in blk i c' k" for c' using run_starts [OF that c(5,1)] .
  have cur': "current_run pos blk i (Suc k) (t\<lparr>run_n := run_n t + 1\<rparr>)" if "found t" "start t = pos i c" "run_n t = k - c" for t
    unfolding current_run_def using that c(1,4,5) by (simp, intro exI [of _ c]) (simp add: Suc_diff_le)
  show ?thesis
  proof (cases "max_n s < k - c")
    case longer: True
    let ?t = "s1\<lparr>max_n := k - c, end1 := pos i c, end2 := pos i k\<rparr>"
    have s': "s' = ?t\<lparr>run_n := run_n ?t + 1\<rparr>"
      using True longer s1 by (simp add: s'_def scan_cell_def s1_def [symmetric] Let_def)
    have "current_run pos blk i (Suc k) s'" unfolding s' by (rule cur') (simp_all add: s1)
    moreover have "best_run pos blk L i (Suc k) s'"
      using longer c(1,4) kL by (intro best_runI [of _ pos i c k]) (simp_all add: s' scanned_def)
    moreover have "no_better pos blk L i (Suc k) s'"
      unfolding no_better_def s' scanned_Suc
    proof (intro allI impI)
      fix i' c' d assume r: "run_in blk i' c' d" and d: "d < L" and "scanned i k i' d \<or> i' = i \<and> d = k"
      then consider "scanned i k i' d" | "i' = i" "d = k" by blast
      then show "d - c' \<le> max_n (?t\<lparr>run_n := run_n ?t + 1\<rparr>) \<and> (0 < max_n (?t\<lparr>run_n := run_n ?t + 1\<rparr>) \<longrightarrow>
          d - c' = max_n (?t\<lparr>run_n := run_n ?t + 1\<rparr>) \<longrightarrow> end1 (?t\<lparr>run_n := run_n ?t + 1\<rparr>) \<le> pos i' c')"
      proof cases
        case 1
        then have "d - c' \<le> max_n s" using nb r d unfolding no_better_def by blast
        then show ?thesis using longer by simp
      next
        case 2
        with r have "c \<le> c'" "c' \<le> k" using mine by (auto simp: run_in_def)
        moreover from this c(1) have "k - c' = k - c \<Longrightarrow> c' = c" by arith
        ultimately show ?thesis using 2 longer by auto
      qed
    qed
    ultimately show ?thesis by blast
  next
    case short: False
    define swap where "swap \<longleftrightarrow> tie \<and> k - c = max_n s \<and> fst (end1 s) > fst (pos i c)"
    let ?t = "if swap then s1\<lparr>end1 := pos i c, end2 := pos i k\<rparr> else s1"
    have s': "s' = ?t\<lparr>run_n := run_n ?t + 1\<rparr>"
      using True short s1 by (simp add: s'_def scan_cell_def s1_def [symmetric] Let_def swap_def)
    have pos0: "0 < max_n s" if swap using that best by (cases "max_n s = 0") (simp_all add: swap_def best_run_def)
    have mt: "max_n ?t = max_n s" by (simp add: s1)
    have "current_run pos blk i (Suc k) s'" unfolding s' by (rule cur') (simp_all add: s1)
    moreover have "best_run pos blk L i (Suc k) s'"
    proof (cases swap)
      case True
      then have m: "c + max_n s = k" using c(1) unfolding swap_def by arith
      show ?thesis
        by (rule best_runI [of _ pos i c k]) (use True m pos0 c(4) kL in \<open>simp_all add: s' s1 scanned_def\<close>)
    next
      case False
      show ?thesis by (rule best_run_move [OF best]) (simp_all add: s' s1 False scanned_Suc)
    qed
    moreover have "no_better pos blk L i (Suc k) s'"
      unfolding no_better_def s' scanned_Suc
    proof (intro allI impI)
      fix i' c' d assume r: "run_in blk i' c' d" and d: "d < L" and sc: "scanned i k i' d \<or> i' = i \<and> d = k"
      have before: "end1 ?t \<le> end1 s" by (auto simp: s1 swap_def less_eq_prod_def)
      have new: "end1 ?t \<le> pos i c" if "k - c = max_n s" "0 < max_n s"
      proof (cases swap)
        case False
        from best that obtain i2 c2 where b: "end1 s = pos i2 c2" "scanned i k i2 (c2 + max_n s)"
          by (auto simp: best_run_def)
        then have "i2 < i \<or> i2 = i \<and> c2 < c" using that by (auto simp: scanned_def)
        then show ?thesis using later [of i2 i c2 c] False b(1) that by (auto simp: s1 swap_def)
      qed simp
      show "d - c' \<le> max_n (?t\<lparr>run_n := run_n ?t + 1\<rparr>) \<and> (0 < max_n (?t\<lparr>run_n := run_n ?t + 1\<rparr>) \<longrightarrow>
          d - c' = max_n (?t\<lparr>run_n := run_n ?t + 1\<rparr>) \<longrightarrow> end1 (?t\<lparr>run_n := run_n ?t + 1\<rparr>) \<le> pos i' c')"
        using sc
      proof
        assume "scanned i k i' d"
        then have "d - c' \<le> max_n s" "0 < max_n s \<Longrightarrow> d - c' = max_n s \<Longrightarrow> end1 s \<le> pos i' c'"
          using nb r d unfolding no_better_def by blast+
        then show ?thesis using before mt by (auto intro: order_trans)
      next
        assume e: "i' = i \<and> d = k"
        with r have c': "c \<le> c'" "c' \<le> k" using mine by (auto simp: run_in_def)
        with e short c(1) have "d - c' = max_n s \<Longrightarrow> c' = c \<and> k - c = max_n s" by auto
        then show ?thesis using new mt e c' short by auto
      qed
    qed
    ultimately show ?thesis by blast
  qed
qed

definition scan_ok :: "(nat \<Rightarrow> nat \<Rightarrow> bool) \<Rightarrow> nat \<Rightarrow> nat \<Rightarrow> nat \<Rightarrow> line_search \<Rightarrow> bool" where
  "scan_ok blk L i k s \<longleftrightarrow> current_run pos blk i k s \<and> best_run pos blk L i k s \<and> no_better pos blk L i k s"

lemma line_scanned:
  assumes "scan_ok blk L i 0 s" "n \<le> L"
  shows "scan_ok blk L i n (fold (\<lambda>k. scan_cell tie (blk i k) (pos i k)) [0..<n] s)"
  using assms(2)
proof (induction n)
  case (Suc n)
  then show ?case using cell_scanned [of blk i n _ L] by (simp add: scan_ok_def)
qed (use assms in simp)

lemma next_line:
  assumes "scan_ok blk L i L s"
  shows "scan_ok blk L (Suc i) 0 (s\<lparr>run_n := 0, found := False\<rparr>)"
proof -
  have sc: "scanned (Suc i) 0 i' d \<longleftrightarrow> scanned i L i' d" if "d < L" for i' d using that by (auto simp: scanned_def)
  have "best_run pos blk L (Suc i) 0 (s\<lparr>run_n := 0, found := False\<rparr>)"
    by (rule best_run_move [of pos blk L i L s]) (use assms in \<open>simp_all add: scan_ok_def sc\<close>)
  moreover have "no_better pos blk L (Suc i) 0 (s\<lparr>run_n := 0, found := False\<rparr>)"
    using assms sc unfolding scan_ok_def no_better_def by simp
  ultimately show ?thesis by (simp add: scan_ok_def current_run_def)
qed

lemma lines_scanned: "scan_ok blk L R 0 ((scan_lines tie pos blk L R)\<lparr>run_n := 0, found := False\<rparr>)"
proof (induction R)
  case 0
  show ?case
    by (simp add: scan_lines_def search_init_def scan_ok_def current_run_def best_run_def no_better_def scanned_def)
next
  case (Suc R)
  from line_scanned [OF Suc, of L] next_line show ?case by (simp add: scan_lines_def)
qed

lemma best_line:
  fixes blk L R
  defines "s \<equiv> scan_lines tie pos blk L R"
  shows "max_n s = 0 \<Longrightarrow> end1 s = (0, 0) \<and> end2 s = (0, 0)"
    and "0 < max_n s \<Longrightarrow> \<exists>i c. i < R \<and> end1 s = pos i c \<and> end2 s = pos i (c + max_n s) \<and> run_in blk i c (c + max_n s) \<and> c + max_n s < L"
    and "run_in blk i c d \<Longrightarrow> d < L \<Longrightarrow> i < R \<Longrightarrow> d - c \<le> max_n s \<and> (0 < max_n s \<longrightarrow> d - c = max_n s \<longrightarrow> end1 s \<le> pos i c)"
  using lines_scanned [of blk L R] unfolding scan_ok_def best_run_def no_better_def s_def scanned_def by (auto split: if_splits)

end

interpretation hscan: line_scan False "\<lambda>i k. (i, k)"
  by unfold_locales (auto simp: less_eq_prod_def)

interpretation vscan: line_scan True "\<lambda>i k. (k, i)"
  by unfold_locales (auto simp: less_eq_prod_def)


section \<open>The lines that are found\<close>

definition hline_in :: "Bitmap \<Rightarrow> nat \<times> nat \<Rightarrow> nat \<times> nat \<Rightarrow> bool" where
  "hline_in b p q \<longleftrightarrow> fst p = fst q \<and> fst p < nat (rows b) \<and> snd p < snd q \<and> snd q < nat (cols b)
     \<and> (\<forall>x. snd p \<le> x \<longrightarrow> x \<le> snd q \<longrightarrow> black b x (fst p))"

definition vline_in :: "Bitmap \<Rightarrow> nat \<times> nat \<Rightarrow> nat \<times> nat \<Rightarrow> bool" where
  "vline_in b p q \<longleftrightarrow> snd p = snd q \<and> snd p < nat (cols b) \<and> fst p < fst q \<and> fst q < nat (rows b)
     \<and> (\<forall>y. fst p \<le> y \<longrightarrow> y \<le> fst q \<longrightarrow> black b (snd p) y)"

definition line_len :: "nat \<times> nat \<Rightarrow> nat \<times> nat \<Rightarrow> nat" where
  "line_len p q = (fst q - fst p) + (snd q - snd p)"

text \<open>The first of the longest lines, where points are ordered by row and then by column.\<close>

definition first_longest :: "(nat \<times> nat \<Rightarrow> nat \<times> nat \<Rightarrow> bool) \<Rightarrow> nat \<times> nat \<Rightarrow> nat \<times> nat \<Rightarrow> bool" where
  "first_longest is_line p q \<longleftrightarrow>
     (if \<exists>p' q'. is_line p' q'
      then is_line p q \<and> (\<forall>p' q'. is_line p' q' \<longrightarrow> line_len p' q' \<le> line_len p q \<and> (line_len p' q' = line_len p q \<longrightarrow> p \<le> p'))
      else p = (0, 0) \<and> q = (0, 0))"

lemma hline_first_longest: "first_longest (hline_in b) (end1 (find_hline b)) (end2 (find_hline b))"
proof -
  let ?blk = "\<lambda>i k. black b k i"
  define s where "s = find_hline b"
  note best = hscan.best_line [where blk = ?blk and L = "nat (cols b)" and R = "nat (rows b)", folded find_hline_scan, folded s_def]
  have "max_n s \<ge> snd q - snd p \<and> (0 < max_n s \<longrightarrow> snd q - snd p = max_n s \<longrightarrow> end1 s \<le> p) \<and> snd q - snd p = line_len p q \<and> 0 < max_n s"
    if h: "hline_in b p q" for p q
  proof -
    have "run_in ?blk (fst p) (snd p) (snd q)" using h unfolding hline_in_def run_in_def by auto
    from best(3) [OF this] show ?thesis using h by (auto simp: hline_in_def line_len_def)
  qed
  moreover have "\<exists>i c. end1 s = (i, c) \<and> end2 s = (i, c + max_n s) \<and> hline_in b (end1 s) (end2 s)" if "0 < max_n s"
    using best(2) [OF that] that by (auto simp: hline_in_def run_in_def)
  ultimately show ?thesis
    using best(1) unfolding first_longest_def s_def [symmetric] by (cases "max_n s = 0") (fastforce simp: line_len_def)+
qed

lemma vline_first_longest: "first_longest (vline_in b) (end1 (find_vline b)) (end2 (find_vline b))"
proof -
  define s where "s = find_vline b"
  note best = vscan.best_line [where blk = "black b" and L = "nat (rows b)" and R = "nat (cols b)", folded find_vline_scan, folded s_def]
  have "max_n s \<ge> fst q - fst p \<and> (0 < max_n s \<longrightarrow> fst q - fst p = max_n s \<longrightarrow> end1 s \<le> p) \<and> fst q - fst p = line_len p q \<and> 0 < max_n s"
    if h: "vline_in b p q" for p q
  proof -
    have "run_in (black b) (snd p) (fst p) (fst q)" using h unfolding vline_in_def run_in_def by auto
    from best(3) [OF this] show ?thesis using h by (auto simp: vline_in_def line_len_def)
  qed
  moreover have "\<exists>i c. end1 s = (c, i) \<and> end2 s = (c + max_n s, i) \<and> vline_in b (end1 s) (end2 s)" if "0 < max_n s"
    using best(2) [OF that] that by (auto simp: vline_in_def run_in_def)
  ultimately show ?thesis
    using best(1) unfolding first_longest_def s_def [symmetric] by (cases "max_n s = 0") (fastforce simp: line_len_def)+
qed

section \<open>Files\<close>

definition bitmap_text :: "Bitmap \<Rightarrow> byte list" where
  "bitmap_text b = decimal (nat (rows b)) @ [32] @ decimal (nat (cols b)) @ concat (map (\<lambda>c. [32, c]) (cells b))"

definition bitmap_ok :: "Bitmap \<Rightarrow> bool" where
  "bitmap_ok b \<longleftrightarrow> 0 \<le> rows b \<and> rows b < 2 ^ 31 \<and> 0 \<le> cols b \<and> cols b < 2 ^ 31 \<and> rows b * cols b < 2 ^ 31
     \<and> length (cells b) = nat (cols b * rows b) \<and> set (cells b) \<subseteq> {ZERO, ONE}"

lemma strtol_decimal:
  assumes "\<forall>c \<in> set ws. is_space c" "rest = [] \<or> \<not> is_digit (hd rest)" "n < 2 ^ 63"
  shows "strtol (ws @ decimal n @ rest) = (int n, rest)"
proof -
  obtain d ds where d: "decimal n = d # ds" using decimal [of n] by (cases "decimal n") simp_all
  then have dig: "is_digit d" using decimal [of n] by simp
  then have "\<not> is_space d" "d \<noteq> 45" "d \<noteq> 43" by (auto simp: is_digit_def is_space_def word_le_nat_alt)
  with d assms(1) have t: "dropWhile is_space (ws @ decimal n @ rest) = decimal n @ rest" by simp
  have w: "takeWhile is_digit (decimal n @ rest) = decimal n" "dropWhile is_digit (decimal n @ rest) = rest"
    using decimal [of n] assms(2) by (cases rest; simp)+
  have u: "decimal n @ rest \<noteq> []" "hd (decimal n @ rest) \<noteq> 45" "hd (decimal n @ rest) \<noteq> 43"
    using d \<open>d \<noteq> 45\<close> \<open>d \<noteq> 43\<close> by simp_all
  have "clamp_long (int n) = int n" using assms(3) by (simp add: clamp_long_def)
  then show ?thesis unfolding strtol_def t using u w decimal [of n] by (simp add: Let_def)
qed

lemma to_int32_small: "n < 2 ^ 31 \<Longrightarrow> to_int32 (int n) = int n"
  by (simp add: to_int32_def signed_of_nat signed_take_bit_int_eq_self)

lemma scan_d_decimal:
  assumes "\<forall>c \<in> set ws. is_space c" "rest = [] \<or> \<not> is_digit (hd rest)" "n < 2 ^ 31"
  shows "scan_d (ws @ decimal n @ rest) = Some (int n, rest)"
proof -
  have "rest \<noteq> ws @ decimal n @ rest" using decimal [of n] by (auto dest: arg_cong [of _ _ length])
  then show ?thesis using strtol_decimal [OF assms(1,2), of n] to_int32_small [OF assms(3)] assms(3) by (simp add: scan_d_def)
qed

lemma space_is_space [simp]: "is_space 32" and space_no_digit [simp]: "\<not> is_digit 32"
  by (simp_all add: is_space_def is_digit_def)

lemma cell_decimal: "c \<in> {ZERO, ONE} \<Longrightarrow> \<exists>d \<le> 1. [c] = decimal d \<and> c = of_nat (d + 48)"
proof -
  have "decimal 0 = [48]" "decimal 1 = [49]" by code_simp+
  moreover assume "c \<in> {ZERO, ONE}"
  ultimately show ?thesis by (cases "c = ZERO") (force intro: exI [of _ 0], force intro: exI [of _ 1])
qed

lemma load_cells_text:
  assumes "set cs \<subseteq> {ZERO, ONE}"
  shows "load_cells (length cs) (concat (map (\<lambda>c. [32, c]) cs)) = Some (cs, [])"
  using assms
proof (induction cs)
  case (Cons c cs)
  let ?rest = "concat (map (\<lambda>c. [32, c]) cs)"
  have "c \<in> {ZERO, ONE}" using Cons.prems by simp
  from cell_decimal [OF this] obtain d where d: "d \<le> 1" "[c] = decimal d" "c = of_nat (d + 48)" by blast
  have "?rest = [] \<or> \<not> is_digit (hd ?rest)" by (cases cs) simp_all
  then have "scan_d ([32] @ decimal d @ ?rest) = Some (int d, ?rest)" using d(1) by (intro scan_d_decimal) simp_all
  moreover have "of_int (int d + 48) = c" using d(3) by simp
  ultimately show ?case using Cons d(1) by (simp add: d(2) [symmetric])
qed simp

lemma scan_d_Nil [simp]: "scan_d [] = None"
  by (simp add: scan_d_def strtol_def)

lemma cells_size_ok: "bitmap_ok b \<Longrightarrow> cells_size (rows b) (cols b) = rows b * cols b"
  "bitmap_ok b \<Longrightarrow> cells_size (cols b) (rows b) = rows b * cols b"
  using to_int32_small [of "nat (rows b * cols b)"]
  by (simp_all add: bitmap_ok_def cells_size_def mult.commute [of "cols b"] nat_less_iff)

text \<open>The program reads back the bitmap of a file.\<close>

lemma bitmap_read_back:
  assumes "bitmap_ok b" "files f = Some (bitmap_text b)" "malloc (rows b * cols b)" "processArgs args = (st, Some f)"
    and "st \<in> {HLINE, VLINE, SQUARE, TEST}"
  shows "bitmap_main files malloc args =
     (if st = TEST then Valid_file
      else if st = VLINE then Coordinates (end1 (find_vline b)) (end2 (find_vline b))
      else if st = HLINE then Coordinates (end1 (find_hline b)) (end2 (find_hline b))
      else Coordinates (corner1 (find_square b)) (corner2 (find_square b)))"
proof -
  let ?cells = "concat (map (\<lambda>c. [32, c]) (cells b))"
  have "scan_d ([] @ decimal (nat (rows b)) @ [32] @ decimal (nat (cols b)) @ ?cells)
      = Some (int (nat (rows b)), [32] @ decimal (nat (cols b)) @ ?cells)"
    using assms(1) by (intro scan_d_decimal) (auto simp: bitmap_ok_def)
  then have r: "scan_d (bitmap_text b) = Some (rows b, [32] @ decimal (nat (cols b)) @ ?cells)"
    using assms(1) by (simp add: bitmap_text_def bitmap_ok_def)
  have "?cells = [] \<or> \<not> is_digit (hd ?cells)" by (cases "cells b") simp_all
  then have "scan_d ([32] @ decimal (nat (cols b)) @ ?cells) = Some (int (nat (cols b)), ?cells)"
    using assms(1) by (intro scan_d_decimal) (auto simp: bitmap_ok_def)
  then have c: "scan_d ([32] @ decimal (nat (cols b)) @ ?cells) = Some (cols b, ?cells)"
    using assms(1) by (simp add: bitmap_ok_def)
  have "load_bitmap (rows b) (cols b) ?cells = Some b"
    using assms(1) load_cells_text [of "cells b"] cells_size_ok [OF assms(1)]
    by (simp add: load_bitmap_def bitmap_ok_def mult.commute)
  moreover have "int (length (cells b)) = rows b * cols b" using assms(1) by (simp add: bitmap_ok_def mult.commute)
  ultimately show ?thesis using assms(2-5) r c cells_size_ok [OF assms(1)] by (auto simp: bitmap_main_def)
qed


section \<open>The squares that are found\<close>

text \<open>The outline of a square of \<open>n\<close> cells a side, with its first cell in row \<open>j\<close> and column \<open>i\<close>.\<close>

definition square_at :: "Bitmap \<Rightarrow> nat \<Rightarrow> nat \<Rightarrow> nat \<Rightarrow> bool" where
  "square_at b j i n \<longleftrightarrow> 0 < n \<and> i + n \<le> nat (cols b) \<and> j + n \<le> nat (rows b) \<and>
     (\<forall>x \<in> {i..<i + n}. black b x j \<and> black b x (j + n - 1)) \<and>
     (\<forall>y \<in> {j..<j + n}. black b i y \<and> black b (i + n - 1) y)"

definition square_ok :: "Bitmap \<Rightarrow> square_search \<Rightarrow> bool" where
  "square_ok b s \<longleftrightarrow>
     (if max_sq s = 1 then corner1 s = (0, 0) \<and> corner2 s = (0, 0)
      else 1 < max_sq s \<and> (\<exists>j i. corner1 s = (j, i) \<and> corner2 s = (j + max_sq s - 1, i + max_sq s - 1) \<and> square_at b j i (max_sq s)))"

text \<open>The cells of the upper and the left edge that were looked at before size \<open>n\<close>.\<close>

definition edges :: "Bitmap \<Rightarrow> nat \<Rightarrow> nat \<Rightarrow> nat \<Rightarrow> bool" where
  "edges b j i n \<longleftrightarrow> (\<forall>x \<in> {i..<i + n}. black b x j) \<and> (\<forall>y \<in> {j..<j + n}. black b i y)"

lemma edges_next:
  assumes "2 \<le> n" "black b i j" "\<not> check \<Longrightarrow> edges b j i (n - 1)"
    and "black b (n + i - 1) j" "black b i (n + j - 1)"
    and "check \<Longrightarrow> (\<forall>x \<in> {i + 1..<n + i - 1}. black b x j) \<and> (\<forall>y \<in> {j + 1..<n + j - 1}. black b i y)"
  shows "edges b j i n"
proof -
  have "x = i \<or> x = n + i - 1 \<or> x \<in> {i + 1..<n + i - 1}" if "x \<in> {i..<i + n}" for x using that by auto
  moreover have "y = j \<or> y = n + j - 1 \<or> y \<in> {j + 1..<n + j - 1}" if "y \<in> {j..<j + n}" for y using that by auto
  moreover have "\<forall>x \<in> {i + 1..<n + i - 1}. black b x j" "\<forall>y \<in> {j + 1..<n + j - 1}. black b i y"
    using assms(3,6) by (cases check; auto simp: edges_def)+
  ultimately show ?thesis using assms(2,4,5) unfolding edges_def by metis
qed

lemma square_closed:
  assumes "2 \<le> n" "edges b j i n" "i + n \<le> nat (cols b)" "j + n \<le> nat (rows b)"
    and "\<forall>x \<in> {i + 1..<n + i}. black b x (j + n - 1)" "\<forall>y \<in> {j + 1..<n + j - 1}. black b (i + n - 1) y"
  shows "square_at b j i n"
proof -
  have "black b x (j + n - 1)" if "x \<in> {i..<i + n}" for x
    using that assms(1,2,5) by (cases "x = i") (auto simp: edges_def)
  moreover have "black b (i + n - 1) y" if y: "y \<in> {j..<j + n}" for y
  proof -
    consider "y = j" | "y = j + n - 1" | "y \<in> {j + 1..<n + j - 1}" using y by fastforce
    then show ?thesis
    proof cases
      case 1
      then show ?thesis using assms(1,2) by (simp add: edges_def)
    next
      case 2
      have "i + n - 1 \<in> {i + 1..<n + i}" using assms(1) by (simp; arith)
      with assms(5) 2 show ?thesis by blast
    qed (use assms(6) in blast)
  qed
  ultimately show ?thesis using assms(1-4) unfolding square_at_def edges_def by simp
qed

lemma square_sizes_ok:
  "square_ok b s \<Longrightarrow> 2 \<le> n \<Longrightarrow> black b i j \<Longrightarrow> i < nat (cols b) \<Longrightarrow> j < nat (rows b) \<Longrightarrow> (\<not> check \<longrightarrow> edges b j i (n - 1)) \<Longrightarrow>
     square_ok b (snd (square_sizes b j i n check s))"
proof (induction "nat (cols b) + 1 - n" arbitrary: n check s rule: less_induct)
  case less
  let ?s1 = "\<lparr>max_sq = n, corner1 = (j, i), corner2 = (j + n - 1, i + n - 1)\<rparr>"
  let ?good = "(\<forall>x \<in> set [i + 1..<n + i]. getcolor b x (j + n - 1) \<noteq> ZERO) \<and> (\<forall>y \<in> set [j + 1..<n + j - 1]. getcolor b (i + n - 1) y \<noteq> ZERO)"
  show ?case
  proof (cases "n \<le> nat (cols b) - i \<and> n \<le> nat (rows b) - j \<and> getcolor b (n + i - 1) j \<noteq> ZERO \<and> getcolor b i (n + j - 1) \<noteq> ZERO
      \<and> \<not> (check \<and> (\<exists>x \<in> set [i + 1..<n + i - 1]. getcolor b x j = ZERO)) \<and> \<not> (check \<and> (\<exists>y \<in> set [j + 1..<n + j - 1]. getcolor b i y = ZERO))")
    case True
    then have e: "edges b j i n"
      using less.prems by (intro edges_next [of n b i j check]) (auto simp: black_def)
    have fits: "i + n \<le> nat (cols b)" "j + n \<le> nat (rows b)" using True less.prems(4,5) by linarith+
    have sq: "square_ok b ?s1" if ?good
    proof -
      have "square_at b j i n"
        using that by (intro square_closed [OF less.prems(2) e fits]) (simp_all add: black_def)
      then show ?thesis using less.prems(2) by (simp add: square_ok_def)
    qed
    have step: "square_sizes b j i n check s = square_sizes b j i (n + 1) False (if ?good \<and> n > max_sq s then ?s1 else s)"
    proof -
      have c: "(n \<le> nat (cols b) - i \<and> n \<le> nat (rows b) - j) = True" "(getcolor b (n + i - 1) j = ZERO) = False"
          "(getcolor b i (n + j - 1) = ZERO) = False"
          "(check \<and> (\<exists>x \<in> set [i + 1..<n + i - 1]. getcolor b x j = ZERO)) = False"
          "(check \<and> (\<exists>y \<in> set [j + 1..<n + j - 1]. getcolor b i y = ZERO)) = False"
        using True by blast+
      show ?thesis by (subst square_sizes.simps) (simp only: c if_True if_False Let_def)
    qed
    have pick: "square_ok b (if P then t else s)" if "P \<Longrightarrow> square_ok b t" for P t using that less.prems(1) by simp
    have "square_ok b (if ?good \<and> n > max_sq s then ?s1 else s)"
      by (rule pick, rule sq, erule conjunct1)
    moreover have "nat (cols b) + 1 - (n + 1) < nat (cols b) + 1 - n" using fits(1) by linarith
    moreover have "2 \<le> n + 1" "edges b j i (n + 1 - 1)" using less.prems(2) e by simp_all
    ultimately have "square_ok b (snd (square_sizes b j i (n + 1) False (if ?good \<and> n > max_sq s then ?s1 else s)))"
      by (intro less.hyps less.prems(3-5) impI)
    then show ?thesis unfolding step .
  next
    case False
    then have "snd (square_sizes b j i n check s) = s" by (subst square_sizes.simps) auto
    then show ?thesis using less.prems by simp
  qed
qed

lemma square_row_ok: "square_ok b s \<Longrightarrow> j < nat (rows b) \<Longrightarrow> square_ok b (square_row b j i s)"
proof (induction b j i s rule: square_row.induct)
  case (1 b j i s)
  show ?case
  proof (cases "i < nat (cols b) \<and> max_sq s < nat (cols b) - i \<and> getcolor b i j = ONE")
    case True
    obtain i' s' where q: "square_sizes b j i (max_sq s + 1) True s = (i', s')" by fastforce
    have "1 \<le> max_sq s" using "1.prems"(1) by (auto simp: square_ok_def split: if_splits)
    then have "square_ok b s'"
      using square_sizes_ok [of b s "max_sq s + 1" i j True] "1.prems" True q by (simp add: black_def)
    then show ?thesis using True q "1.IH"(1) [of i' s'] "1.prems" by (subst square_row.simps) simp
  next
    case False
    then show ?thesis using "1.IH"(2) "1.prems" by (subst square_row.simps) auto
  qed
qed

lemma square_rows_ok: "square_ok b s \<Longrightarrow> square_ok b (square_rows b j s)"
proof (induction b j s rule: square_rows.induct)
  case (1 b j s)
  then show ?case using square_row_ok [of b s j 0] by (subst square_rows.simps) simp
qed

lemma find_square_ok: "square_ok b (find_square b)"
  unfolding find_square_def by (rule square_rows_ok) (simp add: square_ok_def)

text \<open>
  C23. The program on the file of a bitmap whose number of cells is below \<open>2^31\<close>, when there is memory for them: with \<open>--hline\<close> or \<open>--vline\<close> it prints the ends of the first
  of the longest lines of at least two cells, or zeros when there is none; with
  \<open>--square\<close> the corners of a square that is in the bitmap, or zeros.
\<close>

theorem shapes_are_found:
  assumes "bitmap_ok b" and "files f = Some (bitmap_text b)" and "malloc (rows b * cols b)"
  shows "(\<exists>p q. bitmap_main files malloc [''--hline'', f] = Coordinates p q \<and> first_longest (hline_in b) p q)
    \<and> (\<exists>p q. bitmap_main files malloc [''--vline'', f] = Coordinates p q \<and> first_longest (vline_in b) p q)
    \<and> (\<exists>s. bitmap_main files malloc [''--square'', f] = Coordinates (corner1 s) (corner2 s) \<and> square_ok b s)"
proof (intro conjI)
  note run = bitmap_read_back [of b files f malloc, OF assms]
  show "\<exists>p q. bitmap_main files malloc [''--hline'', f] = Coordinates p q \<and> first_longest (hline_in b) p q"
    using run [of _ HLINE] hline_first_longest [of b] by (simp add: processArgs_def)
  show "\<exists>p q. bitmap_main files malloc [''--vline'', f] = Coordinates p q \<and> first_longest (vline_in b) p q"
    using run [of _ VLINE] vline_first_longest [of b] by (simp add: processArgs_def)
  show "\<exists>s. bitmap_main files malloc [''--square'', f] = Coordinates (corner1 s) (corner2 s) \<and> square_ok b s"
    using run [of _ SQUARE] find_square_ok [of b] by (simp add: processArgs_def) blast
qed

definition sample_files :: "string \<Rightarrow> byte list option" where
  "sample_files f = (if f = ''b'' then Some (bitmap_text missed_square) else None)"

theorem shapes_are_found_witness:
  "bitmap_ok missed_square \<and>
   (\<exists>p q. bitmap_main sample_files (\<lambda>n. True) [''--hline'', ''b''] = Coordinates p q \<and> first_longest (hline_in missed_square) p q)
    \<and> (\<exists>p q. bitmap_main sample_files (\<lambda>n. True) [''--vline'', ''b''] = Coordinates p q \<and> first_longest (vline_in missed_square) p q)"
proof -
  have "bitmap_ok missed_square" by code_simp
  moreover have "sample_files ''b'' = Some (bitmap_text missed_square)" by (simp add: sample_files_def)
  ultimately show ?thesis
    using shapes_are_found [of missed_square sample_files "''b''" "\<lambda>n. True"] by blast
qed

text \<open>
  A square is missed: when a larger size fails on its lower or right side the search goes on, and at the
  end of the upper edge it skips all columns up to there, also those where a square begins. In
  this bitmap there is a square of two cells a side, and the program finds none.
\<close>

theorem square_missed:
  "square_at missed_square 0 3 2 \<and> corner1 (find_square missed_square) = (0, 0) \<and> corner2 (find_square missed_square) = (0, 0)
    \<and> bitmap_main sample_files (\<lambda>n. True) [''--square'', ''b''] = Coordinates (0, 0) (0, 0)"
  by (intro conjI; code_simp)

text \<open>
  A file of two numbers whose product does not fit: no cell is read, the test takes the file for a valid bitmap, and the searches
  read outside the array.
\<close>

theorem product_overflows:
  "bitmap_main (\<lambda>_. Some (decimal 65536 @ [32] @ decimal 65536)) (\<lambda>_. True) [''--test'', ''b''] = Valid_file
    \<and> bitmap_main (\<lambda>_. Some (decimal 65536 @ [32] @ decimal 65536)) (\<lambda>_. True) [''--hline'', ''b''] = Out_of_bounds"
proof -
  have r: "scan_d ([] @ decimal 65536 @ [32] @ decimal 65536) = Some (int 65536, [32] @ decimal 65536)"
    by (rule scan_d_decimal) simp_all
  have c: "scan_d ([32] @ decimal 65536 @ []) = Some (int 65536, [])"
    by (rule scan_d_decimal) simp_all
  have "cells_size 65536 65536 = 0" by (simp add: cells_size_def to_int32_def)
  then show ?thesis using r c by (simp add: bitmap_main_def processArgs_def load_bitmap_def)
qed

end
