(* ===== verification/Login_Server.thy ===== *)
theory Login_Server
  imports C_Numbers
begin

text \<open>
  The servers of \<^verbatim>\<open>ISA\<close>, which ask clients for a name and a password over FTP or SSH and write them to
  a log: the FTP dialogue with its receive buffer (\<^verbatim>\<open>ftpserver.cpp\<close>), the SSH attempts
  (\<^verbatim>\<open>sshserver.cpp\<close>), the limit on the clients, and the arguments (\<^verbatim>\<open>argparser.cpp\<close>). What the
  network brings is a list of events; when it is used up the server is being stopped. The
  time is an argument. The theorems: the name and the password are logged however the network
  cuts the lines; bytes of an earlier line are taken for the end of one that was cut off;
  a client that leaves early keeps its thread busy for ever.
\<close>

section \<open>The FTP dialogue\<close>

datatype States = READY_NEW_USER | CHALLENGE_PASSWORD | INVALID_LOGIN | UNKNOWN

record ftp_data =
  bufferSize :: nat
  password :: "byte list"
  state :: States
  login :: "byte list"
  buffer :: "byte list"
  address :: "byte list"
  date_time :: "byte list"

definition defaultSize :: nat where
  "defaultSize = 16"

definition ftp_start :: "byte list \<Rightarrow> ftp_data" where
  "ftp_start addr = \<lparr>bufferSize = 0, password = [], state = READY_NEW_USER, login = [], buffer = replicate defaultSize 0,
     address = addr, date_time = []\<rparr>"

abbreviation (input) "CR \<equiv> (13 :: byte)"
abbreviation (input) "LF \<equiv> (10 :: byte)"

datatype net_event = Segment "byte list" | Idle | Closed

text \<open>Both characters before the end of the received bytes; \<open>None\<close> when one would be before the buffer.\<close>

definition isReadyToParse :: "ftp_data \<Rightarrow> bool option" where
  "isReadyToParse d =
     (if bufferSize d < 2 then None
      else Some (buffer d ! (bufferSize d - 2) = CR \<and> buffer d ! (bufferSize d - 1) = LF))"

text \<open>The bytes are stored behind those already received, and the buffer is doubled when it is full.\<close>

definition store :: "byte list \<Rightarrow> ftp_data \<Rightarrow> ftp_data" where
  "store bs d =
     (let b = take (bufferSize d) (buffer d) @ bs @ drop (bufferSize d + length bs) (buffer d);
          b' = (if length b \<le> bufferSize d + length bs then b @ replicate (length b) 0 else b)
      in d\<lparr>buffer := b', bufferSize := bufferSize d + length bs\<rparr>)"

fun event_weight :: "net_event \<Rightarrow> nat" where
  "event_weight (Segment bs) = length bs + 1"
| "event_weight _ = 1"

definition rest_of :: "byte list \<Rightarrow> net_event list \<Rightarrow> net_event list" where
  "rest_of bs evs = (if bs = [] then evs else Segment bs # evs)"

lemma rest_weight: "bs \<noteq> [] \<Longrightarrow> 0 < r \<Longrightarrow> sum_list (map event_weight (rest_of (drop r bs) evs)) < sum_list (map event_weight (Segment bs # evs))"
  by (simp add: rest_of_def)

text \<open>What a wait for a command ends with; \<open>Outside\<close> is a read outside the buffer.\<close>

datatype ftp_received = Received ftp_data "net_event list" | Nothing ftp_data "net_event list" | Stopped ftp_data | Outside

text \<open>
  The loop around \<^verbatim>\<open>recv\<close>, which gives at most as many bytes as there is room, none at the
  end of the connection, and waits while the network is idle.
\<close>

function recv_loop :: "net_event list \<Rightarrow> ftp_data \<Rightarrow> ftp_received" where
  "recv_loop evs d =
     (let room = length (buffer d) - bufferSize d
      in case evs of
           [] \<Rightarrow> Stopped d
         | Idle # es \<Rightarrow> recv_loop es d
         | Closed # es \<Rightarrow> Received d evs
         | Segment bs # es \<Rightarrow>
             if bs = [] \<or> room = 0 then Received d evs
             else let d' = store (take room bs) d
                  in case isReadyToParse d' of
                       None \<Rightarrow> Outside
                     | Some ready \<Rightarrow>
                         if ready then Received d' (rest_of (drop room bs) es)
                         else recv_loop (rest_of (drop room bs) es) d')"
  by pat_completeness auto

termination
  by (relation "measure (\<lambda>(evs, d). sum_list (map event_weight evs))") (auto simp: rest_of_def)

declare recv_loop.simps [simp del]

definition receive :: "net_event list \<Rightarrow> ftp_data \<Rightarrow> ftp_received" where
  "receive evs d =
     (let d0 = d\<lparr>bufferSize := 0\<rparr>
      in case evs of
           [] \<Rightarrow> Stopped d0
         | Segment bs # es \<Rightarrow> if bs = [] then Nothing d0 es else recv_loop evs d0
         | Idle # es \<Rightarrow> Nothing d0 es
         | Closed # es \<Rightarrow> Nothing d0 evs)"

text \<open>The position of the first CR LF.\<close>

fun find_crlf :: "byte list \<Rightarrow> nat option" where
  "find_crlf (c # d # s) = (if c = CR \<and> d = LF then Some 0 else map_option Suc (find_crlf (d # s)))"
| "find_crlf _ = None"

definition saveTime :: "byte list \<Rightarrow> ftp_data \<Rightarrow> ftp_data" where
  "saveTime now d = d\<lparr>date_time := now\<rparr>"

text \<open>\<^verbatim>\<open>strstr\<close> reads the buffer up to its first null; \<open>None\<close> when there is none.\<close>

definition parseCommand :: "byte list \<Rightarrow> ftp_data \<Rightarrow> ftp_data option" where
  "parseCommand now d =
     (if 0 \<notin> set (buffer d) then None
      else case find_crlf (takeWhile (\<lambda>c. c \<noteq> 0) (buffer d)) of
             None \<Rightarrow> Some d
           | Some e \<Rightarrow>
               let arg = drop 5 (take e (buffer d))
               in Some (if take 5 (buffer d) = [85, 83, 69, 82, 32] then d\<lparr>state := CHALLENGE_PASSWORD, login := arg\<rparr>
                        else if take 5 (buffer d) = [80, 65, 83, 83, 32]
                        then saveTime now (d\<lparr>state := INVALID_LOGIN, password := arg\<rparr>)
                        else d\<lparr>state := UNKNOWN\<rparr>))"

datatype dialogue_end = Logged "byte list \<times> byte list \<times> byte list \<times> byte list" | Outside_buffer

definition log_entry :: "byte list \<Rightarrow> ftp_data \<Rightarrow> dialogue_end" where
  "log_entry now d =
     (let d' = (if date_time d = [] then saveTime now d else d) in Logged (date_time d', address d', login d', password d'))"

text \<open>
  The dialogue: the responses that are sent, by their states, and how it ends. It waits for a
  command as long as \<^verbatim>\<open>receive\<close> does not return 0; without an end it has no result.
\<close>

partial_function (option) wait_command :: "net_event list \<Rightarrow> ftp_data \<Rightarrow> ftp_received option" where
  "wait_command evs d =
     (case receive evs d of
        Nothing d' evs' \<Rightarrow> wait_command evs' d'
      | Received d' evs' \<Rightarrow> Some (Received d' evs')
      | Stopped d' \<Rightarrow> Some (Stopped d')
      | Outside \<Rightarrow> Some Outside)"

partial_function (option) startCommunication ::
    "byte list \<Rightarrow> net_event list \<Rightarrow> ftp_data \<Rightarrow> States list \<Rightarrow> (States list \<times> dialogue_end) option" where
  "startCommunication now evs d sent =
     (if state d = UNKNOWN then Some (sent, log_entry now d)
      else if state d = INVALID_LOGIN then Some (sent @ [state d], log_entry now d)
      else bind (wait_command evs d) (\<lambda>w. case w of
             Outside \<Rightarrow> Some (sent @ [state d], Outside_buffer)
           | Stopped d' \<Rightarrow> Some (sent @ [state d], log_entry now d')
           | Nothing d' evs' \<Rightarrow> None
           | Received d' evs' \<Rightarrow>
               (case parseCommand now d' of
                  None \<Rightarrow> Some (sent @ [state d], Outside_buffer)
                | Some d2 \<Rightarrow> startCommunication now evs' d2 (sent @ [state d]))))"

section \<open>The SSH attempts\<close>

text \<open>The messages of a client, and what the server does. After the list the server is being stopped, or else the client is gone.\<close>

datatype ssh_message = Auth_password "byte list" "byte list" | Auth_other "byte list" | Service_request

datatype ssh_action = Log_attempt "byte list" "byte list" | Ask_password | Service_ok | Disconnect

fun auth :: "bool \<Rightarrow> nat \<Rightarrow> nat \<Rightarrow> ssh_message list \<Rightarrow> ssh_action list" where
  "auth stopped maxAttempts attempts [] = (if stopped \<and> attempts \<noteq> maxAttempts then [Disconnect] else [])"
| "auth stopped maxAttempts attempts (m # ms) =
     (if attempts = maxAttempts then []
      else case m of
             Auth_password user pass \<Rightarrow>
               [Log_attempt user pass] @ (if attempts + 1 = maxAttempts then [Disconnect] else []) @ [Ask_password]
                 @ auth stopped maxAttempts (attempts + 1) ms
           | Auth_other user \<Rightarrow> Ask_password # auth stopped maxAttempts attempts ms
           | Service_request \<Rightarrow> Service_ok # auth stopped maxAttempts attempts ms)"

section \<open>The limit on the clients\<close>

text \<open>
  \<open>refusing\<close> counts the connections that were counted and are being closed again. The counter is an
  \<^verbatim>\<open>unsigned int\<close>.
\<close>

record server_load =
  connections :: u32
  serving :: nat
  refusing :: nat

definition load_start :: server_load where
  "load_start = \<lparr>connections = 0, serving = 0, refusing = 0\<rparr>"

definition incConnections :: "u32 \<Rightarrow> server_load \<Rightarrow> bool \<times> server_load" where
  "incConnections maxClients s = (connections s + 1 > maxClients, s\<lparr>connections := connections s + 1\<rparr>)"

definition decConnections :: "server_load \<Rightarrow> server_load" where
  "decConnections s = s\<lparr>connections := connections s - 1\<rparr>"

text \<open>The accepting thread handles one connection at a time; the other steps are those of the threads of the clients.\<close>

inductive load_step :: "u32 \<Rightarrow> server_load \<Rightarrow> server_load \<Rightarrow> bool" for maxClients where
  accept: "refusing s = 0 \<Longrightarrow> incConnections maxClients s = (False, s') \<Longrightarrow> load_step maxClients s (s'\<lparr>serving := serving s' + 1\<rparr>)"
| refuse: "refusing s = 0 \<Longrightarrow> incConnections maxClients s = (True, s') \<Longrightarrow> load_step maxClients s (s'\<lparr>refusing := 1\<rparr>)"
| refused: "refusing s = 1 \<Longrightarrow> load_step maxClients s ((decConnections s)\<lparr>refusing := 0\<rparr>)"
| leave: "0 < serving s \<Longrightarrow> load_step maxClients s ((decConnections s)\<lparr>serving := serving s - 1\<rparr>)"

inductive load_run :: "u32 \<Rightarrow> server_load \<Rightarrow> bool" for maxClients where
  start: "load_run maxClients load_start"
| step: "load_run maxClients s \<Longrightarrow> load_step maxClients s s' \<Longrightarrow> load_run maxClients s'"

section \<open>The arguments\<close>

datatype server_mode = NONE | FTP | SSH

record server_args =
  sa_mode :: server_mode
  sa_address :: "byte list"
  sa_logFile :: "byte list"
  sa_rsaKey :: "byte list"
  sa_port :: u32
  sa_maxClients :: u32
  sa_maxAttempts :: u32

datatype arg_error = Bad_mode | Bad_port | Bad_clients | Bad_attempts | Unknown_parameter
  | No_mode | No_address | No_port | No_logfile | No_key

text \<open>
  The constructor; the mode is not initialised there, so its first value is an argument.
\<close>

definition args_start :: "server_mode \<Rightarrow> server_args" where
  "args_start m = \<lparr>sa_mode = m, sa_address = [], sa_logFile = [], sa_rsaKey = [], sa_port = 0, sa_maxClients = 10, sa_maxAttempts = 3\<rparr>"

text \<open>A whole number: its value as an \<^verbatim>\<open>unsigned int\<close>, and whether it was read to the end.\<close>

definition read_unsigned :: "byte list \<Rightarrow> u32 \<times> bool" where
  "read_unsigned s = (case strtol s of (n, r) \<Rightarrow> (of_int n, r = []))"

definition server_option :: "char \<Rightarrow> byte list \<Rightarrow> server_args \<Rightarrow> arg_error + server_args" where
  "server_option ch optarg a =
     (if ch = CHR ''m'' then
        if optarg = [102, 116, 112] then Inr (a\<lparr>sa_mode := FTP\<rparr>)
        else if optarg = [115, 115, 104] then Inr (a\<lparr>sa_mode := SSH\<rparr>)
        else Inl Bad_mode
      else if ch = CHR ''a'' then Inr (a\<lparr>sa_address := optarg\<rparr>)
      else if ch = CHR ''l'' then Inr (a\<lparr>sa_logFile := optarg\<rparr>)
      else if ch = CHR ''p'' then
        (case read_unsigned optarg of (n, whole) \<Rightarrow>
           if \<not> whole \<or> n \<le> 0 \<or> n > 65535 then Inl Bad_port else Inr (a\<lparr>sa_port := n\<rparr>))
      else if ch = CHR ''r'' then Inr (a\<lparr>sa_rsaKey := optarg\<rparr>)
      else if ch = CHR ''c'' then
        (case read_unsigned optarg of (n, whole) \<Rightarrow>
           if \<not> whole \<or> n < 1 then Inl Bad_clients else Inr (a\<lparr>sa_maxClients := n\<rparr>))
      else if ch = CHR ''t'' then
        (case read_unsigned optarg of (n, whole) \<Rightarrow>
           if \<not> whole \<or> n < 1 then Inl Bad_attempts else Inr (a\<lparr>sa_maxAttempts := n\<rparr>))
      else Inl Unknown_parameter)"

fun server_options :: "(char \<times> byte list) list \<Rightarrow> server_args \<Rightarrow> arg_error + server_args" where
  "server_options [] a =
     (if sa_mode a = NONE then Inl No_mode
      else if sa_address a = [] then Inl No_address
      else if sa_port a = 0 then Inl No_port
      else if sa_logFile a = [] then Inl No_logfile
      else if sa_mode a = SSH \<and> sa_rsaKey a = [] then Inl No_key
      else Inr a)"
| "server_options ((ch, optarg) # os) a =
     (case server_option ch optarg a of Inl e \<Rightarrow> Inl e | Inr a' \<Rightarrow> server_options os a')"


section \<open>Receiving a line\<close>

definition buffer_ok :: "ftp_data \<Rightarrow> bool" where
  "buffer_ok d \<longleftrightarrow> bufferSize d < length (buffer d) \<and> defaultSize \<le> length (buffer d) \<and> last (buffer d) = 0"

lemma store_ok:
  assumes "buffer_ok d" "length bs \<le> length (buffer d) - bufferSize d"
  shows "buffer_ok (store bs d)" "bufferSize (store bs d) = bufferSize d + length bs"
    "take (bufferSize d + length bs) (buffer (store bs d)) = take (bufferSize d) (buffer d) @ bs"
    "store bs d = d\<lparr>buffer := buffer (store bs d), bufferSize := bufferSize (store bs d)\<rparr>"
  using assms by (auto simp: store_def buffer_ok_def Let_def last_append last_drop)

lemma find_crlf_line: "CR \<notin> set body \<Longrightarrow> find_crlf (body @ CR # LF # rest) = Some (length body)"
proof (induction body)
  case (Cons c body)
  then show ?case by (cases body) simp_all
qed simp

text \<open>A line is ready when all of it is there and not before.\<close>

lemma ready_iff:
  assumes "CR \<notin> set body" "2 \<le> bufferSize d" "bufferSize d \<le> length body + 2"
    and "take (bufferSize d) (buffer d) = take (bufferSize d) (body @ [CR, LF])" "bufferSize d \<le> length (buffer d)"
  shows "isReadyToParse d = Some (bufferSize d = length body + 2)"
proof -
  have at: "buffer d ! i = (body @ [CR, LF]) ! i" if "i < bufferSize d" for i
    using nth_take [OF that, of "buffer d"] nth_take [OF that, of "body @ [CR, LF]"] assms(4) by simp
  have "buffer d ! (bufferSize d - 2) = (body @ [CR, LF]) ! (bufferSize d - 2)"
    "buffer d ! (bufferSize d - 1) = (body @ [CR, LF]) ! (bufferSize d - 1)"
    using assms(2) by (intro at; simp)+
  moreover have "body ! (bufferSize d - 2) \<noteq> CR" if "bufferSize d < length body + 2"
    using that assms(1,2) nth_mem [of "bufferSize d - 2" body] by fastforce
  ultimately show ?thesis
    using assms(2,3) by (cases "bufferSize d = length body + 2") (auto simp: isReadyToParse_def nth_append)
qed

lemma recv_line:
  assumes "CR \<notin> set body" and "buffer_ok d" and "[] \<notin> set segs" and "segs \<noteq> []"
    and "take (bufferSize d) (buffer d) @ concat segs = body @ [CR, LF]"
    and "2 \<le> bufferSize d \<or> bufferSize d = 0 \<and> 2 \<le> length (hd segs)"
  shows "\<exists>d'. recv_loop (map Segment segs @ es) d = Received d' es \<and> buffer_ok d' \<and> bufferSize d' = length body + 2
     \<and> take (length body + 2) (buffer d') = body @ [CR, LF] \<and> d' = d\<lparr>buffer := buffer d', bufferSize := bufferSize d'\<rparr>"
  using assms(2-6)
proof (induction "length (concat segs) + length segs" arbitrary: segs d rule: less_induct)
  case less
  obtain bs ss where segs: "segs = bs # ss" using less.prems(3) by (cases segs) simp_all
  with less.prems(2) have ne: "bs \<noteq> []" by auto
  define room where "room = length (buffer d) - bufferSize d"
  define d1 where "d1 = store (take room bs) d"
  define ss1 where "ss1 = (if drop room bs = [] then ss else drop room bs # ss)"
  have room: "0 < room" using less.prems(1) by (simp add: room_def buffer_ok_def)
  have l: "length (take room bs) \<le> length (buffer d) - bufferSize d" by (simp add: room_def)
  note st = store_ok [OF less.prems(1) l, folded d1_def]
  have join: "take room bs @ concat ss1 = bs @ concat ss"
  proof (cases "drop room bs = []")
    case False
    then have "concat ss1 = drop room bs @ concat ss" by (simp add: ss1_def)
    then show ?thesis by (metis append.assoc append_take_drop_id)
  qed (simp add: ss1_def)
  have got: "take (bufferSize d1) (buffer d1) @ concat ss1 = body @ [CR, LF]"
    using less.prems(4) segs st(2,3) join by simp
  have two: "2 \<le> bufferSize d1"
    using less.prems(1,5) segs ne room st(2) by (auto simp: room_def buffer_ok_def defaultSize_def)
  have bl: "bufferSize d1 \<le> length (buffer d1)" using st(1) by (simp add: buffer_ok_def)
  then have lk: "length (take (bufferSize d1) (buffer d1)) = bufferSize d1" by simp
  have le: "bufferSize d1 \<le> length body + 2" using arg_cong [OF got, of length] lk by simp
  have pre: "take (bufferSize d1) (buffer d1) = take (bufferSize d1) (body @ [CR, LF])"
    using got unfolding append_eq_conv_conj lk by blast
  have rdy: "isReadyToParse d1 = Some (bufferSize d1 = length body + 2)"
    by (rule ready_iff [OF assms(1) two le pre bl])
  have rest: "rest_of (drop room bs) (map Segment ss @ es) = map Segment ss1 @ es" by (simp add: rest_of_def ss1_def)
  have nz: "[] \<notin> set ss1" using less.prems(2) segs by (auto simp: ss1_def)
  have run: "recv_loop (map Segment segs @ es) d =
      (if bufferSize d1 = length body + 2 then Received d1 (map Segment ss1 @ es) else recv_loop (map Segment ss1 @ es) d1)"
    using ne room by (subst recv_loop.simps) (simp add: segs Let_def room_def [symmetric] d1_def [symmetric] rdy rest)
  show ?case
  proof (cases "bufferSize d1 = length body + 2")
    case True
    then have "take (length body + 2) (buffer d1) = body @ [CR, LF]" "concat ss1 = []"
      using got pre bl arg_cong [OF got, of length] by simp_all
    moreover from this(2) have "ss1 = []" using nz by (cases ss1) auto
    ultimately show ?thesis using run True st by (intro exI [of _ d1]) simp
  next
    case False
    then have "concat ss1 \<noteq> []" using lk arg_cong [OF got, of length] by (intro notI) simp
    then have "ss1 \<noteq> []" by auto
    moreover have "length (concat ss1) + length ss1 < length (concat segs) + length segs"
      using ne room segs by (auto simp: ss1_def)
    ultimately obtain d' where "recv_loop (map Segment ss1 @ es) d1 = Received d' es \<and> buffer_ok d' \<and> bufferSize d' = length body + 2
       \<and> take (length body + 2) (buffer d') = body @ [CR, LF] \<and> d' = d1\<lparr>buffer := buffer d', bufferSize := bufferSize d'\<rparr>"
      using less.hyps [of ss1 d1] st(1) got two nz by blast
    then show ?thesis using run False st(4) by (intro exI [of _ d']) (metis ftp_data.surjective ftp_data.update_convs(1,5))
  qed
qed


lemma parse_line:
  assumes "buffer_ok d" "take (length body + 2) (buffer d) = body @ [CR, LF]" "CR \<notin> set body" "0 \<notin> set body"
    and "5 \<le> length body"
  shows "parseCommand now d =
    Some (if take 5 body = [85, 83, 69, 82, 32] then d\<lparr>state := CHALLENGE_PASSWORD, login := drop 5 body\<rparr>
          else if take 5 body = [80, 65, 83, 83, 32] then saveTime now (d\<lparr>state := INVALID_LOGIN, password := drop 5 body\<rparr>)
          else d\<lparr>state := UNKNOWN\<rparr>)"
proof -
  define junk where "junk = drop (length body + 2) (buffer d)"
  have b: "buffer d = body @ CR # LF # junk"
  proof -
    have "buffer d = take (length body + 2) (buffer d) @ junk" unfolding junk_def by (rule append_take_drop_id [symmetric])
    also have "\<dots> = body @ CR # LF # junk" unfolding assms(2) by simp
    finally show ?thesis .
  qed
  have z: "0 \<in> set (buffer d)"
    using assms(1) last_in_set [of "buffer d"] by (force simp: buffer_ok_def)
  have "takeWhile (\<lambda>c. c \<noteq> 0) (buffer d) = body @ CR # LF # takeWhile (\<lambda>c. c \<noteq> 0) junk"
    unfolding b using assms(4) by (subst takeWhile_append2) auto
  then have "find_crlf (takeWhile (\<lambda>c. c \<noteq> 0) (buffer d)) = Some (length body)"
    using find_crlf_line [OF assms(3)] by simp
  moreover have "take (length body) (buffer d) = body" "take 5 (buffer d) = take 5 body" using assms(5) by (simp_all add: b)
  ultimately show ?thesis using z by (simp add: parseCommand_def Let_def)
qed

lemma wait_line:
  assumes "CR \<notin> set body" and "bufferSize d < length (buffer d)" "defaultSize \<le> length (buffer d)" "last (buffer d) = 0"
    and "[] \<notin> set segs" "concat segs = body @ [CR, LF]" "2 \<le> length (hd segs)"
  shows "\<exists>d'. wait_command (map Segment segs @ es) d = Some (Received d' es) \<and> buffer_ok d'
     \<and> take (length body + 2) (buffer d') = body @ [CR, LF] \<and> d' = d\<lparr>buffer := buffer d', bufferSize := bufferSize d'\<rparr>"
proof -
  have ne: "segs \<noteq> []" using assms(6) by auto
  then obtain bs ss where segs: "segs = bs # ss" "bs \<noteq> []" using assms(5) by (cases segs) auto
  have "buffer d \<noteq> []" using assms(2) by auto
  then have ok: "buffer_ok (d\<lparr>bufferSize := 0\<rparr>)" using assms(2-4) by (simp add: buffer_ok_def)
  obtain d' where d': "recv_loop (map Segment segs @ es) (d\<lparr>bufferSize := 0\<rparr>) = Received d' es" "buffer_ok d'"
      "take (length body + 2) (buffer d') = body @ [CR, LF]" "d' = (d\<lparr>bufferSize := 0\<rparr>)\<lparr>buffer := buffer d', bufferSize := bufferSize d'\<rparr>"
    using recv_line [OF assms(1) ok assms(5) ne, of es] assms(6,7) by auto
  have "receive (map Segment segs @ es) d = Received d' es" using d'(1) segs by (simp add: receive_def Let_def)
  then have "wait_command (map Segment segs @ es) d = Some (Received d' es)" by (simp add: wait_command.simps)
  moreover have "d' = d\<lparr>buffer := buffer d', bufferSize := bufferSize d'\<rparr>" using d'(4) by simp
  ultimately show ?thesis using d'(2,3) by blast
qed

text \<open>
  C25. A login over FTP: the client sends the lines \<open>USER u\<close> and \<open>PASS p\<close>, and the network cuts each
  of them into segments at any places, the first of at least two bytes. The server sends its three responses, and
  logs the time, the address, the name and the password; nothing is read outside the buffer.
\<close>

theorem login_is_logged:
  assumes "concat segs1 = [85, 83, 69, 82, 32] @ u @ [CR, LF]" and "concat segs2 = [80, 65, 83, 83, 32] @ p @ [CR, LF]"
    and "CR \<notin> set u" "CR \<notin> set p" "0 \<notin> set u" "0 \<notin> set p"
    and "[] \<notin> set segs1" "[] \<notin> set segs2" "2 \<le> length (hd segs1)" "2 \<le> length (hd segs2)" and "now \<noteq> []"
  shows "startCommunication now (map Segment segs1 @ map Segment segs2 @ es) (ftp_start addr) [] =
    Some ([READY_NEW_USER, CHALLENGE_PASSWORD, INVALID_LOGIN], Logged (now, addr, u, p))"
proof -
  let ?U = "[85, 83, 69, 82, 32] @ u" and ?P = "[80, 65, 83, 83, 32] @ p"
  let ?d0 = "ftp_start addr" and ?e1 = "map Segment segs2 @ es"
  have "CR \<notin> set ?U" "concat segs1 = ?U @ [CR, LF]" "bufferSize ?d0 < length (buffer ?d0)" "defaultSize \<le> length (buffer ?d0)"
      "last (buffer ?d0) = 0"
    using assms(1,3) by (simp_all add: ftp_start_def defaultSize_def)
  with wait_line [of ?U ?d0 segs1 ?e1] assms(7,9) obtain d1 where
    d1: "wait_command (map Segment segs1 @ ?e1) ?d0 = Some (Received d1 ?e1)" "buffer_ok d1"
      "take (length ?U + 2) (buffer d1) = ?U @ [CR, LF]" "d1 = ?d0\<lparr>buffer := buffer d1, bufferSize := bufferSize d1\<rparr>"
    by blast
  define d2 where "d2 = d1\<lparr>state := CHALLENGE_PASSWORD, login := u\<rparr>"
  have p1: "parseCommand now d1 = Some d2"
    using parse_line [OF d1(2,3)] assms(3,5) by (simp add: d2_def)
  have "bufferSize d2 < length (buffer d2)" "defaultSize \<le> length (buffer d2)" "last (buffer d2) = 0"
    using d1(2) by (simp_all add: d2_def buffer_ok_def)
  moreover have "CR \<notin> set ?P" "concat segs2 = ?P @ [CR, LF]" using assms(2,4) by simp_all
  ultimately obtain d3 where
    d3: "wait_command (map Segment segs2 @ es) d2 = Some (Received d3 es)" "buffer_ok d3"
      "take (length ?P + 2) (buffer d3) = ?P @ [CR, LF]" "d3 = d2\<lparr>buffer := buffer d3, bufferSize := bufferSize d3\<rparr>"
    using wait_line [of ?P d2 segs2 es] assms(8,10) by blast
  have p2: "parseCommand now d3 = Some (saveTime now (d3\<lparr>state := INVALID_LOGIN, password := p\<rparr>))"
    using parse_line [OF d3(2,3)] assms(4,6) by simp
  have s: "state ?d0 = READY_NEW_USER" "state d2 = CHALLENGE_PASSWORD" by (simp_all add: ftp_start_def d2_def)
  have a: "address d3 = addr" "login d3 = u"
    using d1(4) d3(4) by (metis d2_def ftp_data.select_convs(4,6) ftp_data.surjective ftp_data.update_convs ftp_start_def)+
  have "startCommunication now (map Segment segs1 @ ?e1) ?d0 [] = startCommunication now ?e1 d2 [READY_NEW_USER]"
    by (subst startCommunication.simps) (simp add: s d1(1) p1)
  also have "\<dots> = startCommunication now es (saveTime now (d3\<lparr>state := INVALID_LOGIN, password := p\<rparr>)) [READY_NEW_USER, CHALLENGE_PASSWORD]"
    by (subst startCommunication.simps) (simp add: s d3(1) p2)
  also have "\<dots> = Some ([READY_NEW_USER, CHALLENGE_PASSWORD, INVALID_LOGIN], Logged (now, addr, u, p))"
    using assms(11) a by (subst startCommunication.simps) (simp add: saveTime_def log_entry_def Let_def)
  finally show ?thesis .
qed

theorem login_is_logged_witness:
  "startCommunication [49] (map Segment [[85, 83, 69], [82, 32, 97, 98], [13], [10]] @ map Segment [[80, 65, 83, 83, 32, 120, 13, 10]] @ [Closed])
     (ftp_start [50]) [] = Some ([READY_NEW_USER, CHALLENGE_PASSWORD, INVALID_LOGIN], Logged ([49], [50], [97, 98], [120]))"
  by (rule login_is_logged) simp_all

text \<open>
  C58. What an earlier line left in the buffer: the connection ends after \<open>PASS x\<close> without the end of the line, and
  the server logs a password whose rest is the name that the client gave before.
\<close>

theorem stale_password:
  "startCommunication [49] [Segment [85, 83, 69, 82, 32, 97, 98, 99, 13, 10], Segment [80, 65, 83, 83, 32, 120], Closed] (ftp_start [50]) [] =
     Some ([READY_NEW_USER, CHALLENGE_PASSWORD, INVALID_LOGIN], Logged ([49], [50], [97, 98, 99], [120, 98, 99]))"
proof -
  let ?evs = "[Segment [85, 83, 69, 82, 32, 97, 98, 99, 13, 10], Segment [80, 65, 83, 83, 32, 120], Closed]"
  define d1 where "d1 = (ftp_start [50])\<lparr>bufferSize := 10, buffer := [85, 83, 69, 82, 32, 97, 98, 99, 13, 10] @ replicate 6 0\<rparr>"
  define d2 where "d2 = d1\<lparr>state := CHALLENGE_PASSWORD, login := [97, 98, 99]\<rparr>"
  define d3 where "d3 = d2\<lparr>bufferSize := 6, buffer := [80, 65, 83, 83, 32, 120, 98, 99, 13, 10] @ replicate 6 0\<rparr>"
  define d4 where "d4 = saveTime [49] (d3\<lparr>state := INVALID_LOGIN, password := [120, 98, 99]\<rparr>)"
  have r: "receive ?evs (ftp_start [50]) = Received d1 (tl ?evs)" "receive (tl ?evs) d2 = Received d3 [Closed]"
    "parseCommand [49] d1 = Some d2" "parseCommand [49] d3 = Some d4"
    "state (ftp_start [50]) = READY_NEW_USER" "state d2 = CHALLENGE_PASSWORD" "state d4 = INVALID_LOGIN"
    "log_entry [49] d4 = Logged ([49], [50], [97, 98, 99], [120, 98, 99])"
    unfolding d4_def d3_def d2_def d1_def by code_simp+
  have "startCommunication [49] ?evs (ftp_start [50]) [] = startCommunication [49] (tl ?evs) d2 [READY_NEW_USER]"
    by (subst startCommunication.simps, subst wait_command.simps) (simp only: r ftp_received.case option.case bind.bind_lunit States.distinct if_False append_Nil)
  also have "\<dots> = startCommunication [49] [Closed] d4 [READY_NEW_USER, CHALLENGE_PASSWORD]"
    by (subst startCommunication.simps, subst wait_command.simps) (simp add: r del: list.sel)
  also have "\<dots> = Some ([READY_NEW_USER, CHALLENGE_PASSWORD, INVALID_LOGIN], Logged ([49], [50], [97, 98, 99], [120, 98, 99]))"
    by (subst startCommunication.simps) (simp add: r)
  finally show ?thesis .
qed

section \<open>A client that leaves\<close>

lemma closed_waits_for_ever: "wait_command (Closed # es) d = None"
proof (rule ccontr)
  assume "wait_command (Closed # es) d \<noteq> None"
  then obtain r where ret: "wait_command (Closed # es) d = Some r" by blast
  have "(\<lambda>evs d r. hd (evs @ [Idle]) \<noteq> Closed) (Closed # es) d r"
  proof (rule wait_command.raw_induct [OF _ ret])
    fix f evs d r
    assume IH: "\<And>evs d r. f evs d = Some r \<Longrightarrow> hd (evs @ [Idle]) \<noteq> Closed"
      and eq: "(case receive evs d of Received d' evs' \<Rightarrow> Some (Received d' evs') | Nothing d' evs' \<Rightarrow> f evs' d'
                | Stopped d' \<Rightarrow> Some (Stopped d') | Outside \<Rightarrow> Some Outside) = Some r"
    show "hd (evs @ [Idle]) \<noteq> Closed"
    proof
      assume "hd (evs @ [Idle]) = Closed"
      then obtain es where "evs = Closed # es" by (cases evs) simp_all
      with eq have "f evs (d\<lparr>bufferSize := 0\<rparr>) = Some r" by (simp add: receive_def)
      from IH [OF this] \<open>evs = Closed # es\<close> show False by simp
    qed
  qed
  then show False by simp
qed

text \<open>
  C59. A client that closes the connection before it has sent a command is never given up: the server goes on asking
  whether there is something to read, does not log the client and does not free its place.
\<close>

theorem client_gone_never_ends:
  assumes "state d \<noteq> UNKNOWN" and "state d \<noteq> INVALID_LOGIN"
  shows "startCommunication now (Closed # es) d sent = None"
  using assms by (subst startCommunication.simps) (simp add: closed_waits_for_ever)

theorem client_gone_never_ends_witness: "startCommunication [49] [Closed] (ftp_start [50]) [] = None"
  by (rule client_gone_never_ends) (simp_all add: ftp_start_def)

section \<open>Limits\<close>

definition load_ok :: "u32 \<Rightarrow> server_load \<Rightarrow> bool" where
  "load_ok maxClients s \<longleftrightarrow> refusing s \<le> 1 \<and> serving s \<le> unat maxClients \<and> connections s = of_nat (serving s + refusing s)"

lemma not_largest: "m \<noteq> - 1 \<Longrightarrow> unat (m :: u32) + 1 < 2 ^ 32"
proof -
  assume "m \<noteq> - 1"
  then have "m < - 1" by (simp add: less_le)
  then have "unat m < unat (- 1 :: u32)" by (simp only: word_less_nat_alt)
  then show ?thesis by (simp add: unsigned_minus_1_eq_mask mask_eq_exp_minus_1)
qed

lemma load_step_ok:
  assumes "load_ok m s" "load_step m s s'" "m \<noteq> - 1"
  shows "load_ok m s'"
proof -
  note m = not_largest [OF assms(3)]
  have u: "unat (of_nat k :: u32) = k" if "k \<le> unat m + 1" for k
    using that m by (simp add: unsigned_of_nat take_bit_nat_eq_self)
  from assms(2) show ?thesis
  proof (cases rule: load_step.cases)
    case (accept s1)
    with assms(1) have "(of_nat (serving s + 1) :: u32) \<le> m" by (simp add: incConnections_def load_ok_def add.commute not_less)
    then have "serving s + 1 \<le> unat m" using u [of "serving s + 1"] assms(1) by (simp add: word_le_nat_alt load_ok_def del: of_nat_Suc)
    then show ?thesis using accept assms(1) by (auto simp: load_ok_def incConnections_def add.commute)
  next
    case (refuse s1)
    then show ?thesis using assms(1) by (auto simp: load_ok_def incConnections_def add.commute)
  next
    case refused
    then show ?thesis using assms(1) by (auto simp: load_ok_def decConnections_def)
  next
    case leave
    then show ?thesis using assms(1) by (cases "serving s") (auto simp: load_ok_def decConnections_def)
  qed
qed

lemma load_run_ok: "load_run m s \<Longrightarrow> m \<noteq> - 1 \<Longrightarrow> load_ok m s"
proof (induction rule: load_run.induct)
  case start
  show ?case by (simp add: load_ok_def load_start_def)
qed (use load_step_ok in blast)

text \<open>
  C30. In whatever order clients come, are refused and leave: the counter is the number of connections, and never
  more clients are served than the limit allows, unless the limit is the largest \<open>unsigned int\<close>, where the counter wraps around.
\<close>

theorem clients_limited:
  assumes "load_run maxClients s" and "maxClients \<noteq> - 1"
  shows "serving s \<le> unat maxClients \<and> unat (connections s) = serving s + refusing s"
proof -
  have ok: "load_ok maxClients s" by (rule load_run_ok [OF assms])
  then have c: "connections s = of_nat (serving s + refusing s)" by (simp only: load_ok_def)
  have "serving s + refusing s < 2 ^ 32" using ok not_largest [OF assms(2)] by (simp add: load_ok_def)
  then have "unat (connections s) = serving s + refusing s"
    unfolding c by (simp add: unsigned_of_nat take_bit_nat_eq_self del: of_nat_add)
  then show ?thesis using ok by (simp add: load_ok_def)
qed

theorem clients_limited_witness:
  "\<exists>s. load_run 1 s \<and> serving s = 1 \<and> refusing s = 1 \<and> serving s \<le> unat (1 :: u32) \<and> unat (connections s) = serving s + refusing s"
proof -
  let ?s1 = "\<lparr>connections = 1, serving = 1, refusing = 0\<rparr>" and ?s2 = "\<lparr>connections = 2, serving = 1, refusing = 1\<rparr>"
  have "load_step 1 load_start ?s1"
    using load_step.accept [of load_start 1] by (simp add: incConnections_def load_start_def)
  moreover have "load_step 1 ?s1 ?s2"
    using load_step.refuse [of ?s1 1] by (simp add: incConnections_def)
  ultimately have run: "load_run 1 ?s2" by (blast intro: load_run.intros)
  from clients_limited [OF run] run show ?thesis by (intro exI [of _ ?s2]) simp
qed

fun passwords :: "ssh_message list \<Rightarrow> ssh_action list" where
  "passwords [] = []"
| "passwords (Auth_password user pass # ms) = Log_attempt user pass # passwords ms"
| "passwords (_ # ms) = passwords ms"

fun is_log :: "ssh_action \<Rightarrow> bool" where
  "is_log (Log_attempt user pass) = True"
| "is_log _ = False"

text \<open>
  Over SSH the server logs the passwords that the client tries, in their order, up to the limit, and disconnects the
  client exactly when the limit is reached, or when the server stops before.
\<close>

theorem ssh_attempts_logged:
  assumes "attempts \<le> maxAttempts"
  shows "filter is_log (auth stopped maxAttempts attempts ms) = take (maxAttempts - attempts) (passwords ms)
    \<and> (Disconnect \<in> set (auth stopped maxAttempts attempts ms) \<longleftrightarrow>
         attempts < maxAttempts \<and> (maxAttempts - attempts \<le> length (passwords ms) \<or> stopped))"
  using assms
proof (induction ms arbitrary: attempts)
  case (Cons m ms)
  show ?case
  proof (cases "attempts = maxAttempts")
    case False
    then obtain k where k: "maxAttempts - attempts = Suc k" "maxAttempts - (attempts + 1) = k" "attempts < maxAttempts"
      using Cons.prems by (cases "maxAttempts - attempts") auto
    show ?thesis using Cons.IH [of attempts] Cons.IH [of "attempts + 1"] k by (cases m) auto
  qed simp
qed auto

theorem ssh_attempts_logged_witness:
  "filter is_log (auth False 1 0 [Service_request, Auth_password [97] [98], Auth_password [97] [99]]) = [Log_attempt [97] [98]]
    \<and> Disconnect \<in> set (auth False 1 0 [Service_request, Auth_password [97] [98], Auth_password [97] [99]])"
  using ssh_attempts_logged [of 0 1 False "[Service_request, Auth_password [97] [98], Auth_password [97] [99]]"] by simp

end
