(* ===== verification/Cell_Automaton.thy ===== *)
theory Cell_Automaton
  imports C_Numbers
begin

text \<open>
  The cellular automaton of \<^verbatim>\<open>IMS\<close> (\<^verbatim>\<open>Cell.hpp\<close>, \<^verbatim>\<open>CA.hpp\<close>, \<^verbatim>\<open>CA.cpp\<close>, \<^verbatim>\<open>ArgParser.cpp\<close>), a model of an
  infection on a torus. The random numbers are arguments, and so is the comparison of two ratios of type \<^verbatim>\<open>double\<close>; the
  probabilities, which the drawn numbers are compared with, are rational. Counters and tallies are 32-bit words, read as signed numbers. A failed
  assertion has no result. The theorems: no assertion fails whatever the random
  numbers are, and every line of the statistics counts every cell once when the lattice has less than \<open>2^31\<close> cells; the running
  counter of the healthy cells is exact, but that of the infected ones is not.
\<close>

section \<open>Cells\<close>

datatype State = HEALTHY_R | HEALTHY_S | INFECTED_R | INFECTED_S | DEF_INFECTED | DEAD

record Cell =
  cstate :: State
  lifeTime :: int

definition all_states :: "State list" where
  "all_states = [HEALTHY_R, HEALTHY_S, INFECTED_R, INFECTED_S, DEF_INFECTED, DEAD]"

type_synonym cell_tally = "State \<Rightarrow> u32"
type_synonym lattice = "Cell list list"

text \<open>
  The state of the class; the constants of the constructor are definitions. \<open>draws\<close> and \<open>lives\<close> are what the
  two distributions give, \<open>drawn\<close> and \<open>lived\<close> how often they were asked. A ratio is kept as its
  two numbers, and \<open>above\<close> is the comparison of two quotients of type \<^verbatim>\<open>double\<close>.
\<close>

record CA =
  msize :: int
  r_rate :: rat
  stepno :: nat
  ratioRS :: "int \<times> int"
  counter :: cell_tally
  actualCells :: lattice
  nextCells :: lattice
  statistics :: "cell_tally list"
  draws :: "nat \<Rightarrow> rat"
  drawn :: nat
  lives :: "nat \<Rightarrow> int"
  lived :: nat
  above :: "int \<times> int \<Rightarrow> int \<times> int \<Rightarrow> bool"

definition cell_lifespan :: int where "cell_lifespan = 48"
definition infect_r_lifespan :: int where "infect_r_lifespan = 6"
definition infect_s_lifespan :: int where "infect_s_lifespan = 4"
definition inverse_rate1 :: rat where "inverse_rate1 = 1 / 1000"
definition inverse_rate2 :: rat where "inverse_rate2 = 1 / 1000"
definition infect_rate_r :: rat where "infect_rate_r = 5 / 10"
definition infect_rate_s :: rat where "infect_rate_s = 6 / 10"
definition replenishment :: rat where "replenishment = 99 / 100"
definition infection :: rat where "infection = 1 / 1000"
definition hbv :: rat where "hbv = 5 / 100"

lemmas rates = inverse_rate1_def inverse_rate2_def infect_rate_r_def infect_rate_s_def replenishment_def infection_def hbv_def

text \<open>
  The constructor. Its corrections apply to the parameters, which hide the members: only the size of the
  matrices follows them.
\<close>

definition CA_new :: "(int \<times> int \<Rightarrow> int \<times> int \<Rightarrow> bool) \<Rightarrow> (nat \<Rightarrow> rat) \<Rightarrow> (nat \<Rightarrow> int) \<Rightarrow> int \<Rightarrow> rat \<Rightarrow> CA" where
  "CA_new cmp ds ls n r =
     (let n' = nat (if n < 3 then 3 else n); m = replicate n' (replicate n' \<lparr>cstate = HEALTHY_R, lifeTime = 0\<rparr>)
      in \<lparr>msize = n, r_rate = r, stepno = 0, ratioRS = (0, 0), counter = (\<lambda>x. 0), actualCells = m, nextCells = m,
          statistics = [], draws = ds, drawn = 0, lives = ls, lived = 0, above = cmp\<rparr>)"

definition checkProbability :: "rat \<Rightarrow> CA \<Rightarrow> (bool \<times> CA) option" where
  "checkProbability chance s =
     (if 0 \<le> chance \<and> chance \<le> 1 then Some (draws s (drawn s) \<le> chance, s\<lparr>drawn := drawn s + 1\<rparr>) else None)"

definition randLifeTime :: "CA \<Rightarrow> int \<times> CA" where
  "randLifeTime s = (lives s (lived s), s\<lparr>lived := lived s + 1\<rparr>)"

fun checkCellLife :: "State \<Rightarrow> int \<Rightarrow> bool" where
  "checkCellLife INFECTED_R len = (len < infect_r_lifespan)"
| "checkCellLife INFECTED_S len = (len < infect_s_lifespan)"
| "checkCellLife DEAD len = True"
| "checkCellLife _ len = (len < cell_lifespan)"

definition cell_at :: "lattice \<Rightarrow> nat \<Rightarrow> nat \<Rightarrow> Cell" where
  "cell_at m i j = m ! i ! j"

definition put_cell :: "nat \<Rightarrow> nat \<Rightarrow> Cell \<Rightarrow> lattice \<Rightarrow> lattice" where
  "put_cell i j c m = m[i := (m ! i)[j := c]]"

definition add_to :: "State \<Rightarrow> u32 \<Rightarrow> cell_tally \<Rightarrow> cell_tally" where
  "add_to x n t = t(x := t x + n)"

definition positions :: "CA \<Rightarrow> (nat \<times> nat) list" where
  "positions s = List.product [0..<nat (msize s)] [0..<nat (msize s)]"

section \<open>The first lattice\<close>

definition lattice_cell :: "nat \<Rightarrow> nat \<Rightarrow> CA \<times> cell_tally \<Rightarrow> (CA \<times> cell_tally) option" where
  "lattice_cell i j = (\<lambda>(s, m). do {
     (resistant, s) \<leftarrow> checkProbability (r_rate s) s;
     (infected, s) \<leftarrow> checkProbability hbv s;
     let cell_state = (if resistant then (if infected then INFECTED_R else HEALTHY_R)
                       else (if infected then INFECTED_S else HEALTHY_S));
     let (life, s) = randLifeTime s;
     Some (s\<lparr>actualCells := put_cell i j \<lparr>cstate = cell_state, lifeTime = life\<rparr> (actualCells s)\<rparr>, add_to cell_state 1 m)
   })"

fun for_cells :: "(nat \<Rightarrow> nat \<Rightarrow> 'a \<Rightarrow> 'a option) \<Rightarrow> (nat \<times> nat) list \<Rightarrow> 'a \<Rightarrow> 'a option" where
  "for_cells f [] s = Some s"
| "for_cells f ((i, j) # ps) s = (case f i j s of None \<Rightarrow> None | Some s' \<Rightarrow> for_cells f ps s')"

definition generateLattice :: "CA \<Rightarrow> CA option" where
  "generateLattice s =
     (case for_cells lattice_cell (positions s) (s, \<lambda>x. 0) of
        None \<Rightarrow> None
      | Some (s', m) \<Rightarrow>
          Some (s'\<lparr>ratioRS := (sint (m HEALTHY_R + m INFECTED_R), sint (m HEALTHY_S + m INFECTED_S)),
                   statistics := statistics s' @ [m]\<rparr>))"

section \<open>A step\<close>

definition torus :: "int \<Rightarrow> int \<Rightarrow> nat" where
  "torus n i = nat (if i = - 1 then n - 1 else if i = n then 0 else i)"

definition neighbours :: "CA \<Rightarrow> nat \<Rightarrow> nat \<Rightarrow> State list" where
  "neighbours s x y =
     map (\<lambda>(i, j). cstate (cell_at (actualCells s) (torus (msize s) i) (torus (msize s) j)))
       (filter (\<lambda>(i, j). \<not> (i = int x \<and> j = int y)) (List.product [int x - 1..int x + 1] [int y - 1..int y + 1]))"

definition countInfectedNeighbors :: "CA \<Rightarrow> nat \<Rightarrow> nat \<Rightarrow> (int \<times> int) option" where
  "countInfectedNeighbors s x y =
     (if int x < msize s \<and> int y < msize s
      then Some (int (length (filter (\<lambda>c. c = INFECTED_R) (neighbours s x y))),
                 int (length (filter (\<lambda>c. c = INFECTED_S) (neighbours s x y))))
      else None)"

text \<open>
  \<^verbatim>\<open>r/s > a/b\<close> with the infinities and the undefined value of the type \<^verbatim>\<open>double\<close>, but without its rounding: an instance of
  the argument \<open>above\<close>, which the theorems leave open.
\<close>

definition ratio_greater :: "int \<times> int \<Rightarrow> int \<times> int \<Rightarrow> bool" where
  "ratio_greater = (\<lambda>(r, s) (a, b).
     if s = 0 then r > 0 \<and> (b \<noteq> 0 \<or> a < 0)
     else if b = 0 then a < 0
     else (of_int r / of_int s :: rat) > of_int a / of_int b)"

definition put_next :: "nat \<Rightarrow> nat \<Rightarrow> State \<Rightarrow> int \<Rightarrow> CA \<Rightarrow> CA" where
  "put_next i j st life s = s\<lparr>nextCells := put_cell i j \<lparr>cstate = st, lifeTime = life\<rparr> (nextCells s)\<rparr>"

definition move :: "State \<Rightarrow> State \<Rightarrow> CA \<Rightarrow> CA" where
  "move x y s = s\<lparr>counter := add_to y 1 (add_to x (- 1) (counter s))\<rparr>"

text \<open>The state two after, and two before, in the order of the enumeration.\<close>

fun to_infected :: "State \<Rightarrow> State" where
  "to_infected HEALTHY_R = INFECTED_R"
| "to_infected HEALTHY_S = INFECTED_S"
| "to_infected INFECTED_R = DEF_INFECTED"
| "to_infected INFECTED_S = DEAD"
| "to_infected x = x"

fun to_healthy :: "State \<Rightarrow> State" where
  "to_healthy INFECTED_R = HEALTHY_R"
| "to_healthy INFECTED_S = HEALTHY_S"
| "to_healthy DEF_INFECTED = INFECTED_R"
| "to_healthy DEAD = INFECTED_S"
| "to_healthy x = x"

text \<open>Rule 1b; the second part of the result says whether the cell was infected.\<close>

definition rule_1b :: "nat \<Rightarrow> nat \<Rightarrow> State \<Rightarrow> CA \<Rightarrow> (bool \<times> CA) option" where
  "rule_1b i j st s = do {
     (R, S) \<leftarrow> countInfectedNeighbors s i j;
     (hit, s) \<leftarrow> checkProbability (infect_rate_r * (of_int R / 8) + infect_rate_s * (of_int S / 8)) s;
     Some (if hit then (True, put_next i j (to_infected st) 0 (move st (to_infected st) s)) else (False, s))
   }"

definition gen :: "nat \<Rightarrow> nat \<Rightarrow> CA \<Rightarrow> CA option" where
  "gen i j s0 =
     (let stat = statistics s0 ! (stepno s0 - 1);
          cell = (cell_at (actualCells s0) i j)\<lparr>lifeTime := to_int32 (lifeTime (cell_at (actualCells s0) i j) + 1)\<rparr>;
          s = s0\<lparr>actualCells := put_cell i j cell (actualCells s0)\<rparr>;
          st = cstate cell; cnt = counter s;
          keep = put_next i j st (lifeTime cell)
      in if st \<noteq> DEAD \<and> \<not> checkCellLife st (lifeTime cell)
         then Some (put_next i j DEAD 0 (s\<lparr>counter := add_to st (- 1) (counter s)\<rparr>))
         else case st of
           HEALTHY_R \<Rightarrow>
             if above s (sint (stat HEALTHY_R + stat INFECTED_R + cnt HEALTHY_R + cnt INFECTED_R),
                        sint (stat HEALTHY_S + stat INFECTED_S + cnt HEALTHY_S + cnt INFECTED_S)) (ratioRS s)
             then Some (put_next i j HEALTHY_S (lifeTime cell) (move HEALTHY_R HEALTHY_S s))
             else do { (hit, s) \<leftarrow> rule_1b i j st s; Some (if hit then s else keep s) }
         | HEALTHY_S \<Rightarrow> do { (hit, s) \<leftarrow> rule_1b i j st s; Some (if hit then s else keep s) }
         | INFECTED_R \<Rightarrow> do {
             (well, s) \<leftarrow> checkProbability inverse_rate1 s;
             if well then Some (put_next i j (to_healthy st) 0 (move st (to_healthy st) s))
             else do { (defect, s) \<leftarrow> checkProbability inverse_rate2 s;
                       Some (if defect then put_next i j DEF_INFECTED 0 s else keep s) } }
         | INFECTED_S \<Rightarrow> do {
             (well, s) \<leftarrow> checkProbability inverse_rate1 s;
             if well then Some (put_next i j (to_healthy st) 0 (move st (to_healthy st) s))
             else do { (defect, s) \<leftarrow> checkProbability inverse_rate2 s;
                       Some (if defect then put_next i j DEF_INFECTED 0 s else keep s) } }
         | DEF_INFECTED \<Rightarrow> Some (keep s)
         | DEAD \<Rightarrow> do {
             (fill, s) \<leftarrow> checkProbability replenishment s;
             if fill then do {
               (infected, s) \<leftarrow> checkProbability infection s;
               let x = (if infected then INFECTED_R else HEALTHY_R);
               Some (put_next i j x 0 (s\<lparr>counter := add_to x 1 (counter s)\<rparr>)) }
             else Some (keep s) })"

definition step_cell :: "nat \<Rightarrow> nat \<Rightarrow> CA \<times> cell_tally \<Rightarrow> (CA \<times> cell_tally) option" where
  "step_cell i j = (\<lambda>(s, m).
     case gen i j s of None \<Rightarrow> None | Some s' \<Rightarrow> Some (s', add_to (cstate (cell_at (nextCells s') i j)) 1 m))"

definition nextStep :: "CA \<Rightarrow> CA option" where
  "nextStep s =
     (case for_cells step_cell (positions s) (s\<lparr>stepno := stepno s + 1, counter := (\<lambda>x. 0)\<rparr>, \<lambda>x. 0) of
        None \<Rightarrow> None
      | Some (s', m) \<Rightarrow>
          Some (s'\<lparr>actualCells := nextCells s', nextCells := actualCells s', statistics := statistics s' @ [m]\<rparr>))"

fun steps :: "nat \<Rightarrow> CA \<Rightarrow> CA option" where
  "steps 0 s = Some s"
| "steps (Suc n) s = (case nextStep s of None \<Rightarrow> None | Some s' \<Rightarrow> steps n s')"

section \<open>Output\<close>

definition printActualStatistic :: "CA \<Rightarrow> int \<times> int \<times> int" where
  "printActualStatistic s =
     (let m = statistics s ! stepno s
      in (sint (m HEALTHY_R + m HEALTHY_S), sint (m INFECTED_R + m INFECTED_S + m DEF_INFECTED), sint (m DEAD)))"

definition saveData :: "CA \<Rightarrow> int list list" where
  "saveData s = map (\<lambda>stat. map (\<lambda>x. sint (stat x)) all_states) (statistics s)"

fun colour :: "State \<Rightarrow> nat \<times> nat \<times> nat" where
  "colour HEALTHY_R = (255, 255, 255)"
| "colour HEALTHY_S = (255, 255, 255)"
| "colour INFECTED_R = (255, 0, 0)"
| "colour INFECTED_S = (255, 0, 0)"
| "colour DEF_INFECTED = (255, 0, 0)"
| "colour DEAD = (0, 0, 255)"

type_synonym picture = "((nat \<times> nat) \<times> nat \<times> nat \<times> nat) list"

definition generateBMP :: "CA \<Rightarrow> picture" where
  "generateBMP s = map (\<lambda>(x, y). ((x, y), colour (cstate (cell_at (actualCells s) x y)))) (positions s)"

section \<open>Arguments\<close>

record ca_args =
  lattice :: int
  nsteps :: int
  genStep :: int
  rate :: rat
  fileName :: "byte list"
  dataName :: "byte list"

definition ca_args_new :: ca_args where
  "ca_args_new = \<lparr>lattice = 1000, nsteps = 1, genStep = 0, rate = 5 / 100, fileName = [], dataName = []\<rparr>"

text \<open>One option as \<^verbatim>\<open>getopt\<close> gives it; \<^verbatim>\<open>strtod\<close> is an argument. \<open>None\<close> stops the program after the help.\<close>

definition ca_option :: "(byte list \<Rightarrow> rat \<times> byte list) \<Rightarrow> char \<Rightarrow> byte list \<Rightarrow> ca_args \<Rightarrow> ca_args option" where
  "ca_option strtod ch optarg a =
     (let (n, rest) = strtol optarg; value = to_int32 n; (d, drest) = strtod optarg
      in if ch = CHR ''h'' then None
         else Some (
           if ch = CHR ''l'' then (if rest = [] \<and> value \<ge> 3 then a\<lparr>lattice := value\<rparr> else a)
           else if ch = CHR ''s'' then (if rest = [] \<and> value > 0 then a\<lparr>nsteps := value\<rparr> else a)
           else if ch = CHR ''g'' then (if rest = [] \<and> value > 0 then a\<lparr>genStep := value\<rparr> else a)
           else if ch = CHR ''f'' then a\<lparr>fileName := optarg\<rparr>
           else if ch = CHR ''d'' then a\<lparr>dataName := optarg\<rparr>
           else if ch = CHR ''r'' then (if drest = [] \<and> 0 \<le> d \<and> d \<le> 1 then a\<lparr>rate := d\<rparr> else a)
           else a))"

fun ca_options :: "(byte list \<Rightarrow> rat \<times> byte list) \<Rightarrow> (char \<times> byte list) list \<Rightarrow> ca_args \<Rightarrow> ca_args option" where
  "ca_options strtod [] a = Some a"
| "ca_options strtod ((ch, optarg) # os) a =
     (case ca_option strtod ch optarg a of None \<Rightarrow> None | Some a' \<Rightarrow> ca_options strtod os a')"

text \<open>
  The program: the numbers it prints before the first and after every step, the pictures with their file
  names (the numbers are the bytes of 0, the underscore and .bmp), and the table of the data file.
\<close>

definition frame_name :: "ca_args \<Rightarrow> nat \<Rightarrow> byte list" where
  "frame_name a i =
     (let digits = length (decimal (nat (nsteps a)))
      in replicate (digits - length (decimal i)) 48 @ decimal i @ [95] @ fileName a @ [46, 98, 109, 112])"

definition frame :: "ca_args \<Rightarrow> nat \<Rightarrow> CA \<Rightarrow> (byte list \<times> picture) list" where
  "frame a i s =
     (if genStep a \<noteq> 0 \<and> fileName a \<noteq> [] \<and> int i mod genStep a = 0 then [(frame_name a i, generateBMP s)] else [])"

fun run_steps :: "ca_args \<Rightarrow> nat \<Rightarrow> nat \<Rightarrow> CA \<Rightarrow> ((int \<times> int \<times> int) list \<times> (byte list \<times> picture) list \<times> CA) option" where
  "run_steps a i 0 s = Some ([], [], s)"
| "run_steps a i (Suc n) s = do {
     s' \<leftarrow> nextStep s;
     (printed, pics, t) \<leftarrow> run_steps a (i + 1) n s';
     Some (printActualStatistic s' # printed, frame a i s' @ pics, t) }"

definition ca_main ::
    "(int \<times> int \<Rightarrow> int \<times> int \<Rightarrow> bool) \<Rightarrow> (byte list \<Rightarrow> rat \<times> byte list) \<Rightarrow> (nat \<Rightarrow> rat) \<Rightarrow> (nat \<Rightarrow> int) \<Rightarrow> (char \<times> byte list) list
      \<Rightarrow> ((int \<times> int \<times> int) list \<times> (byte list \<times> picture) list \<times> int list list option) option" where
  "ca_main cmp strtod ds ls opts =
     (case ca_options strtod opts ca_args_new of
        None \<Rightarrow> Some ([], [], None)
      | Some a \<Rightarrow> do {
          s \<leftarrow> generateLattice (CA_new cmp ds ls (lattice a) (rate a));
          (printed, pics, t) \<leftarrow> run_steps a 1 (nat (nsteps a)) s;
          Some (printActualStatistic s # printed,
                frame a 0 s @ pics @ (if fileName a = [] then [] else [(fileName a @ [46, 98, 109, 112], generateBMP t)]),
                if dataName a = [] then None else Some (saveData t)) })"


section \<open>Loops over the cells\<close>

lemma for_cells_inv:
  assumes "I [] s"
    and step: "\<And>seen i j rest s. ps = seen @ (i, j) # rest \<Longrightarrow> I seen s \<Longrightarrow> \<exists>s'. f i j s = Some s' \<and> I (seen @ [(i, j)]) s'"
  shows "\<exists>s'. for_cells f ps s = Some s' \<and> I ps s'"
proof -
  have "ps = seen @ todo \<Longrightarrow> I seen s \<Longrightarrow> \<exists>s'. for_cells f todo s = Some s' \<and> I ps s'" for seen todo s
  proof (induction todo arbitrary: seen s)
    case (Cons p todo)
    obtain i j where p: "p = (i, j)" by fastforce
    with step [of "seen" i j todo s] Cons.prems obtain s' where s': "f i j s = Some s'" "I (seen @ [(i, j)]) s'" by auto
    with Cons.IH [of "seen @ [(i, j)]" s'] Cons.prems(1) p show ?case by auto
  qed simp
  from this [of "[]" ps s] assms(1) show ?thesis by simp
qed

definition dims_ok :: "int \<Rightarrow> lattice \<Rightarrow> bool" where
  "dims_ok n m \<longleftrightarrow> nat n \<le> length m \<and> (\<forall>i < length m. nat n \<le> length (m ! i))"

lemma length_put [simp]: "length (put_cell i j c m) = length m" "length (put_cell i j c m ! a) = length (m ! a)"
proof -
  show "length (put_cell i j c m) = length m" by (simp add: put_cell_def)
  show "length (put_cell i j c m ! a) = length (m ! a)"
    by (cases "i < length m"; cases "a = i") (simp_all add: put_cell_def nth_list_update_neq list_update_beyond)
qed

lemma dims_put: "dims_ok n (put_cell i j c m) = dims_ok n m"
  by (simp add: dims_ok_def)

lemma cell_at_put:
  assumes "dims_ok n m" "i < nat n" "j < nat n"
  shows "cell_at (put_cell i j c m) i' j' = (if i' = i \<and> j' = j then c else cell_at m i' j')"
proof -
  have "i < length m" using assms(1,2) by (simp add: dims_ok_def)
  moreover from this have "j < length (m ! i)" using assms(1,3) by (auto simp: dims_ok_def intro: less_le_trans)
  ultimately show ?thesis by (simp add: cell_at_def put_cell_def nth_list_update)
qed

definition tally_of :: "lattice \<Rightarrow> (nat \<times> nat) list \<Rightarrow> cell_tally" where
  "tally_of m ps x = of_nat (length (filter (\<lambda>(i, j). cstate (cell_at m i j) = x) ps))"

lemma tally_of_snoc: "tally_of m (ps @ [(i, j)]) = add_to (cstate (cell_at m i j)) 1 (tally_of m ps)"
  by (rule ext) (simp add: tally_of_def add_to_def)

lemma tally_of_put:
  assumes "dims_ok n m" "i < nat n" "j < nat n" "(i, j) \<notin> set ps"
  shows "tally_of (put_cell i j c m) ps = tally_of m ps"
proof (rule ext)
  fix x
  have "filter (\<lambda>(a, b). cstate (cell_at (put_cell i j c m) a b) = x) ps = filter (\<lambda>(a, b). cstate (cell_at m a b) = x) ps"
    using assms(4) by (intro filter_cong) (auto simp: cell_at_put [OF assms(1-3)])
  then show "tally_of (put_cell i j c m) ps x = tally_of m ps x" by (simp add: tally_of_def)
qed

text \<open>The words of a tally are the numbers of the cells, as long as these are less than \<open>2^31\<close>.\<close>

lemma states_total:
  "(\<Sum>x\<leftarrow>all_states. length (filter (\<lambda>(i, j). cstate (cell_at m i j) = x) ps)) = length ps"
proof (induction ps)
  case (Cons p ps)
  obtain i j where "p = (i, j)" by fastforce
  then show ?case using Cons by (cases "cstate (cell_at m i j)") (simp_all add: all_states_def)
qed (simp add: all_states_def)

lemma sint_of_nat_small: "k < 2 ^ 31 \<Longrightarrow> sint (of_nat k :: u32) = int k"
  by (simp add: signed_of_nat signed_take_bit_int_eq_self)

lemma tally_counts:
  assumes t: "t = tally_of m ps" and l: "length ps < 2 ^ 31"
  shows "sint (t HEALTHY_R + t HEALTHY_S) + sint (t INFECTED_R + t INFECTED_S + t DEF_INFECTED) + sint (t DEAD) = int (length ps)"
    and "(\<Sum>x\<leftarrow>all_states. sint (t x)) = int (length ps)"
proof -
  define k where "k x = length (filter (\<lambda>(i, j). cstate (cell_at m i j) = x) ps)" for x
  have sum: "k HEALTHY_R + k HEALTHY_S + k INFECTED_R + k INFECTED_S + k DEF_INFECTED + k DEAD = length ps"
    using states_total [of m ps] by (simp add: all_states_def k_def)
  have tk: "t x = of_nat (k x)" for x by (simp add: t tally_of_def k_def)
  have s: "sint (of_nat n :: u32) = int n" if "n \<le> length ps" for n using that l by (intro sint_of_nat_small) linarith
  show "sint (t HEALTHY_R + t HEALTHY_S) + sint (t INFECTED_R + t INFECTED_S + t DEF_INFECTED) + sint (t DEAD) = int (length ps)"
    using s [of "k HEALTHY_R + k HEALTHY_S"] s [of "k INFECTED_R + k INFECTED_S + k DEF_INFECTED"] s [of "k DEAD"] sum
    by (simp add: tk)
  have "sint (t x) = int (k x)" for x unfolding tk by (rule s) (simp add: k_def)
  then show "(\<Sum>x\<leftarrow>all_states. sint (t x)) = int (length ps)"
    using arg_cong [OF sum, of int] by (simp add: all_states_def)
qed

lemma positions_props:
  "distinct (positions s)" "(i, j) \<in> set (positions s) \<Longrightarrow> i < nat (msize s) \<and> j < nat (msize s)"
  "length (positions s) = nat (msize s) * nat (msize s)"
  by (auto simp: positions_def distinct_product length_product)

section \<open>One cell\<close>

lemma checkProbability_ok:
  "0 \<le> c \<Longrightarrow> c \<le> 1 \<Longrightarrow> checkProbability c s = Some (draws s (drawn s) \<le> c, s\<lparr>drawn := drawn s + 1\<rparr>)"
  by (simp add: checkProbability_def)

lemma rates_ok:
  "0 \<le> inverse_rate1" "inverse_rate1 \<le> 1" "0 \<le> inverse_rate2" "inverse_rate2 \<le> 1" "0 \<le> replenishment" "replenishment \<le> 1"
  "0 \<le> infection" "infection \<le> 1" "0 \<le> hbv" "hbv \<le> 1"
  by (simp_all add: rates)

lemma three_ints: "[z - 1..z + 1] = [z - 1, z, z + 1 :: int]"
  by (simp add: upto_rec1)

lemma neighbours_count:
  "int (length (filter (\<lambda>c. c = INFECTED_R) (neighbours s x y))) + int (length (filter (\<lambda>c. c = INFECTED_S) (neighbours s x y))) \<le> 9"
proof -
  have l: "length (neighbours s x y) \<le> 9"
    unfolding neighbours_def length_map
    by (rule order_trans [OF length_filter_le]) (simp add: length_product three_ints)
  have "length (filter (\<lambda>c. c = INFECTED_R) cs) + length (filter (\<lambda>c. c = INFECTED_S) cs) \<le> length cs" for cs
    by (induction cs) auto
  from this [of "neighbours s x y"] l show ?thesis by linarith
qed

lemma rule_1b_ok:
  assumes "int i < msize s" "int j < msize s"
  shows "\<exists>hit. rule_1b i j st s = Some (hit,
    let s1 = s\<lparr>drawn := drawn s + 1\<rparr> in if hit then put_next i j (to_infected st) 0 (move st (to_infected st) s1) else s1)"
proof -
  obtain R S where c: "countInfectedNeighbors s i j = Some (R, S)" "0 \<le> R" "0 \<le> S" "R + S \<le> 9"
    using assms neighbours_count [of s i j] by (simp add: countInfectedNeighbors_def)
  have "0 \<le> infect_rate_r * (of_int R / 8) + infect_rate_s * (of_int S / 8)"
    using c(2,3) by (simp add: rates)
  moreover have "infect_rate_r * (of_int R / 8) + infect_rate_s * (of_int S / 8) \<le> (1 :: rat)"
  proof -
    have "(of_int R :: rat) \<le> of_int (9 - S)" using c(4) by (simp only: of_int_le_iff; linarith)
    moreover have "(of_int S :: rat) \<le> of_int 9" using c(2,4) by (simp only: of_int_le_iff; linarith)
    moreover have "(0 :: rat) \<le> of_int S" "(0 :: rat) \<le> of_int R" using c(2,3) by simp_all
    ultimately show ?thesis by (simp add: rates field_simps)
  qed
  ultimately show ?thesis
    unfolding rule_1b_def c(1)
    by (intro exI [of _ "draws s (drawn s) \<le> infect_rate_r * (of_int R / 8) + infect_rate_s * (of_int S / 8)"])
      (simp add: checkProbability_ok Let_def)
qed

text \<open>What a step does to one cell: it ages, its successor is written, and the counter of the healthy cells follows.\<close>

definition cell_effect :: "nat \<Rightarrow> nat \<Rightarrow> CA \<Rightarrow> Cell \<Rightarrow> cell_tally \<Rightarrow> nat \<Rightarrow> CA" where
  "cell_effect i j s c t k =
     s\<lparr>actualCells := put_cell i j ((cell_at (actualCells s) i j)\<lparr>lifeTime := to_int32 (lifeTime (cell_at (actualCells s) i j) + 1)\<rparr>) (actualCells s),
       nextCells := put_cell i j c (nextCells s), counter := t, drawn := k\<rparr>"

definition exact_for :: "State \<Rightarrow> State \<Rightarrow> cell_tally \<Rightarrow> cell_tally \<Rightarrow> bool" where
  "exact_for old new t t' \<longleftrightarrow>
     (\<forall>x. x = HEALTHY_R \<or> x = HEALTHY_S \<longrightarrow> t' x = t x + (if new = x then 1 else 0) - (if old = x then 1 else 0))"

definition effect_ok :: "nat \<Rightarrow> nat \<Rightarrow> CA \<Rightarrow> CA option \<Rightarrow> bool" where
  "effect_ok i j s r \<longleftrightarrow>
     (\<exists>c t k. r = Some (cell_effect i j s c t k) \<and> exact_for (cstate (cell_at (actualCells s) i j)) (cstate c) (counter s) t)"

lemma effect_exists:
  assumes "actualCells s' = put_cell i j ((cell_at (actualCells s) i j)\<lparr>lifeTime := to_int32 (lifeTime (cell_at (actualCells s) i j) + 1)\<rparr>) (actualCells s)"
    and "nextCells s' = put_cell i j \<lparr>cstate = st, lifeTime = l\<rparr> (nextCells s)"
    and "msize s' = msize s" "r_rate s' = r_rate s" "stepno s' = stepno s" "ratioRS s' = ratioRS s" "statistics s' = statistics s"
      "draws s' = draws s" "lives s' = lives s" "lived s' = lived s" "above s' = above s"
    and "exact_for (cstate (cell_at (actualCells s) i j)) st (counter s) (counter s')"
  shows "effect_ok i j s (Some s')"
proof -
  have "s' = cell_effect i j s \<lparr>cstate = st, lifeTime = l\<rparr> (counter s') (drawn s')"
    by (rule CA.equality) (simp_all add: cell_effect_def assms(1-11))
  then show ?thesis using assms(12) unfolding effect_ok_def
    by (intro exI [of _ "\<lparr>cstate = st, lifeTime = l\<rparr>"] exI [of _ "counter s'"] exI [of _ "drawn s'"]) simp
qed

lemmas effect_simps = put_next_def move_def exact_for_def add_to_def

lemma gen_effect:
  assumes "int i < msize s" "int j < msize s"
  shows "effect_ok i j s (gen i j s)"
proof -
  define old where "old = cell_at (actualCells s) i j"
  define cell where "cell = old\<lparr>lifeTime := to_int32 (lifeTime old + 1)\<rparr>"
  define s1 where "s1 = s\<lparr>actualCells := put_cell i j cell (actualCells s)\<rparr>"
  have st: "cstate cell = cstate old" by (simp add: cell_def)
  obtain hit where hit: "rule_1b i j (cstate old) s1 = Some (hit,
      let s2 = s1\<lparr>drawn := drawn s1 + 1\<rparr> in if hit then put_next i j (to_infected (cstate old)) 0 (move (cstate old) (to_infected (cstate old)) s2) else s2)"
    using rule_1b_ok [of i s1 j "cstate old"] assms by (auto simp: s1_def)
  note g = gen_def [of i j s, unfolded Let_def, folded old_def, folded cell_def, folded s1_def, unfolded st]
  note e = effect_exists [of _ i j s, folded old_def, folded cell_def]
  show ?thesis
  proof (cases "cstate old \<noteq> DEAD \<and> \<not> checkCellLife (cstate old) (lifeTime cell)")
    case True
    show ?thesis
      unfolding g if_P [OF True] old_def [symmetric] by (rule e [where st = DEAD and l = 0]; cases "cstate old"; simp add: effect_simps s1_def)
  next
    case False
    note r = g [unfolded if_not_P [OF False]]
    show ?thesis
    proof (cases "cstate old")
      case HEALTHY_R
      show ?thesis unfolding r HEALTHY_R State.case hit [unfolded HEALTHY_R] old_def [symmetric]
        by (cases hit) (auto simp: Let_def s1_def effect_simps HEALTHY_R intro!: e)
    next
      case HEALTHY_S
      show ?thesis unfolding r HEALTHY_S State.case hit [unfolded HEALTHY_S] old_def [symmetric]
        by (cases hit) (auto simp: Let_def s1_def effect_simps HEALTHY_S intro!: e)
    next
      case INFECTED_R
      show ?thesis unfolding r INFECTED_R State.case old_def [symmetric]
        by (auto simp: checkProbability_ok rates_ok s1_def effect_simps INFECTED_R intro!: e)
    next
      case INFECTED_S
      show ?thesis unfolding r INFECTED_S State.case old_def [symmetric]
        by (auto simp: checkProbability_ok rates_ok s1_def effect_simps INFECTED_S intro!: e)
    next
      case DEF_INFECTED
      show ?thesis unfolding r DEF_INFECTED State.case old_def [symmetric]
        by (auto simp: s1_def effect_simps DEF_INFECTED intro!: e)
    next
      case DEAD
      show ?thesis unfolding r DEAD State.case old_def [symmetric]
        by (auto simp: checkProbability_ok rates_ok s1_def effect_simps DEAD Let_def intro!: e)
    qed
  qed
qed


section \<open>A whole step\<close>

definition ca_ok :: "CA \<Rightarrow> bool" where
  "ca_ok s \<longleftrightarrow> dims_ok (msize s) (actualCells s) \<and> dims_ok (msize s) (nextCells s) \<and> 0 \<le> r_rate s \<and> r_rate s \<le> 1
     \<and> length (statistics s) = stepno s + 1 \<and> last (statistics s) = tally_of (actualCells s) (positions s)
     \<and> (\<forall>t \<in> set (statistics s). \<exists>m. t = tally_of m (positions s))"

text \<open>The members that a step leaves alone.\<close>

definition same_frame :: "CA \<Rightarrow> CA \<Rightarrow> bool" where
  "same_frame s s' \<longleftrightarrow> msize s' = msize s \<and> r_rate s' = r_rate s \<and> stepno s' = stepno s \<and> ratioRS s' = ratioRS s
     \<and> statistics s' = statistics s"

definition step_inv :: "CA \<Rightarrow> (nat \<times> nat) list \<Rightarrow> CA \<times> cell_tally \<Rightarrow> bool" where
  "step_inv s0 ps = (\<lambda>(s, m). same_frame s0 s \<and> dims_ok (msize s0) (actualCells s) \<and> dims_ok (msize s0) (nextCells s)
     \<and> m = tally_of (nextCells s) ps \<and> (\<forall>a b. cstate (cell_at (actualCells s) a b) = cstate (cell_at (actualCells s0) a b))
     \<and> (\<forall>x. x = HEALTHY_R \<or> x = HEALTHY_S \<longrightarrow> counter s x = counter s0 x + tally_of (nextCells s) ps x - tally_of (actualCells s0) ps x))"

lemma step_cell_inv:
  assumes inv: "step_inv s0 ps (s, m)" and p: "i < nat (msize s0)" "j < nat (msize s0)" "(i, j) \<notin> set ps"
  shows "\<exists>sm. step_cell i j (s, m) = Some sm \<and> step_inv s0 (ps @ [(i, j)]) sm"
proof -
  have sz: "msize s = msize s0" and dims: "dims_ok (msize s0) (actualCells s)" "dims_ok (msize s0) (nextCells s)"
    and m: "m = tally_of (nextCells s) ps" and act: "\<And>a b. cstate (cell_at (actualCells s) a b) = cstate (cell_at (actualCells s0) a b)"
    using inv by (simp_all add: step_inv_def same_frame_def)
  have cnt: "\<And>x. x = HEALTHY_R \<or> x = HEALTHY_S \<Longrightarrow> counter s x = counter s0 x + tally_of (nextCells s) ps x - tally_of (actualCells s0) ps x"
    using inv unfolding step_inv_def prod.case by blast
  have "int i < msize s" "int j < msize s" using p sz by linarith+
  from gen_effect [OF this, unfolded effect_ok_def] obtain c t k where g: "gen i j s = Some (cell_effect i j s c t k)"
    and ex: "exact_for (cstate (cell_at (actualCells s) i j)) (cstate c) (counter s) t" by blast
  let ?n = "put_cell i j c (nextCells s)"
  have at: "cell_at ?n i j = c" using cell_at_put [OF dims(2) p(1,2)] by simp
  have old: "tally_of ?n ps = tally_of (nextCells s) ps" by (rule tally_of_put [OF dims(2) p])
  have "step_inv s0 (ps @ [(i, j)]) (cell_effect i j s c t k, add_to (cstate c) 1 m)"
    unfolding step_inv_def prod.case
  proof (intro conjI allI impI)
    show "same_frame s0 (cell_effect i j s c t k)" using inv by (simp add: step_inv_def same_frame_def cell_effect_def)
    show "dims_ok (msize s0) (actualCells (cell_effect i j s c t k))" "dims_ok (msize s0) (nextCells (cell_effect i j s c t k))"
      using dims by (simp_all add: cell_effect_def dims_put)
    show "add_to (cstate c) 1 m = tally_of (nextCells (cell_effect i j s c t k)) (ps @ [(i, j)])"
      by (simp add: cell_effect_def tally_of_snoc at old m)
    show "cstate (cell_at (actualCells (cell_effect i j s c t k)) a b) = cstate (cell_at (actualCells s0) a b)" for a b
      using act by (auto simp: cell_effect_def cell_at_put [OF dims(1) p(1,2)])
    fix x :: State assume x: "x = HEALTHY_R \<or> x = HEALTHY_S"
    show "counter (cell_effect i j s c t k) x = counter s0 x + tally_of (nextCells (cell_effect i j s c t k)) (ps @ [(i, j)]) x
        - tally_of (actualCells s0) (ps @ [(i, j)]) x"
    proof -
      have "t x = counter s x + (if cstate c = x then 1 else 0) - (if cstate (cell_at (actualCells s0) i j) = x then 1 else 0)"
        using ex x unfolding exact_for_def act by blast
      then show ?thesis using cnt [OF x] by (simp add: cell_effect_def tally_of_snoc at old add_to_def)
    qed
  qed
  then show ?thesis using g by (simp add: step_cell_def) (simp add: cell_effect_def at)
qed

lemma nextStep_ok:
  assumes "ca_ok s"
  shows "\<exists>s'. nextStep s = Some s' \<and> ca_ok s' \<and> stepno s' = stepno s + 1 \<and> msize s' = msize s
    \<and> statistics s' = statistics s @ [tally_of (actualCells s') (positions s')]
    \<and> (\<forall>x. x = HEALTHY_R \<or> x = HEALTHY_S \<longrightarrow> counter s' x = last (statistics s') x - last (statistics s) x)"
proof -
  define s0 where "s0 = s\<lparr>stepno := stepno s + 1, counter := (\<lambda>x. 0)\<rparr>"
  have ps: "positions s0 = positions s" by (simp add: positions_def s0_def)
  have start: "step_inv s0 [] (s0, \<lambda>x. 0)"
    using assms by (auto simp: step_inv_def same_frame_def ca_ok_def s0_def tally_of_def)
  have "\<exists>sm. for_cells step_cell (positions s) (s0, \<lambda>x. 0) = Some sm \<and> step_inv s0 (positions s) sm"
  proof (rule for_cells_inv [where I = "step_inv s0", OF start])
    fix seen i j rest sm assume d: "positions s = seen @ (i, j) # rest" and I: "step_inv s0 seen sm"
    obtain s1 m where sm: "sm = (s1, m)" by fastforce
    have "i < nat (msize s0)" "j < nat (msize s0)" using positions_props(2) [of i j s] d by (simp_all add: s0_def)
    moreover have "(i, j) \<notin> set seen" using positions_props(1) [of s] d by simp
    ultimately show "\<exists>s'. step_cell i j sm = Some s' \<and> step_inv s0 (seen @ [(i, j)]) s'"
      using step_cell_inv I unfolding sm by blast
  qed
  then obtain s1 m where loop: "for_cells step_cell (positions s) (s0, \<lambda>x. 0) = Some (s1, m)" and inv: "step_inv s0 (positions s) (s1, m)"
    by fastforce
  define s' where "s' = s1\<lparr>actualCells := nextCells s1, nextCells := actualCells s1, statistics := statistics s1 @ [m]\<rparr>"
  have fr: "same_frame s0 s1" and m: "m = tally_of (nextCells s1) (positions s)" using inv by (simp_all add: step_inv_def)
  then have fields: "msize s' = msize s" "r_rate s' = r_rate s" "stepno s' = stepno s + 1" "statistics s' = statistics s @ [m]"
    by (simp_all add: s'_def same_frame_def s0_def)
  then have ps': "positions s' = positions s" by (simp add: positions_def)
  have "ca_ok s'"
    using assms inv fields m ps' unfolding ca_ok_def by (auto simp: s'_def step_inv_def s0_def)
  moreover have "nextStep s = Some s'" unfolding nextStep_def s0_def [symmetric] loop by (simp add: s'_def)
  moreover have "m = tally_of (actualCells s') (positions s')" using m ps' by (simp add: s'_def)
  moreover have "counter s' x = last (statistics s') x - last (statistics s) x" if "x = HEALTHY_R \<or> x = HEALTHY_S" for x
    using inv that assms fields(4) m by (auto simp: step_inv_def s'_def s0_def ca_ok_def ps)
  ultimately show ?thesis using fields by blast
qed

section \<open>The first lattice is complete\<close>

definition lattice_inv :: "CA \<Rightarrow> (nat \<times> nat) list \<Rightarrow> CA \<times> cell_tally \<Rightarrow> bool" where
  "lattice_inv s0 ps = (\<lambda>(s, m). same_frame s0 s \<and> dims_ok (msize s0) (actualCells s) \<and> nextCells s = nextCells s0
     \<and> m = tally_of (actualCells s) ps)"

lemma lattice_cell_inv:
  assumes inv: "lattice_inv s0 ps (s, m)" and r: "0 \<le> r_rate s0" "r_rate s0 \<le> 1"
    and p: "i < nat (msize s0)" "j < nat (msize s0)" "(i, j) \<notin> set ps"
  shows "\<exists>sm. lattice_cell i j (s, m) = Some sm \<and> lattice_inv s0 (ps @ [(i, j)]) sm"
proof -
  have fr: "same_frame s0 s" and dims: "dims_ok (msize s0) (actualCells s)" and m: "m = tally_of (actualCells s) ps"
    and nx: "nextCells s = nextCells s0"
    using inv by (simp_all add: lattice_inv_def)
  have r': "0 \<le> r_rate s" "r_rate s \<le> 1" using r fr by (simp_all add: same_frame_def)
  obtain st l k1 k2 where e: "lattice_cell i j (s, m) =
      Some (s\<lparr>drawn := k1, lived := k2, actualCells := put_cell i j \<lparr>cstate = st, lifeTime = l\<rparr> (actualCells s)\<rparr>, add_to st 1 m)"
    using r' by (simp add: lattice_cell_def checkProbability_ok rates_ok randLifeTime_def Let_def)
  let ?a = "put_cell i j \<lparr>cstate = st, lifeTime = l\<rparr> (actualCells s)"
  have "cstate (cell_at ?a i j) = st" using cell_at_put [OF dims p(1,2)] by simp
  moreover have "tally_of ?a ps = tally_of (actualCells s) ps" by (rule tally_of_put [OF dims p])
  ultimately show ?thesis
    unfolding e using fr dims m nx by (simp add: lattice_inv_def same_frame_def dims_put tally_of_snoc)
qed

lemma generateLattice_ok:
  assumes "dims_ok (msize s) (actualCells s)" "dims_ok (msize s) (nextCells s)" "0 \<le> r_rate s" "r_rate s \<le> 1"
    and "stepno s = 0" "statistics s = []"
  shows "\<exists>s'. generateLattice s = Some s' \<and> ca_ok s' \<and> stepno s' = 0 \<and> msize s' = msize s"
proof -
  have start: "lattice_inv s [] (s, \<lambda>x. 0)"
    using assms by (auto simp: lattice_inv_def same_frame_def tally_of_def)
  have "\<exists>sm. for_cells lattice_cell (positions s) (s, \<lambda>x. 0) = Some sm \<and> lattice_inv s (positions s) sm"
  proof (rule for_cells_inv [where I = "lattice_inv s", OF start])
    fix seen i j rest sm assume d: "positions s = seen @ (i, j) # rest" and I: "lattice_inv s seen sm"
    obtain s1 m where sm: "sm = (s1, m)" by fastforce
    have "i < nat (msize s)" "j < nat (msize s)" using positions_props(2) [of i j s] d by simp_all
    moreover have "(i, j) \<notin> set seen" using positions_props(1) [of s] d by simp
    ultimately show "\<exists>s'. lattice_cell i j sm = Some s' \<and> lattice_inv s (seen @ [(i, j)]) s'"
      using lattice_cell_inv [OF _ assms(3,4)] I unfolding sm by blast
  qed
  then obtain s1 m where loop: "for_cells lattice_cell (positions s) (s, \<lambda>x. 0) = Some (s1, m)" and inv: "lattice_inv s (positions s) (s1, m)"
    by fastforce
  define s' where "s' = s1\<lparr>ratioRS := (sint (m HEALTHY_R + m INFECTED_R), sint (m HEALTHY_S + m INFECTED_S)), statistics := statistics s1 @ [m]\<rparr>"
  have fr: "same_frame s s1" and m: "m = tally_of (actualCells s1) (positions s)" using inv by (simp_all add: lattice_inv_def)
  then have fields: "msize s' = msize s" "r_rate s' = r_rate s" "stepno s' = 0" "statistics s' = [m]"
    using assms(5,6) by (simp_all add: s'_def same_frame_def)
  then have ps': "positions s' = positions s" by (simp add: positions_def)
  have "ca_ok s'"
    using assms inv fields m ps' unfolding ca_ok_def by (auto simp: s'_def lattice_inv_def)
  moreover have "generateLattice s = Some s'" using loop by (simp add: generateLattice_def s'_def)
  ultimately show ?thesis using fields by blast
qed

section \<open>The program\<close>

lemma ca_option_keeps:
  assumes "ca_option strtod ch optarg a = Some a'" "3 \<le> lattice a" "0 \<le> rate a" "rate a \<le> 1" "0 < nsteps a"
  shows "3 \<le> lattice a' \<and> 0 \<le> rate a' \<and> rate a' \<le> 1 \<and> 0 < nsteps a'"
  using assms by (auto simp: ca_option_def Let_def split: prod.splits if_splits)

lemma ca_options_keep:
  "ca_options strtod opts a = Some a' \<Longrightarrow> 3 \<le> lattice a \<Longrightarrow> 0 \<le> rate a \<Longrightarrow> rate a \<le> 1 \<Longrightarrow> 0 < nsteps a
    \<Longrightarrow> 3 \<le> lattice a' \<and> 0 \<le> rate a' \<and> rate a' \<le> 1 \<and> 0 < nsteps a'"
proof (induction strtod opts a rule: ca_options.induct)
  case (2 strtod ch optarg os a)
  then obtain b where b: "ca_option strtod ch optarg a = Some b" "ca_options strtod os b = Some a'"
    by (auto split: option.splits)
  from ca_option_keeps [OF b(1) 2(3-6)] 2(1) [OF b] show ?case by blast
qed simp

lemma first_lattice:
  assumes "3 \<le> n" "0 \<le> r" "r \<le> 1"
  shows "\<exists>s. generateLattice (CA_new cmp ds ls n r) = Some s \<and> ca_ok s \<and> stepno s = 0 \<and> msize s = n"
  using generateLattice_ok [of "CA_new cmp ds ls n r"] assms by (simp add: CA_new_def Let_def dims_ok_def)

definition all_counted :: "int \<Rightarrow> int \<times> int \<times> int \<Rightarrow> bool" where
  "all_counted n = (\<lambda>(healthy, infected, dead). healthy + infected + dead = n * n)"

lemma positions_number: "0 \<le> msize s \<Longrightarrow> int (length (positions s)) = msize s * msize s"
  by (simp add: positions_props(3))

lemma positions_few: "0 \<le> msize s \<Longrightarrow> msize s * msize s < 2 ^ 31 \<Longrightarrow> length (positions s) < 2 ^ 31"
  using positions_number [of s] by simp

lemma printed_counts:
  assumes "ca_ok s" "0 \<le> msize s" "msize s * msize s < 2 ^ 31"
  shows "all_counted (msize s) (printActualStatistic s)"
proof -
  have "stepno s < length (statistics s)" using assms(1) by (simp add: ca_ok_def)
  then have "statistics s ! stepno s \<in> set (statistics s)" by simp
  then obtain m where "statistics s ! stepno s = tally_of m (positions s)" using assms(1) unfolding ca_ok_def by blast
  from tally_counts(1) [OF this positions_few [OF assms(2,3)]] show ?thesis
    using positions_number [OF assms(2)] by (simp add: all_counted_def printActualStatistic_def Let_def)
qed

lemma run_steps_ok:
  "ca_ok s \<Longrightarrow> 0 \<le> msize s \<Longrightarrow> msize s * msize s < 2 ^ 31 \<Longrightarrow> \<exists>pr pics t. run_steps a i n s = Some (pr, pics, t) \<and> length pr = n \<and> list_all (all_counted (msize s)) pr
    \<and> ca_ok t \<and> msize t = msize s \<and> stepno t = stepno s + n"
proof (induction n arbitrary: i s)
  case (Suc n)
  from nextStep_ok [OF Suc.prems(1)] obtain s' where s': "nextStep s = Some s'" "ca_ok s'" "stepno s' = stepno s + 1" "msize s' = msize s"
    by blast
  from Suc.IH [of s' "i + 1"] s' Suc.prems(2,3) obtain pr pics t where
    r: "run_steps a (i + 1) n s' = Some (pr, pics, t)" "length pr = n" "list_all (all_counted (msize s)) pr" "ca_ok t" "msize t = msize s"
      "stepno t = stepno s + 1 + n"
    by auto
  then show ?case using printed_counts [of s'] s' Suc.prems(2,3) by simp
qed simp

lemma data_rows:
  assumes "ca_ok s" "0 \<le> msize s" "msize s * msize s < 2 ^ 31"
  shows "length (saveData s) = stepno s + 1" "list_all (\<lambda>row. sum_list row = msize s * msize s) (saveData s)"
proof -
  show "length (saveData s) = stepno s + 1" using assms(1) by (simp add: saveData_def ca_ok_def)
  have "(\<Sum>x\<leftarrow>all_states. sint (t x)) = msize s * msize s" if "t \<in> set (statistics s)" for t
  proof -
    from that assms(1) obtain m where "t = tally_of m (positions s)" unfolding ca_ok_def by blast
    from tally_counts(2) [OF this positions_few [OF assms(2,3)]] show ?thesis using positions_number [OF assms(2)] by simp
  qed
  then show "list_all (\<lambda>row. sum_list row = msize s * msize s) (saveData s)" by (auto simp: saveData_def list_all_iff)
qed

text \<open>
  C64. The counter of the infected cells is not: rule 2c does not count. The only cell becomes
  defective, and the counter, which rule 1c adds to the old numbers, still says that none has gone.
\<close>

theorem infected_counter_wrong:
  "map_option (\<lambda>s. ((statistics s ! 0) INFECTED_R, (statistics s ! 1) INFECTED_R, counter s INFECTED_R))
     (Option.bind (generateLattice (CA_new ratio_greater (\<lambda>n. if n < 2 \<or> odd n then 0 else 1) (\<lambda>n. 3) 1 (1 / 2))) nextStep)
   = Some (1, 0, 0)"
  by code_simp

text \<open>
  C31. For options that give a lattice of less than \<open>2^31\<close> cells, and less steps than the largest \<^verbatim>\<open>int\<close>, whatever the random numbers and the
  comparisons of ratios are, the simulation ends without a failed assertion; it
  prints one line for the first lattice and one for every step, in the file there is one row for each of
  them, and every line and every row counts each cell of the lattice exactly once.
\<close>

theorem every_cell_counted:
  assumes "ca_options strtod opts ca_args_new = Some a" "lattice a * lattice a < 2 ^ 31" "nsteps a < 2 ^ 31 - 1"
  shows "\<exists>printed pics data. ca_main cmp strtod ds ls opts = Some (printed, pics, data)
    \<and> length printed = nat (nsteps a) + 1 \<and> list_all (all_counted (lattice a)) printed
    \<and> (if dataName a = [] then data = None
       else \<exists>rows. data = Some rows \<and> length rows = nat (nsteps a) + 1
              \<and> list_all (\<lambda>row. sum_list row = lattice a * lattice a) rows)"
proof -
  have a: "3 \<le> lattice a" "0 \<le> rate a" "rate a \<le> 1"
    using ca_options_keep [OF assms(1)] by (simp_all add: ca_args_new_def)
  from first_lattice [OF a] obtain s where
    s: "generateLattice (CA_new cmp ds ls (lattice a) (rate a)) = Some s" "ca_ok s" "stepno s = 0" "msize s = lattice a" by blast
  from run_steps_ok [OF s(2), of a 1 "nat (nsteps a)"] a(1) s(3,4) assms(2) obtain pr pics t where
    r: "run_steps a 1 (nat (nsteps a)) s = Some (pr, pics, t)" "length pr = nat (nsteps a)" "list_all (all_counted (lattice a)) pr"
      "ca_ok t" "msize t = lattice a" "stepno t = nat (nsteps a)"
    by auto
  have "all_counted (lattice a) (printActualStatistic s)" using printed_counts [OF s(2)] s(4) a(1) assms(2) by simp
  then show ?thesis
    using data_rows [OF r(4)] r(5,6) a(1) assms(2) by (simp add: ca_main_def assms(1) s(1) r(1-3) [unfolded One_nat_def])
qed

theorem every_cell_counted_witness:
  "\<exists>printed pics data. ca_main ratio_greater (\<lambda>x. (1 / 2, [])) (\<lambda>n. if even n then 1 / 10000 else 1 / 2) (\<lambda>n. 3)
     [(CHR ''l'', [52]), (CHR ''s'', [50]), (CHR ''d'', [120])] = Some (printed, pics, data)
   \<and> length printed = 3 \<and> list_all (all_counted 4) printed"
proof -
  have "ca_options (\<lambda>x. (1 / 2, [])) [(CHR ''l'', [52]), (CHR ''s'', [50]), (CHR ''d'', [120])] ca_args_new
      = Some (ca_args_new\<lparr>lattice := 4, nsteps := 2, dataName := [120]\<rparr>)"
    by code_simp
  from every_cell_counted [OF this, of ratio_greater "\<lambda>n. if even n then 1 / 10000 else 1 / 2" "\<lambda>n. 3"] show ?thesis
    by (simp add: ca_args_new_def) blast
qed

text \<open>
  During a step the running counter of the healthy cells, from which rule 1c takes the ratio, is
  exact: after the step it is the difference between the new and the old number of the cells.
\<close>

theorem healthy_counter_exact:
  assumes "ca_options strtod opts ca_args_new = Some a" "generateLattice (CA_new cmp ds ls (lattice a) (rate a)) = Some s0"
    "steps n s0 = Some s" "nextStep s = Some s'" "x = HEALTHY_R \<or> x = HEALTHY_S"
  shows "counter s' x = (statistics s' ! stepno s') x - (statistics s' ! stepno s) x"
proof -
  have a: "3 \<le> lattice a" "0 \<le> rate a" "rate a \<le> 1"
    using ca_options_keep [OF assms(1)] by (simp_all add: ca_args_new_def)
  have ok0: "ca_ok s0" using first_lattice [OF a, of cmp ds ls] assms(2) by auto
  have "ca_ok u \<Longrightarrow> steps k u = Some v \<Longrightarrow> ca_ok v" for k u v
  proof (induction k arbitrary: u)
    case (Suc k)
    from nextStep_ok [OF Suc.prems(1)] obtain u' where "nextStep u = Some u'" "ca_ok u'" by blast
    then show ?case using Suc by simp
  qed simp
  from this [OF ok0 assms(3)] have ok: "ca_ok s" .
  from nextStep_ok [OF ok] assms(4,5) have
    n: "stepno s' = stepno s + 1" "counter s' x = last (statistics s') x - last (statistics s) x"
      "\<exists>m. statistics s' = statistics s @ [m]"
    by auto
  have l: "length (statistics s) = stepno s + 1" using ok by (simp add: ca_ok_def)
  then have "last (statistics s) = statistics s ! stepno s" by (metis Suc_eq_plus1 diff_Suc_1 last_conv_nth length_0_conv nat.distinct(1))
  then show ?thesis using n l by (auto simp: nth_append)
qed

theorem healthy_counter_exact_witness:
  "\<exists>s0 s'. generateLattice (CA_new ratio_greater (\<lambda>n. 1 / 10000) (\<lambda>n. 3) 3 (1 / 2)) = Some s0 \<and> nextStep s0 = Some s'
     \<and> counter s' HEALTHY_R = (statistics s' ! stepno s') HEALTHY_R - (statistics s' ! stepno s0) HEALTHY_R"
proof -
  define a where "a = ca_args_new\<lparr>lattice := 3, rate := 1 / 2\<rparr>"
  have o: "ca_options (\<lambda>x. (1 / 2, [])) [(CHR ''l'', [51]), (CHR ''r'', [48])] ca_args_new = Some a"
    unfolding a_def by code_simp
  have a: "lattice a = 3" "rate a = 1 / 2" by (simp_all add: a_def)
  from first_lattice [of 3 "1 / 2" ratio_greater "\<lambda>n. 1 / 10000" "\<lambda>n. 3"] obtain s0 where
    s0: "generateLattice (CA_new ratio_greater (\<lambda>n. 1 / 10000) (\<lambda>n. 3) 3 (1 / 2)) = Some s0" "ca_ok s0" by auto
  from nextStep_ok [OF s0(2)] obtain s' where s': "nextStep s0 = Some s'" by blast
  from healthy_counter_exact [OF o, unfolded a, OF s0(1), of 0 s0 s' HEALTHY_R] s' have
    "counter s' HEALTHY_R = (statistics s' ! stepno s') HEALTHY_R - (statistics s' ! stepno s0) HEALTHY_R" by simp
  with s0(1) s' show ?thesis by blast
qed

end
