(* ===== verification/Packets.thy ===== *)
theory Packets
  imports Http_Text
begin

text \<open>
  The packets of \<^verbatim>\<open>PDS\<close>: addresses as text and as numbers (\<^verbatim>\<open>common.cpp\<close>), the buffer of a
  packet (\<^verbatim>\<open>Packet.cpp\<close>), ARP packets (\<^verbatim>\<open>Arp.cpp\<close>) and ICMPv6 packets with their checksum
  (\<^verbatim>\<open>ICMPv6.cpp\<close>). A buffer is the list of its bytes; 16-bit words are read from memory
  with the lower byte first. \<^verbatim>\<open>inet_pton\<close> and \<^verbatim>\<open>inet_ntop\<close> are arguments. The theorems:
  a MAC address is read back from its text and from a packet, and a receiver accepts the checksums.
\<close>

section \<open>Addresses\<close>

text \<open>The digits with their separators, as the loops of \<^verbatim>\<open>getIP\<close> and \<^verbatim>\<open>getMAC\<close> write them.\<close>

definition getIP :: "byte list \<Rightarrow> string" where
  "getIP ip = concat (map (\<lambda>i. (if i \<noteq> 0 then ''.'' else []) @ to_dec_string (unat (ip ! i))) [0..<4])"

definition hex2 :: "byte \<Rightarrow> string" where
  "hex2 b = (let t = to_hex_string (unat b) in replicate (2 - length t) (CHR ''0'') @ t)"

definition getMAC :: "byte list \<Rightarrow> string" where
  "getMAC mac = concat (map (\<lambda>i. (if i \<noteq> 0 \<and> i mod 2 = 0 then ''.'' else []) @ hex2 (mac ! i)) [0..<6])"

text \<open>The result of \<^verbatim>\<open>IPToBin\<close> and the bytes it writes.\<close>

definition IPToBin :: "(string \<Rightarrow> byte list option) \<Rightarrow> (string \<Rightarrow> byte list option) \<Rightarrow> string \<Rightarrow> nat \<times> byte list" where
  "IPToBin pton4 pton6 ip =
     (case pton4 ip of Some b \<Rightarrow> (1, take 4 b)
      | None \<Rightarrow> (case pton6 ip of Some b \<Rightarrow> (2, take 16 b) | None \<Rightarrow> (0, [])))"

text \<open>\<^verbatim>\<open>strtol\<close> in base 16, and \<^verbatim>\<open>substr\<close>, which throws when it begins outside the string.\<close>

definition strtol16 :: "string \<Rightarrow> int" where
  "strtol16 s =
     (let t = dropWhile isspace s;
          neg = (t \<noteq> [] \<and> hd t = CHR ''-'');
          u = (if t \<noteq> [] \<and> (hd t = CHR ''-'' \<or> hd t = CHR ''+'') then tl t else t)
      in case leading 16 (hex_prefix u) of
           None \<Rightarrow> 0
         | Some v \<Rightarrow> max (- (2 ^ 63)) (min (2 ^ 63 - 1) (if neg then - int v else int v)))"

definition substr :: "string \<Rightarrow> nat \<Rightarrow> nat \<Rightarrow> string option" where
  "substr s pos n = (if pos \<le> length s then Some (take n (drop pos s)) else None)"

definition mac_byte :: "string \<Rightarrow> nat \<Rightarrow> byte option" where
  "mac_byte mac pos = map_option (\<lambda>t. of_int (strtol16 t)) (substr mac pos 2)"

definition MACtoBin :: "string \<Rightarrow> byte list option" where
  "MACtoBin mac = those (map (mac_byte mac) [0, 2, 5, 7, 10, 12])"

definition MacBinToInt :: "byte list \<Rightarrow> u64" where
  "MacBinToInt mac =
     push_bit 40 (ucast (mac ! 0)) OR push_bit 32 (ucast (mac ! 1)) OR push_bit 24 (ucast (mac ! 2))
     OR push_bit 16 (ucast (mac ! 3)) OR push_bit 8 (ucast (mac ! 4)) OR ucast (mac ! 5)"

definition MACToInt :: "string \<Rightarrow> u64 option" where
  "MACToInt mac = map_option MacBinToInt (MACtoBin mac)"

section \<open>The buffer of a packet\<close>

type_synonym eth_frame = "byte list"

definition Packet_modify :: "byte list \<Rightarrow> nat \<Rightarrow> eth_frame" where
  "Packet_modify d len = take len d"

text \<open>\<open>None\<close> is an access outside the buffer.\<close>

definition getIPProtocol :: "eth_frame \<Rightarrow> nat option" where
  "getIPProtocol b = do {
     hi \<leftarrow> vec_at b 12;
     lo \<leftarrow> vec_at b 13;
     let type = be16 hi lo;
     Some (if type = 0x0800 then 1 else if type = 0x86DD then 2 else 0) }"

definition setDstMac :: "u64 \<Rightarrow> eth_frame \<Rightarrow> eth_frame option" where
  "setDstMac mac b =
     (if 6 \<le> length b then Some (map (\<lambda>k. ucast (drop_bit k mac)) [40, 32, 24, 16, 8, 0] @ drop 6 b) else None)"

definition setSrcMac :: "byte list \<Rightarrow> eth_frame \<Rightarrow> eth_frame option" where
  "setSrcMac mac b =
     (if 12 \<le> length b then Some (take 6 b @ map (\<lambda>i. mac ! i) [0..<6] @ drop 12 b) else None)"

definition getSrcIP :: "eth_frame \<Rightarrow> string option" where
  "getSrcIP b = map_option getIP (vec_slice b (14 + 12) 4)"

definition getDstMac :: "eth_frame \<Rightarrow> u64 option" where
  "getDstMac b = map_option MacBinToInt (vec_slice b 0 6)"

definition getSrcMac :: "eth_frame \<Rightarrow> byte list option" where
  "getSrcMac b = vec_slice b 6 6"

definition getSrcIPv6 :: "eth_frame \<Rightarrow> byte list option" where
  "getSrcIPv6 b = vec_slice b (14 + 8) 16"

section \<open>ARP\<close>

definition mac_len :: nat where "mac_len = 6"
definition ipv4_len :: nat where "ipv4_len = 4"

text \<open>The numbers of the header are kept in host order; \<open>be_bytes\<close> is \<^verbatim>\<open>htons\<close> in memory.\<close>

record Arp =
  hw_type :: u16
  protocol_type :: u16
  hw_address_len :: byte
  protocol_address_len :: byte
  op_code :: u16
  src_hw :: "byte list"
  src_protocol :: "byte list"
  dst_hw :: "byte list"
  dst_protocol :: "byte list"
  arp_buffer :: eth_frame

definition be_bytes :: "u16 \<Rightarrow> byte list" where
  "be_bytes w = [ucast (drop_bit 8 w), ucast w]"

text \<open>The addresses are not initialised by the constructor; zeros stand for what is there.\<close>

definition Arp_new :: Arp where
  "Arp_new = \<lparr>hw_type = 1, protocol_type = 0x0800, hw_address_len = of_nat mac_len, protocol_address_len = of_nat ipv4_len,
     op_code = 1, src_hw = replicate 6 0, src_protocol = replicate 4 0, dst_hw = replicate 6 0, dst_protocol = replicate 4 0,
     arp_buffer = []\<rparr>"

definition arp_header_bytes :: "Arp \<Rightarrow> byte list" where
  "arp_header_bytes a = be_bytes (hw_type a) @ be_bytes (protocol_type a) @ [hw_address_len a, protocol_address_len a]
     @ be_bytes (op_code a) @ src_hw a @ src_protocol a @ dst_hw a @ dst_protocol a"

definition Arp_fillBuffer :: "Arp \<Rightarrow> Arp" where
  "Arp_fillBuffer a =
     a\<lparr>arp_buffer := take (unat (hw_address_len a)) (dst_hw a) @ take (unat (hw_address_len a)) (src_hw a)
         @ [0x08, 0x06] @ arp_header_bytes a\<rparr>"

definition arp_request :: "byte list \<Rightarrow> byte list \<Rightarrow> byte list \<Rightarrow> Arp \<Rightarrow> Arp" where
  "arp_request src_ip src_mac dst_ip a =
     Arp_fillBuffer (a\<lparr>op_code := 1, src_protocol := take ipv4_len src_ip, dst_protocol := take ipv4_len dst_ip,
       src_hw := take mac_len src_mac, dst_hw := replicate mac_len 0xFF\<rparr>)"

definition arp_reply :: "byte list \<Rightarrow> byte list \<Rightarrow> byte list \<Rightarrow> byte list \<Rightarrow> Arp \<Rightarrow> Arp" where
  "arp_reply src_ip src_mac dst_ip dst_mac a =
     Arp_fillBuffer (a\<lparr>op_code := 2, src_protocol := take ipv4_len src_ip, dst_protocol := take ipv4_len dst_ip,
       src_hw := take mac_len src_mac, dst_hw := take mac_len dst_mac\<rparr>)"

definition setDstIP :: "byte list \<Rightarrow> Arp \<Rightarrow> Arp" where
  "setDstIP ip a =
     (let p = 2 * unat (hw_address_len a) + 2 + 8 + 2 * mac_len + ipv4_len
      in a\<lparr>dst_protocol := take ipv4_len ip,
           arp_buffer := take p (arp_buffer a) @ take ipv4_len ip @ drop (p + ipv4_len) (arp_buffer a)\<rparr>)"

definition Arp_modifySrcMac :: "byte list \<Rightarrow> Arp \<Rightarrow> Arp" where
  "Arp_modifySrcMac mac a = Arp_fillBuffer (a\<lparr>src_hw := take mac_len mac\<rparr>)"

section \<open>ICMPv6\<close>

definition le16 :: "byte \<Rightarrow> byte \<Rightarrow> u16" where
  "le16 lo hi = push_bit 8 (ucast hi) OR ucast lo"

fun sum_words :: "byte list \<Rightarrow> u32 \<Rightarrow> u32" where
  "sum_words (a # b # s) acc = sum_words s (acc + ucast (le16 a b))"
| "sum_words [a] acc = acc + ucast a"
| "sum_words [] acc = acc"

lemma fold_smaller:
  assumes "drop_bit 16 (s :: u32) \<noteq> 0"
  shows "unat ((s AND 0xFFFF) + drop_bit 16 s) = unat s mod 65536 + unat s div 65536"
    "unat s mod 65536 + unat s div 65536 < unat s"
proof -
  have a: "unat (s AND 0xFFFF) = unat s mod 65536"
  proof -
    have "s AND 0xFFFF = take_bit 16 s" by (simp add: take_bit_eq_mask mask_eq_exp_minus_1)
    then show ?thesis by (simp only: unsigned_take_bit_eq) (simp add: take_bit_eq_mod)
  qed
  have d: "unat (drop_bit 16 s) = unat s div 65536" by (simp add: drop_bit_eq_div unat_div_distrib)
  have l: "unat s < 2 ^ 32" using unsigned_less [of s] by simp
  then have "unat s mod 65536 + unat s div 65536 < 2 ^ 32" by simp
  then show "unat ((s AND 0xFFFF) + drop_bit 16 s) = unat s mod 65536 + unat s div 65536"
    by (simp add: unat_word_ariths a d)
  have "unat s div 65536 \<noteq> 0" using assms d by (metis unsigned_0 unsigned_word_eqI)
  moreover have "unat s div 65536 * 65536 + unat s mod 65536 = unat s" by (rule div_mult_mod_eq)
  ultimately show "unat s mod 65536 + unat s div 65536 < unat s" by linarith
qed

function fold16 :: "u32 \<Rightarrow> u32" where
  "fold16 s = (if drop_bit 16 s \<noteq> 0 then fold16 ((s AND 0xFFFF) + drop_bit 16 s) else s)"
  by auto

termination
  by (relation "measure unat") (use fold_smaller in auto)

declare fold16.simps [simp del]

definition checksum :: "byte list \<Rightarrow> u16" where
  "checksum bs = ucast (NOT (fold16 (sum_words bs 0)))"

record ICMPv6 =
  ether_dhost :: "byte list"
  ether_shost :: "byte list"
  ip6_flow :: "byte list"
  ip6_plen :: u16
  ip6_nxt :: byte
  ip6_hops :: byte
  ip6_src :: "byte list"
  ip6_dst :: "byte list"
  icmp6_cksum :: u16
  icmpBuffer :: "byte list"
  na_cksum :: u16
  na_target :: "byte list"
  icmp_buffer :: eth_frame

definition ICMPv6_new :: ICMPv6 where
  "ICMPv6_new = \<lparr>ether_dhost = [], ether_shost = [], ip6_flow = [], ip6_plen = 0, ip6_nxt = 0, ip6_hops = 0, ip6_src = [], ip6_dst = [],
     icmp6_cksum = 0, icmpBuffer = [], na_cksum = 0, na_target = [], icmp_buffer = []\<rparr>"

definition fillEthHeader :: "byte list \<Rightarrow> byte list \<Rightarrow> ICMPv6 \<Rightarrow> ICMPv6" where
  "fillEthHeader src_mac dst_mac p = p\<lparr>ether_dhost := take 6 dst_mac, ether_shost := take 6 src_mac\<rparr>"

text \<open>\<open>None\<close> is the exception for an address that cannot be read.\<close>

definition fillIP6Header :: "(string \<Rightarrow> byte list option) \<Rightarrow> string \<Rightarrow> string \<Rightarrow> ICMPv6 \<Rightarrow> ICMPv6 option" where
  "fillIP6Header pton6 src_ip dst_ip p = do {
     src \<leftarrow> pton6 src_ip;
     dst \<leftarrow> pton6 dst_ip;
     Some (p\<lparr>ip6_flow := [0x60, 0, 0, 0], ip6_plen := 16, ip6_nxt := 58, ip6_hops := 255, ip6_src := src, ip6_dst := dst\<rparr>) }"

definition eth_bytes :: "ICMPv6 \<Rightarrow> byte list" where
  "eth_bytes p = ether_dhost p @ ether_shost p @ [0x86, 0xDD]"

definition ip6_bytes :: "ICMPv6 \<Rightarrow> byte list" where
  "ip6_bytes p = ip6_flow p @ be_bytes (ip6_plen p) @ [ip6_nxt p, ip6_hops p] @ ip6_src p @ ip6_dst p"

text \<open>The two headers; the checksum lies in memory with the lower byte first.\<close>

definition le_bytes :: "u16 \<Rightarrow> byte list" where
  "le_bytes w = [ucast w, ucast (drop_bit 8 w)]"

definition icmp6_bytes :: "ICMPv6 \<Rightarrow> byte list" where
  "icmp6_bytes p = [128, 0] @ le_bytes (icmp6_cksum p) @ be_bytes 42 @ be_bytes 0"

definition na_bytes :: "ICMPv6 \<Rightarrow> byte list" where
  "na_bytes p = [136, 0] @ le_bytes (na_cksum p) @ [0x20, 0, 0, 0] @ na_target p"

definition na_opt_bytes :: "byte list" where
  "na_opt_bytes = [2, 1]"

definition padded :: "byte list \<Rightarrow> byte list" where
  "padded bs = (if length bs mod 2 = 1 then bs @ [0] else bs)"

definition checkSum :: "ICMPv6 \<Rightarrow> u16" where
  "checkSum p =
     (let n = 8 + length (icmpBuffer p)
      in checksum (padded (ip6_src p @ ip6_dst p @ [of_nat (n div 256), of_nat (n mod 256)] @ [0, 0, 0] @ [ip6_nxt p]
           @ icmp6_bytes p @ icmpBuffer p)))"

definition checkSumND :: "ICMPv6 \<Rightarrow> u16" where
  "checkSumND p =
     checksum (padded (ip6_src p @ ip6_dst p @ [of_nat ((24 + 8) div 256), of_nat ((24 + 8) mod 256)] @ [0, 0, 0] @ [58]
       @ na_bytes p @ na_opt_bytes @ ether_shost p))"

definition fillICMPEchoHeader :: "ICMPv6 \<Rightarrow> ICMPv6" where
  "fillICMPEchoHeader p =
     (let p1 = p\<lparr>icmpBuffer := [0xcd, 0x25, 0xcd, 0x25, 0xcd, 0x25, 0xcd, 0x25], icmp6_cksum := 0\<rparr>
      in p1\<lparr>icmp6_cksum := checkSum p1\<rparr>)"

definition fillNDAHeader :: "ICMPv6 \<Rightarrow> ICMPv6" where
  "fillNDAHeader p =
     (let p1 = p\<lparr>na_cksum := 0, na_target := ip6_src p\<rparr>
      in p1\<lparr>na_cksum := checkSumND p1\<rparr>)"

definition ICMPv6_fillBuffer :: "ICMPv6 \<Rightarrow> ICMPv6" where
  "ICMPv6_fillBuffer p = p\<lparr>icmp_buffer := eth_bytes p @ ip6_bytes p @ icmp6_bytes p @ icmpBuffer p\<rparr>"

definition echoRequest :: "(string \<Rightarrow> byte list option) \<Rightarrow> byte list \<Rightarrow> string \<Rightarrow> ICMPv6 \<Rightarrow> ICMPv6 option" where
  "echoRequest pton6 src_mac src_ip p =
     map_option (\<lambda>p. ICMPv6_fillBuffer (fillICMPEchoHeader p))
       (fillIP6Header pton6 src_ip ''ff02::1'' (fillEthHeader src_mac [0x33, 0x33, 0x00, 0x00, 0x00, 0x01] p))"

definition naAdvert ::
    "(string \<Rightarrow> byte list option) \<Rightarrow> byte list \<Rightarrow> string \<Rightarrow> byte list \<Rightarrow> string \<Rightarrow> ICMPv6 \<Rightarrow> ICMPv6 option" where
  "naAdvert pton6 src_mac src_ip dst_mac dst_ip p = do {
     p1 \<leftarrow> fillIP6Header pton6 src_ip dst_ip (fillEthHeader src_mac dst_mac p);
     let p2 = fillNDAHeader (p1\<lparr>ip6_plen := 32\<rparr>);
     Some (p2\<lparr>icmp_buffer := eth_bytes p2 @ ip6_bytes p2 @ na_bytes p2 @ na_opt_bytes @ take 6 src_mac\<rparr>) }"

definition ICMPv6_modifySrcMac ::
    "(string \<Rightarrow> byte list option) \<Rightarrow> (byte list \<Rightarrow> string) \<Rightarrow> byte list \<Rightarrow> ICMPv6 \<Rightarrow> ICMPv6 option" where
  "ICMPv6_modifySrcMac pton6 ntop6 mac p = naAdvert pton6 mac (ntop6 (ip6_src p)) (icmp_buffer p) (ntop6 (ip6_dst p)) p"

section \<open>The checksum is accepted\<close>

text \<open>The sum of the words as a natural number; a receiver adds them up in the same way.\<close>

fun word_sum :: "byte list \<Rightarrow> nat" where
  "word_sum (a # b # s) = unat a + 256 * unat b + word_sum s"
| "word_sum [a] = unat a"
| "word_sum [] = 0"

lemma unat_ucast_wide: "unat (ucast (a :: byte) :: u16) = unat a" "unat (ucast a :: u32) = unat a"
proof -
  have "unat a < 2 ^ 16" "unat a < 2 ^ 32" by (rule less_trans [OF unat_byte_less], simp)+
  then show "unat (ucast a :: u16) = unat a" "unat (ucast a :: u32) = unat a"
    by (simp_all add: unsigned_ucast_eq take_bit_nat_eq_self)
qed

lemma unat_le16: "unat (le16 a b) = unat a + 256 * unat b"
proof -
  have "push_bit 8 (ucast b :: u16) AND ucast a = 0"
    by (rule bit_word_eqI) (auto simp: bit_and_iff bit_push_bit_iff bit_ucast_iff dest: bit_imp_le_length)
  then have "le16 a b = push_bit 8 (ucast b) + ucast a"
    unfolding le16_def by (rule disjunctive_add_eq_or [symmetric])
  moreover have "unat (push_bit 8 (ucast b :: u16)) = 256 * unat b"
  proof -
    have "256 * unat b < 65536" using unat_byte_less [of b] by linarith
    then show ?thesis by (simp add: push_bit_eq_mult unat_word_ariths unat_ucast_wide mult.commute)
  qed
  moreover have "unat a + 256 * unat b < 65536" using unat_byte_less [of a] unat_byte_less [of b] by linarith
  ultimately show ?thesis by (simp add: unat_word_ariths unat_ucast_wide)
qed

lemma word_sum_bound: "word_sum bs \<le> 65535 * length bs"
proof (induction bs rule: word_sum.induct)
  case (1 a b s)
  have "unat a + 256 * unat b \<le> 65535 * 2" using unat_byte_less [of a] unat_byte_less [of b] by linarith
  then show ?case using 1 by simp
next
  case (2 a)
  have "unat a \<le> 65535" using unat_byte_less [of a] by linarith
  then show ?case by simp
qed simp

lemma sum_words_nat:
  "unat acc + word_sum bs < 2 ^ 32 \<Longrightarrow> unat (sum_words bs acc) = unat acc + word_sum bs"
proof (induction bs acc rule: sum_words.induct)
  case (1 a b s acc)
  have u: "unat (ucast (le16 a b) :: u32) = unat a + 256 * unat b"
  proof -
    have "unat (le16 a b) < 2 ^ 32" using unsigned_less [of "le16 a b", where 'a = nat] by simp
    then show ?thesis by (simp add: unsigned_ucast_eq take_bit_nat_eq_self unat_le16)
  qed
  have "unat (acc + ucast (le16 a b)) = unat acc + (unat a + 256 * unat b)"
    using 1(2) u by (simp add: unat_word_ariths)
  then show ?case using 1 by simp
next
  case (2 a acc)
  then show ?case by (simp add: unat_word_ariths unat_ucast_wide)
qed simp

lemma fold16_nat:
  "unat (fold16 s) < 65536 \<and> unat (fold16 s) mod 65535 = unat s mod 65535 \<and> (unat (fold16 s) = 0 \<longleftrightarrow> unat s = 0)"
proof (induction s rule: fold16.induct)
  case (1 s)
  show ?case
  proof (cases "drop_bit 16 s \<noteq> 0")
    case True
    define t where "t = (s AND 0xFFFF) + drop_bit 16 s"
    have t: "unat t = unat s mod 65536 + unat s div 65536" unfolding t_def by (rule fold_smaller(1) [OF True])
    have e: "unat s = unat s mod 65536 + 65536 * (unat s div 65536)" by simp
    have "unat s = (unat s mod 65536 + unat s div 65536) + 65535 * (unat s div 65536)" using e by linarith
    then have "unat s mod 65535 = (unat s mod 65536 + unat s div 65536) mod 65535" by (metis mod_mult_self2)
    then have m: "unat t mod 65535 = unat s mod 65535" unfolding t by simp
    have z: "unat t = 0 \<longleftrightarrow> unat s = 0" unfolding t using e by linarith
    show ?thesis using 1 [OF True, folded t_def] m z True by (simp add: fold16.simps [of s] t_def [symmetric])
  next
    case False
    have "unat (drop_bit 16 s) = unat s div 65536" by (simp add: drop_bit_eq_div unat_div_distrib)
    then have "unat s < 65536" using False by simp
    then show ?thesis using False by (simp add: fold16.simps [of s])
  qed
qed

lemma unat_not16: "unat (NOT w :: u16) = 65535 - unat w"
proof -
  have "NOT w = - 1 - w" by (simp add: not_eq_complement)
  moreover have "unat (- 1 - w) = unat (- 1 :: u16) - unat w" by (rule unat_sub) simp
  ultimately show ?thesis by (simp add: unsigned_minus_1_eq_mask mask_eq_exp_minus_1)
qed

lemma checksum_nat:
  assumes "length bs \<le> 65535"
  shows "unat (checksum bs) = 65535 - unat (fold16 (sum_words bs 0))" "unat (sum_words bs 0) = word_sum bs"
proof -
  have "word_sum bs < 2 ^ 32" using word_sum_bound [of bs] assms by simp
  then show "unat (sum_words bs 0) = word_sum bs" using sum_words_nat [of 0 bs] by simp
  define f where "f = fold16 (sum_words bs 0)"
  have f: "unat f < 65536" using fold16_nat unfolding f_def by blast
  have "(ucast (NOT f) :: u16) = NOT (ucast f)"
    by (rule bit_word_eqI) (simp add: bit_ucast_iff bit_not_iff)
  moreover have "unat (ucast f :: u16) = unat f" using f by (simp add: unsigned_ucast_eq take_bit_nat_eq_self)
  ultimately show "unat (checksum bs) = 65535 - unat (fold16 (sum_words bs 0))"
    unfolding checksum_def f_def [symmetric] by (simp add: unat_not16)
qed

lemma word_sum_append: "even (length xs) \<Longrightarrow> word_sum (xs @ ys) = word_sum xs + word_sum ys"
  by (induction xs rule: word_sum.induct) simp_all

lemma word_sum_le_bytes: "word_sum (le_bytes c) = unat c"
proof -
  have "le16 (ucast c) (ucast (drop_bit 8 c)) = c"
    unfolding le16_def by (rule bit_word_eqI)
      (auto simp: bit_or_iff bit_push_bit_iff bit_ucast_iff bit_drop_bit_eq dest: bit_imp_le_length)
  then show ?thesis using unat_le16 [of "ucast c" "ucast (drop_bit 8 c)"] by (simp add: le_bytes_def)
qed

text \<open>The sum in ones' complement of the words a receiver adds up has all bits set.\<close>

definition sum_accepted :: "byte list \<Rightarrow> bool" where
  "sum_accepted bs \<longleftrightarrow> 0 < word_sum bs \<and> word_sum bs mod 65535 = 0"

lemma accepted_arith:
  fixes S f :: nat
  assumes "f < 65536" "f mod 65535 = S mod 65535" "f = 0 \<longleftrightarrow> S = 0"
  shows "0 < S + (65535 - f)" "(S + (65535 - f)) mod 65535 = 0"
proof -
  show "0 < S + (65535 - f)" using assms by (cases "S = 0") simp_all
  show "(S + (65535 - f)) mod 65535 = 0"
  proof (cases "f = 65535")
    case True
    then show ?thesis using assms(2) by simp
  next
    case False
    then have f: "f = S mod 65535" using assms(1,2) by simp
    then have "S + (65535 - f) = 65535 * (S div 65535) + 65535"
      using mult_div_mod_eq [of 65535 S] False assms(1) by linarith
    then show ?thesis by simp
  qed
qed

lemma checksum_accepted:
  assumes "even (length a)" "length (a @ le_bytes 0 @ b) \<le> 65535"
  shows "sum_accepted (a @ le_bytes (checksum (a @ le_bytes 0 @ b)) @ b)"
proof -
  define S where "S = word_sum (a @ le_bytes 0 @ b)"
  define f where "f = unat (fold16 (sum_words (a @ le_bytes 0 @ b) 0))"
  have even: "even (length (le_bytes c))" for c by (simp add: le_bytes_def)
  have S: "word_sum (a @ le_bytes c @ b) = S + unat c" for c
    unfolding S_def using assms(1) even by (simp add: word_sum_append word_sum_le_bytes)
  have "f < 65536" "f mod 65535 = S mod 65535" "f = 0 \<longleftrightarrow> S = 0"
    using fold16_nat [of "sum_words (a @ le_bytes 0 @ b) 0"] checksum_nat(2) [OF assms(2)]
    unfolding f_def S_def by simp_all
  from accepted_arith [OF this] show ?thesis
    unfolding sum_accepted_def S checksum_nat(1) [OF assms(2)] f_def [symmetric] by simp
qed

text \<open>What a receiver does with a frame: the length must fit, and the sum over the pseudo header and the message be accepted.\<close>

definition icmpv6_accepted :: "eth_frame \<Rightarrow> bool" where
  "icmpv6_accepted b \<longleftrightarrow>
     (let h = drop 14 b; plen = be16 (h ! 4) (h ! 5); msg = drop 40 h
      in take 2 (drop 12 b) = [0x86, 0xDD] \<and> length msg = unat plen
         \<and> sum_accepted (take 16 (drop 8 h) @ take 16 (drop 24 h) @ [0, 0] @ be_bytes plen @ [0, 0, 0, 58] @ msg))"

lemma pseudo_header:
  assumes "even (length (src @ dst))"
  shows "sum_accepted (src @ dst @ [0, 0] @ [0, n] @ [0, 0, 0, 58] @ msg) = sum_accepted (src @ dst @ [0, n] @ [0, 0, 0] @ [58] @ msg)"
proof -
  have "word_sum ((src @ dst) @ [0, 0] @ [0, n] @ [0, 0, 0, 58] @ msg) = word_sum ((src @ dst) @ [0, n] @ [0, 0, 0] @ [58] @ msg)"
    using assms by (simp only: word_sum_append) simp
  then show ?thesis by (simp add: sum_accepted_def)
qed

lemma frame_accepted:
  assumes "length eth = 12" "length src = 16" "length dst = 16" "length msg = unat n" "n < 128"
    and "sum_accepted (src @ dst @ [0, n] @ [0, 0, 0] @ [58] @ msg)"
  shows "icmpv6_accepted (eth @ [0x86, 0xDD] @ [0x60, 0, 0, 0] @ [0, n] @ [58, 255] @ src @ dst @ msg)"
proof -
  have n: "be16 0 n = ucast n" "be_bytes (ucast n) = [0, n]" "unat (ucast n :: u16) = unat n"
  proof -
    show "be16 0 n = ucast n" by (simp add: be16_def)
    show "unat (ucast n :: u16) = unat n" by (rule unat_ucast_wide)
    have "drop_bit 8 (ucast n :: u16) = 0"
      by (rule bit_word_eqI) (auto simp: bit_drop_bit_eq bit_ucast_iff dest: bit_imp_le_length)
    moreover have "ucast (ucast n :: u16) = n"
      by (rule bit_word_eqI) (auto simp: bit_ucast_iff dest: bit_imp_le_length)
    ultimately show "be_bytes (ucast n) = [0, n]" by (simp add: be_bytes_def)
  qed
  show ?thesis
    using assms(1-4) pseudo_header [of src dst n msg] assms(6) by (simp add: icmpv6_accepted_def n nth_append)
qed

text \<open>A message whose checksum was computed over it with the checksum bytes zero.\<close>

lemma message_accepted:
  fixes ty :: byte
  assumes "length eth = 12" "length src = 16" "length dst = 16" "n < 128" "length rest + 4 = unat n" "even (length rest)"
  defines "c \<equiv> checksum (padded (src @ dst @ [0, n] @ [0, 0, 0] @ [58] @ [ty, 0] @ le_bytes 0 @ rest))"
  shows "icmpv6_accepted (eth @ [0x86, 0xDD] @ [0x60, 0, 0, 0] @ [0, n] @ [58, 255] @ src @ dst @ [ty, 0] @ le_bytes c @ rest)"
proof (rule frame_accepted)
  have n: "unat n < 256" by simp
  show "length eth = 12" "length src = 16" "length dst = 16" "n < 128" by fact+
  have le: "length (le_bytes w) = 2" for w by (simp add: le_bytes_def)
  show "length ([ty, 0] @ le_bytes c @ rest) = unat n" using assms(5) by (simp add: le)
  let ?a = "src @ dst @ [0, n] @ [0, 0, 0] @ [58] @ [ty, 0]"
  have p: "padded (src @ dst @ [0, n] @ [0, 0, 0] @ [58] @ [ty, 0] @ le_bytes 0 @ rest) = ?a @ le_bytes 0 @ rest"
    using assms(2,3,6) by (auto simp: padded_def le even_iff_mod_2_eq_zero)
  have "sum_accepted (?a @ le_bytes (checksum (?a @ le_bytes 0 @ rest)) @ rest)"
    using assms(2,3,5) n by (intro checksum_accepted) (simp_all add: le del: unat_byte_less)
  then show "sum_accepted (src @ dst @ [0, n] @ [0, 0, 0] @ [58] @ [ty, 0] @ le_bytes c @ rest)"
    unfolding c_def p by simp
qed

lemma be_bytes_small: "be_bytes 16 = [0, 16]" "be_bytes 32 = [0, 32]" "be_bytes 42 = [0, 42]" "be_bytes 0 = [0, 0]"
  by (simp_all add: be_bytes_def)

text \<open>
  C26. Both packets that the program builds, the echo request and the neighbour advertisement, are accepted by a
  receiver: the length in the header is the length of the message, and the checksum fits the pseudo header.
\<close>

theorem icmpv6_packets_accepted:
  assumes pton: "\<And>t a. pton6 t = Some a \<Longrightarrow> length a = 16" and mac: "length src_mac = 6" "6 \<le> length dst_mac"
    and "echoRequest pton6 src_mac src_ip p = Some q \<or> naAdvert pton6 src_mac src_ip dst_mac dst_ip p = Some q"
  shows "icmpv6_accepted (icmp_buffer q)"
  using assms(4)
proof
  assume "echoRequest pton6 src_mac src_ip p = Some q"
  then obtain src dst where a: "pton6 src_ip = Some src" "pton6 ''ff02::1'' = Some dst"
    and q: "q = ICMPv6_fillBuffer (fillICMPEchoHeader ((fillEthHeader src_mac [0x33, 0x33, 0x00, 0x00, 0x00, 0x01] p)
      \<lparr>ip6_flow := [0x60, 0, 0, 0], ip6_plen := 16, ip6_nxt := 58, ip6_hops := 255, ip6_src := src, ip6_dst := dst\<rparr>))"
    by (auto simp: echoRequest_def fillIP6Header_def bind_eq_Some_conv)
  let ?rest = "[0, 42, 0, 0, 0xcd, 0x25, 0xcd, 0x25, 0xcd, 0x25, 0xcd, 0x25] :: byte list"
  have "icmpv6_accepted (([0x33, 0x33, 0x00, 0x00, 0x00, 0x01] @ src_mac) @ [0x86, 0xDD] @ [0x60, 0, 0, 0] @ [0, 16] @ [58, 255] @ src @ dst @ [128, 0]
      @ le_bytes (checksum (padded (src @ dst @ [0, 16] @ [0, 0, 0] @ [58] @ [128, 0] @ le_bytes 0 @ ?rest))) @ ?rest)"
    by (rule message_accepted) (use pton [OF a(1)] pton [OF a(2)] mac in simp_all)
  then show ?thesis
    unfolding q using mac
    by (simp add: ICMPv6_fillBuffer_def fillICMPEchoHeader_def Let_def fillEthHeader_def eth_bytes_def ip6_bytes_def icmp6_bytes_def
        checkSum_def be_bytes_small)
next
  assume "naAdvert pton6 src_mac src_ip dst_mac dst_ip p = Some q"
  then obtain src dst where a: "pton6 src_ip = Some src" "pton6 dst_ip = Some dst"
    and q: "q = (let p2 = fillNDAHeader ((fillEthHeader src_mac dst_mac p)
        \<lparr>ip6_flow := [0x60, 0, 0, 0], ip6_nxt := 58, ip6_hops := 255, ip6_src := src, ip6_dst := dst, ip6_plen := 32\<rparr>)
      in p2\<lparr>icmp_buffer := eth_bytes p2 @ ip6_bytes p2 @ na_bytes p2 @ na_opt_bytes @ take 6 src_mac\<rparr>)"
    by (auto simp: naAdvert_def fillIP6Header_def bind_eq_Some_conv Let_def)
  let ?rest = "[0x20, 0, 0, 0] @ src @ [2, 1] @ src_mac"
  have "icmpv6_accepted ((take 6 dst_mac @ src_mac) @ [0x86, 0xDD] @ [0x60, 0, 0, 0] @ [0, 32] @ [58, 255] @ src @ dst @ [136, 0]
      @ le_bytes (checksum (padded (src @ dst @ [0, 32] @ [0, 0, 0] @ [58] @ [136, 0] @ le_bytes 0 @ ?rest))) @ ?rest)"
    by (rule message_accepted) (use pton [OF a(1)] pton [OF a(2)] mac in simp_all)
  then show ?thesis
    unfolding q using mac
    by (simp add: Let_def fillNDAHeader_def fillEthHeader_def eth_bytes_def ip6_bytes_def na_bytes_def na_opt_bytes_def
        checkSumND_def be_bytes_small)
qed

theorem icmpv6_packets_accepted_witness:
  "\<exists>q. echoRequest (\<lambda>t. Some (replicate 16 (of_nat (length t)))) [1, 2, 3, 4, 5, 6] ''fe80::1'' ICMPv6_new = Some q
     \<and> icmpv6_accepted (icmp_buffer q)"
proof -
  let ?pton = "\<lambda>t :: string. Some (replicate 16 (of_nat (length t) :: byte))"
  obtain q where q: "echoRequest ?pton [1, 2, 3, 4, 5, 6] ''fe80::1'' ICMPv6_new = Some q"
    by (simp add: echoRequest_def fillIP6Header_def)
  have "icmpv6_accepted (icmp_buffer q)"
    by (rule icmpv6_packets_accepted [of ?pton "[1, 2, 3, 4, 5, 6]" "replicate 6 0" "''fe80::1''" ICMPv6_new]) (use q in auto)
  then show ?thesis using q by blast
qed

section \<open>Addresses are read back\<close>

lemma hex2_digits: "hex2 b = [hex_digits ! (unat b div 16), hex_digits ! (unat b mod 16)]"
proof -
  have "unat b < 256" by (rule unat_byte_less)
  moreover have "hex_digits ! 0 = CHR ''0''" by (simp add: hex_digits_def)
  ultimately show ?thesis
    by (auto simp: hex2_def to_hex_string_def show_base.simps [of 16 "unat b"] show_base.simps [of 16 "unat b div 16"] Let_def
        numeral_2_eq_2 simp del: unat_byte_less)
qed

lemma hex2_read: "strtol16 (hex2 b) = int (unat b)"
proof -
  let ?h = "unat b div 16" and ?l = "unat b mod 16"
  have k: "?h < 16" "?l < 16" using unat_byte_less [of b] by linarith+
  note h = hex_digit_cases [OF k(1)] and l = hex_digit_cases [OF k(2)]
  have "leading 16 [hex_digits ! ?h, hex_digits ! ?l] = Some (unat b)"
    using h l k by (simp add: leading_def is_digit_in_def digits_in_def)
  moreover have "int (unat b) < 2 ^ 63"
  proof -
    have "int (unat b) < 256" using unat_byte_less [of b] by linarith
    then show ?thesis by (rule less_trans) simp
  qed
  moreover have "max (- 9223372036854775808) (uint b) = uint b"
    by (rule max_absorb2) (rule order_trans [of _ 0], simp_all)
  ultimately show ?thesis using h l by (simp add: strtol16_def hex2_digits hex_prefix_def Let_def)
qed

lemma six: "length m = 6 \<Longrightarrow> \<exists>a b c d e f. m = [a, b, c, d, e, f]"
  by (auto simp: numeral_eq_Suc length_Suc_conv)

lemma MACtoBin_getMAC: "length m = 6 \<Longrightarrow> MACtoBin (getMAC m) = Some m"
proof -
  assume "length m = 6"
  then obtain a b c d e f where m: "m = [a, b, c, d, e, f]" using six by blast
  have t: "getMAC m = hex2 a @ hex2 b @ ''.'' @ hex2 c @ hex2 d @ ''.'' @ hex2 e @ hex2 f"
  proof -
    have "[0..<6] = [0, 1, 2, 3, 4, 5 :: nat]" by (simp add: upt_rec)
    then show ?thesis by (simp add: m getMAC_def)
  qed
  have "map (\<lambda>p. substr (getMAC m) p 2) [0, 2, 5, 7, 10, 12] = map (\<lambda>x. Some (hex2 x)) m"
    unfolding t unfolding m by (simp add: substr_def hex2_digits)
  then show ?thesis
    by (simp add: MACtoBin_def mac_byte_def m hex2_read)
qed

lemma int_bytes:
  assumes "length m = 6"
  shows "map (\<lambda>k. ucast (drop_bit k (MacBinToInt m))) [40, 32, 24, 16, 8, 0] = m"
proof -
  obtain a b c d e f where m: "m = [a, b, c, d, e, f]" using six [OF assms] by blast
  have out: "\<not> bit (w :: byte) k" if "8 \<le> k" for w k using that by (auto dest: bit_imp_le_length)
  show ?thesis unfolding m MacBinToInt_def
    by (auto intro!: bit_word_eqI simp: bit_ucast_iff bit_drop_bit_eq bit_or_iff bit_push_bit_iff out)
qed

text \<open>
  A MAC address is read back from the text that \<open>getMAC\<close> makes of it, also as a number, and a packet whose
  destination was set to the number names it again, with the rest of the packet unchanged.
\<close>

theorem mac_read_back:
  assumes "length mac = 6" and "6 \<le> length b"
  shows "MACtoBin (getMAC mac) = Some mac \<and> MACToInt (getMAC mac) = Some (MacBinToInt mac)
    \<and> setDstMac (MacBinToInt mac) b = Some (mac @ drop 6 b) \<and> getDstMac (mac @ drop 6 b) = Some (MacBinToInt mac)"
  using assms MACtoBin_getMAC [OF assms(1)] int_bytes [OF assms(1)]
  by (simp add: MACToInt_def setDstMac_def getDstMac_def vec_slice_def)

theorem mac_read_back_witness:
  "MACtoBin (getMAC [0, 0x1b, 0x77, 10, 200, 255]) = Some [0, 0x1b, 0x77, 10, 200, 255]"
  using mac_read_back [of "[0, 0x1b, 0x77, 10, 200, 255]" "replicate 14 0"] by simp

end
