(* ===== verification/Devices.thy ===== *)
theory Devices
  imports Packets Std_Map "HOL-Library.List_Lexorder" "HOL-Library.Char_ord"
begin

text \<open>
  The programs of \<^verbatim>\<open>PDS\<close> that work with the devices of a network: the scanner
  (\<^verbatim>\<open>Scanner.cpp\<close>, \<^verbatim>\<open>Socket.cpp\<close>, \<^verbatim>\<open>scanner.cpp\<close>), the table of the devices and its file
  (\<^verbatim>\<open>XMLParser.cpp\<close>, \<^verbatim>\<open>chooser.cpp\<close>), the interceptor (\<^verbatim>\<open>Interceptor.cpp\<close>) and the packets of
  the spoofer with their restoration (\<^verbatim>\<open>Spoofer.cpp\<close>, \<^verbatim>\<open>massspoof.cpp\<close>). What the network brings is a list
  of frames; a document is what \<^verbatim>\<open>libxml2\<close> makes of a file.
\<close>

section \<open>The table of the devices\<close>

record ipAddress =
  ipv4 :: bool
  address :: string

text \<open>The order of the sets of addresses compares the members as \<^verbatim>\<open>std::tie\<close> does.\<close>

instantiation ipAddress_ext :: (linorder) linorder
begin

definition less_ipAddress_ext :: "'a ipAddress_scheme \<Rightarrow> 'a ipAddress_scheme \<Rightarrow> bool" where
  "less_ipAddress_ext x y \<longleftrightarrow> ipv4 x < ipv4 y \<or> ipv4 x = ipv4 y \<and>
     (address x < address y \<or> address x = address y \<and> ipAddress.more x < ipAddress.more y)"

definition less_eq_ipAddress_ext :: "'a ipAddress_scheme \<Rightarrow> 'a ipAddress_scheme \<Rightarrow> bool" where
  "less_eq_ipAddress_ext x y \<longleftrightarrow> x < y \<or> x = y"

instance
proof
  fix x y z :: "'a ipAddress_scheme"
  show "x < y \<longleftrightarrow> x \<le> y \<and> \<not> y \<le> x" by (auto simp: less_eq_ipAddress_ext_def less_ipAddress_ext_def)
  show "x \<le> x" by (simp add: less_eq_ipAddress_ext_def)
  show "x \<le> y \<Longrightarrow> y \<le> z \<Longrightarrow> x \<le> z" by (auto simp: less_eq_ipAddress_ext_def less_ipAddress_ext_def)
  show "x \<le> y \<Longrightarrow> y \<le> x \<Longrightarrow> x = y" by (auto simp: less_eq_ipAddress_ext_def less_ipAddress_ext_def)
  show "x \<le> y \<or> y \<le> x" by (cases x; cases y) (auto simp: less_eq_ipAddress_ext_def less_ipAddress_ext_def)
qed

end

record macProperties =
  group :: string
  addresses :: "ipAddress list"

type_synonym ScanTable = "(string \<times> macProperties) list"

definition no_properties :: macProperties where
  "no_properties = \<lparr>group = [], addresses = []\<rparr>"

definition change_properties :: "string \<Rightarrow> (macProperties \<Rightarrow> macProperties) \<Rightarrow> ScanTable \<Rightarrow> ScanTable" where
  "change_properties mac f t = (case map_at mac no_properties t of (p, t') \<Rightarrow> map_put mac (f p) t')"

definition insert_address :: "ipAddress \<Rightarrow> macProperties \<Rightarrow> macProperties" where
  "insert_address ip p = p\<lparr>addresses := set_insert ip (addresses p)\<rparr>"

section \<open>Scanning\<close>

definition ip_number :: "byte list \<Rightarrow> u32" where
  "ip_number ip = push_bit 24 (ucast (ip ! 0)) OR push_bit 16 (ucast (ip ! 1)) OR push_bit 8 (ucast (ip ! 2)) OR ucast (ip ! 3)"

definition ip_bytes :: "u32 \<Rightarrow> byte list" where
  "ip_bytes n = [ucast (drop_bit 24 n), ucast (drop_bit 16 n), ucast (drop_bit 8 n), ucast n]"

definition getRange :: "byte list \<Rightarrow> byte list \<Rightarrow> u32 \<times> u32" where
  "getRange src_ip netmask =
     (ip_number (map (\<lambda>i. src_ip ! i AND netmask ! i) [0..<4]), ip_number (map (\<lambda>i. src_ip ! i OR NOT (netmask ! i)) [0..<4]))"

text \<open>The value of \<^verbatim>\<open>signaled\<close> after every request is an argument.\<close>

fun send_each :: "(nat \<Rightarrow> bool) \<Rightarrow> nat \<Rightarrow> u32 list \<Rightarrow> Arp \<Rightarrow> eth_frame list" where
  "send_each signaled i [] arp = []"
| "send_each signaled i (n # ns) arp =
     (let arp' = setDstIP (ip_bytes n) arp
      in arp_buffer arp' # (if signaled i then [] else send_each signaled (i + 1) ns arp'))"

definition sendRequests :: "(nat \<Rightarrow> bool) \<Rightarrow> byte list \<Rightarrow> byte list \<Rightarrow> byte list \<Rightarrow> eth_frame list" where
  "sendRequests signaled src_ip src_mac netmask =
     (case getRange src_ip netmask of (from_ip, to_ip) \<Rightarrow>
        send_each signaled 0 (map (\<lambda>k. from_ip + of_nat k) [0..<unat (to_ip - from_ip + 1)]) (arp_request src_ip src_mac netmask Arp_new))"

text \<open>
  A received frame overwrites the beginning of the buffer of the socket. With every frame comes the value of
  \<^verbatim>\<open>signaled\<close> after it; an empty frame is a timeout or an error, and so is the end of the list.
\<close>

definition receive_into :: "eth_frame \<Rightarrow> byte list \<Rightarrow> byte list" where
  "receive_into f b = f @ drop (length f) b"

fun recvResponses :: "(eth_frame \<times> bool) list \<Rightarrow> byte list \<Rightarrow> ScanTable \<Rightarrow> ScanTable" where
  "recvResponses [] b t = t"
| "recvResponses ((f, signaled) # es) b t =
     (if f = [] then t
      else let b' = receive_into f b; h = drop (6 + 6 + 2) b'
           in if be16 (h ! 6) (h ! 7) \<noteq> 2 then recvResponses es b' t
              else let ip = \<lparr>ipv4 = True, address = getIP (take 4 (drop 14 h))\<rparr>;
                       t' = change_properties (getMAC (take 6 (drop 8 h))) (insert_address ip) t
                   in if signaled then t' else recvResponses es b' t')"

text \<open>The scan for IPv6 counts the timeouts; \<open>None\<close> is a read outside a short frame.\<close>

fun scanIPv6 :: "(byte list \<Rightarrow> string) \<Rightarrow> (eth_frame \<times> bool) list \<Rightarrow> nat \<Rightarrow> ScanTable \<Rightarrow> ScanTable option" where
  "scanIPv6 ntop6 [] counter t = Some t"
| "scanIPv6 ntop6 ((f, signaled) # es) counter t =
     (if f = [] then
        if counter + 1 = 5 \<or> signaled then Some t else scanIPv6 ntop6 es (counter + 1) t
      else do {
        ip \<leftarrow> getSrcIPv6 f;
        mac \<leftarrow> getSrcMac f;
        let t' = change_properties (getMAC mac) (insert_address \<lparr>ipv4 = False, address = ntop6 ip\<rparr>) t;
        if signaled then Some t' else scanIPv6 ntop6 es counter t' })"

section \<open>Files\<close>

definition nl :: string where "nl = [CHR 0x0A]"
definition quote :: string where "quote = [CHR 0x22]"

definition xml_head :: string where
  "xml_head = ''<?xml version='' @ quote @ ''1.0'' @ quote @ '' encoding='' @ quote @ ''UTF-8'' @ quote @ ''?>'' @ nl @ ''<devices>'' @ nl"

definition address_text :: "ipAddress \<Rightarrow> string" where
  "address_text a = ''        '' @ (if ipv4 a then ''<ipv4>'' else ''<ipv6>'') @ address a
     @ (if ipv4 a then ''</ipv4>'' else ''</ipv6>'') @ nl"

definition printDevices :: "ScanTable \<Rightarrow> string" where
  "printDevices t = xml_head
     @ concat (map (\<lambda>(mac, p). ''    <host mac='' @ quote @ mac @ quote @ ''>'' @ nl
         @ concat (map address_text (addresses p)) @ ''    </host>'' @ nl) t)
     @ ''</devices>'' @ nl"

definition dump :: "ScanTable \<Rightarrow> string" where
  "dump t = xml_head
     @ concat (map (\<lambda>(mac, p). ''    <host mac='' @ quote @ mac @ quote
         @ (if group p \<noteq> [] then '' group='' @ quote @ group p @ quote else []) @ ''>'' @ nl
         @ concat (map address_text (addresses p)) @ ''    </host>'' @ nl) t)
     @ ''</devices>'' @ nl"

text \<open>What the library makes of a file: the hosts with their attributes, and the name and the content of every child.\<close>

record xml_host =
  host_mac :: "string option"
  host_group :: "string option"
  host_children :: "(string \<times> string) list"

fun parse_children :: "string \<Rightarrow> (string \<times> string) list \<Rightarrow> ScanTable \<Rightarrow> ScanTable" where
  "parse_children mac [] t = t"
| "parse_children mac ((name, content) # cs) t =
     parse_children mac cs (change_properties mac (insert_address \<lparr>ipv4 = (name = ''ipv4''), address = content\<rparr>) t)"

fun parse_hosts :: "xml_host list \<Rightarrow> ScanTable \<Rightarrow> ScanTable" where
  "parse_hosts [] t = t"
| "parse_hosts (h # hs) t =
     (case host_mac h of
        None \<Rightarrow> parse_hosts hs t
      | Some mac \<Rightarrow>
          let t' = (case host_group h of None \<Rightarrow> t | Some g \<Rightarrow> change_properties mac (\<lambda>p. p\<lparr>group := g\<rparr>) t)
          in parse_hosts hs (parse_children mac (host_children h) t'))"

definition parseFile :: "(string \<Rightarrow> xml_host list option) \<Rightarrow> string \<Rightarrow> ScanTable option" where
  "parseFile libxml content = map_option (\<lambda>hs. parse_hosts hs []) (libxml content)"

text \<open>The chooser puts the devices at two indices into a group; a blank name stands for that of both addresses.\<close>

definition choose_group :: "u16 \<Rightarrow> u16 \<Rightarrow> string \<Rightarrow> ScanTable \<Rightarrow> ScanTable option" where
  "choose_group i j name t =
     (if length t \<le> unat i \<or> length t \<le> unat j then None
      else let a = fst (t ! unat i); b = fst (t ! unat j); g = (if name = [] then a @ ''-'' @ b else name)
           in Some (change_properties b (\<lambda>p. p\<lparr>group := g\<rparr>) (change_properties a (\<lambda>p. p\<lparr>group := g\<rparr>) t)))"

section \<open>Intercepting\<close>

fun partner_entries :: "string \<Rightarrow> macProperties \<Rightarrow> ScanTable \<Rightarrow> (string \<times> string) list" where
  "partner_entries mac p [] = []"
| "partner_entries mac p ((cmp, q) # t) =
     (if mac \<noteq> cmp \<and> group p = group q then map (\<lambda>ip. (address ip, mac)) (addresses q) else []) @ partner_entries mac p t"

fun poison_entries :: "ScanTable \<Rightarrow> ScanTable \<Rightarrow> (string \<times> string) list" where
  "poison_entries t [] = []"
| "poison_entries t ((mac, p) # es) = (if group p = [] then [] else partner_entries mac p t) @ poison_entries t es"

text \<open>\<open>None\<close> is the exception of \<^verbatim>\<open>substr\<close> for a short MAC address.\<close>

fun fill_table :: "(string \<times> string) list \<Rightarrow> (string \<rightharpoonup> u64) \<Rightarrow> (string \<rightharpoonup> u64) option" where
  "fill_table [] m = Some m"
| "fill_table ((ip, mac) # es) m = (case MACToInt mac of None \<Rightarrow> None | Some n \<Rightarrow> fill_table es (m(ip \<mapsto> n)))"

definition constructPoisonTable :: "ScanTable \<Rightarrow> (string \<rightharpoonup> u64) option" where
  "constructPoisonTable t = fill_table (poison_entries t t) Map.empty"

text \<open>One round of the loop for the packet in the buffer: the buffer after it, and what is sent.\<close>

definition forward :: "(byte list \<Rightarrow> string) \<Rightarrow> (string \<rightharpoonup> u64) \<Rightarrow> byte list \<Rightarrow> eth_frame \<Rightarrow> (eth_frame \<times> eth_frame list) option" where
  "forward ntop6 table my_mac b = do {
     protocol \<leftarrow> getIPProtocol b;
     if protocol = 0 then Some (b, [])
     else do {
       dst \<leftarrow> getDstMac b;
       if dst = MacBinToInt my_mac then do {
         src \<leftarrow> (if protocol = 1 then getSrcIP b else map_option ntop6 (getSrcIPv6 b));
         (case table src of
            None \<Rightarrow> Some (b, [])
          | Some n \<Rightarrow> do { b1 \<leftarrow> setDstMac n b; b2 \<leftarrow> setSrcMac my_mac b1; Some (b2, [b2]) }) }
       else Some (b, []) } }"

text \<open>A timeout, an empty frame, leaves the packet of the round before in the buffer.\<close>

fun intercept :: "(byte list \<Rightarrow> string) \<Rightarrow> (string \<rightharpoonup> u64) \<Rightarrow> byte list \<Rightarrow> eth_frame list \<Rightarrow> eth_frame \<Rightarrow> eth_frame list option" where
  "intercept ntop6 table my_mac [] b = Some []"
| "intercept ntop6 table my_mac (f # fs) b = do {
     (b', sent) \<leftarrow> forward ntop6 table my_mac (if f = [] then b else f);
     rest \<leftarrow> intercept ntop6 table my_mac fs b';
     Some (sent @ rest) }"

section \<open>Spoofing and its restoration\<close>

record Device =
  dev_mac :: string
  dev_addresses :: "ipAddress list"

fun pair_with :: "string \<Rightarrow> macProperties \<Rightarrow> ScanTable \<Rightarrow> (Device \<times> Device) list" where
  "pair_with mac p [] = []"
| "pair_with mac p ((cmp, q) # t) =
     (if mac \<noteq> cmp \<and> group p = group q
      then [(\<lparr>dev_mac = mac, dev_addresses = addresses p\<rparr>, \<lparr>dev_mac = cmp, dev_addresses = addresses q\<rparr>)] else []) @ pair_with mac p t"

fun pair_up :: "ScanTable \<Rightarrow> ScanTable \<Rightarrow> string set \<Rightarrow> (Device \<times> Device) list" where
  "pair_up t [] grouped = []"
| "pair_up t ((mac, p) # es) grouped =
     (if group p = [] \<or> mac \<in> grouped then pair_up t es grouped
      else let ds = pair_with mac p t
           in ds @ pair_up t es (grouped \<union> (if ds = [] then {} else {mac}) \<union> set (map (\<lambda>d. dev_mac (snd d)) ds)))"

definition first_of :: "(string \<Rightarrow> nat \<times> byte list) \<Rightarrow> nat \<Rightarrow> ipAddress list \<Rightarrow> ipAddress option" where
  "first_of to_bin kind ips = find (\<lambda>ip. ipv4 ip = (kind = 1) \<and> fst (to_bin (address ip)) = kind) ips"

definition usable :: "(string \<Rightarrow> nat \<times> byte list) \<Rightarrow> nat \<Rightarrow> ipAddress list \<Rightarrow> ipAddress list" where
  "usable to_bin kind ips = filter (\<lambda>ip. ipv4 ip = (kind = 1) \<and> fst (to_bin (address ip)) = kind) ips"

text \<open>One packet is changed for each address and copied; \<^verbatim>\<open>reply\<close> writes all its addresses.\<close>

fun replies :: "(string \<Rightarrow> nat \<times> byte list) \<Rightarrow> byte list \<Rightarrow> byte list \<Rightarrow> byte list \<Rightarrow> ipAddress list \<Rightarrow> Arp \<Rightarrow> Arp list \<times> Arp" where
  "replies to_bin own send mac [] packet = ([], packet)"
| "replies to_bin own send mac (ip # ips) packet =
     (let packet' = arp_reply (snd (to_bin (address ip))) own send mac packet
      in apfst (Cons packet') (replies to_bin own send mac ips packet'))"

definition prepareARPPackets :: "(string \<Rightarrow> nat \<times> byte list) \<Rightarrow> byte list \<Rightarrow> Device \<times> Device \<Rightarrow> Arp list option" where
  "prepareARPPackets to_bin own = (\<lambda>(d1, d2).
     (case (first_of to_bin 1 (dev_addresses d1), first_of to_bin 1 (dev_addresses d2)) of
        (Some ip1, Some ip2) \<Rightarrow> do {
          mac2 \<leftarrow> MACtoBin (dev_mac d2);
          let (ps1, packet) = replies to_bin own (snd (to_bin (address ip2))) mac2 (usable to_bin 1 (dev_addresses d1)) Arp_new;
          mac1 \<leftarrow> MACtoBin (dev_mac d1);
          let (ps2, packet) = replies to_bin own (snd (to_bin (address ip1))) mac1 (usable to_bin 1 (dev_addresses d2)) packet;
          Some (ps1 @ ps2) }
      | _ \<Rightarrow> Some []))"

definition restore :: "byte list \<Rightarrow> byte list \<Rightarrow> Arp \<Rightarrow> eth_frame list" where
  "restore mac1 mac2 packet =
     (if getDstMac (arp_buffer packet) = Some (MacBinToInt mac1) then [arp_buffer (Arp_modifySrcMac mac2 packet)]
      else if getDstMac (arp_buffer packet) = Some (MacBinToInt mac2) then [arp_buffer (Arp_modifySrcMac mac1 packet)]
      else [])"

text \<open>What the thread of a pair sends in the given number of rounds before the signal, and after it.\<close>

definition massRunARP :: "nat \<Rightarrow> (string \<Rightarrow> nat \<times> byte list) \<Rightarrow> byte list \<Rightarrow> Device \<times> Device \<Rightarrow> (eth_frame list \<times> eth_frame list) option" where
  "massRunARP rounds to_bin own ds = do {
     packets \<leftarrow> prepareARPPackets to_bin own ds;
     if packets = [] then Some ([], [])
     else do {
       mac1 \<leftarrow> MACtoBin (dev_mac (fst ds));
       mac2 \<leftarrow> MACtoBin (dev_mac (snd ds));
       Some (concat (replicate rounds (map arp_buffer packets)), concat (map (restore mac1 mac2) packets)) } }"

text \<open>The same over IPv6; \<open>None\<close> is also the exception for an address that cannot be read.\<close>

fun adverts ::
    "(string \<Rightarrow> byte list option) \<Rightarrow> byte list \<Rightarrow> string \<Rightarrow> byte list \<Rightarrow> ipAddress list \<Rightarrow> ICMPv6 \<Rightarrow> (ICMPv6 list \<times> ICMPv6) option" where
  "adverts pton6 own send mac [] packet = Some ([], packet)"
| "adverts pton6 own send mac (ip # ips) packet = do {
     packet' \<leftarrow> naAdvert pton6 own (address ip) mac send packet;
     (ps, last_packet) \<leftarrow> adverts pton6 own send mac ips packet';
     Some (packet' # ps, last_packet) }"

definition prepareNDPPackets ::
    "(string \<Rightarrow> nat \<times> byte list) \<Rightarrow> (string \<Rightarrow> byte list option) \<Rightarrow> byte list \<Rightarrow> Device \<times> Device \<Rightarrow> ICMPv6 list option" where
  "prepareNDPPackets to_bin pton6 own = (\<lambda>(d1, d2).
     (case (first_of to_bin 2 (dev_addresses d1), first_of to_bin 2 (dev_addresses d2)) of
        (Some ip1, Some ip2) \<Rightarrow> do {
          mac2 \<leftarrow> MACtoBin (dev_mac d2);
          (ps1, packet) \<leftarrow> adverts pton6 own (address ip2) mac2 (usable to_bin 2 (dev_addresses d1)) ICMPv6_new;
          mac1 \<leftarrow> MACtoBin (dev_mac d1);
          (ps2, packet) \<leftarrow> adverts pton6 own (address ip1) mac1 (usable to_bin 2 (dev_addresses d2)) packet;
          Some (ps1 @ ps2) }
      | _ \<Rightarrow> Some []))"

definition restoreNDP ::
    "(string \<Rightarrow> byte list option) \<Rightarrow> (byte list \<Rightarrow> string) \<Rightarrow> byte list \<Rightarrow> byte list \<Rightarrow> ICMPv6 \<Rightarrow> eth_frame list option" where
  "restoreNDP pton6 ntop6 mac1 mac2 packet =
     (if getDstMac (icmp_buffer packet) = Some (MacBinToInt mac1)
      then map_option (\<lambda>p. [icmp_buffer p]) (ICMPv6_modifySrcMac pton6 ntop6 mac2 packet)
      else if getDstMac (icmp_buffer packet) = Some (MacBinToInt mac2)
      then map_option (\<lambda>p. [icmp_buffer p]) (ICMPv6_modifySrcMac pton6 ntop6 mac1 packet)
      else Some [])"

definition massRunNDP ::
    "nat \<Rightarrow> (string \<Rightarrow> nat \<times> byte list) \<Rightarrow> (string \<Rightarrow> byte list option) \<Rightarrow> (byte list \<Rightarrow> string) \<Rightarrow> byte list \<Rightarrow> Device \<times> Device
      \<Rightarrow> (eth_frame list \<times> eth_frame list) option" where
  "massRunNDP rounds to_bin pton6 ntop6 own ds = do {
     packets \<leftarrow> prepareNDPPackets to_bin pton6 own ds;
     if packets = [] then Some ([], [])
     else do {
       mac1 \<leftarrow> MACtoBin (dev_mac (fst ds));
       mac2 \<leftarrow> MACtoBin (dev_mac (snd ds));
       restored \<leftarrow> those (map (restoreNDP pton6 ntop6 mac1 mac2) packets);
       Some (concat (replicate rounds (map icmp_buffer packets)), concat restored) } }"

text \<open>The spoofer for two given victims.\<close>

datatype Protocol = ARP | NDP

datatype spoof_error = Short_mac | Invalid_address | Invalid_protocol

record Spoofer =
  vic1_ip :: "byte list"
  vic1_mac :: "byte list"
  vic2_ip :: "byte list"
  vic2_mac :: "byte list"
  ip_1 :: string
  ip_2 :: string

definition Spoofer_new ::
    "(string \<Rightarrow> nat \<times> byte list) \<Rightarrow> Protocol \<Rightarrow> string \<Rightarrow> string \<Rightarrow> string \<Rightarrow> string \<Rightarrow> spoof_error + Spoofer" where
  "Spoofer_new to_bin protocol victim1ip victim1mac victim2ip victim2mac =
     (case (MACtoBin victim2mac, MACtoBin victim1mac) of
        (Some m2, Some m1) \<Rightarrow>
          (let (k1, b1) = to_bin victim1ip; (k2, b2) = to_bin victim2ip
           in if k1 = 0 \<or> k2 = 0 then Inl Invalid_address
              else if k1 = 1 \<and> k2 = 1 \<and> protocol = ARP \<or> k1 = 2 \<and> k2 = 2 \<and> protocol = NDP
              then Inr \<lparr>vic1_ip = b1, vic1_mac = m1, vic2_ip = b2, vic2_mac = m2, ip_1 = victim1ip, ip_2 = victim2ip\<rparr>
              else Inl Invalid_protocol)
      | _ \<Rightarrow> Inl Short_mac)"

definition poisonARP :: "nat \<Rightarrow> byte list \<Rightarrow> byte list \<Rightarrow> byte list \<Rightarrow> byte list \<Rightarrow> eth_frame list" where
  "poisonARP rounds own ip dst_ip dst_mac = replicate rounds (arp_buffer (arp_reply ip own dst_ip dst_mac Arp_new))"

definition poisonNDP ::
    "nat \<Rightarrow> (string \<Rightarrow> byte list option) \<Rightarrow> byte list \<Rightarrow> string \<Rightarrow> string \<Rightarrow> byte list \<Rightarrow> eth_frame list option" where
  "poisonNDP rounds pton6 own ip dst_ip dst_mac =
     map_option (\<lambda>p. replicate rounds (icmp_buffer p)) (naAdvert pton6 own ip dst_mac dst_ip ICMPv6_new)"

definition refreshARPCache :: "Spoofer \<Rightarrow> eth_frame list" where
  "refreshARPCache s =
     [arp_buffer (arp_reply (vic1_ip s) (vic1_mac s) (vic2_ip s) (vic2_mac s) Arp_new),
      arp_buffer (arp_reply (vic2_ip s) (vic2_mac s) (vic1_ip s) (vic1_mac s) Arp_new)]"

definition refreshNDPCache :: "(string \<Rightarrow> byte list option) \<Rightarrow> Spoofer \<Rightarrow> eth_frame list option" where
  "refreshNDPCache pton6 s = do {
     p1 \<leftarrow> naAdvert pton6 (vic1_mac s) (ip_1 s) (vic2_mac s) (ip_2 s) ICMPv6_new;
     p2 \<leftarrow> naAdvert pton6 (vic2_mac s) (ip_2 s) (vic1_mac s) (ip_1 s) ICMPv6_new;
     Some [icmp_buffer p1, icmp_buffer p2] }"

text \<open>What both threads send before the signal, and what is sent when they have ended.\<close>

definition Spoofer_run ::
    "nat \<Rightarrow> nat \<Rightarrow> (string \<Rightarrow> byte list option) \<Rightarrow> byte list \<Rightarrow> Protocol \<Rightarrow> Spoofer \<Rightarrow> (eth_frame list \<times> eth_frame list \<times> eth_frame list) option" where
  "Spoofer_run n1 n2 pton6 own protocol s =
     (if protocol = ARP
      then Some (poisonARP n1 own (vic1_ip s) (vic2_ip s) (vic2_mac s), poisonARP n2 own (vic2_ip s) (vic1_ip s) (vic1_mac s), refreshARPCache s)
      else do {
        a \<leftarrow> poisonNDP n1 pton6 own (ip_1 s) (ip_2 s) (vic2_mac s);
        b \<leftarrow> poisonNDP n2 pton6 own (ip_2 s) (ip_1 s) (vic1_mac s);
        c \<leftarrow> refreshNDPCache pton6 s;
        Some (a, b, c) })"

section \<open>The scan covers the network\<close>

lemma bit_ip_number:
  assumes "n < 32"
  shows "bit (ip_number ip) n = bit (ip ! (3 - n div 8)) (n mod 8)"
proof -
  have out: "\<not> bit (w :: byte) k" if "8 \<le> k" for w k using that by (auto dest: bit_imp_le_length)
  consider "n < 8" | "8 \<le> n" "n < 16" | "16 \<le> n" "n < 24" | "24 \<le> n" "n < 32" using assms by linarith
  then show ?thesis
  proof cases
    case 1
    then show ?thesis by (simp add: ip_number_def bit_or_iff bit_push_bit_iff bit_ucast_iff)
  next
    case 2
    then have "n div 8 = 1" "n mod 8 = n - 8" by (simp_all add: div_if mod_if)
    then show ?thesis using 2 by (auto simp: ip_number_def bit_or_iff bit_push_bit_iff bit_ucast_iff out)
  next
    case 3
    then have "n div 8 = 2" "n mod 8 = n - 16" "n - 16 < 8" "8 \<le> n - 8" by (simp_all add: div_if mod_if, linarith+)
    then show ?thesis using 3 by (auto simp: ip_number_def bit_or_iff bit_push_bit_iff bit_ucast_iff out)
  next
    case 4
    then have "n div 8 = 3" "n mod 8 = n - 24" "n - 24 < 8" "8 \<le> n - 8" "8 \<le> n - 16" by (simp_all add: div_if mod_if, linarith+)
    then show ?thesis using 4 by (auto simp: ip_number_def bit_or_iff bit_push_bit_iff bit_ucast_iff out)
  qed
qed

lemma range_ends:
  "getRange s m = (ip_number s AND ip_number m, ip_number s OR NOT (ip_number m))"
proof -
  have i: "3 - n div 8 < 4" for n :: nat by simp
  have a: "ip_number (map (\<lambda>i. s ! i AND m ! i) [0..<4]) = ip_number s AND ip_number m"
    by (rule bit_word_eqI) (simp add: bit_ip_number bit_and_iff i)
  have "bit (NOT w) (n mod 8) = (\<not> bit w (n mod 8))" for w :: byte and n
    by (simp add: bit_not_iff)
  then have "ip_number (map (\<lambda>i. s ! i OR NOT (m ! i)) [0..<4]) = ip_number s OR NOT (ip_number m)"
    by (intro bit_word_eqI) (simp add: bit_ip_number bit_or_iff bit_not_iff i)
  with a show ?thesis by (simp add: getRange_def)
qed

lemma in_range:
  fixes a s m :: u32
  assumes "a AND m = s AND m"
  shows "s AND m \<le> a" "a \<le> s OR NOT m"
proof -
  show "s AND m \<le> a" unfolding assms [symmetric] by (rule word_and_le2)
  have "s OR NOT m = (a AND m) OR NOT m" unfolding assms
    by (rule bit_word_eqI) (auto simp: bit_or_iff bit_and_iff bit_not_iff)
  also have "\<dots> = a OR NOT m" by (rule bit_word_eqI) (auto simp: bit_or_iff bit_and_iff bit_not_iff)
  finally show "a \<le> s OR NOT m" using le_word_or2 [of a "NOT m"] by (simp add: word_bw_comms)
qed

lemma range_size:
  fixes s m :: u32
  shows "(s OR NOT m) - (s AND m) + 1 = - m"
proof -
  have "(s AND m) AND NOT m = 0" by (rule bit_word_eqI) (auto simp: bit_and_iff bit_not_iff)
  then have "(s AND m) + NOT m = (s AND m) OR NOT m" by (rule disjunctive_add_eq_or)
  also have "\<dots> = s OR NOT m" by (rule bit_word_eqI) (auto simp: bit_or_iff bit_and_iff bit_not_iff)
  finally have "(s OR NOT m) - (s AND m) = NOT m" by (simp add: algebra_simps)
  then show ?thesis by (simp add: not_eq_complement)
qed

definition request_head :: "byte list \<Rightarrow> byte list \<Rightarrow> byte list" where
  "request_head src_ip src_mac = replicate 6 0xFF @ src_mac @ [0x08, 0x06] @ be_bytes 1 @ be_bytes 0x0800 @ [6, 4] @ be_bytes 1
     @ src_mac @ src_ip @ replicate 6 0xFF"

lemma request_buffer:
  assumes "length src_ip = 4" "length src_mac = 6" "length dst_ip = 4"
  shows "arp_buffer (arp_request src_ip src_mac dst_ip Arp_new) = request_head src_ip src_mac @ dst_ip"
    "length (request_head src_ip src_mac) = 38"
  using assms
  by (simp_all add: arp_request_def Arp_fillBuffer_def Arp_new_def arp_header_bytes_def mac_len_def ipv4_len_def request_head_def be_bytes_def)

lemma request_fields:
  assumes "length src_ip = 4" "length src_mac = 6" "length dst_ip = 4" "length ip = 4"
  shows "setDstIP ip (arp_request src_ip src_mac dst_ip Arp_new) = arp_request src_ip src_mac ip Arp_new"
proof (rule Arp.equality)
  have h: "hw_address_len (arp_request src_ip src_mac dst_ip Arp_new) = 6"
    by (simp add: arp_request_def Arp_fillBuffer_def Arp_new_def mac_len_def)
  show "arp_buffer (setDstIP ip (arp_request src_ip src_mac dst_ip Arp_new)) = arp_buffer (arp_request src_ip src_mac ip Arp_new)"
    using assms by (simp add: setDstIP_def h request_buffer mac_len_def ipv4_len_def Let_def)
qed (use assms in \<open>simp_all add: setDstIP_def arp_request_def Arp_fillBuffer_def Let_def\<close>)

lemma send_each_requests:
  assumes "length src_ip = 4" "length src_mac = 6" "length dst_ip = 4"
  shows "send_each (\<lambda>_. False) i ns (arp_request src_ip src_mac dst_ip Arp_new)
    = map (\<lambda>n. arp_buffer (arp_request src_ip src_mac (ip_bytes n) Arp_new)) ns"
  using assms(3)
proof (induction ns arbitrary: i dst_ip)
  case (Cons n ns)
  have "length (ip_bytes n) = 4" by (simp add: ip_bytes_def)
  then show ?case using Cons by (simp add: request_fields [OF assms(1,2)] Let_def)
qed simp

text \<open>
  C28. Without a signal the scanner asks for addresses in ascending order, each once, and every address
  of the network of the interface is among them, when the mask of the network is not zero.
\<close>

theorem scan_covers_network:
  assumes "length src_ip = 4" "length src_mac = 6" "length netmask = 4" "ip_number netmask \<noteq> 0"
  shows "\<exists>l. sendRequests (\<lambda>_. False) src_ip src_mac netmask = map (\<lambda>a. arp_buffer (arp_request src_ip src_mac (ip_bytes a) Arp_new)) l
    \<and> sorted_wrt (<) l \<and> {a. a AND ip_number netmask = ip_number src_ip AND ip_number netmask} \<subseteq> set l"
proof -
  define m s where "m = ip_number netmask" and "s = ip_number src_ip"
  define l where "l = map (\<lambda>k. (s AND m) + of_nat k) [0..<unat (- m)]"
  have m0: "m \<noteq> 0" using assms(4) by (simp add: m_def)
  have le: "s AND m \<le> s OR NOT m" using in_range [of "s AND m" m s] by (simp add: word_bw_assocs)
  have top: "unat (s AND m) + unat (- m) \<le> 2 ^ 32"
  proof -
    have e: "(s OR NOT m) - (s AND m) = - m - 1" using range_size [of s m] by (simp add: algebra_simps)
    have "unat (s OR NOT m) - unat (s AND m) = unat ((s OR NOT m) - (s AND m))" using le by (rule unat_sub [symmetric])
    also have "\<dots> = unat (- m) - 1" unfolding e using m0 by (simp add: unat_minus_one)
    finally have "unat (s OR NOT m) - unat (s AND m) = unat (- m) - 1" .
    moreover have "unat (s AND m) \<le> unat (s OR NOT m)" using le by (simp only: word_le_nat_alt)
    moreover have "unat (s OR NOT m) < 2 ^ 32" using unsigned_less [of "s OR NOT m", where 'a = nat] by simp
    moreover have "0 < unat (- m)" using m0 by (simp add: unat_gt_0)
    ultimately show ?thesis by linarith
  qed
  have u: "unat ((s AND m) + of_nat k) = unat (s AND m) + k" if "k < unat (- m)" for k
  proof -
    have "k < 2 ^ 32" "unat (s AND m) + k < 2 ^ 32" using that top by linarith+
    then show ?thesis by (simp add: unat_word_ariths unsigned_of_nat take_bit_nat_eq_self)
  qed
  have "sorted_wrt (<) l"
    unfolding sorted_wrt_iff_nth_less l_def by (auto simp: word_less_nat_alt u)
  moreover have "sendRequests (\<lambda>_. False) src_ip src_mac netmask = map (\<lambda>a. arp_buffer (arp_request src_ip src_mac (ip_bytes a) Arp_new)) l"
    by (simp add: sendRequests_def range_ends send_each_requests [OF assms(1-3)] l_def range_size s_def m_def)
  moreover have "a \<in> set l" if "a AND m = s AND m" for a
  proof -
    have "unat (a - (s AND m)) = unat a - unat (s AND m)" using in_range(1) [OF that] by (rule unat_sub)
    moreover have "unat (s AND m) \<le> unat a" "unat a \<le> unat (s OR NOT m)" using in_range [OF that] by (simp_all only: word_le_nat_alt)
    moreover have "unat (s OR NOT m) < unat (s AND m) + unat (- m)"
    proof -
      have "(s OR NOT m) = (s AND m) + of_nat (unat (- m) - 1)"
        using range_size [of s m] m0 by (simp add: of_nat_diff unat_gt_0 Suc_leI algebra_simps)
      then show ?thesis using u [of "unat (- m) - 1"] m0 by (simp add: unat_gt_0)
    qed
    ultimately have "unat (a - (s AND m)) < unat (- m)" by linarith
    moreover have "a = (s AND m) + of_nat (unat (a - (s AND m)))" by simp
    ultimately show ?thesis unfolding l_def set_map by (intro image_eqI [of _ _ "unat (a - (s AND m))"]) simp_all
  qed
  ultimately show ?thesis unfolding m_def s_def by blast
qed

theorem scan_covers_network_witness:
  "\<exists>l. sendRequests (\<lambda>_. False) [10, 0, 0, 7] [1, 2, 3, 4, 5, 6] [255, 255, 255, 252]
      = map (\<lambda>a. arp_buffer (arp_request [10, 0, 0, 7] [1, 2, 3, 4, 5, 6] (ip_bytes a) Arp_new)) l
    \<and> sorted_wrt (<) l \<and> {a. a AND ip_number [255, 255, 255, 252] = ip_number [10, 0, 0, 7] AND ip_number [255, 255, 255, 252]} \<subseteq> set l"
  by (rule scan_covers_network) (simp_all add: ip_number_def)

section \<open>Documents\<close>

text \<open>
  What \<^verbatim>\<open>libxml2\<close> is expected to do is stated on documents and their text, without regard to the programs: a document is a tree of elements with
  attributes and of characters, and of a well-formed one the library gives what \<^verbatim>\<open>/devices/host\<close> selects. The strings are of
  printable ASCII characters that need no escape.
\<close>

datatype xml_node = Chars string | Element string "(string \<times> string) list" "xml_node list"

definition attribute_text :: "string \<times> string \<Rightarrow> string" where
  "attribute_text = (\<lambda>(k, v). '' '' @ k @ ''='' @ quote @ v @ quote)"

fun node_text :: "xml_node \<Rightarrow> string" where
  "node_text (Chars s) = s"
| "node_text (Element n as cs) =
     ''<'' @ n @ concat (map attribute_text as) @ ''>'' @ concat (map node_text cs) @ ''</'' @ n @ ''>''"

definition document_text :: "xml_node \<Rightarrow> string" where
  "document_text d =
     ''<?xml version='' @ quote @ ''1.0'' @ quote @ '' encoding='' @ quote @ ''UTF-8'' @ quote @ ''?>'' @ nl @ node_text d @ nl"

definition xml_plain :: "string \<Rightarrow> bool" where
  "xml_plain s \<longleftrightarrow> list_all (\<lambda>c. 32 \<le> (of_char c :: nat) \<and> (of_char c :: nat) < 127 \<and> c \<notin> {CHR ''<'', CHR ''>'', CHR ''&'', CHR 0x22}) s"

definition xml_name :: "string \<Rightarrow> bool" where
  "xml_name s \<longleftrightarrow> s \<noteq> [] \<and> list_all (\<lambda>c. c \<in> set ''abcdefghijklmnopqrstuvwxyz0123456789'') s \<and> hd s \<in> set ''abcdefghijklmnopqrstuvwxyz''"

fun xml_ok :: "xml_node \<Rightarrow> bool" where
  "xml_ok (Chars s) \<longleftrightarrow> xml_plain (filter (\<lambda>c. c \<noteq> CHR 0x0A) s)"
| "xml_ok (Element n as cs) \<longleftrightarrow> xml_name n \<and> distinct (map fst as) \<and> list_all (\<lambda>(k, v). xml_name k \<and> xml_plain v) as \<and> list_all xml_ok cs"

fun node_content :: "xml_node \<Rightarrow> string" where
  "node_content (Chars s) = s"
| "node_content (Element n as cs) = concat (map node_content cs)"

fun child_element :: "xml_node \<Rightarrow> (string \<times> string) option" where
  "child_element (Chars s) = None"
| "child_element (Element n as cs) = Some (n, concat (map node_content cs))"

fun host_element :: "xml_node \<Rightarrow> xml_host option" where
  "host_element (Chars s) = None"
| "host_element (Element n as cs) =
     (if n = ''host''
      then Some \<lparr>host_mac = map_of as ''mac'', host_group = map_of as ''group'', host_children = List.map_filter child_element cs\<rparr>
      else None)"

fun selected_hosts :: "xml_node \<Rightarrow> xml_host list" where
  "selected_hosts (Chars s) = []"
| "selected_hosts (Element n as cs) = (if n = ''devices'' then List.map_filter host_element cs else [])"

section \<open>The file of the table\<close>

definition address_node :: "ipAddress \<Rightarrow> xml_node list" where
  "address_node a = [Chars ''        '', Element (if ipv4 a then ''ipv4'' else ''ipv6'') [] [Chars (address a)], Chars nl]"

definition host_node :: "string \<times> macProperties \<Rightarrow> xml_node list" where
  "host_node = (\<lambda>(mac, p).
     [Chars ''    '', Element ''host'' ((''mac'', mac) # (if group p = [] then [] else [(''group'', group p)]))
        (Chars nl # concat (map address_node (addresses p)) @ [Chars ''    '']), Chars nl])"

definition table_document :: "ScanTable \<Rightarrow> xml_node" where
  "table_document t = Element ''devices'' [] (Chars nl # concat (map host_node t))"

text \<open>The text that the programs write is that of the document.\<close>

lemma concat_map_concat: "concat (map f (concat xss)) = concat (map (\<lambda>xs. concat (map f xs)) xss)"
  by (induction xss) simp_all

lemma address_node_text: "concat (map node_text (address_node a)) = address_text a"
  by (simp add: address_node_def address_text_def)

lemma host_node_text:
  "concat (map node_text (host_node (mac, p))) = ''    <host mac='' @ quote @ mac @ quote
     @ (if group p \<noteq> [] then '' group='' @ quote @ group p @ quote else []) @ ''>'' @ nl
     @ concat (map address_text (addresses p)) @ ''    </host>'' @ nl"
  by (simp add: host_node_def concat_map_concat address_node_text comp_def attribute_text_def)

lemma host_nodes_text:
  "concat (map node_text (concat (map host_node t))) = concat (map (\<lambda>(mac, p). ''    <host mac='' @ quote @ mac @ quote
     @ (if group p \<noteq> [] then '' group='' @ quote @ group p @ quote else []) @ ''>'' @ nl
     @ concat (map address_text (addresses p)) @ ''    </host>'' @ nl) t)"
proof (induction t)
  case (Cons h t)
  then show ?case by (cases h) (simp only: list.map concat.simps map_append concat_append prod.case host_node_text)
qed simp

lemma dump_document: "dump t = document_text (table_document t)"
  using host_nodes_text [of t] by (simp add: dump_def document_text_def table_document_def xml_head_def)

definition plain_entry :: "string \<times> macProperties \<Rightarrow> bool" where
  "plain_entry = (\<lambda>(mac, p). xml_plain mac \<and> xml_plain (group p) \<and> list_all (\<lambda>a. xml_plain (address a)) (addresses p))"

lemma plain_lines: "xml_plain s \<Longrightarrow> xml_ok (Chars s)" "xml_ok (Chars nl)" "xml_ok (Chars ''    '')" "xml_ok (Chars ''        '')"
  by (auto simp: xml_plain_def nl_def list_all_iff)

lemma plain_names: "xml_name ''ipv4''" "xml_name ''ipv6''" "xml_name ''host''" "xml_name ''devices''" "xml_name ''mac''" "xml_name ''group''"
  by code_simp+

lemma table_document_ok: "list_all plain_entry t \<Longrightarrow> xml_ok (table_document t)"
  by (auto simp: table_document_def host_node_def address_node_def plain_entry_def list_all_iff plain_lines plain_names
      simp del: xml_ok.simps(1) split: if_splits)

definition child_of :: "ipAddress \<Rightarrow> string \<times> string" where
  "child_of a = (if ipv4 a then ''ipv4'' else ''ipv6'', address a)"

definition host_of :: "string \<times> macProperties \<Rightarrow> xml_host" where
  "host_of = (\<lambda>(mac, p). \<lparr>host_mac = Some mac, host_group = (if group p = [] then None else Some (group p)),
     host_children = map child_of (addresses p)\<rparr>)"

lemma child_elements: "List.map_filter child_element (concat (map address_node as)) = map child_of as"
  by (induction as) (simp_all add: address_node_def child_of_def map_filter_simps)

lemma table_document_hosts: "selected_hosts (table_document t) = map host_of t"
proof -
  have "List.map_filter child_element (xs @ ys) = List.map_filter child_element xs @ List.map_filter child_element ys" for xs ys
    by (simp add: List.map_filter_def)
  then have "List.map_filter host_element (concat (map host_node t)) = map host_of t"
    by (induction t) (auto simp: host_node_def host_of_def map_filter_simps child_elements)
  then show ?thesis by (simp add: table_document_def map_filter_simps)
qed

definition entry_ok :: "string \<times> macProperties \<Rightarrow> bool" where
  "entry_ok = (\<lambda>(mac, p). sorted_wrt (<) (addresses p) \<and> (group p \<noteq> [] \<or> addresses p \<noteq> []))"

lemma map_put_last: "\<forall>k' \<in> fst ` set t. k' < k \<Longrightarrow> map_put k v t = t @ [(k, v)]"
  by (induction k v t rule: map_put.induct) force+

lemma map_put_snoc: "\<forall>k' \<in> fst ` set t. k' < k \<Longrightarrow> map_put k v (t @ [(k, w)]) = t @ [(k, v)]"
  by (induction k v t rule: map_put.induct) force+

lemma set_insert_last: "\<forall>y \<in> set ys. y < x \<Longrightarrow> set_insert x ys = ys @ [x]"
  by (induction x ys rule: set_insert.induct) auto

lemma change_new:
  "\<forall>k' \<in> fst ` set t. k' < mac \<Longrightarrow> change_properties mac f t = t @ [(mac, f no_properties)]"
  by (auto simp: change_properties_def map_at_def map_put_last map_put_snoc map_of_eq_None_iff dest!: bspec split: option.splits
      dest: map_of_SomeD)

lemma change_last:
  "\<forall>k' \<in> fst ` set t. k' < mac \<Longrightarrow> change_properties mac f (t @ [(mac, p)]) = t @ [(mac, f p)]"
proof -
  assume a: "\<forall>k' \<in> fst ` set t. k' < mac"
  then have "map_of t mac = None" by (auto simp: map_of_eq_None_iff)
  then have "map_of (t @ [(mac, p)]) mac = Some p" by (simp add: map_add_def)
  then show ?thesis by (simp add: change_properties_def map_at_def map_put_snoc [OF a])
qed

lemma parse_child: "parse_children mac (child_of a # cs) t = parse_children mac cs (change_properties mac (insert_address a) t)"
  by (cases a) (simp add: child_of_def)

lemma parse_children_last:
  assumes "\<forall>k' \<in> fst ` set t. k' < mac" "sorted_wrt (<) (addresses p @ as)"
  shows "parse_children mac (map child_of as) (t @ [(mac, p)])
    = t @ [(mac, p\<lparr>addresses := addresses p @ as\<rparr>)]"
  using assms(2)
proof (induction as arbitrary: p)
  case (Cons a as)
  have "\<forall>y \<in> set (addresses p). y < a" using Cons.prems by (simp add: sorted_wrt_append)
  then have "insert_address a p = p\<lparr>addresses := addresses p @ [a]\<rparr>"
    by (simp add: insert_address_def set_insert_last)
  then show ?case
    using Cons.IH [of "p\<lparr>addresses := addresses p @ [a]\<rparr>"] Cons.prems change_last [OF assms(1)] by (simp add: parse_child)
qed simp

lemma parse_host_last:
  assumes "\<forall>k' \<in> fst ` set t. k' < fst h" "entry_ok h"
  shows "parse_hosts (host_of h # hs) t = parse_hosts hs (t @ [h])"
proof -
  obtain mac p where h: "h = (mac, p)" by fastforce
  have new: "\<forall>k' \<in> fst ` set t. k' < mac" and s: "sorted_wrt (<) (addresses p)" using assms by (simp_all add: h entry_ok_def)
  define cs where "cs = map child_of (addresses p)"
  have "parse_children mac cs (if group p = [] then t else change_properties mac (\<lambda>q. q\<lparr>group := group p\<rparr>) t) = t @ [(mac, p)]"
  proof (cases "group p = []")
    case True
    then obtain a as where as: "addresses p = a # as" using assms(2) by (cases "addresses p") (auto simp: h entry_ok_def)
    have "parse_children mac cs t = parse_children mac (tl cs) (t @ [(mac, insert_address a no_properties)])"
      using change_new [OF new] by (simp add: cs_def as parse_child)
    also have "insert_address a no_properties = \<lparr>group = [], addresses = [a]\<rparr>" by (simp add: insert_address_def no_properties_def)
    also have "parse_children mac (tl cs) (t @ [(mac, \<lparr>group = [], addresses = [a]\<rparr>)]) = t @ [(mac, p)]"
      using parse_children_last [OF new, of "\<lparr>group = [], addresses = [a]\<rparr>" as] s as True by (simp add: cs_def)
    finally show ?thesis using True by simp
  next
    case False
    have "change_properties mac (\<lambda>q. q\<lparr>group := group p\<rparr>) t = t @ [(mac, \<lparr>group = group p, addresses = []\<rparr>)]"
      using change_new [OF new] by (simp add: no_properties_def)
    then show ?thesis
      using parse_children_last [OF new, of "\<lparr>group = group p, addresses = []\<rparr>" "addresses p"] s False by (simp add: cs_def)
  qed
  then show ?thesis by (simp add: host_of_def h cs_def Let_def split: if_splits)
qed

lemma parse_hosts_of:
  "map_ok (t @ hs) \<Longrightarrow> list_all entry_ok hs \<Longrightarrow> parse_hosts (map host_of hs) t = t @ hs"
proof (induction hs arbitrary: t)
  case (Cons h hs)
  have "\<forall>k' \<in> fst ` set t. k' < fst h" using Cons.prems(1) by (auto simp: map_ok_def sorted_wrt_append)
  then show ?case using Cons.IH [of "t @ [h]"] Cons.prems parse_host_last [of t h "map host_of hs"] by simp
qed simp

lemma written_table_read:
  assumes "map_ok t" "list_all entry_ok t" "list_all plain_entry t"
    and libxml: "xml_ok (table_document t) \<Longrightarrow> libxml (document_text (table_document t)) = Some (selected_hosts (table_document t))"
  shows "parseFile libxml (dump t) = Some t"
  using parse_hosts_of [of "[]" t] assms(1,2) libxml [OF table_document_ok [OF assms(3)]]
  by (simp add: parseFile_def dump_document table_document_hosts)

text \<open>
  A table that was written to a file is read back: when the library selects the hosts of the document whose text is the written one, the table that is
  built from them is the one that was written.
\<close>

theorem table_read_back:
  assumes "map_ok t" "list_all entry_ok t" "list_all plain_entry t"
    and libxml: "xml_ok (table_document t) \<Longrightarrow> libxml (document_text (table_document t)) = Some (selected_hosts (table_document t))"
  shows "parseFile libxml (dump t) = Some t"
  using assms by (rule written_table_read)

theorem table_read_back_witness:
  "\<exists>libxml. parseFile libxml (dump [(''00.01'', \<lparr>group = ''g'', addresses = [\<lparr>ipv4 = True, address = ''10.0.0.1''\<rparr>]\<rparr>)])
   = Some [(''00.01'', \<lparr>group = ''g'', addresses = [\<lparr>ipv4 = True, address = ''10.0.0.1''\<rparr>]\<rparr>)]"
proof -
  let ?t = "[(''00.01'', \<lparr>group = ''g'', addresses = [\<lparr>ipv4 = True, address = ''10.0.0.1''\<rparr>]\<rparr>)]"
  have "parseFile (\<lambda>s. if s = document_text (table_document ?t) then Some (selected_hosts (table_document ?t)) else None) (dump ?t) = Some ?t"
    by (rule table_read_back) (simp_all add: map_ok_def entry_ok_def plain_entry_def xml_plain_def)
  then show ?thesis by blast
qed

section \<open>Forwarding between paired devices\<close>

lemma fill_table_lookup:
  "fill_table es m = Some m' \<Longrightarrow> m' k = (case map_of (rev es) k of None \<Rightarrow> m k | Some mac \<Rightarrow> MACToInt mac)"
proof (induction es m rule: fill_table.induct)
  case (2 ip mac es m)
  then obtain n where n: "MACToInt mac = Some n" "fill_table es (m(ip \<mapsto> n)) = Some m'" by (auto split: option.splits)
  from 2(1) [OF n] show ?case using n(1) by (auto simp: map_add_def split: option.splits)
qed simp

lemma partner_entries_iff:
  "(ip, m) \<in> set (partner_entries mac p t) \<longleftrightarrow>
    m = mac \<and> (\<exists>cmp q a. (cmp, q) \<in> set t \<and> mac \<noteq> cmp \<and> group p = group q \<and> a \<in> set (addresses q) \<and> ip = address a)"
proof (induction mac p t rule: partner_entries.induct)
  case (2 mac p cmp q t)
  have "(ip, m) \<in> set (map (\<lambda>ip. (address ip, mac)) (addresses q)) \<longleftrightarrow> m = mac \<and> (\<exists>a \<in> set (addresses q). ip = address a)" by auto
  then show ?case using 2 by (cases "mac \<noteq> cmp \<and> group p = group q") (simp_all, blast+)
qed simp

lemma poison_entries_iff:
  "(ip, mac) \<in> set (poison_entries t es) \<longleftrightarrow>
    (\<exists>p cmp q a. (mac, p) \<in> set es \<and> group p \<noteq> [] \<and> (cmp, q) \<in> set t \<and> mac \<noteq> cmp \<and> group p = group q
       \<and> a \<in> set (addresses q) \<and> ip = address a)"
proof (induction t es rule: poison_entries.induct)
  case (2 t m p es)
  then show ?case by (cases "group p = []") (simp_all add: partner_entries_iff, blast+)
qed simp

lemma those_length: "those xs = Some ys \<Longrightarrow> length ys = length xs"
  by (induction xs arbitrary: ys) (auto split: option.splits)

lemma MACtoBin_length: "MACtoBin mac = Some bytes \<Longrightarrow> length bytes = 6"
  unfolding MACtoBin_def by (drule those_length) simp

lemma map_of_constant:
  assumes "(k, v) \<in> set es" "\<And>w. (k, w) \<in> set es \<Longrightarrow> w = v"
  shows "map_of es k = Some v"
proof -
  obtain w where "map_of es k = Some w" using assms(1) by (cases "map_of es k") (auto simp: map_of_eq_None_iff image_iff)
  then show ?thesis using assms(2) map_of_SomeD [of es k w] by simp
qed

lemma paired_forward:
  assumes table: "map_ok t" "constructPoisonTable t = Some table"
    and pair: "map_of t ma = Some pa" "map_of t mb = Some pb" "ma \<noteq> mb" "group pa = group pb" "group pa \<noteq> []"
    and two: "\<And>m p. map_of t m = Some p \<Longrightarrow> group p = group pa \<Longrightarrow> m = ma \<or> m = mb"
    and source: "\<exists>a \<in> set (addresses pb). address a = src"
    and own_source: "\<And>m p a. map_of t m = Some p \<Longrightarrow> a \<in> set (addresses p) \<Longrightarrow> address a = src \<Longrightarrow> m = mb"
    and packet: "getIPProtocol b = Some 1 \<and> getSrcIP b = Some src \<or> getIPProtocol b = Some 2 \<and> map_option ntop6 (getSrcIPv6 b) = Some src"
    and mac: "MACtoBin ma = Some bytes" "length own = 6" "take 6 b = own"
  shows "forward ntop6 table own b = Some (bytes @ own @ drop 12 b, [bytes @ own @ drop 12 b])"
proof -
  have entry: "map_of t m = Some p \<longleftrightarrow> (m, p) \<in> set t" for m p
    using table(1) by (intro map_of_eq_Some_iff) (simp add: map_ok_def strict_sorted_iff)
  have in_entries: "(src, ma) \<in> set (poison_entries t t)"
    unfolding poison_entries_iff using pair source by (auto simp: entry [symmetric])
  have only: "m = ma" if "(src, m) \<in> set (poison_entries t t)" for m
  proof -
    from that obtain p cmp q a where e: "map_of t m = Some p" "map_of t cmp = Some q" "m \<noteq> cmp" "group p = group q"
      "a \<in> set (addresses q)" "address a = src"
      unfolding poison_entries_iff entry [symmetric] by blast
    have c: "cmp = mb" using own_source [OF e(2,5,6)] .
    then have "group p = group pa" using e(2,4) pair(2,4) by simp
    from two [OF e(1) this] show ?thesis using c e(3) by simp
  qed
  have "map_of (rev (poison_entries t t)) src = Some ma"
    by (rule map_of_constant; unfold set_rev; (rule in_entries | erule only))
  then have lookup: "table src = Some (MacBinToInt bytes)"
    using fill_table_lookup [OF table(2) [unfolded constructPoisonTable_def], of src] mac(1) by (simp add: MACToInt_def)
  have len: "14 \<le> length b" using packet by (auto simp: getIPProtocol_def bind_eq_Some_conv)
  have six_bytes: "length bytes = 6" using mac(1) by (rule MACtoBin_length)
  have dst: "getDstMac b = Some (MacBinToInt own)" using len mac(3) by (simp add: getDstMac_def vec_slice_def)
  have set1: "setDstMac (MacBinToInt bytes) b = Some (bytes @ drop 6 b)"
    using len int_bytes [OF six_bytes] by (simp add: setDstMac_def)
  have "map (\<lambda>i. own ! i) [0..<6] = own" using mac(2) map_nth [of own] by simp
  then have set2: "setSrcMac own (bytes @ drop 6 b) = Some (bytes @ own @ drop 12 b)"
    using len six_bytes by (simp add: setSrcMac_def)
  from packet show ?thesis
    by (elim disjE conjE) (simp_all add: forward_def dst lookup set1 set2 del: map_option_eq_Some)
qed

text \<open>
  The interceptor passes a packet that it is sent by one of two paired devices on to the other one, from its own
  address and with the rest of the packet unchanged, when no third device is in the group and the
  source address belongs to no other device.
\<close>

theorem paired_packet_forwarded:
  assumes table: "map_ok t" "constructPoisonTable t = Some table"
    and pair: "map_of t ma = Some pa" "map_of t mb = Some pb" "ma \<noteq> mb" "group pa = group pb" "group pa \<noteq> []"
    and two: "\<And>m p. map_of t m = Some p \<Longrightarrow> group p = group pa \<Longrightarrow> m = ma \<or> m = mb"
    and source: "\<exists>a \<in> set (addresses pb). address a = src"
    and own_source: "\<And>m p a. map_of t m = Some p \<Longrightarrow> a \<in> set (addresses p) \<Longrightarrow> address a = src \<Longrightarrow> m = mb"
    and packet: "getIPProtocol b = Some 1 \<and> getSrcIP b = Some src \<or> getIPProtocol b = Some 2 \<and> map_option ntop6 (getSrcIPv6 b) = Some src"
    and mac: "MACtoBin ma = Some bytes" "length own = 6" "take 6 b = own"
  shows "forward ntop6 table own b = Some (bytes @ own @ drop 12 b, [bytes @ own @ drop 12 b])"
  by (rule paired_forward [OF table pair two source own_source packet mac])

theorem paired_packet_forwarded_witness:
  "\<exists>table. constructPoisonTable
      [(''0000.0000.0001'', \<lparr>group = ''g'', addresses = [\<lparr>ipv4 = True, address = ''10.0.0.1''\<rparr>]\<rparr>),
       (''0000.0000.0002'', \<lparr>group = ''g'', addresses = [\<lparr>ipv4 = True, address = ''10.0.0.2''\<rparr>]\<rparr>)] = Some table
    \<and> forward (\<lambda>_. []) table [9, 9, 9, 9, 9, 9] ([9, 9, 9, 9, 9, 9, 0, 0, 0, 0, 0, 2, 8, 0] @ replicate 12 0 @ [10, 0, 0, 2, 10, 0, 0, 1])
      = Some ([0, 0, 0, 0, 0, 1, 9, 9, 9, 9, 9, 9, 8, 0] @ replicate 12 0 @ [10, 0, 0, 2, 10, 0, 0, 1],
              [[0, 0, 0, 0, 0, 1, 9, 9, 9, 9, 9, 9, 8, 0] @ replicate 12 0 @ [10, 0, 0, 2, 10, 0, 0, 1]])"
proof -
  let ?a = "''0000.0000.0001''" and ?b = "''0000.0000.0002''"
  let ?pa = "\<lparr>group = ''g'', addresses = [\<lparr>ipv4 = True, address = ''10.0.0.1''\<rparr>]\<rparr>"
  let ?pb = "\<lparr>group = ''g'', addresses = [\<lparr>ipv4 = True, address = ''10.0.0.2''\<rparr>]\<rparr>"
  let ?t = "[(?a, ?pa), (?b, ?pb)]"
  let ?p = "[9, 9, 9, 9, 9, 9, 0, 0, 0, 0, 0, 2, 8, 0] @ replicate 12 0 @ [10, 0, 0, 2, 10, 0, 0, 1] :: byte list"
  have bytes: "MACtoBin ?a = Some [0, 0, 0, 0, 0, 1]" "MACtoBin ?b = Some [0, 0, 0, 0, 0, 2]" by code_simp+
  have sorted: "map_ok ?t" by code_simp
  obtain table where table: "constructPoisonTable ?t = Some table"
    by (simp add: constructPoisonTable_def MACToInt_def bytes)
  have packet: "getIPProtocol ?p = Some 1" "getSrcIP ?p = Some ''10.0.0.2''" by code_simp+
  have "forward (\<lambda>_. []) table [9, 9, 9, 9, 9, 9] ?p = Some ([0, 0, 0, 0, 0, 1] @ [9, 9, 9, 9, 9, 9] @ drop 12 ?p,
      [[0, 0, 0, 0, 0, 1] @ [9, 9, 9, 9, 9, 9] @ drop 12 ?p])"
    by (rule paired_packet_forwarded [OF sorted table, of ?a ?pa ?b ?pb "''10.0.0.2''"])
      (use packet bytes in \<open>auto split: if_splits\<close>)
  then show ?thesis using table by simp
qed

section \<open>The spoofing is undone\<close>

lemma reply_again: "arp_reply a b c d (arp_reply a' b' c' d' p) = arp_reply a b c d p"
  by (simp add: arp_reply_def Arp_fillBuffer_def arp_header_bytes_def)

lemma replies_map:
  "fst (replies to_bin own send mac ips packet) = map (\<lambda>ip. arp_reply (snd (to_bin (address ip))) own send mac packet) ips
    \<and> (\<forall>a b c d. arp_reply a b c d (snd (replies to_bin own send mac ips packet)) = arp_reply a b c d packet)"
proof (induction ips arbitrary: packet)
  case (Cons ip ips)
  then show ?case by (simp add: reply_again Let_def)
qed simp

lemma reply_frame:
  assumes "length m = 6" "length dm = 6"
  shows "getDstMac (arp_buffer (arp_reply i m s dm Arp_new)) = Some (MacBinToInt dm)"
    "length s \<ge> 4 \<Longrightarrow> arp_buffer (Arp_modifySrcMac m' (arp_reply i m s dm Arp_new)) = arp_buffer (arp_reply i m' s dm Arp_new)"
  using assms
  by (simp_all add: arp_reply_def Arp_fillBuffer_def Arp_modifySrcMac_def arp_header_bytes_def Arp_new_def be_bytes_def mac_len_def ipv4_len_def
      getDstMac_def vec_slice_def)

text \<open>The address and the MAC of the sender that an ARP frame announces.\<close>

definition announces :: "eth_frame \<Rightarrow> byte list \<times> byte list" where
  "announces f = (take 4 (drop 28 f), take 6 (drop 22 f))"

lemma reply_announces:
  "length i = 4 \<Longrightarrow> length m = 6 \<Longrightarrow> length dm = 6 \<Longrightarrow> announces (arp_buffer (arp_reply i m s dm Arp_new)) = (i, m)"
  by (simp add: announces_def arp_reply_def Arp_fillBuffer_def arp_header_bytes_def Arp_new_def be_bytes_def mac_len_def ipv4_len_def)

lemma MacBinToInt_inject:
  "length a = 6 \<Longrightarrow> length b = 6 \<Longrightarrow> MacBinToInt a = MacBinToInt b \<longleftrightarrow> a = b"
  using int_bytes [of a] int_bytes [of b] by metis

text \<open>The address of a device, as the bytes of one of its usable addresses, with its MAC.\<close>

definition owned :: "(string \<Rightarrow> nat \<times> byte list) \<Rightarrow> byte list \<Rightarrow> ipAddress list \<Rightarrow> (byte list \<times> byte list) set" where
  "owned to_bin mac ips = (\<lambda>ip. (snd (to_bin (address ip)), mac)) ` set (usable to_bin 1 ips)"

lemma prepared:
  assumes "length m1 = 6" "length m2 = 6"
    and "prepareARPPackets to_bin own (\<lparr>dev_mac = getMAC m1, dev_addresses = as1\<rparr>, \<lparr>dev_mac = getMAC m2, dev_addresses = as2\<rparr>) = Some ps"
    and "ps \<noteq> []"
  obtains s1 s2 where
    "ps = map (\<lambda>ip. arp_reply (snd (to_bin (address ip))) own s2 m2 Arp_new) (usable to_bin 1 as1)
       @ map (\<lambda>ip. arp_reply (snd (to_bin (address ip))) own s1 m1 Arp_new) (usable to_bin 1 as2)"
proof -
  let ?f1 = "first_of to_bin 1 as1" and ?f2 = "first_of to_bin 1 as2"
  obtain ip1 ip2 where f: "?f1 = Some ip1" "?f2 = Some ip2"
    using assms(3,4) by (cases ?f1; cases ?f2) (simp_all add: prepareARPPackets_def del: One_nat_def)
  let ?s1 = "snd (to_bin (address ip1))" and ?s2 = "snd (to_bin (address ip2))"
  let ?r = "replies to_bin own ?s2 m2 (usable to_bin 1 as1) Arp_new"
  have "ps = fst ?r @ fst (replies to_bin own ?s1 m1 (usable to_bin 1 as2) (snd ?r))"
    using assms(3) by (simp add: prepareARPPackets_def f MACtoBin_getMAC assms(1,2) Let_def split_beta del: One_nat_def)
  then have "ps = map (\<lambda>ip. arp_reply (snd (to_bin (address ip))) own ?s2 m2 Arp_new) (usable to_bin 1 as1)
       @ map (\<lambda>ip. arp_reply (snd (to_bin (address ip))) own ?s1 m1 Arp_new) (usable to_bin 1 as2)"
    using replies_map [of to_bin own ?s2 m2 "usable to_bin 1 as1" Arp_new] replies_map [of to_bin own ?s1 m1 "usable to_bin 1 as2" "snd ?r"]
    by simp
  then show thesis by (rule that)
qed

text \<open>
  C29. After the signal the mass spoofer takes back what it has announced over ARP to a pair of devices: each address that it claimed for itself is announced
  again, and only with the MAC of the device that has it.
\<close>

theorem spoofing_is_undone:
  assumes macs: "length m1 = 6" "length m2 = 6" "m1 \<noteq> m2" "length own = 6"
    and bin: "\<And>t. fst (to_bin t) = 1 \<Longrightarrow> length (snd (to_bin t)) = 4"
    and run: "massRunARP rounds to_bin own (\<lparr>dev_mac = getMAC m1, dev_addresses = as1\<rparr>, \<lparr>dev_mac = getMAC m2, dev_addresses = as2\<rparr>)
      = Some (sent, restored)"
  shows "announces ` set restored \<subseteq> owned to_bin m1 as1 \<union> owned to_bin m2 as2
    \<and> fst ` announces ` set sent \<subseteq> fst ` announces ` set restored"
proof -
  obtain ps where ps: "prepareARPPackets to_bin own (\<lparr>dev_mac = getMAC m1, dev_addresses = as1\<rparr>, \<lparr>dev_mac = getMAC m2, dev_addresses = as2\<rparr>) = Some ps"
    using run by (auto simp: massRunARP_def bind_eq_Some_conv)
  show ?thesis
  proof (cases "ps = []")
    case True
    then show ?thesis using run ps by (simp add: massRunARP_def)
  next
    case False
    from prepared [OF macs(1,2) ps False] obtain s1 s2 where
      e: "ps = map (\<lambda>ip. arp_reply (snd (to_bin (address ip))) own s2 m2 Arp_new) (usable to_bin 1 as1)
         @ map (\<lambda>ip. arp_reply (snd (to_bin (address ip))) own s1 m1 Arp_new) (usable to_bin 1 as2)" .
    have out: "sent = concat (replicate rounds (map arp_buffer ps))" "restored = concat (map (restore m1 m2) ps)"
      using run ps False by (simp_all add: massRunARP_def MACtoBin_getMAC macs(1,2))
    have len: "length (snd (to_bin (address ip))) = 4" if "ip \<in> set (usable to_bin 1 as)" for ip as
      using that bin by (simp add: usable_def)
    have r1: "restore m1 m2 (arp_reply i own s2 m2 Arp_new) = [arp_buffer (Arp_modifySrcMac m1 (arp_reply i own s2 m2 Arp_new))]" for i
      using macs reply_frame(1) [OF macs(4,2)] by (simp add: restore_def MacBinToInt_inject)
    have r2: "restore m1 m2 (arp_reply i own s1 m1 Arp_new) = [arp_buffer (Arp_modifySrcMac m2 (arp_reply i own s1 m1 Arp_new))]" for i
      using macs reply_frame(1) [OF macs(4,1)] by (simp add: restore_def)
    have a: "announces (arp_buffer (Arp_modifySrcMac m (arp_reply i own s dm Arp_new))) = (i, m)"
      "announces (arp_buffer (arp_reply i own s dm Arp_new)) = (i, own)"
      if "length i = 4" "length m = 6" "length dm = 6" for i m s dm
      using that macs(4) reply_announces [of i own dm]
      by (simp_all add: announces_def Arp_modifySrcMac_def arp_reply_def Arp_fillBuffer_def arp_header_bytes_def Arp_new_def be_bytes_def
          mac_len_def ipv4_len_def)
    have res: "announces ` set restored = owned to_bin m1 as1 \<union> owned to_bin m2 as2"
      unfolding out(2) e owned_def using len a(1) macs(1,2) by (simp add: r1 r2 image_Un image_image comp_def cong: image_cong)
    have "fst ` announces ` set (map arp_buffer ps) = fst ` (owned to_bin m1 as1 \<union> owned to_bin m2 as2)"
      unfolding e owned_def using len a(2) macs by (simp add: image_Un image_image cong: image_cong)
    moreover have "set sent \<subseteq> set (map arp_buffer ps)" unfolding out(1) by auto
    ultimately show ?thesis unfolding res by blast
  qed
qed

theorem spoofing_is_undone_witness:
  "\<exists>sent restored. massRunARP 2 (\<lambda>t. if t = ''10.0.0.1'' then (1, [10, 0, 0, 1]) else if t = ''10.0.0.2'' then (1, [10, 0, 0, 2]) else (0, []))
      [9, 9, 9, 9, 9, 9]
      (\<lparr>dev_mac = getMAC [0, 0, 0, 0, 0, 1], dev_addresses = [\<lparr>ipv4 = True, address = ''10.0.0.1''\<rparr>]\<rparr>,
       \<lparr>dev_mac = getMAC [0, 0, 0, 0, 0, 2], dev_addresses = [\<lparr>ipv4 = True, address = ''10.0.0.2''\<rparr>]\<rparr>) = Some (sent, restored)
    \<and> announces ` set restored \<subseteq> {([10, 0, 0, 1], [0, 0, 0, 0, 0, 1]), ([10, 0, 0, 2], [0, 0, 0, 0, 0, 2])}"
proof -
  let ?bin = "\<lambda>t. if t = ''10.0.0.1'' then (1 :: nat, [10, 0, 0, 1]) else if t = ''10.0.0.2'' then (1, [10, 0, 0, 2]) else (0, []) :: nat \<times> byte list"
  let ?as1 = "[\<lparr>ipv4 = True, address = ''10.0.0.1''\<rparr>]" and ?as2 = "[\<lparr>ipv4 = True, address = ''10.0.0.2''\<rparr>]"
  let ?ds = "(\<lparr>dev_mac = getMAC [0, 0, 0, 0, 0, 1], dev_addresses = ?as1\<rparr>, \<lparr>dev_mac = getMAC [0, 0, 0, 0, 0, 2], dev_addresses = ?as2\<rparr>)"
  have prepared: "prepareARPPackets ?bin [9, 9, 9, 9, 9, 9] ?ds \<noteq> None"
    by (simp add: prepareARPPackets_def first_of_def MACtoBin_getMAC split_beta Let_def)
  then obtain ps where ps: "prepareARPPackets ?bin [9, 9, 9, 9, 9, 9] ?ds = Some ps" by blast
  have "massRunARP 2 ?bin [9, 9, 9, 9, 9, 9] ?ds \<noteq> None"
    unfolding massRunARP_def ps by (simp add: MACtoBin_getMAC)
  then obtain sent restored where run: "massRunARP 2 ?bin [9, 9, 9, 9, 9, 9] ?ds = Some (sent, restored)" by fast
  have bin: "length (snd (?bin t)) = 4" if "fst (?bin t) = 1" for t
    using that by (auto split: if_splits)
  have "announces ` set restored \<subseteq> owned ?bin [0, 0, 0, 0, 0, 1] ?as1 \<union> owned ?bin [0, 0, 0, 0, 0, 2] ?as2"
    by (rule spoofing_is_undone [OF _ _ _ _ bin run, THEN conjunct1]) simp_all
  moreover have "owned ?bin [0, 0, 0, 0, 0, 1] ?as1 \<union> owned ?bin [0, 0, 0, 0, 0, 2] ?as2
      = {([10, 0, 0, 1], [0, 0, 0, 0, 0, 1]), ([10, 0, 0, 2], [0, 0, 0, 0, 0, 2])}"
    by (auto simp: owned_def usable_def)
  ultimately show ?thesis using run by blast
qed

text \<open>So does the spoofer for two victims, over ARP.\<close>

lemma two_victims_restored:
  assumes "Spoofer_new to_bin ARP ip1 mac1 ip2 mac2 = Inr s" "Spoofer_run n1 n2 pton6 own ARP s = Some (a, b, c)" "length own = 6"
    and bin: "\<And>t. fst (to_bin t) = 1 \<Longrightarrow> length (snd (to_bin t)) = 4"
  shows "map announces c = [(vic1_ip s, vic1_mac s), (vic2_ip s, vic2_mac s)]
    \<and> announces ` set a \<subseteq> {(vic1_ip s, own)} \<and> announces ` set b \<subseteq> {(vic2_ip s, own)}"
proof -
  obtain m1 m2 where m: "MACtoBin mac1 = Some m1" "MACtoBin mac2 = Some m2" and k: "fst (to_bin ip1) = 1" "fst (to_bin ip2) = 1"
    and s: "vic1_ip s = snd (to_bin ip1)" "vic1_mac s = m1" "vic2_ip s = snd (to_bin ip2)" "vic2_mac s = m2"
    using assms(1) by (auto simp: Spoofer_new_def Let_def split: option.splits prod.splits if_splits)
  note len = bin [OF k(1)] bin [OF k(2)] MACtoBin_length [OF m(1)] MACtoBin_length [OF m(2)]
  show ?thesis
    using assms(2) len assms(3)
    by (auto simp: Spoofer_run_def refreshARPCache_def poisonARP_def s reply_announces)
qed

section \<open>The answers in the table\<close>

definition addresses_at :: "ScanTable \<Rightarrow> string \<Rightarrow> ipAddress set" where
  "addresses_at t mac = (case map_of t mac of None \<Rightarrow> {} | Some p \<Rightarrow> set (addresses p))"

lemma change_properties_ok: "map_ok t \<Longrightarrow> map_ok (change_properties mac f t)"
  by (auto simp: change_properties_def map_at_def map_ok_put split: option.splits)

lemma addresses_change:
  "map_ok t \<Longrightarrow> addresses_at (change_properties mac (insert_address a) t) m
    = (if m = mac then insert a (addresses_at t m) else addresses_at t m)"
  by (auto simp: addresses_at_def change_properties_def map_at_def map_ok_put map_of_put insert_address_def no_properties_def
      set_set_insert split: option.splits)

text \<open>The answer of a device to the scanner.\<close>

definition answer :: "byte list \<Rightarrow> byte list \<Rightarrow> byte list \<times> byte list \<Rightarrow> eth_frame" where
  "answer own_ip own_mac = (\<lambda>(ip, mac). arp_buffer (arp_reply ip mac own_ip own_mac Arp_new))"

lemma answer_received:
  assumes "length ip = 4" "length mac = 6" "length own_ip = 4" "length own_mac = 6"
  shows "recvResponses ((answer own_ip own_mac (ip, mac), False) # es) b t =
    recvResponses es (receive_into (answer own_ip own_mac (ip, mac)) b)
      (change_properties (getMAC mac) (insert_address \<lparr>ipv4 = True, address = getIP ip\<rparr>) t)"
  using assms
  by (simp add: answer_def arp_reply_def Arp_fillBuffer_def arp_header_bytes_def Arp_new_def be_bytes_def mac_len_def ipv4_len_def
      receive_into_def Let_def nth_append be16_def)

text \<open>
  When devices answer the scanner, the table has exactly the addresses that each MAC has answered for, on top
  of those that it had before.
\<close>

theorem answers_in_table:
  assumes "map_ok t" "length own_ip = 4" "length own_mac = 6" "list_all (\<lambda>(ip, mac). length ip = 4 \<and> length mac = 6) rs"
  shows "map_ok (recvResponses (map (\<lambda>r. (answer own_ip own_mac r, False)) rs) b t)
    \<and> addresses_at (recvResponses (map (\<lambda>r. (answer own_ip own_mac r, False)) rs) b t) m
      = addresses_at t m \<union> (\<lambda>(ip, mac). \<lparr>ipv4 = True, address = getIP ip\<rparr>) ` {r \<in> set rs. getMAC (snd r) = m}"
  using assms(1,4)
proof (induction rs arbitrary: b t)
  case (Cons r rs)
  obtain ip mac where r: "r = (ip, mac)" by fastforce
  let ?t = "change_properties (getMAC mac) (insert_address \<lparr>ipv4 = True, address = getIP ip\<rparr>) t"
  have l: "length ip = 4" "length mac = 6" using Cons.prems(2) by (simp_all add: r)
  have "{x \<in> set (r # rs). getMAC (snd x) = m} = (if getMAC mac = m then {r} else {}) \<union> {x \<in> set rs. getMAC (snd x) = m}"
    by (auto simp: r)
  then show ?case
    using Cons.IH [of ?t "receive_into (answer own_ip own_mac r) b"] Cons.prems change_properties_ok [OF Cons.prems(1)]
      answer_received [OF l assms(2,3), of "map (\<lambda>r. (answer own_ip own_mac r, False)) rs" b t] addresses_change [OF Cons.prems(1)]
    by (auto simp: r simp del: recvResponses.simps)
qed simp

theorem answers_in_table_witness:
  "addresses_at (recvResponses [(answer [10, 0, 0, 7] [1, 2, 3, 4, 5, 6] ([10, 0, 0, 1], [0, 0, 0, 0, 0, 1]), False)] (replicate 65535 0) [])
     (getMAC [0, 0, 0, 0, 0, 1]) = {\<lparr>ipv4 = True, address = getIP [10, 0, 0, 1]\<rparr>}"
proof -
  have one: "{r \<in> set [([10, 0, 0, 1], [0, 0, 0, 0, 0, 1])]. getMAC (snd r) = getMAC [0, 0, 0, 0, 0, 1]}
      = {([10, 0, 0, 1], [0, 0, 0, 0, 0, 1 :: byte]) :: byte list \<times> byte list}" by auto
  have e: "addresses_at [] m = {}" for m by (simp add: addresses_at_def)
  show ?thesis
    using answers_in_table [of "[]" "[10, 0, 0, 7]" "[1, 2, 3, 4, 5, 6]" "[([10, 0, 0, 1], [0, 0, 0, 0, 0, 1])]"
        "replicate 65535 0" "getMAC [0, 0, 0, 0, 0, 1]"] unfolding one e by simp
qed

section \<open>The chosen pair\<close>

lemma map_of_change:
  "map_ok t \<Longrightarrow> map_of (change_properties mac f t) m
    = (if m = mac then Some (f (case map_of t mac of None \<Rightarrow> no_properties | Some p \<Rightarrow> p)) else map_of t m)"
  by (auto simp: change_properties_def map_at_def map_ok_put map_of_put split: option.splits)

lemma map_ok_entries: "map_ok t \<Longrightarrow> map_of t m = Some p \<longleftrightarrow> (m, p) \<in> set t"
  by (intro map_of_eq_Some_iff) (simp add: map_ok_def strict_sorted_iff)

lemma chosen_table:
  assumes t: "map_ok t" "list_all entry_ok t" "list_all (\<lambda>(m, p). group p = []) t"
    and ij: "unat i < length t" "unat j < length t" "i \<noteq> j"
    and c: "choose_group i j name t = Some t'"
  obtains a b p q g where "t ! unat i = (a, p)" "t ! unat j = (b, q)" "a \<noteq> b" "g \<noteq> []" "g = (if name = [] then a @ ''-'' @ b else name)" "map_ok t'"
    "\<And>m. map_of t' m = (if m = a then Some (p\<lparr>group := g\<rparr>) else if m = b then Some (q\<lparr>group := g\<rparr>) else map_of t m)"
proof -
  obtain a p b q where ab: "t ! unat i = (a, p)" "t ! unat j = (b, q)" by fastforce
  have "distinct (map fst t)" using t(1) by (simp add: map_ok_def strict_sorted_iff)
  moreover have "unat i \<noteq> unat j" using ij(3) by (metis unsigned_word_eqI)
  ultimately have ne: "a \<noteq> b" using ij(1,2) ab by (metis fst_conv length_map nth_eq_iff_index_eq nth_map)
  have in_t: "(a, p) \<in> set t" "(b, q) \<in> set t" using ij ab by (metis nth_mem)+
  then have m: "map_of t a = Some p" "map_of t b = Some q" using map_ok_entries [OF t(1)] by simp_all
  define g where "g = (if name = [] then a @ ''-'' @ b else name)"
  have t': "t' = change_properties b (\<lambda>p. p\<lparr>group := g\<rparr>) (change_properties a (\<lambda>p. p\<lparr>group := g\<rparr>) t)"
    using c ij by (simp add: choose_group_def ab Let_def g_def)
  show thesis
  proof (rule that [OF ab ne])
    show "g \<noteq> []" "g = (if name = [] then a @ ''-'' @ b else name)" by (simp_all add: g_def)
    show "map_ok t'" unfolding t' by (intro change_properties_ok t)
    show "map_of t' m = (if m = a then Some (p\<lparr>group := g\<rparr>) else if m = b then Some (q\<lparr>group := g\<rparr>) else map_of t m)" for m
      unfolding t' using m ne by (simp add: map_of_change change_properties_ok t(1))
  qed
qed

end
