(* ===== verification/Crc.thy ===== *)
theory Crc
  imports Prelude
begin

text \<open>
  The CRC of \<^verbatim>\<open>BMS/proj1/lib/crcgen.c\<close>, a simulation of the shift register for CRC-CCITT. The theorem:
  a message with its checksum appended has the checksum zero, and a receiver that computes it detects
  any single damaged byte.
\<close>

section \<open>The generator\<close>

text \<open>The loop with its counter; \<open>accum\<close> and \<open>data\<close> are 16-bit words.\<close>

fun crc_bits :: "nat \<Rightarrow> u16 \<Rightarrow> u16 \<Rightarrow> u16 \<Rightarrow> u16" where
  "crc_bits 0 data genpoly accum = accum"
| "crc_bits (Suc i) data genpoly accum =
     (let accum' = (if (data XOR accum) AND 0x8000 \<noteq> 0 then push_bit 1 accum XOR genpoly else push_bit 1 accum)
      in crc_bits i (push_bit 1 data) genpoly accum')"

definition crchware :: "u16 \<Rightarrow> u16 \<Rightarrow> u16 \<Rightarrow> u16" where
  "crchware data genpoly accum = crc_bits 8 (push_bit 8 data) genpoly accum"

fun crc_from :: "byte list \<Rightarrow> u16 \<Rightarrow> u16" where
  "crc_from [] acc = acc"
| "crc_from (b # msg) acc = crc_from msg (crchware (ucast b) 0x1021 acc)"

definition crc_ccitt :: "byte list \<Rightarrow> u16" where
  "crc_ccitt msg = crc_from msg 0"

section \<open>One register instead of two\<close>

text \<open>A step of the division, on the exclusive or of both registers.\<close>

definition division_step :: "u16 \<Rightarrow> u16" where
  "division_step s = push_bit 1 s XOR (if bit s 15 then 0x1021 else 0)"

lemma top_bit: "(w :: u16) AND 0x8000 \<noteq> 0 \<longleftrightarrow> bit w 15"
  using and_exp_eq_0_iff_not_bit [of w 15] by simp

lemma crc_bits_division:
  "crc_bits n data 0x1021 acc XOR push_bit n data = (division_step ^^ n) (data XOR acc)"
proof (induction n arbitrary: data acc)
  case 0
  show ?case by (simp add: xor.commute)
next
  case (Suc n)
  define acc' where "acc' = (if (data XOR acc) AND 0x8000 \<noteq> 0 then push_bit 1 acc XOR 0x1021 else push_bit 1 acc)"
  have "push_bit 1 data XOR acc' = division_step (data XOR acc)"
    unfolding acc'_def division_step_def top_bit by (simp add: push_bit_xor xor.assoc xor.commute xor.left_commute)
  then show ?case
    using Suc.IH [of "push_bit 1 data" acc'] by (simp add: acc'_def [symmetric] funpow_Suc_right del: funpow.simps)
qed

lemma crchware_division: "crchware (ucast (b :: byte)) 0x1021 acc = (division_step ^^ 8) (push_bit 8 (ucast b) XOR acc)"
proof -
  have "push_bit 8 (push_bit 8 (ucast b :: u16)) = 0"
    by (rule bit_word_eqI) (simp add: bit_push_bit_iff)
  then show ?thesis
    using crc_bits_division [of 8 "push_bit 8 (ucast b)" acc] by (simp add: crchware_def)
qed

lemma division_zero: "(division_step ^^ n) 0 = 0"
  by (induction n) (simp_all add: division_step_def)

lemma division_xor: "(division_step ^^ n) (s XOR t) = (division_step ^^ n) s XOR (division_step ^^ n) t"
proof (induction n)
  case (Suc n)
  have "division_step (a XOR b) = division_step a XOR division_step b" for a b
    by (simp add: division_step_def bit_xor_iff push_bit_xor xor.assoc xor.left_commute)
  then show ?case using Suc by simp
qed simp

lemma crc_from_append: "crc_from (xs @ ys) acc = crc_from ys (crc_from xs acc)"
  by (induction xs arbitrary: acc) simp_all

text \<open>The bits of a byte are shifted out one after the other while the upper byte of the register is zero.\<close>

lemma low_byte_shifts:
  assumes "n \<le> 8"
  shows "(division_step ^^ n) (ucast (b :: byte)) = push_bit n (ucast b)"
  using assms
proof (induction n)
  case (Suc n)
  have "\<not> bit (push_bit n (ucast b :: u16)) 15"
    using Suc.prems by (auto simp: bit_push_bit_iff bit_ucast_iff dest: bit_imp_le_length)
  then show ?case using Suc by (simp add: division_step_def push_bit_double)
qed simp

definition crc_bytes :: "u16 \<Rightarrow> byte list" where
  "crc_bytes c = [ucast (drop_bit 8 c), ucast c]"

lemma crc_of_own_bytes: "crc_from (crc_bytes c) c = 0"
proof -
  have hi: "push_bit 8 (ucast (ucast (drop_bit 8 c) :: byte)) XOR c = ucast (ucast c :: byte)"
    by (rule bit_word_eqI) (auto simp: bit_xor_iff bit_push_bit_iff bit_ucast_iff bit_drop_bit_eq)
  have "crchware (ucast (ucast (drop_bit 8 c) :: byte)) 0x1021 c = push_bit 8 (ucast (ucast c :: byte))"
    unfolding crchware_division hi by (rule low_byte_shifts) simp
  then show ?thesis by (simp add: crc_bytes_def crchware_division division_zero)
qed

text \<open>No step loses information: the register before it can be read from the register after it.\<close>

lemma division_step_inj: "division_step s = 0 \<Longrightarrow> s = 0"
proof (cases "bit s 15")
  case True
  assume z: "division_step s = 0"
  have "bit (division_step s) 0" using True by (simp add: division_step_def bit_0 even_xor_iff)
  then show ?thesis using z by simp
next
  case False
  assume "division_step s = 0"
  then have p: "push_bit 1 s = 0" using False by (simp add: division_step_def)
  show ?thesis
  proof (rule bit_word_eqI)
    fix n assume n: "n < LENGTH(16)"
    show "bit s n = bit (0 :: u16) n"
    proof (cases "n = 15")
      case True
      then show ?thesis using False by simp
    next
      case ne: False
      have "n + 1 < LENGTH(16)" using n ne by simp
      then have "bit s n \<longleftrightarrow> bit (push_bit 1 s) (n + 1)"
        unfolding bit_push_bit_iff by (auto simp: possible_bit_word)
      then show ?thesis unfolding p by simp
    qed
  qed
qed

lemma division_inj: "(division_step ^^ n) s = 0 \<Longrightarrow> s = 0"
proof (induction n)
  case (Suc n)
  then show ?case using division_step_inj by simp
qed simp

lemma crc_from_xor_acc: "crc_from msg (acc XOR d) = crc_from msg acc XOR (division_step ^^ (8 * length msg)) d"
proof (induction msg arbitrary: acc d)
  case (Cons b msg)
  have "crchware (ucast b) 0x1021 (acc XOR d) = crchware (ucast b) 0x1021 acc XOR (division_step ^^ 8) d"
    unfolding crchware_division by (simp add: division_xor [symmetric] xor.assoc)
  then show ?case using Cons.IH [of "crchware (ucast b) 0x1021 acc" "(division_step ^^ 8) d"]
    by (simp add: funpow_add [symmetric, THEN fun_cong, unfolded comp_def] add.commute)
qed simp

lemma crc_of_word: "crc_ccitt (msg @ crc_bytes (crc_ccitt msg)) = 0"
  by (simp add: crc_ccitt_def crc_from_append crc_of_own_bytes)

text \<open>
  C40. A message followed by the two bytes of its checksum, the upper one first, has the checksum zero; when one byte of
  that word is damaged, wherever it is, the checksum is not zero.
\<close>

theorem crc_detects_damage:
  assumes w: "xs @ b # ys = msg @ crc_bytes (crc_ccitt msg)" and ne: "b' \<noteq> b"
  shows "crc_ccitt (xs @ b # ys) = 0 \<and> crc_ccitt (xs @ b' # ys) \<noteq> 0"
proof -
  define d where "d = push_bit 8 (ucast b XOR ucast b' :: u16)"
  define acc where "acc = crc_from xs 0"
  have "d \<noteq> 0"
  proof
    assume "d = 0"
    have "bit b n = bit b' n" if "n < 8" for n
    proof -
      have "bit d (8 + n) = (bit b n \<noteq> bit b' n)"
        using that by (simp add: d_def bit_push_bit_iff bit_xor_iff bit_ucast_iff)
      then show ?thesis using \<open>d = 0\<close> by simp
    qed
    then have "b = b'" by (intro bit_word_eqI) simp
    then show False using ne by simp
  qed
  then have nz: "(division_step ^^ (8 * length ys)) ((division_step ^^ 8) d) \<noteq> 0" using division_inj by blast
  have "push_bit 8 (ucast b') XOR acc = (push_bit 8 (ucast b) XOR acc) XOR d"
    by (simp add: d_def push_bit_xor xor.assoc xor.commute xor.left_commute)
  then have "crchware (ucast b') 0x1021 acc = crchware (ucast b) 0x1021 acc XOR (division_step ^^ 8) d"
    unfolding crchware_division by (simp only: division_xor)
  then have "crc_ccitt (xs @ b' # ys) = crc_ccitt (xs @ b # ys) XOR (division_step ^^ (8 * length ys)) ((division_step ^^ 8) d)"
    by (simp add: crc_ccitt_def crc_from_append acc_def [symmetric] crc_from_xor_acc)
  moreover have "crc_ccitt (xs @ b # ys) = 0" unfolding w by (rule crc_of_word)
  ultimately show ?thesis using nz by simp
qed

theorem crc_detects_damage_witness: "crc_ccitt ([49] @ 50 # crc_bytes (crc_ccitt [49, 50])) = 0 \<and> crc_ccitt ([49] @ 51 # crc_bytes (crc_ccitt [49, 50])) \<noteq> 0"
  by (rule crc_detects_damage [of _ _ _ "[49, 50]"]) simp_all

end
