(* ===== verification/Spec2Isabelle.thy ===== *)
theory Spec2Isabelle
  imports Block_Codec Demultiplexor User_Client Http_Client Search_Tree Tree_Walks Hash_Table Array_Queue Double_List Single_List
    Enumeration_Sort Mesh_Multiplication River_Safety Steganography Fold_Text Ticket_Lock Shell Word_Pattern Bitmap_Shapes
    Login_Server Cell_Automaton Devices Crc
begin

text \<open>
  Verification of the C and C++ programs of the repository, a collection of school projects. Every directory under
  \<^verbatim>\<open>src/\<close> is a project of its own; the programs do not call each other, but the parts of one project do, and
  each theory imports the parts that its code uses. Every theory begins with the files that it models; its definitions have the
  names of the functions and the types of the code, in the order of the code, and its theorems follow.

  \<^bold>\<open>Shared.\<close> \<^verbatim>\<open>Prelude\<close> has the machine types, array access and the lemmas on loops over arrays;
  \<^verbatim>\<open>C_Numbers\<close> the numbers of the C library, \<^verbatim>\<open>Http_Text\<close> those of the C++ library;
  \<^verbatim>\<open>Std_Map\<close> the sorted maps and sets of C++, with the locales of a finite map and of one with deletion;
  \<^verbatim>\<open>Cursor_List\<close> the locale of a list with an active place and the heap of its elements;
  \<^verbatim>\<open>Message_Passing\<close> the runs of processes that communicate by MPI.

  \<^bold>\<open>BMS/proj1, error-correcting code.\<close> \<^verbatim>\<open>Galois\<close> (\<^verbatim>\<open>galois.c\<close>) interprets the
  field of \<^verbatim>\<open>Byte_Field\<close>; \<^verbatim>\<open>Reed_Solomon\<close> (\<^verbatim>\<open>rs.c\<close>) shows that encoded words
  have no syndromes, \<^verbatim>\<open>Berlekamp\<close> (\<^verbatim>\<open>berlekamp.c\<close>) that a wrong byte is located and corrected,
  \<^verbatim>\<open>Block_Codec\<close> (\<^verbatim>\<open>Encoder.cpp\<close>, \<^verbatim>\<open>Decoder.cpp\<close>) that files below 512 MiB are
  decoded to themselves, also after a burst of damage, unless their length is a multiple of 146 (a file of one full block is lost);
  \<^verbatim>\<open>Crc\<close> (\<^verbatim>\<open>crcgen.c\<close>) that the checksum detects a damaged byte.

  \<^bold>\<open>BMS/proj2, transport streams.\<close> \<^verbatim>\<open>TS_Packet\<close> (\<^verbatim>\<open>TSPacket.cpp\<close>) and
  \<^verbatim>\<open>Demultiplexor\<close> (\<^verbatim>\<open>Demultiplexor.cpp\<close>, \<^verbatim>\<open>TStream.cpp\<close>): packets, the tables
  of programs and the counting of packets, without the bit rates.

  \<^bold>\<open>IAL, data structures.\<close> \<^verbatim>\<open>Search_Tree\<close> (\<^verbatim>\<open>c401.c\<close>) and
  \<^verbatim>\<open>Hash_Table\<close> (\<^verbatim>\<open>c016.c\<close>) interpret the locale of maps; \<^verbatim>\<open>Double_List\<close>
  (\<^verbatim>\<open>c206.c\<close>) and \<^verbatim>\<open>Single_List\<close> (\<^verbatim>\<open>c201.c\<close>) that of lists with an active
  place, on a heap of cells; \<^verbatim>\<open>Tree_Walks\<close> (\<^verbatim>\<open>c402.c\<close>) equates the walks with a stack with the
  recursive ones; \<^verbatim>\<open>Array_Queue\<close> is \<^verbatim>\<open>c203.c\<close>.

  \<^bold>\<open>IJC.\<close> \<^verbatim>\<open>Bit_Array\<close>, \<^verbatim>\<open>Sieve\<close> and \<^verbatim>\<open>Steganography\<close> are
  \<^verbatim>\<open>proj1\<close>; \<^verbatim>\<open>Word_Count\<close> (\<^verbatim>\<open>io.c\<close>, \<^verbatim>\<open>htab_*.c\<close>,
  \<^verbatim>\<open>wordcount.c\<close>) and \<^verbatim>\<open>Fold_Text\<close> (\<^verbatim>\<open>fold.c\<close>,
  \<^verbatim>\<open>fold2.cc\<close>) are \<^verbatim>\<open>proj2\<close>. \<^bold>\<open>IZP.\<close> \<^verbatim>\<open>Word_Pattern\<close> is
  \<^verbatim>\<open>proj1.c\<close>, \<^verbatim>\<open>Bitmap_Shapes\<close> is \<^verbatim>\<open>proj3.c\<close>.

  \<^bold>\<open>IOS, POS, processes and threads.\<close> \<^verbatim>\<open>River_Crossing\<close>, \<^verbatim>\<open>River_Invariant\<close> and
  \<^verbatim>\<open>River_Safety\<close> are \<^verbatim>\<open>rivercrossing.c\<close> as a relation of steps between the semaphores, with the
  invariant, the safety of the voyages and the end of every run; \<^verbatim>\<open>Ticket_Lock\<close> is \<^verbatim>\<open>POS/proj1\<close> and
  \<^verbatim>\<open>Shell_Parser\<close> with \<^verbatim>\<open>Shell\<close> is \<^verbatim>\<open>POS/proj2\<close>, over all interleavings. The
  lock is right with spurious wakeups as well; the shell only without them, and what one of them does, what a read that fails does, and how both
  programs lose a signal, is shown. \<^bold>\<open>PRL.\<close> \<^verbatim>\<open>Enumeration_Sort\<close> is \<^verbatim>\<open>es.cpp\<close> and
  \<^verbatim>\<open>Mesh_Multiplication\<close> is \<^verbatim>\<open>mm.cpp\<close>: with buffered sends and the number of processes that the
  algorithm asks for, the processes end in every complete run with the right output.

  \<^bold>\<open>IPK, ISA, PDS, networks.\<close> \<^verbatim>\<open>User_Info\<close> and \<^verbatim>\<open>User_Client\<close> are the service of
  \<^verbatim>\<open>IPK/proj1\<close>, \<^verbatim>\<open>Http_Text\<close>, \<^verbatim>\<open>Http_Server\<close> and
  \<^verbatim>\<open>Http_Client\<close> the web server and its client of \<^verbatim>\<open>IPK/proj2\<close>: what the client keeps is what the
  server has, under the conditions that the theorems name: a request is read in one piece, and the bytes of a chunk are taken by the socket before the
  next chunk is put in their place. A write gives the socket what it has room for at once and the rest later, from members that may have changed; that
  a pending chunk is overwritten then is shown too. \<^verbatim>\<open>Login_Server\<close> is \<^verbatim>\<open>ISA\<close>.
  \<^verbatim>\<open>Packets\<close> and \<^verbatim>\<open>Devices\<close> are \<^verbatim>\<open>PDS\<close>; the property on the whole of its
  programs is in this theory. \<^bold>\<open>IMS.\<close> \<^verbatim>\<open>Cell_Automaton\<close> is the simulation of an infection.

  \<^bold>\<open>Conventions.\<close> A value that C leaves undefined (an access outside an array, a null pointer, an iterator that is no longer
  valid) is \<open>None\<close> or a result of its own, and so is an exception. Integers that an input can make wrap around have their width, and the
  theorems name the bounds that they need, for instance a file below 512 MiB or a bitmap of less than \<open>2^31\<close> cells. Unbounded are the
  tickets of \<^verbatim>\<open>POS/proj1\<close> (\<^verbatim>\<open>int\<close> in the code, while the number of passages is
  \<^verbatim>\<open>long\<close>), the shared counters of \<^verbatim>\<open>rivercrossing.c\<close> with the number \<open>2*p\<close> of its
  persons, the column of \<^verbatim>\<open>fold.c\<close>, which overflows only for widths close to \<^verbatim>\<open>INT_MAX\<close>, and lengths
  of files and lists where no theorem names a bound; for these the theorems are about runs that stay below the limits. Loops are recursive functions
  with their termination proved; where a loop may run for ever it is a partial function whose result is \<open>None\<close> then, and the theorems
  state that it ends, or that it does not. Two loops have fuel: that of the block decoder, for which the size of the file is enough, because a pass
  that does not advance by a byte is repeated for ever, and that over the options of \<^verbatim>\<open>User_Client\<close>, which returns with more
  fuel than there are options. Where fuel is used up the result is \<open>None\<close>. Processes and threads are relations of steps, and that a run
  ends is shown by a measure. Functions of the operating system and of libraries (\<^verbatim>\<open>getopt\<close>, \<^verbatim>\<open>malloc\<close>
  as a boolean, \<^verbatim>\<open>MPI\<close> as a condition on the messages that are received, each once and in order, the lookup of users,
  \<^verbatim>\<open>inet_pton\<close>, \<^verbatim>\<open>libxml2\<close>, \<^verbatim>\<open>strtod\<close>, random numbers, the clock) are
  arguments, and what the code expects of them is a named hypothesis. A section that a thread executes under a mutex, or between two semaphores, is
  one step. Numbers of type \<^verbatim>\<open>double\<close>, which occur in the probabilities of \<^verbatim>\<open>IMS\<close>, are rational, but
  the comparison of two ratios, which rounding can change, is an argument. Of \<^verbatim>\<open>libxml2\<close> it is expected only that it reads a
  well-formed document; that the program writes one is proved.

  \<^bold>\<open>Not modelled.\<close> The numerical programs \<^verbatim>\<open>IZP/proj2.c\<close> (square roots and angles) and
  \<^verbatim>\<open>IZG/student.c\<close> (a rasteriser), whose results are floating-point approximations; \<^verbatim>\<open>IMP/Sources\<close>,
  start-up code of the vendor and a loop over the registers of a microcontroller; \<^verbatim>\<open>INP/proj1/mcu\<close>, for the same reason;
  \<^verbatim>\<open>IMS/bitmap_image.hpp\<close>, a library from elsewhere; the texts of help and error messages; opening sockets, creating and
  joining threads, and signal handlers beyond the flag they set. The projects in other languages (PHP, Haskell, Python, VHDL, SQL, Matlab, shell) and
  the documents are outside this development.\<close>

section \<open>From the choice of a pair to its packets\<close>

text \<open>
  C27. The programs of \<^verbatim>\<open>PDS\<close> together: when two devices of a scanned table are put into a group by the chooser and the written file
  is read by the interceptor, a packet that the second device sends to the interceptor goes on to the first one. The strings are plain, and of
  \<^verbatim>\<open>libxml2\<close> it is only expected that it selects the hosts of a well-formed document from its text; that the written file is this text is part
  of the proof.
\<close>

theorem chosen_devices_connected:
  assumes t: "map_ok t" "list_all entry_ok t" "list_all (\<lambda>(m, p). group p = []) t"
    and ij: "unat i < length t" "unat j < length t" "i \<noteq> j"
    and chosen: "choose_group i j name t = Some t'"
    and plain: "list_all plain_entry t" "xml_plain name"
    and libxml: "xml_ok (table_document t') \<Longrightarrow>
      libxml (document_text (table_document t')) = Some (selected_hosts (table_document t'))"
    and table: "Option.bind (parseFile libxml (dump t')) constructPoisonTable = Some table"
    and source: "\<exists>a \<in> set (addresses (snd (t ! unat j))). address a = src"
    and own_source: "\<And>k a. k < length t \<Longrightarrow> a \<in> set (addresses (snd (t ! k))) \<Longrightarrow> address a = src \<Longrightarrow> k = unat j"
    and packet: "getIPProtocol b = Some 1 \<and> getSrcIP b = Some src \<or> getIPProtocol b = Some 2 \<and> map_option ntop6 (getSrcIPv6 b) = Some src"
    and mac: "MACtoBin (fst (t ! unat i)) = Some bytes" "length own = 6" "take 6 b = own"
  shows "forward ntop6 table own b = Some (bytes @ own @ drop 12 b, [bytes @ own @ drop 12 b])"
proof -
  obtain ma mb p q g where
    ab: "t ! unat i = (ma, p)" "t ! unat j = (mb, q)" "ma \<noteq> mb" and g: "g \<noteq> []" "g = (if name = [] then ma @ ''-'' @ mb else name)"
      and ok: "map_ok t'"
    and look: "\<And>m. map_of t' m = (if m = ma then Some (p\<lparr>group := g\<rparr>) else if m = mb then Some (q\<lparr>group := g\<rparr>) else map_of t m)"
    by (rule chosen_table [OF t ij chosen], rule that, assumption+)
  have in_t: "(ma, p) \<in> set t" "(mb, q) \<in> set t" using nth_mem [OF ij(1)] nth_mem [OF ij(2)] by (simp_all only: ab(1,2))
  have old: "group r = []" "entry_ok (m, r)" if "map_of t m = Some r" for m r
    using t(2,3) map_of_SomeD [OF that] unfolding list_all_iff by (fast, fast)
  have plain_old: "plain_entry x" if "x \<in> set t" for x using plain(1) that by (simp add: list_all_iff)
  have "xml_plain g" using plain_old [OF in_t(1)] plain_old [OF in_t(2)] plain(2) by (simp add: g(2) plain_entry_def xml_plain_def)
  then have plain_new: "plain_entry (ma, p\<lparr>group := g\<rparr>)" "plain_entry (mb, q\<lparr>group := g\<rparr>)"
    using plain_old [OF in_t(1)] plain_old [OF in_t(2)] by (simp_all add: plain_entry_def)
  have "entry_ok (ma, p)" "entry_ok (mb, q)" using t(2) in_t unfolding list_all_iff by blast+
  then have new: "entry_ok (ma, p\<lparr>group := g\<rparr>)" "entry_ok (mb, q\<lparr>group := g\<rparr>)" using g by (simp_all add: entry_ok_def)
  have "entry_ok x \<and> plain_entry x" if "x \<in> set t'" for x
  proof -
    obtain m r where x: "x = (m, r)" by fastforce
    then have "map_of t' m = Some r" using that map_ok_entries [OF ok] by simp
    then show ?thesis using new plain_new old(2) [of m r] plain_old [OF map_of_SomeD [of t m r]] unfolding x look [of m] by (auto split: if_splits)
  qed
  then have "list_all entry_ok t'" "list_all plain_entry t'" by (simp_all add: list_all_iff)
  then have "parseFile libxml (dump t') = Some t'"
    by (rule written_table_read [OF ok, of libxml]) (rule libxml)
  then have poison: "constructPoisonTable t' = Some table" using table by simp
  show ?thesis
  proof (rule paired_forward [OF ok poison, of ma "p\<lparr>group := g\<rparr>" mb "q\<lparr>group := g\<rparr>" src])
    show "map_of t' ma = Some (p\<lparr>group := g\<rparr>)" "map_of t' mb = Some (q\<lparr>group := g\<rparr>)" using look ab(3) by simp_all
    show "m = ma \<or> m = mb" if "map_of t' m = Some r" "group r = group (p\<lparr>group := g\<rparr>)" for m r
      using that look [of m] old(1) [of m r] g(1) by (auto split: if_splits)
    show "\<exists>a \<in> set (addresses (q\<lparr>group := g\<rparr>)). address a = src" using source ab(2) by simp
    show "m = mb" if "map_of t' m = Some r" "a \<in> set (addresses r)" "address a = src" for m r a
    proof -
      have "\<exists>r'. (m, r') \<in> set t \<and> addresses r' = addresses r"
        using that(1) look [of m] in_t map_of_SomeD [of t m r] by (auto split: if_splits)
      then obtain r' k where k: "k < length t" "t ! k = (m, r')" "addresses r' = addresses r" by (auto simp: in_set_conv_nth)
      then have "k = unat j" using own_source [of k a] that by simp
      then show ?thesis using k ab(2) by simp
    qed
  qed (use ab g(1) packet mac in simp_all)
qed

theorem chosen_devices_connected_witness:
  "\<exists>t' table. choose_group 0 1 ''g''
      [(''0000.0000.0001'', \<lparr>group = [], addresses = [\<lparr>ipv4 = True, address = ''10.0.0.1''\<rparr>]\<rparr>),
       (''0000.0000.0002'', \<lparr>group = [], addresses = [\<lparr>ipv4 = True, address = ''10.0.0.2''\<rparr>]\<rparr>)] = Some t'
    \<and> constructPoisonTable t' = Some table
    \<and> forward (\<lambda>_. []) table [9, 9, 9, 9, 9, 9] ([9, 9, 9, 9, 9, 9, 0, 0, 0, 0, 0, 2, 8, 0] @ replicate 12 0 @ [10, 0, 0, 2, 10, 0, 0, 1])
      = Some ([0, 0, 0, 0, 0, 1, 9, 9, 9, 9, 9, 9, 8, 0] @ replicate 12 0 @ [10, 0, 0, 2, 10, 0, 0, 1],
              [[0, 0, 0, 0, 0, 1, 9, 9, 9, 9, 9, 9, 8, 0] @ replicate 12 0 @ [10, 0, 0, 2, 10, 0, 0, 1]])"
proof -
  let ?a = "''0000.0000.0001''" and ?b = "''0000.0000.0002''"
  let ?pa = "\<lparr>group = [], addresses = [\<lparr>ipv4 = True, address = ''10.0.0.1''\<rparr>]\<rparr>"
  let ?pb = "\<lparr>group = [], addresses = [\<lparr>ipv4 = True, address = ''10.0.0.2''\<rparr>]\<rparr>"
  let ?t = "[(?a, ?pa), (?b, ?pb)]" and ?t' = "[(?a, ?pa\<lparr>group := ''g''\<rparr>), (?b, ?pb\<lparr>group := ''g''\<rparr>)]"
  let ?p = "[9, 9, 9, 9, 9, 9, 0, 0, 0, 0, 0, 2, 8, 0] @ replicate 12 0 @ [10, 0, 0, 2, 10, 0, 0, 1] :: byte list"
  have bytes: "MACtoBin ?a = Some [0, 0, 0, 0, 0, 1]" "MACtoBin ?b = Some [0, 0, 0, 0, 0, 2]" by code_simp+
  have sorted: "map_ok ?t" by code_simp
  have entries: "list_all entry_ok ?t" by (simp add: entry_ok_def)
  have chosen: "choose_group 0 1 ''g'' ?t = Some ?t'" by code_simp
  obtain table where table: "constructPoisonTable ?t' = Some table"
    by (simp add: constructPoisonTable_def MACToInt_def bytes)
  have read: "map_ok ?t'" "list_all entry_ok ?t'" using sorted by (simp_all add: map_ok_def entry_ok_def)
  have plain: "list_all plain_entry ?t" "list_all plain_entry ?t'" "xml_plain ''g''" by (simp_all add: plain_entry_def xml_plain_def)
  define libxml where
    "libxml s = (if s = document_text (table_document ?t') then Some (selected_hosts (table_document ?t')) else None)" for s
  have reads: "libxml (document_text (table_document ?t')) = Some (selected_hosts (table_document ?t'))" by (simp add: libxml_def)
  have "parseFile libxml (dump ?t') = Some ?t'" by (rule written_table_read [OF read plain(2), of libxml]) (rule reads)
  then have parsed: "Option.bind (parseFile libxml (dump ?t')) constructPoisonTable = Some table" using table by simp
  have packet: "getIPProtocol ?p = Some 1" "getSrcIP ?p = Some ''10.0.0.2''" by code_simp+
  have "forward (\<lambda>_. []) table [9, 9, 9, 9, 9, 9] ?p = Some ([0, 0, 0, 0, 0, 1] @ [9, 9, 9, 9, 9, 9] @ drop 12 ?p,
      [[0, 0, 0, 0, 0, 1] @ [9, 9, 9, 9, 9, 9] @ drop 12 ?p])"
    by (rule chosen_devices_connected [OF sorted entries _ _ _ _ chosen plain(1,3) reads parsed, of "''10.0.0.2''"])
      (use packet bytes in \<open>auto simp: less_Suc_eq\<close>)
  then show ?thesis using chosen table by (intro exI [of _ ?t'] exI [of _ table]) simp
qed

end
